(* ===== verification/Prelude.thy ===== *)
theory Prelude
  imports Main "HOL-Library.Word" "HOL-Library.Signed_Division" "HOL-Library.While_Combinator"
begin

unbundle bit_operations_syntax

text \<open>
  Shared vocabulary of the development: the C integer types of the kernel as words, the
  result type of code that can fault, bounds-checked access to C arrays, the conversions
  between bytes and integers, and the lemmas about them that every component uses.

  A C object of type \<open>uintN_t\<close> or \<open>intN_t\<close> is an \<open>N word\<close>: arithmetic wraps (the
  kernel is compiled without optimisation, so signed overflow wraps as well), \<open>uint\<close> and
  \<open>unat\<close> are the unsigned readings and \<open>sint\<close> the signed one.  An array is a list with the
  length of its declaration; an access outside it is the value \<open>Inl OutOfBounds\<close>, never an
  unspecified HOL value.
\<close>

type_synonym u8 = "8 word"
type_synonym u16 = "16 word"
type_synonym u32 = "32 word"
type_synonym u64 = "64 word"
type_synonym i32 = "32 word"
type_synonym i16 = "16 word"
type_synonym i8 = "8 word"

text \<open>
  What a step of the kernel can do wrong: touch memory outside an object, follow a null
  pointer, use a value that was never written, raise the processor's divide error, or never return.
\<close>

datatype fault = OutOfBounds | NullPointer | Uninitialised | DivideError | Diverges

type_synonym 'a res = "fault + 'a"

fun bindR :: "'a res \<Rightarrow> ('a \<Rightarrow> 'b res) \<Rightarrow> 'b res" where
  "bindR (Inl e) f = Inl e"
| "bindR (Inr x) f = f x"

definition rd :: "'a list \<Rightarrow> int \<Rightarrow> 'a res" where
  "rd xs i = (if 0 \<le> i \<and> i < int (length xs) then Inr (xs ! nat i) else Inl OutOfBounds)"

definition wr :: "'a list \<Rightarrow> int \<Rightarrow> 'a \<Rightarrow> 'a list res" where
  "wr xs i x = (if 0 \<le> i \<and> i < int (length xs) then Inr (xs[nat i := x]) else Inl OutOfBounds)"

text \<open>A buffer obtained from the allocator: its address and its bytes.\<close>

type_synonym buf = "u64 \<times> u8 list"

definition be32 :: "u8 \<Rightarrow> u8 \<Rightarrow> u8 \<Rightarrow> u8 \<Rightarrow> u32" where
  "be32 a b c d = push_bit 24 (ucast a) OR push_bit 16 (ucast b) OR push_bit 8 (ucast c) OR ucast d"

definition bytes_be32 :: "u32 \<Rightarrow> u8 list" where
  "bytes_be32 w = [ucast (drop_bit 24 w), ucast (drop_bit 16 w), ucast (drop_bit 8 w), ucast w]"

definition le32 :: "u8 \<Rightarrow> u8 \<Rightarrow> u8 \<Rightarrow> u8 \<Rightarrow> u32" where
  "le32 a b c d = be32 d c b a"

definition bytes_le32 :: "u32 \<Rightarrow> u8 list" where
  "bytes_le32 w = [ucast w, ucast (drop_bit 8 w), ucast (drop_bit 16 w), ucast (drop_bit 24 w)]"

definition rd_le32 :: "u8 list \<Rightarrow> int \<Rightarrow> u32 res" where
  "rd_le32 bs i =
     bindR (rd bs i) (\<lambda>a. bindR (rd bs (i + 1)) (\<lambda>b.
     bindR (rd bs (i + 2)) (\<lambda>c. bindR (rd bs (i + 3)) (\<lambda>d. Inr (le32 a b c d)))))"

definition wr_le32 :: "u8 list \<Rightarrow> int \<Rightarrow> u32 \<Rightarrow> u8 list res" where
  "wr_le32 bs i w =
     bindR (wr bs i (ucast w)) (\<lambda>bs. bindR (wr bs (i + 1) (ucast (drop_bit 8 w))) (\<lambda>bs.
     bindR (wr bs (i + 2) (ucast (drop_bit 16 w))) (\<lambda>bs. wr bs (i + 3) (ucast (drop_bit 24 w)))))"

text \<open>
  The loop \<open>for (i = a; i < n; i++) if (P(xs[i])) break;\<close>: the first index from \<open>i\<close> below
  \<open>n\<close> whose entry satisfies \<open>P\<close>.  Every table scan of the kernel has this shape.
\<close>

function search :: "('a \<Rightarrow> bool) \<Rightarrow> 'a list \<Rightarrow> nat \<Rightarrow> nat \<Rightarrow> nat option res" where
  "search P xs i n =
     (if i < n then bindR (rd xs (int i)) (\<lambda>x. if P x then Inr (Some i) else search P xs (Suc i) n)
      else Inr None)"
  by pat_completeness auto
termination
  by (relation "measure (\<lambda>(P, xs, i, n). n - i)") auto

declare search.simps [simp del]

text \<open>
  The loop \<open>for (j = i; j < n - 1; j++) xs[j] = xs[j + 1];\<close>, which closes the gap left by a
  removed entry.
\<close>

function shift_down :: "'a list \<Rightarrow> nat \<Rightarrow> nat \<Rightarrow> 'a list res" where
  "shift_down xs j n =
     (if j + 1 < n then bindR (rd xs (int j + 1)) (\<lambda>x. bindR (wr xs (int j) x) (\<lambda>ys. shift_down ys (Suc j) n))
      else Inr xs)"
  by pat_completeness auto
termination
  by (relation "measure (\<lambda>(xs, j, n). n - j)") auto

declare shift_down.simps [simp del]

text \<open>The loop \<open>for (; i < n; i++) dest[i] = src[i];\<close>.\<close>

function copy_loop :: "'a list \<Rightarrow> 'a list \<Rightarrow> nat \<Rightarrow> nat \<Rightarrow> 'a list res" where
  "copy_loop dest src i n =
     (if i < n then bindR (rd src (int i)) (\<lambda>c. bindR (wr dest (int i) c) (\<lambda>dest. copy_loop dest src (Suc i) n))
      else Inr dest)"
  by pat_completeness auto
termination
  by (relation "measure (\<lambda>(dest, src, i, n). n - i)") auto

declare copy_loop.simps [simp del]

text \<open>
  The weakest precondition of a result: a fault must satisfy \<open>F\<close>, a value \<open>Q\<close>.  It turns
  a straight-line C function into a first-order condition, one rule per construct.
\<close>

definition wp :: "'a res \<Rightarrow> (fault \<Rightarrow> bool) \<Rightarrow> ('a \<Rightarrow> bool) \<Rightarrow> bool" where
  "wp m F Q = (case m of Inl e \<Rightarrow> F e | Inr x \<Rightarrow> Q x)"

named_theorems wps \<open>weakest preconditions of the constructs of C\<close>

named_theorems c_simps \<open>evaluation of C reads, writes and results\<close>

subsection \<open>Results\<close>

lemma bindR_Inr_iff: "bindR m f = Inr y \<longleftrightarrow> (\<exists>x. m = Inr x \<and> f x = Inr y)"
  by (cases m) auto

lemma bindR_Inl_iff: "bindR m f = Inl e \<longleftrightarrow> m = Inl e \<or> (\<exists>x. m = Inr x \<and> f x = Inl e)"
  by (cases m) auto

lemma bindR_assoc: "bindR (bindR m f) g = bindR m (\<lambda>x. bindR (f x) g)"
  by (cases m) auto

lemma bindR_cong [fundef_cong]:
  "m = m' \<Longrightarrow> (\<And>x. m' = Inr x \<Longrightarrow> f x = f' x) \<Longrightarrow> bindR m f = bindR m' f'"
  by (cases m') auto

subsection \<open>Arrays\<close>

lemma rd_ok [c_simps]: "0 \<le> i \<Longrightarrow> i < int (length xs) \<Longrightarrow> rd xs i = Inr (xs ! nat i)"
  by (simp add: rd_def)

lemma wr_ok [c_simps]: "0 \<le> i \<Longrightarrow> i < int (length xs) \<Longrightarrow> wr xs i x = Inr (xs[nat i := x])"
  by (simp add: wr_def)

lemma rd_nat: "i < length xs \<Longrightarrow> rd xs (int i) = Inr (xs ! i)"
  by (simp add: rd_ok)

lemma wr_nat: "i < length xs \<Longrightarrow> wr xs (int i) x = Inr (xs[i := x])"
  by (simp add: wr_ok)

lemma nth_update: "j < length xs \<Longrightarrow> xs[i := x] ! j = (if i = j then x else xs ! j)"
  by auto

lemma rd_Inr_iff: "rd xs i = Inr x \<longleftrightarrow> 0 \<le> i \<and> i < int (length xs) \<and> x = xs ! nat i"
  by (auto simp: rd_def)

lemma wr_Inr_iff: "wr xs i x = Inr ys \<longleftrightarrow> 0 \<le> i \<and> i < int (length xs) \<and> ys = xs[nat i := x]"
  by (auto simp: wr_def)

lemma wr_length: "wr xs i x = Inr ys \<Longrightarrow> length ys = length xs"
  by (auto simp: wr_def split: if_splits)

lemma rd_wr_same: "wr xs i x = Inr ys \<Longrightarrow> rd ys i = Inr x"
  by (auto simp: wr_Inr_iff rd_def)

lemma rd_wr_other: "wr xs i x = Inr ys \<Longrightarrow> i \<noteq> j \<Longrightarrow> rd ys j = rd xs j"
  by (auto simp: wr_Inr_iff rd_def nth_list_update)

lemmas res_iff = bindR_Inr_iff bindR_Inl_iff rd_Inr_iff wr_Inr_iff

subsection \<open>Weakest preconditions\<close>

lemma wp_Inr [wps]: "wp (Inr x) F Q = Q x"
  by (simp add: wp_def)

lemma wp_Inl [wps]: "wp (Inl e) F Q = F e"
  by (simp add: wp_def)

lemma wp_bindR [wps]: "wp (bindR m f) F Q = wp m F (\<lambda>x. wp (f x) F Q)"
  by (cases m) (simp_all add: wp_def)

lemma wp_if [wps]: "wp (if b then m else m') F Q = ((b \<longrightarrow> wp m F Q) \<and> (\<not> b \<longrightarrow> wp m' F Q))"
  by simp

lemma wp_rd [wps]:
  "wp (rd xs i) F Q = (if 0 \<le> i \<and> i < int (length xs) then Q (xs ! nat i) else F OutOfBounds)"
  by (simp add: wp_def rd_def)

lemma wp_wr [wps]:
  "wp (wr xs i x) F Q = (if 0 \<le> i \<and> i < int (length xs) then Q (xs[nat i := x]) else F OutOfBounds)"
  by (simp add: wp_def wr_def)

lemma wp_mono: "wp m F Q \<Longrightarrow> (\<And>e. F e \<Longrightarrow> F' e) \<Longrightarrow> (\<And>x. m = Inr x \<Longrightarrow> Q x \<Longrightarrow> Q' x) \<Longrightarrow> wp m F' Q'"
  by (cases m) (auto simp: wp_def)

lemma wpD: "wp m F Q \<Longrightarrow> m = Inr x \<Longrightarrow> Q x"
  by (simp add: wp_def)

lemma wp_total: "wp m (\<lambda>_. False) Q \<longleftrightarrow> (\<exists>x. m = Inr x \<and> Q x)"
  by (cases m) (auto simp: wp_def)

subsection \<open>Table scans\<close>

lemma search_total:
  "n \<le> length xs \<Longrightarrow> \<exists>r. search P xs i n = Inr r"
proof (induction P xs i n rule: search.induct)
  case (1 P xs i n)
  then show ?case
    by (cases "i < n") (auto simp: search.simps [of P xs i n] rd_ok)
qed

lemma search_Some:
  "search P xs i n = Inr (Some j) \<Longrightarrow>
   i \<le> j \<and> j < n \<and> j < length xs \<and> P (xs ! j) \<and> (\<forall>k. i \<le> k \<and> k < j \<longrightarrow> \<not> P (xs ! k))"
proof (induction P xs i n rule: search.induct)
  case (1 P xs i n)
  from "1.prems" have n: "i < n" and len: "i < length xs"
    by (auto simp: search.simps [of P xs i n] res_iff split: if_splits)
  show ?case
  proof (cases "P (xs ! i)")
    case True
    with "1.prems" n len show ?thesis
      by (auto simp: search.simps [of P xs i n] rd_ok)
  next
    case False
    with "1.prems" n len have "search P xs (Suc i) n = Inr (Some j)"
      by (simp add: search.simps [of P xs i n] rd_ok)
    with "1.IH" [of "xs ! i"] n len False
    have IH: "Suc i \<le> j \<and> j < n \<and> j < length xs \<and> P (xs ! j) \<and> (\<forall>k. Suc i \<le> k \<and> k < j \<longrightarrow> \<not> P (xs ! k))"
      by (simp add: rd_ok)
    have "\<not> P (xs ! k)" if "i \<le> k" "k < j" for k
      using that IH False by (cases "k = i") auto
    with IH show ?thesis by auto
  qed
qed

lemma search_None:
  "search P xs i n = Inr None \<Longrightarrow> i \<le> k \<Longrightarrow> k < n \<Longrightarrow> k < length xs \<and> \<not> P (xs ! k)"
proof (induction P xs i n rule: search.induct)
  case (1 P xs i n)
  then have n: "i < n" by simp
  with "1.prems" have len: "i < length xs"
    by (auto simp: search.simps [of P xs i n] res_iff)
  with "1.prems" n have P: "\<not> P (xs ! i)" and s: "search P xs (Suc i) n = Inr None"
    by (auto simp: search.simps [of P xs i n] rd_ok split: if_splits)
  show ?case
  proof (cases "k = i")
    case True with P len show ?thesis by simp
  next
    case False
    with "1.IH" [of "xs ! i"] n len P s "1.prems" show ?thesis by (simp add: rd_ok)
  qed
qed

lemma search_None_iff:
  assumes "n \<le> length xs"
  shows "search P xs 0 n = Inr None \<longleftrightarrow> (\<forall>x \<in> set (take n xs). \<not> P x)"
proof
  assume "search P xs 0 n = Inr None"
  with assms show "\<forall>x \<in> set (take n xs). \<not> P x"
    by (fastforce simp: in_set_conv_nth dest: search_None [of P xs 0 n])
next
  assume a: "\<forall>x \<in> set (take n xs). \<not> P x"
  obtain r where r: "search P xs 0 n = Inr r" using search_total [OF assms] by blast
  show "search P xs 0 n = Inr None"
  proof (cases r)
    case None with r show ?thesis by simp
  next
    case (Some j)
    with r have "j < n" "P (xs ! j)" by (auto dest: search_Some)
    moreover from \<open>j < n\<close> assms have "xs ! j \<in> set (take n xs)"
      by (metis length_take min_absorb2 nth_mem nth_take)
    ultimately show ?thesis using a by blast
  qed
qed

lemma search_found_iff:
  assumes "n \<le> length xs"
  shows "(\<exists>j. search P xs 0 n = Inr (Some j)) \<longleftrightarrow> (\<exists>x \<in> set (take n xs). P x)"
proof -
  obtain r where r: "search P xs 0 n = Inr r" using search_total [OF assms] by blast
  then show ?thesis using search_None_iff [OF assms, of P] by (cases r) auto
qed

lemma shift_down_eq:
  "j < n \<Longrightarrow> n \<le> length xs \<Longrightarrow>
   shift_down xs j n = Inr (take j xs @ take (n - 1 - j) (drop (Suc j) xs) @ drop (n - 1) xs)"
proof (induction xs j n rule: shift_down.induct)
  case (1 xs j n)
  show ?case
  proof (cases "j + 1 < n")
    case False
    with "1.prems" have "n = Suc j" by simp
    then show ?thesis by (simp add: shift_down.simps)
  next
    case True
    let ?ys = "xs[j := xs ! (j + 1)]"
    from True "1.prems" have step: "shift_down xs j n = shift_down ?ys (Suc j) n"
      by (simp add: shift_down.simps [of xs j n] rd_ok wr_ok nat_add_distrib)
    from True "1.prems" have "shift_down ?ys (Suc j) n
        = Inr (take (Suc j) ?ys @ take (n - 1 - Suc j) (drop (Suc (Suc j)) ?ys) @ drop (n - 1) ?ys)"
      by (intro "1.IH") (auto simp: rd_ok wr_ok nat_add_distrib)
    also have "take (Suc j) ?ys = take j xs @ [xs ! (j + 1)]"
      using "1.prems" by (simp add: take_Suc_conv_app_nth)
    also have "drop (Suc (Suc j)) ?ys = drop (Suc (Suc j)) xs"
      by simp
    also have "drop (n - 1) ?ys = drop (n - 1) xs"
      using True by simp
    finally have "shift_down xs j n
        = Inr (take j xs @ (xs ! (j + 1) # take (n - 1 - Suc j) (drop (Suc (Suc j)) xs)) @ drop (n - 1) xs)"
      using step by simp
    moreover have "drop (Suc j) xs = xs ! Suc j # drop (Suc (Suc j)) xs"
      using True "1.prems" by (intro Cons_nth_drop_Suc [symmetric]) simp
    moreover have "n - 1 - j = Suc (n - 1 - Suc j)" using True by simp
    ultimately show ?thesis by simp
  qed
qed

lemma remove1_first:
  "i < length ys \<Longrightarrow> ys ! i = x \<Longrightarrow> (\<forall>k < i. ys ! k \<noteq> x) \<Longrightarrow> remove1 x ys = take i ys @ drop (Suc i) ys"
proof (induction ys arbitrary: i)
  case (Cons y ys)
  show ?case
  proof (cases i)
    case (Suc m)
    with Cons.prems have "y \<noteq> x" and "m < length ys" "ys ! m = x" "\<forall>k < m. ys ! k \<noteq> x" by auto
    with Suc Cons.IH [of m] show ?thesis by simp
  qed (use Cons.prems in simp)
qed simp

lemma shift_down_take:
  assumes "j < n" "n \<le> length xs" "shift_down xs j n = Inr ys"
  shows "take (n - 1) ys = take j (take n xs) @ drop (Suc j) (take n xs)"
proof -
  from assms have "ys = take j xs @ take (n - 1 - j) (drop (Suc j) xs) @ drop (n - 1) xs"
    by (simp add: shift_down_eq)
  moreover have "take (n - 1 - j) (drop (Suc j) xs) = drop (Suc j) (take n xs)"
    using assms by (simp add: take_drop)
  moreover from assms have "n - 1 = j \<or> j < n - 1" by linarith
  ultimately show ?thesis
    using assms by (auto simp: min_def)
qed

lemma shift_down_length: "shift_down xs j n = Inr ys \<Longrightarrow> length ys = length xs"
proof (induction xs j n arbitrary: ys rule: shift_down.induct)
  case (1 xs j n)
  show ?case
  proof (cases "j + 1 < n")
    case True
    with "1.prems" obtain x zs where "rd xs (int j + 1) = Inr x" "wr xs (int j) x = Inr zs"
      "shift_down zs (Suc j) n = Inr ys"
      by (auto simp: shift_down.simps [of xs j n] bindR_Inr_iff)
    with "1.IH" [OF True] show ?thesis by (metis wr_length)
  next
    case False
    with "1.prems" show ?thesis by (simp add: shift_down.simps [of xs j n])
  qed
qed

lemma copy_loop_eq:
  "i \<le> n \<Longrightarrow> n \<le> length src \<Longrightarrow> n \<le> length dest \<Longrightarrow> take i dest = take i src \<Longrightarrow>
   copy_loop dest src i n = Inr (take n src @ drop n dest)"
proof (induction dest src i n rule: copy_loop.induct)
  case (1 dest src i n)
  show ?case
  proof (cases "i < n")
    case False
    with "1.prems" have "i = n" by simp
    moreover from this "1.prems" have "take n src = take n dest" by simp
    ultimately show ?thesis
      by (simp add: copy_loop.simps [of dest src n n])
  next
    case True
    let ?d = "dest[i := src ! i]"
    from True "1.prems" have "copy_loop dest src i n = copy_loop ?d src (Suc i) n"
      by (simp add: copy_loop.simps [of dest src i n] rd_ok wr_ok)
    also have "\<dots> = Inr (take n src @ drop n ?d)"
      using True "1.prems" by (intro "1.IH") (auto simp: rd_ok wr_ok take_Suc_conv_app_nth)
    finally show ?thesis using True by simp
  qed
qed

subsection \<open>Bytes and integers\<close>

lemma be32_bytes: "be32 (ucast (drop_bit 24 w)) (ucast (drop_bit 16 w)) (ucast (drop_bit 8 w)) (ucast w) = w"
proof (rule bit_word_eqI)
  fix n assume "n < LENGTH(32)"
  consider "n < 8" | "8 \<le> n \<and> n < 16" | "16 \<le> n \<and> n < 24" | "24 \<le> n" by linarith
  then show "bit (be32 (ucast (drop_bit 24 w)) (ucast (drop_bit 16 w)) (ucast (drop_bit 8 w)) (ucast w)) n = bit w n"
    by cases (use \<open>n < LENGTH(32)\<close> in \<open>auto simp: be32_def bit_simps\<close>)
qed

lemma le32_bytes: "le32 (ucast w) (ucast (drop_bit 8 w)) (ucast (drop_bit 16 w)) (ucast (drop_bit 24 w)) = w"
  by (simp add: le32_def be32_bytes)

lemma rd_le32_ok:
  "0 \<le> i \<Longrightarrow> i + 3 < int (length bs) \<Longrightarrow>
   rd_le32 bs i = Inr (le32 (bs ! nat i) (bs ! nat (i + 1)) (bs ! nat (i + 2)) (bs ! nat (i + 3)))"
  by (simp add: rd_le32_def c_simps)

lemma wr_le32_ok:
  "0 \<le> i \<Longrightarrow> i + 3 < int (length bs) \<Longrightarrow>
   wr_le32 bs i w = Inr (bs[nat i := ucast w, nat (i + 1) := ucast (drop_bit 8 w),
     nat (i + 2) := ucast (drop_bit 16 w), nat (i + 3) := ucast (drop_bit 24 w)])"
  by (simp add: wr_le32_def c_simps)

lemma wr_le32_length: "wr_le32 bs i w = Inr bs' \<Longrightarrow> length bs' = length bs"
  by (auto simp: wr_le32_def res_iff)

lemma wr_le32_Inr_iff:
  "(\<exists>bs'. wr_le32 bs i w = Inr bs') \<longleftrightarrow> 0 \<le> i \<and> i + 3 < int (length bs)"
  by (auto simp: wr_le32_def res_iff)

lemma rd_le32_Inr_iff:
  "(\<exists>w. rd_le32 bs i = Inr w) \<longleftrightarrow> 0 \<le> i \<and> i + 3 < int (length bs)"
  by (auto simp: rd_le32_def res_iff)

lemma rd_wr_le32: "wr_le32 bs i w = Inr bs' \<Longrightarrow> rd_le32 bs' i = Inr w"
proof -
  assume a: "wr_le32 bs i w = Inr bs'"
  then have b: "0 \<le> i \<and> i + 3 < int (length bs)"
    using wr_le32_Inr_iff by blast
  then have n: "nat (i + 1) = nat i + 1" "nat (i + 2) = nat i + 2" "nat (i + 3) = nat i + 3"
    by auto
  from a b have "bs' = bs[nat i := ucast w, nat (i + 1) := ucast (drop_bit 8 w),
     nat (i + 2) := ucast (drop_bit 16 w), nat (i + 3) := ucast (drop_bit 24 w)]"
    by (simp add: wr_le32_ok)
  moreover from b have "nat i < length bs" "nat i + 1 < length bs" "nat i + 2 < length bs" "nat i + 3 < length bs"
    by auto
  ultimately show ?thesis
    using b by (simp add: rd_le32_ok le32_bytes n)
qed

subsection \<open>Words\<close>

lemma unat_le_uint: "unat w \<le> n \<longleftrightarrow> uint w \<le> int n"
  by (metis of_nat_le_iff uint_nat)

lemma unat_less_uint: "unat w < n \<longleftrightarrow> uint w < int n"
  by (metis of_nat_less_iff uint_nat)

lemma le_unat_uint: "n \<le> unat w \<longleftrightarrow> int n \<le> uint w"
  by (metis of_nat_le_iff uint_nat)

lemma uint_plus_small:
  fixes w v :: "'a::len word"
  shows "uint w + uint v < 2 ^ LENGTH('a) \<Longrightarrow> uint (w + v) = uint w + uint v"
  by (simp add: uint_word_ariths)

lemma uint_minus_small:
  fixes w v :: "'a::len word"
  assumes "uint v \<le> uint w"
  shows "uint (w - v) = uint w - uint v"
proof -
  have "uint w - uint v < 2 ^ LENGTH('a)" using uint_lt2p [of w] uint_ge_0 [of v] by linarith
  with assms show ?thesis by (simp add: uint_word_ariths)
qed

lemma uint_inc: "uint (w :: 'a::len word) + 1 < 2 ^ LENGTH('a) \<Longrightarrow> uint (w + 1) = uint w + 1"
  by (simp add: uint_word_ariths)

lemma uint_dec: "1 \<le> uint w \<Longrightarrow> uint (w - 1) = uint w - 1"
  by (simp add: uint_minus_small)

lemma sint_nonneg_eq_uint:
  fixes w :: "'a::len word"
  assumes "0 \<le> sint w"
  shows "sint w = uint w"
proof -
  have "sint w < 2 ^ (LENGTH('a) - 1)" by (rule sint_lt)
  also have "(2::int) ^ (LENGTH('a) - 1) \<le> 2 ^ LENGTH('a)" by (rule power_increasing) auto
  finally have "take_bit LENGTH('a) (sint w) = sint w"
    using assms by (simp add: take_bit_int_eq_self)
  then show ?thesis by (simp add: uint_sint)
qed

lemma sint_small_eq_uint:
  fixes w :: "'a::len word"
  assumes "uint w < 2 ^ (LENGTH('a) - 1)"
  shows "sint w = uint w"
  using assms by (simp add: sint_uint signed_take_bit_int_eq_self_iff order_trans [OF _ uint_ge_0])

lemma nat_uint_minus: "0 \<le> k \<Longrightarrow> nat (uint w - k) = unat w - nat k"
  by (metis nat_diff_distrib' nat_uint_eq uint_ge_0)

lemma sint_of_int_small:
  "- 2147483648 \<le> k \<Longrightarrow> k < 2147483648 \<Longrightarrow> sint (word_of_int k :: i32) = k"
  unfolding sint_sbintrunc' by (simp add: signed_take_bit_int_eq_self)

lemma unat_of_nat_eq: "n < 2 ^ LENGTH('a) \<Longrightarrow> unat (of_nat n :: 'a::len word) = n"
  by (simp add: unat_of_nat take_bit_nat_eq_self)

lemma unat_ucast_up:
  fixes w :: "'a::len word"
  assumes "LENGTH('a) \<le> LENGTH('b::len)"
  shows "unat (ucast w :: 'b word) = unat w"
proof -
  have "unat w < 2 ^ LENGTH('a)" by (rule unsigned_less)
  also have "(2::nat) ^ LENGTH('a) \<le> 2 ^ LENGTH('b)" using assms by (intro power_increasing) auto
  finally show ?thesis by (simp add: unsigned_ucast_eq take_bit_nat_eq_self)
qed

end
