(* ===== verification/Nvm_State.thy ===== *)
theory Nvm_State
  imports Prelude
begin

text \<open>
  The process record of the NovariaOS virtual machine (\<open>include/core/kernel/nvm/nvm.h\<close>) and
  the access paths its code uses: the operand stack, the local variables, the bytecode and
  the heap.  \<open>wf_proc\<close> is the type invariant of a process slot.
\<close>

subsection \<open>Constants and the process record\<close>

definition MAX_PROCESSES :: nat where "MAX_PROCESSES = 32"
definition STACK_SIZE :: nat where "STACK_SIZE = 1024"
definition MAX_LOCALS :: nat where "MAX_LOCALS = 256"
definition MAX_CAPS :: nat where "MAX_CAPS = 8"
definition TIME_SLICE_MS :: nat where "TIME_SLICE_MS = 10"
definition HEAP_SIZE :: nat where "HEAP_SIZE = 131072"

text \<open>
  \<open>nvm_process_t\<close>.  The field \<open>size\<close> of the source is \<open>code_size\<close> here; the pointers
  \<open>bytecode\<close> and \<open>heap\<close> are the buffers they point to, with \<open>None\<close> for \<open>NULL\<close>.
\<close>

record nvm_process =
  bytecode :: "buf option"
  ip :: u32
  code_size :: u32
  stack :: "i32 list"
  sp :: u16
  locals :: "i32 list"
  active :: bool
  blocked :: bool
  exit_code :: i32
  pid :: u8
  fp :: i32
  wakeup_reason :: u8
  capabilities :: "u16 list"
  caps_count :: u8
  heap :: "buf option"
  heap_size :: u32

subsection \<open>Access paths\<close>

definition stack_get :: "nvm_process \<Rightarrow> int \<Rightarrow> i32 res" where
  "stack_get proc i = rd (stack proc) i"

definition stack_set :: "nvm_process \<Rightarrow> int \<Rightarrow> i32 \<Rightarrow> nvm_process res" where
  "stack_set proc i v = bindR (wr (stack proc) i v) (\<lambda>st. Inr (proc\<lparr>stack := st\<rparr>))"

text \<open>\<open>proc->stack[proc->sp++] = v\<close>\<close>

definition stack_push :: "nvm_process \<Rightarrow> i32 \<Rightarrow> nvm_process res" where
  "stack_push proc v =
     bindR (stack_set proc (uint (sp proc)) v) (\<lambda>proc. Inr (proc\<lparr>sp := sp proc + 1\<rparr>))"

text \<open>\<open>proc->stack[--proc->sp]\<close>\<close>

definition stack_pop :: "nvm_process \<Rightarrow> (i32 \<times> nvm_process) res" where
  "stack_pop proc = (let proc = proc\<lparr>sp := sp proc - 1\<rparr> in
     bindR (stack_get proc (uint (sp proc))) (\<lambda>v. Inr (v, proc)))"

text \<open>\<open>proc->bytecode[i]\<close>, and the big-endian 32-bit operand at \<open>proc->ip\<close>\<close>

definition code_get :: "nvm_process \<Rightarrow> u32 \<Rightarrow> u8 res" where
  "code_get proc i = (case bytecode proc of None \<Rightarrow> Inl NullPointer | Some (a, bs) \<Rightarrow> rd bs (uint i))"

definition code_get32 :: "nvm_process \<Rightarrow> u32 res" where
  "code_get32 proc =
     bindR (code_get proc (ip proc)) (\<lambda>a. bindR (code_get proc (ip proc + 1)) (\<lambda>b.
     bindR (code_get proc (ip proc + 2)) (\<lambda>c. bindR (code_get proc (ip proc + 3)) (\<lambda>d.
     Inr (be32 a b c d)))))"

text \<open>\<open>proc->heap[i]\<close> and \<open>*(int32_t*)(proc->heap + off)\<close>\<close>

definition heap_get :: "nvm_process \<Rightarrow> int \<Rightarrow> u8 res" where
  "heap_get proc i = (case heap proc of None \<Rightarrow> Inl NullPointer | Some (a, bs) \<Rightarrow> rd bs i)"

definition heap_set :: "nvm_process \<Rightarrow> int \<Rightarrow> u8 \<Rightarrow> nvm_process res" where
  "heap_set proc i v = (case heap proc of None \<Rightarrow> Inl NullPointer
     | Some (a, bs) \<Rightarrow> bindR (wr bs i v) (\<lambda>bs. Inr (proc\<lparr>heap := Some (a, bs)\<rparr>)))"

definition heap_get32 :: "nvm_process \<Rightarrow> int \<Rightarrow> i32 res" where
  "heap_get32 proc i = (case heap proc of None \<Rightarrow> Inl NullPointer | Some (a, bs) \<Rightarrow> rd_le32 bs i)"

definition heap_set32 :: "nvm_process \<Rightarrow> int \<Rightarrow> i32 \<Rightarrow> nvm_process res" where
  "heap_set32 proc i v = (case heap proc of None \<Rightarrow> Inl NullPointer
     | Some (a, bs) \<Rightarrow> bindR (wr_le32 bs i v) (\<lambda>bs. Inr (proc\<lparr>heap := Some (a, bs)\<rparr>)))"

subsection \<open>Invariant and abstraction\<close>

definition buf_len :: "buf option \<Rightarrow> nat" where
  "buf_len b = (case b of None \<Rightarrow> 0 | Some (a, bs) \<Rightarrow> length bs)"

text \<open>
  The type invariant: the arrays have their declared lengths, the stack pointer and the
  capability count stay within them, the instruction pointer stays within the code, and
  the buffers are as long as the recorded sizes (the code is small enough that adding an
  operand's width to an instruction pointer does not wrap).  A running process may be without a
  heap: process creation leaves such a slot behind when the allocator is out of memory.
\<close>

definition wf_proc :: "nvm_process \<Rightarrow> bool" where
  "wf_proc p \<longleftrightarrow>
     length (stack p) = STACK_SIZE \<and> uint (sp p) \<le> int STACK_SIZE \<and>
     length (locals p) = MAX_LOCALS \<and>
     length (capabilities p) = MAX_CAPS \<and> uint (caps_count p) \<le> int MAX_CAPS \<and>
     uint (ip p) \<le> uint (code_size p) \<and> uint (code_size p) + 4 < 2 ^ 32 \<and>
     (active p \<longrightarrow> bytecode p \<noteq> None \<and> uint (code_size p) \<le> int (buf_len (bytecode p))) \<and>
     (active p \<and> heap p \<noteq> None \<longrightarrow> uint (heap_size p) = int HEAP_SIZE \<and> buf_len (heap p) = HEAP_SIZE)"

text \<open>The operand stack as a list, top first, and the capabilities a process holds.\<close>

definition abs_stack :: "nvm_process \<Rightarrow> i32 list" where
  "abs_stack p = rev (take (unat (sp p)) (stack p))"

definition capset :: "nvm_process \<Rightarrow> u16 set" where
  "capset p = set (take (unat (caps_count p)) (capabilities p))"

lemmas nvm_consts = MAX_PROCESSES_def STACK_SIZE_def MAX_LOCALS_def MAX_CAPS_def
  TIME_SLICE_MS_def HEAP_SIZE_def

subsection \<open>Concrete processes\<close>

text \<open>A slot of the zero-initialised process table, and a running process with given code and stack.\<close>

definition zero_process :: nvm_process where
  "zero_process = \<lparr>bytecode = None, ip = 0, code_size = 0, stack = replicate STACK_SIZE 0, sp = 0,
     locals = replicate MAX_LOCALS 0, active = False, blocked = False, exit_code = 0, pid = 0, fp = 0,
     wakeup_reason = 0, capabilities = replicate MAX_CAPS 0, caps_count = 0, heap = None, heap_size = 0\<rparr>"

definition demo_process :: "u8 list \<Rightarrow> i32 list \<Rightarrow> nvm_process" where
  "demo_process code vals = zero_process\<lparr>bytecode := Some (0x1000, code), ip := 4,
     code_size := of_nat (length code), stack := vals @ replicate (STACK_SIZE - length vals) 0,
     sp := of_nat (length vals), active := True, fp := - 1,
     heap := Some (0x2000, replicate HEAP_SIZE 0), heap_size := of_nat HEAP_SIZE\<rparr>"

lemma wf_zero_process: "wf_proc zero_process"
  by (simp add: wf_proc_def zero_process_def nvm_consts)

lemma wf_demo_process:
  assumes "4 \<le> length code" "length code + 4 < 2 ^ 32" "length vals \<le> STACK_SIZE"
  shows "wf_proc (demo_process code vals)" and "active (demo_process code vals)"
proof -
  have "uint (of_nat (length code) :: u32) = int (length code)"
    using assms(2) by (simp add: uint_nat unat_of_nat take_bit_nat_eq_self)
  moreover have "uint (of_nat (length vals) :: u16) = int (length vals)"
    using assms(3) by (simp add: uint_nat unat_of_nat take_bit_nat_eq_self nvm_consts)
  ultimately show "wf_proc (demo_process code vals)"
    using assms by (simp add: wf_proc_def demo_process_def zero_process_def buf_len_def nvm_consts)
qed (simp add: demo_process_def)

lemma demo_process_sel [simp]:
  "stack (demo_process code vals) = vals @ replicate (STACK_SIZE - length vals) 0"
  "sp (demo_process code vals) = of_nat (length vals)"
  "ip (demo_process code vals) = 4"
  "fp (demo_process code vals) = - 1"
  "code_size (demo_process code vals) = of_nat (length code)"
  "bytecode (demo_process code vals) = Some (0x1000, code)"
  "caps_count (demo_process code vals) = 0"
  "capset (demo_process code vals) = {}"
  "heap (demo_process code vals) = Some (0x2000, replicate HEAP_SIZE 0)"
  by (simp_all add: demo_process_def zero_process_def capset_def)

end
