(* ===== verification/Caps.thy ===== *)
theory Caps
  imports Nvm_State
begin

text \<open>
  The capability lists of processes: \<open>core/kernel/nvm/caps.c\<close> and
  \<open>include/core/kernel/nvm/caps.h\<close>.  A process argument is a pointer, so it is an option
  with \<open>None\<close> for \<open>NULL\<close>.  A capability is compared as C compares a \<open>uint16_t\<close> entry with
  an \<open>int16_t\<close> argument, that is after promoting both to \<open>int\<close>.
\<close>

subsection \<open>Capability numbers\<close>

definition CAPS_NONE :: u16 where "CAPS_NONE = 0x0000"
definition CAP_FS_READ :: u16 where "CAP_FS_READ = 0x0001"
definition CAP_FS_WRITE :: u16 where "CAP_FS_WRITE = 0x0002"
definition CAP_FS_CREATE :: u16 where "CAP_FS_CREATE = 0x0003"
definition CAP_FS_DELETE :: u16 where "CAP_FS_DELETE = 0x0004"
definition CAP_MEM_MGMT :: u16 where "CAP_MEM_MGMT = 0x0005"
definition CAP_DRV_ACCESS :: u16 where "CAP_DRV_ACCESS = 0x0006"
definition CAP_PROC_MGMT :: u16 where "CAP_PROC_MGMT = 0x0007"
definition CAP_CAPS_MGMT :: u16 where "CAP_CAPS_MGMT = 0x0008"
definition CAP_ALL :: u16 where "CAP_ALL = 0xFFFF"

lemmas cap_consts = CAPS_NONE_def CAP_FS_READ_def CAP_FS_WRITE_def CAP_FS_CREATE_def
  CAP_FS_DELETE_def CAP_MEM_MGMT_def CAP_DRV_ACCESS_def CAP_PROC_MGMT_def CAP_CAPS_MGMT_def
  CAP_ALL_def

subsection \<open>Operations\<close>

definition caps_has_capability :: "nvm_process option \<Rightarrow> i16 \<Rightarrow> bool res" where
  "caps_has_capability proc cap = (case proc of None \<Rightarrow> Inr False
   | Some p \<Rightarrow>
       bindR (search (\<lambda>c. uint c = uint CAP_ALL) (capabilities p) 0 (unat (caps_count p))) (\<lambda>r.
       if r \<noteq> None then Inr True
       else bindR (search (\<lambda>c. uint c = sint cap) (capabilities p) 0 (unat (caps_count p))) (\<lambda>r.
       if r \<noteq> None then Inr True else Inr False)))"

definition caps_add_capability :: "nvm_process option \<Rightarrow> i16 \<Rightarrow> (bool \<times> nvm_process option) res" where
  "caps_add_capability proc cap = (case proc of None \<Rightarrow> Inr (False, None)
   | Some p \<Rightarrow>
       if MAX_CAPS \<le> unat (caps_count p) then Inr (False, Some p)
       else bindR (caps_has_capability (Some p) cap) (\<lambda>has.
         if has then Inr (True, Some p)
         else bindR (wr (capabilities p) (uint (caps_count p)) cap) (\<lambda>cs.
           Inr (True, Some (p\<lparr>capabilities := cs, caps_count := caps_count p + 1\<rparr>)))))"

definition caps_remove_capability :: "nvm_process option \<Rightarrow> i16 \<Rightarrow> (bool \<times> nvm_process option) res" where
  "caps_remove_capability proc cap = (case proc of None \<Rightarrow> Inr (False, None)
   | Some p \<Rightarrow>
       bindR (search (\<lambda>c. uint c = sint cap) (capabilities p) 0 (unat (caps_count p))) (\<lambda>r.
       case r of None \<Rightarrow> Inr (False, Some p)
       | Some i \<Rightarrow> bindR (shift_down (capabilities p) i (unat (caps_count p))) (\<lambda>cs.
           Inr (True, Some (p\<lparr>capabilities := cs, caps_count := caps_count p - 1\<rparr>)))))"

definition caps_clear_all :: "nvm_process option \<Rightarrow> nvm_process option" where
  "caps_clear_all proc = map_option (\<lambda>p. p\<lparr>caps_count := 0\<rparr>) proc"

definition caps_copy :: "nvm_process option \<Rightarrow> nvm_process option \<Rightarrow> (bool \<times> nvm_process option) res" where
  "caps_copy dest src = (case (dest, src) of
     (Some d, Some s) \<Rightarrow>
       bindR (copy_loop (capabilities d) (capabilities s) 0 (unat (caps_count s))) (\<lambda>cs.
       Inr (True, Some (d\<lparr>caps_count := caps_count s, capabilities := cs\<rparr>)))
   | _ \<Rightarrow> Inr (False, dest))"

subsection \<open>The set of held capabilities\<close>

lemma caps_bound: "wf_proc p \<Longrightarrow> unat (caps_count p) \<le> length (capabilities p)"
  by (simp add: wf_proc_def unat_le_uint nvm_consts)

lemma uint_eq_iff: "uint a = uint b \<longleftrightarrow> a = b"
  by (simp add: word_uint_eq_iff)

lemma uint_eq_sint:
  fixes c cap :: "16 word"
  shows "uint c = sint cap \<longleftrightarrow> c = cap \<and> 0 \<le> sint cap"
proof
  assume a: "uint c = sint cap"
  have "word_of_int (uint c) = (word_of_int (sint cap) :: 16 word)" using a by simp
  then have "c = cap" by simp
  moreover from a have "0 \<le> sint cap" using uint_ge_0 [of c] by simp
  ultimately show "c = cap \<and> 0 \<le> sint cap" ..
next
  assume a: "c = cap \<and> 0 \<le> sint cap"
  then show "uint c = sint cap"
    by (simp add: sint_nonneg_eq_uint)
qed

lemma caps_has_iff:
  assumes "wf_proc p"
  shows "caps_has_capability (Some p) cap
    = Inr (CAP_ALL \<in> capset p \<or> (0 \<le> sint cap \<and> cap \<in> capset p))"
proof -
  note b = caps_bound [OF assms]
  obtain r1 where r1: "search (\<lambda>c. uint c = uint CAP_ALL) (capabilities p) 0 (unat (caps_count p)) = Inr r1"
    using search_total [OF b] by blast
  obtain r2 where r2: "search (\<lambda>c. uint c = sint cap) (capabilities p) 0 (unat (caps_count p)) = Inr r2"
    using search_total [OF b] by blast
  have "r1 \<noteq> None \<longleftrightarrow> CAP_ALL \<in> capset p"
    using r1 search_None_iff [OF b, of "\<lambda>c. uint c = uint CAP_ALL"]
    by (auto simp: capset_def uint_eq_iff)
  moreover have "r2 \<noteq> None \<longleftrightarrow> 0 \<le> sint cap \<and> cap \<in> capset p"
    using r2 search_None_iff [OF b, of "\<lambda>c. uint c = sint cap"]
    by (auto simp: capset_def uint_eq_sint)
  ultimately show ?thesis
    using r1 r2 by (auto simp: caps_has_capability_def)
qed

lemma caps_add_cases:
  assumes "wf_proc p"
  shows "caps_add_capability (Some p) cap =
    (if MAX_CAPS \<le> unat (caps_count p) then Inr (False, Some p)
     else if CAP_ALL \<in> capset p \<or> (0 \<le> sint cap \<and> cap \<in> capset p) then Inr (True, Some p)
     else Inr (True, Some (p\<lparr>capabilities := (capabilities p)[unat (caps_count p) := cap],
                              caps_count := caps_count p + 1\<rparr>)))"
proof -
  from assms have len: "length (capabilities p) = MAX_CAPS" by (simp add: wf_proc_def)
  show ?thesis
  proof (cases "MAX_CAPS \<le> unat (caps_count p)")
    case False
    then have "uint (caps_count p) < int (length (capabilities p))"
      using len by (simp flip: unat_less_uint)
    with False show ?thesis
      by (simp add: caps_add_capability_def caps_has_iff [OF assms] wr_ok)
  qed (simp add: caps_add_capability_def)
qed

lemma capset_push:
  assumes "wf_proc p" "unat (caps_count p) < MAX_CAPS"
    and p'_def: "p' = p\<lparr>capabilities := (capabilities p)[unat (caps_count p) := cap],
                     caps_count := caps_count p + 1\<rparr>"
  shows "wf_proc p'" and "capset p' = insert cap (capset p)"
proof -
  from assms(2) have u: "uint (caps_count p) < 8" by (simp add: unat_less_uint nvm_consts)
  then have i: "uint (caps_count p + 1) = uint (caps_count p) + 1" by (simp add: uint_inc)
  then have n: "unat (caps_count p + 1) = Suc (unat (caps_count p))"
    by (metis Suc_as_int nat_uint_eq uint_nat)
  from assms(1) u i show "wf_proc p'"
    by (simp add: wf_proc_def p'_def nvm_consts)
  have "unat (caps_count p) < length (capabilities p)"
    using assms by (simp add: wf_proc_def)
  then show "capset p' = insert cap (capset p)"
    by (simp add: capset_def p'_def n take_Suc_conv_app_nth)
qed

lemma caps_remove_cases:
  assumes "wf_proc p"
  shows "caps_remove_capability (Some p) cap = Inr (False, Some p) \<and> \<not> (0 \<le> sint cap \<and> cap \<in> capset p) \<or>
    (\<exists>cs. caps_remove_capability (Some p) cap
        = Inr (True, Some (p\<lparr>capabilities := cs, caps_count := caps_count p - 1\<rparr>)) \<and>
      0 \<le> sint cap \<and> cap \<in> capset p \<and> length cs = MAX_CAPS \<and>
      take (unat (caps_count p - 1)) cs = remove1 cap (take (unat (caps_count p)) (capabilities p)))"
proof -
  let ?xs = "capabilities p" and ?n = "unat (caps_count p)"
  note b = caps_bound [OF assms]
  obtain r where r: "search (\<lambda>c. uint c = sint cap) ?xs 0 ?n = Inr r"
    using search_total [OF b] by blast
  show ?thesis
  proof (cases r)
    case None
    with r search_None_iff [OF b, of "\<lambda>c. uint c = sint cap"] show ?thesis
      by (auto simp: caps_remove_capability_def capset_def uint_eq_sint)
  next
    case (Some i)
    with r have i: "i < ?n" "?xs ! i = cap" "0 \<le> sint cap" "\<forall>k<i. ?xs ! k \<noteq> cap"
      by (auto dest!: search_Some simp: uint_eq_sint)
    obtain cs where cs: "shift_down ?xs i ?n = Inr cs"
      using shift_down_eq [OF i(1) b] by blast
    have "take (?n - 1) cs = take i (take ?n ?xs) @ drop (Suc i) (take ?n ?xs)"
      by (rule shift_down_take [OF i(1) b cs])
    also have "\<dots> = remove1 cap (take ?n ?xs)"
      using i b by (intro remove1_first [symmetric]) auto
    finally have "take (?n - 1) cs = remove1 cap (take ?n ?xs)" .
    moreover have "unat (caps_count p - 1) = ?n - 1"
      using i(1) by (intro unat_minus_one) auto
    moreover have "length cs = MAX_CAPS"
      using shift_down_length [OF cs] assms by (simp add: wf_proc_def)
    moreover have "cap \<in> capset p"
      using i(1,2) b by (auto simp: capset_def in_set_conv_nth)
    ultimately show ?thesis
      using r Some cs i(3) by (auto simp: caps_remove_capability_def)
  qed
qed

lemma caps_copy_eq:
  assumes "wf_proc d" "wf_proc s"
  shows "caps_copy (Some d) (Some s) = Inr (True, Some (d\<lparr>caps_count := caps_count s,
     capabilities := take (unat (caps_count s)) (capabilities s)
       @ drop (unat (caps_count s)) (capabilities d)\<rparr>))"
  using caps_bound [OF assms(2)] assms
  by (simp add: caps_copy_def copy_loop_eq wf_proc_def)

definition cap_list :: "nvm_process \<Rightarrow> u16 list" where
  "cap_list p = take (unat (caps_count p)) (capabilities p)"

lemma caps_removed_wf:
  assumes "wf_proc p" "length cs = MAX_CAPS" "cap \<in> capset p"
  shows "wf_proc (p\<lparr>capabilities := cs, caps_count := caps_count p - 1\<rparr>)"
proof -
  have "caps_count p \<noteq> 0" using assms(3) by (auto simp: capset_def)
  then have "1 \<le> uint (caps_count p)"
    by (metis add_0 linorder_not_le uint_ge_0 unsigned_0 verit_la_disequality word_uint_eqI zless_add1_eq)
  with assms(1,2) show ?thesis by (simp add: wf_proc_def uint_dec)
qed

lemma CAP_ALL_negative: "\<not> 0 \<le> sint CAP_ALL"
  by (simp add: CAP_ALL_def)

text \<open>C13. The capability list behaves as a set with a wildcard: a query answers whether the process holds
  the capability or \<open>CAP_ALL\<close>; adding never loses one and adds at most the given one, refused only
  when the list is full; removing takes out one entry, reports whether it was there, and never
  removes \<open>CAP_ALL\<close>.\<close>

theorem capability_list:
  assumes "wf_proc p"
  shows "caps_has_capability (Some p) cap = Inr (CAP_ALL \<in> capset p \<or> (0 \<le> sint cap \<and> cap \<in> capset p)) \<and>
    (\<exists>b q. caps_add_capability (Some p) cap = Inr (b, Some q) \<and> wf_proc q \<and>
      capset p \<subseteq> capset q \<and> capset q \<subseteq> insert cap (capset p) \<and>
      (if b then CAP_ALL \<in> capset q \<or> cap \<in> capset q else q = p \<and> unat (caps_count p) = MAX_CAPS)) \<and>
    (\<exists>b q. caps_remove_capability (Some p) cap = Inr (b, Some q) \<and> wf_proc q \<and>
      (b \<longleftrightarrow> 0 \<le> sint cap \<and> cap \<in> capset p) \<and>
      cap_list q = (if b then remove1 cap (cap_list p) else cap_list p) \<and>
      (CAP_ALL \<in> capset p \<longrightarrow> CAP_ALL \<in> capset q))"
proof (intro conjI)
  have full: "unat (caps_count p) = MAX_CAPS" if "MAX_CAPS \<le> unat (caps_count p)"
    using that caps_bound [OF assms] assms by (simp add: wf_proc_def)
  show "caps_has_capability (Some p) cap = Inr (CAP_ALL \<in> capset p \<or> (0 \<le> sint cap \<and> cap \<in> capset p))"
    by (rule caps_has_iff [OF assms])
  show "\<exists>b q. caps_add_capability (Some p) cap = Inr (b, Some q) \<and> wf_proc q \<and>
      capset p \<subseteq> capset q \<and> capset q \<subseteq> insert cap (capset p) \<and>
      (if b then CAP_ALL \<in> capset q \<or> cap \<in> capset q else q = p \<and> unat (caps_count p) = MAX_CAPS)"
    using assms full capset_push [OF assms _ refl] by (auto simp: caps_add_cases [OF assms] not_le)
  show "\<exists>b q. caps_remove_capability (Some p) cap = Inr (b, Some q) \<and> wf_proc q \<and>
      (b \<longleftrightarrow> 0 \<le> sint cap \<and> cap \<in> capset p) \<and>
      cap_list q = (if b then remove1 cap (cap_list p) else cap_list p) \<and>
      (CAP_ALL \<in> capset p \<longrightarrow> CAP_ALL \<in> capset q)"
    using caps_remove_cases [OF assms, of cap]
  proof (elim disjE exE conjE)
    fix cs
    assume cs: "caps_remove_capability (Some p) cap = Inr (True, Some (p\<lparr>capabilities := cs, caps_count := caps_count p - 1\<rparr>))"
      "0 \<le> sint cap" "cap \<in> capset p" "length cs = MAX_CAPS"
      "take (unat (caps_count p - 1)) cs = remove1 cap (take (unat (caps_count p)) (capabilities p))"
    have "cap \<noteq> CAP_ALL" using cs(2) CAP_ALL_negative by auto
    then have "CAP_ALL \<in> set (remove1 cap (cap_list p))" if "CAP_ALL \<in> capset p"
      using that by (simp add: in_set_remove1 cap_list_def capset_def)
    with cs caps_removed_wf [OF assms cs(4,3)] show ?thesis
      by (auto simp: cap_list_def capset_def)
  qed (use assms in auto)
qed

theorem capability_list_witness:
  "caps_has_capability (Some (demo_process [0x4E, 0x56, 0x4D, 0x30] [])) CAP_FS_READ = Inr False"
proof -
  let ?p = "demo_process [0x4E, 0x56, 0x4D, 0x30] []"
  have "wf_proc ?p" by (rule wf_demo_process; simp add: nvm_consts)
  from capability_list [OF this, of CAP_FS_READ] show ?thesis by simp
qed

end
