(* ===== verification/Nvm_Instructions.thy ===== *)
theory Nvm_Instructions
  imports Caps
begin

text \<open>
  The instruction handlers of the virtual machine that work on one process only
  (\<open>core/kernel/nvm/instructions/*.c\<close>): each takes the process with its instruction pointer
  just after the opcode and returns the handler's boolean and the updated process, or the
  fault the C code would run into.  \<open>LOAD_ABS\<close> and \<open>STORE_ABS\<close> take the machine memory they
  access as a further argument.
\<close>

type_synonym handler = "nvm_process \<Rightarrow> (bool \<times> nvm_process) res"
type_synonym memory = "u64 \<rightharpoonup> u8"

text \<open>The common error exit: \<open>exit_code = -1; active = false; return false\<close>.\<close>

definition kill :: "nvm_process \<Rightarrow> bool \<times> nvm_process" where
  "kill proc = (False, proc\<lparr>exit_code := - 1, active := False\<rparr>)"

subsection \<open>arithmetic.c and bitwise.c\<close>

text \<open>
  The shape the binary operations share: with at least two operands, replace the two
  topmost entries \<open>second\<close> and \<open>top\<close> by the result, else the process dies.
\<close>

definition binary_op :: "(i32 \<Rightarrow> i32 \<Rightarrow> i32) \<Rightarrow> handler" where
  "binary_op f proc =
     (if 2 \<le> uint (sp proc) then
        bindR (stack_get proc (uint (sp proc) - 1)) (\<lambda>top.
        bindR (stack_get proc (uint (sp proc) - 2)) (\<lambda>second.
        bindR (stack_set proc (uint (sp proc) - 2) (f second top)) (\<lambda>proc.
        Inr (True, proc\<lparr>sp := sp proc - 1\<rparr>))))
      else Inr (kill proc))"

definition handle_add :: handler where
  "handle_add = binary_op (\<lambda>second top. top + second)"

definition handle_sub :: handler where
  "handle_sub = binary_op (\<lambda>second top. second - top)"

definition handle_mul :: handler where
  "handle_mul = binary_op (\<lambda>second top. second * top)"

text \<open>
  Signed 32-bit division truncates towards zero; the quotient of the least integer by
  minus one does not fit and the \<open>idiv\<close> instruction raises the divide error.
\<close>

definition INT32_MIN :: i32 where "INT32_MIN = 0x80000000"

definition sdiv32 :: "i32 \<Rightarrow> i32 \<Rightarrow> i32 res" where
  "sdiv32 a b = (if b = 0 \<or> (a = INT32_MIN \<and> b = - 1) then Inl DivideError
                 else Inr (word_of_int (sint a sdiv sint b)))"

definition smod32 :: "i32 \<Rightarrow> i32 \<Rightarrow> i32 res" where
  "smod32 a b = (if b = 0 \<or> (a = INT32_MIN \<and> b = - 1) then Inl DivideError
                 else Inr (word_of_int (sint a smod sint b)))"

definition handle_div :: handler where
  "handle_div proc =
     (if 2 \<le> uint (sp proc) then
        bindR (stack_get proc (uint (sp proc) - 1)) (\<lambda>top.
        bindR (stack_get proc (uint (sp proc) - 2)) (\<lambda>second.
        if top \<noteq> 0 then
          bindR (sdiv32 second top) (\<lambda>result.
          bindR (stack_set proc (uint (sp proc) - 2) result) (\<lambda>proc.
          Inr (True, proc\<lparr>sp := sp proc - 1\<rparr>)))
        else Inr (kill proc)))
      else Inr (kill proc))"

definition handle_mod :: handler where
  "handle_mod proc =
     (if 2 \<le> uint (sp proc) then
        bindR (stack_get proc (uint (sp proc) - 1)) (\<lambda>top.
        bindR (stack_get proc (uint (sp proc) - 2)) (\<lambda>second.
        if top = 0 then Inr (kill proc)
        else
          bindR (smod32 second top) (\<lambda>result.
          bindR (stack_set proc (uint (sp proc) - 2) result) (\<lambda>proc.
          Inr (True, proc\<lparr>sp := sp proc - 1\<rparr>)))))
      else Inr (kill proc))"

definition handle_cmp :: handler where
  "handle_cmp = binary_op (\<lambda>second top. if sint second < sint top then - 1 else if top = second then 0 else 1)"

definition handle_eq :: handler where
  "handle_eq = binary_op (\<lambda>second top. if top = second then 1 else 0)"

definition handle_neq :: handler where
  "handle_neq = binary_op (\<lambda>second top. if top \<noteq> second then 1 else 0)"

definition handle_gt :: handler where
  "handle_gt = binary_op (\<lambda>second top. if sint second > sint top then 1 else 0)"

definition handle_lt :: handler where
  "handle_lt = binary_op (\<lambda>second top. if sint second < sint top then 1 else 0)"

definition handle_and :: handler where
  "handle_and = binary_op (\<lambda>second top. second AND top)"

definition handle_or :: handler where
  "handle_or = binary_op (\<lambda>second top. second OR top)"

definition handle_xor :: handler where
  "handle_xor = binary_op (\<lambda>second top. second XOR top)"

definition handle_not :: handler where
  "handle_not proc =
     (if 1 \<le> uint (sp proc) then
        bindR (stack_get proc (uint (sp proc) - 1)) (\<lambda>top.
        bindR (stack_set proc (uint (sp proc) - 1) (NOT top)) (\<lambda>proc.
        Inr (True, proc)))
      else Inr (kill proc))"

definition handle_shl :: handler where
  "handle_shl = binary_op (\<lambda>second top.
     let shift = unat (top AND 31) in if shift \<noteq> 0 then push_bit shift second else second)"

definition handle_shr :: handler where
  "handle_shr = binary_op (\<lambda>second top.
     let shift = unat (top AND 31) in if shift \<noteq> 0 then drop_bit shift second else second)"

definition handle_sar :: handler where
  "handle_sar = binary_op (\<lambda>second top.
     let shift = unat (top AND 31) in if shift \<noteq> 0 then signed_drop_bit shift second else second)"

subsection \<open>stack.c\<close>

definition handle_halt :: handler where
  "handle_halt proc = Inr (False, proc\<lparr>active := False, exit_code := 0\<rparr>)"

definition handle_nop :: handler where
  "handle_nop proc = Inr (True, proc)"

definition handle_push :: handler where
  "handle_push proc =
     (if ip proc + 3 < code_size proc then
        bindR (code_get32 proc) (\<lambda>val.
        let proc = proc\<lparr>ip := ip proc + 4\<rparr> in
        if uint (sp proc) < int STACK_SIZE then
          bindR (stack_push proc val) (\<lambda>proc. Inr (True, proc))
        else Inr (kill proc))
      else Inr (kill proc))"

definition handle_pop :: handler where
  "handle_pop proc = (if 0 < uint (sp proc) then Inr (True, proc\<lparr>sp := sp proc - 1\<rparr>) else Inr (kill proc))"

definition handle_dup :: handler where
  "handle_dup proc =
     (if sp proc = 0 then Inr (kill proc)
      else if int STACK_SIZE \<le> uint (sp proc) then Inr (kill proc)
      else
        bindR (stack_get proc (uint (sp proc) - 1)) (\<lambda>top.
        bindR (stack_set proc (uint (sp proc)) top) (\<lambda>proc.
        Inr (True, proc\<lparr>sp := sp proc + 1\<rparr>))))"

definition handle_swap :: handler where
  "handle_swap proc =
     (if 2 \<le> uint (sp proc) then
        bindR (stack_get proc (uint (sp proc) - 1)) (\<lambda>top.
        bindR (stack_get proc (uint (sp proc) - 2)) (\<lambda>second.
        bindR (stack_set proc (uint (sp proc) - 2) top) (\<lambda>proc.
        bindR (stack_set proc (uint (sp proc) - 1) second) (\<lambda>proc.
        Inr (True, proc)))))
      else Inr (kill proc))"

text \<open>The loop of \<open>ENTER\<close> that pushes \<open>n\<close> zeroes.\<close>

fun push_zeroes :: "nat \<Rightarrow> nvm_process \<Rightarrow> nvm_process res" where
  "push_zeroes 0 proc = Inr proc"
| "push_zeroes (Suc n) proc = bindR (stack_push proc 0) (push_zeroes n)"

definition handle_enter :: handler where
  "handle_enter proc =
     (if ip proc < code_size proc then
        bindR (code_get proc (ip proc)) (\<lambda>locs.
        let proc = proc\<lparr>ip := ip proc + 1\<rparr> in
        if uint (sp proc) + 1 + uint locs \<le> int STACK_SIZE then
          bindR (stack_push proc (fp proc)) (\<lambda>proc.
          let proc = proc\<lparr>fp := word_of_int (uint (sp proc) - 1)\<rparr> in
          bindR (push_zeroes (unat locs) proc) (\<lambda>proc. Inr (True, proc)))
        else Inr (kill proc))
      else Inr (kill proc))"

definition handle_leave :: handler where
  "handle_leave proc =
     (if sint (fp proc) < 0 \<or> int STACK_SIZE \<le> sint (fp proc) then Inr (kill proc)
      else if uint (sp proc) < sint (fp proc) + 1 then Inr (kill proc)
      else
        let proc = proc\<lparr>sp := word_of_int (sint (fp proc) + 1)\<rparr> in
        bindR (stack_get proc (sint (fp proc))) (\<lambda>saved_fp.
        let proc = proc\<lparr>sp := word_of_int (sint (fp proc))\<rparr> in
        Inr (True, proc\<lparr>fp := saved_fp\<rparr>)))"

subsection \<open>flowcontrol.c\<close>

definition handle_jmp :: handler where
  "handle_jmp proc =
     (if ip proc + 3 < code_size proc then
        bindR (code_get32 proc) (\<lambda>addr.
        let proc = proc\<lparr>ip := ip proc + 4\<rparr> in
        if 4 \<le> addr \<and> addr < code_size proc then Inr (True, proc\<lparr>ip := addr\<rparr>)
        else Inr (kill proc))
      else Inr (True, proc))"

text \<open>
  \<open>JZ\<close> and \<open>JNZ\<close> differ in the test on the popped value only.
\<close>

definition jump_if :: "(i32 \<Rightarrow> bool) \<Rightarrow> handler" where
  "jump_if taken proc =
     (if 0 < uint (sp proc) then
        bindR (stack_pop proc) (\<lambda>(val, proc).
        if ip proc + 3 < code_size proc then
          bindR (code_get32 proc) (\<lambda>addr.
          let proc = proc\<lparr>ip := ip proc + 4\<rparr> in
          if taken val then
            (if 4 \<le> addr \<and> addr < code_size proc then Inr (True, proc\<lparr>ip := addr\<rparr>)
             else Inr (kill proc))
          else Inr (True, proc))
        else Inr (kill proc))
      else Inr (kill proc))"

definition handle_jz :: handler where
  "handle_jz = jump_if (\<lambda>val. val = 0)"

definition handle_jnz :: handler where
  "handle_jnz = jump_if (\<lambda>val. val \<noteq> 0)"

definition handle_call :: handler where
  "handle_call proc =
     (if ip proc + 3 < code_size proc then
        bindR (code_get32 proc) (\<lambda>addr.
        let proc = proc\<lparr>ip := ip proc + 4\<rparr> in
        if uint (sp proc) < int STACK_SIZE - 1 then
          bindR (stack_push proc (ip proc)) (\<lambda>proc.
          if 4 \<le> addr \<and> addr < code_size proc then Inr (True, proc\<lparr>ip := addr\<rparr>)
          else Inr (kill proc))
        else Inr (kill proc))
      else Inr (kill proc))"

definition handle_ret :: handler where
  "handle_ret proc =
     (if 0 < uint (sp proc) then
        bindR (stack_pop proc) (\<lambda>(return_addr, proc).
        if 4 \<le> return_addr \<and> return_addr < code_size proc then Inr (True, proc\<lparr>ip := return_addr\<rparr>)
        else Inr (kill proc))
      else Inr (kill proc))"

definition handle_load_arg :: handler where
  "handle_load_arg proc =
     (if ip proc < code_size proc then
        bindR (code_get proc (ip proc)) (\<lambda>off.
        let proc = proc\<lparr>ip := ip proc + 1\<rparr> in
        if sint (fp proc) \<le> 0 then Inr (kill proc)
        else
          let idx = sint ((fp proc - 2) - ucast off) in
          if 0 \<le> idx \<and> idx < uint (sp proc) \<and> uint (sp proc) < int STACK_SIZE then
            bindR (stack_get proc idx) (\<lambda>v.
            bindR (stack_push proc v) (\<lambda>proc. Inr (True, proc)))
          else Inr (True, proc))
      else Inr (True, proc))"

definition handle_store_arg :: handler where
  "handle_store_arg proc =
     (if ip proc < code_size proc then
        bindR (code_get proc (ip proc)) (\<lambda>off.
        let proc = proc\<lparr>ip := ip proc + 1\<rparr> in
        if sint (fp proc) \<le> 0 then Inr (kill proc)
        else
          let idx = sint ((fp proc - 2) - ucast off) in
          if 0 \<le> idx \<and> idx < int STACK_SIZE \<and> 0 < uint (sp proc) then
            bindR (stack_pop proc) (\<lambda>(val, proc).
            bindR (stack_set proc idx val) (\<lambda>proc. Inr (True, proc)))
          else Inr (True, proc))
      else Inr (True, proc))"

subsection \<open>memory.c\<close>

definition handle_load :: handler where
  "handle_load proc =
     (if ip proc < code_size proc then
        bindR (code_get proc (ip proc)) (\<lambda>var_index.
        let proc = proc\<lparr>ip := ip proc + 1\<rparr> in
        if uint var_index < int MAX_LOCALS then
          bindR (rd (locals proc) (uint var_index)) (\<lambda>val.
          if uint (sp proc) < int STACK_SIZE then
            bindR (stack_push proc val) (\<lambda>proc. Inr (True, proc))
          else Inr (True, proc))
        else Inr (True, proc))
      else Inr (True, proc))"

definition handle_store :: handler where
  "handle_store proc =
     (if ip proc < code_size proc then
        bindR (code_get proc (ip proc)) (\<lambda>var_index.
        let proc = proc\<lparr>ip := ip proc + 1\<rparr> in
        if uint var_index < int MAX_LOCALS \<and> 0 < uint (sp proc) then
          bindR (stack_pop proc) (\<lambda>(val, proc).
          bindR (wr (locals proc) (uint var_index) val) (\<lambda>ls. Inr (True, proc\<lparr>locals := ls\<rparr>)))
        else Inr (True, proc))
      else Inr (True, proc))"

definition handle_load_rel :: handler where
  "handle_load_rel proc =
     (if ip proc < code_size proc then
        bindR (code_get proc (ip proc)) (\<lambda>off.
        let proc = proc\<lparr>ip := ip proc + 1\<rparr> in
        if sint (fp proc) < 0 then Inr (kill proc)
        else
          let idx = sint (fp proc + 1 + ucast off) in
          if 0 \<le> idx \<and> idx < uint (sp proc) \<and> uint (sp proc) < int STACK_SIZE then
            bindR (stack_get proc idx) (\<lambda>v.
            bindR (stack_push proc v) (\<lambda>proc. Inr (True, proc)))
          else Inr (kill proc))
      else Inr (True, proc))"

definition handle_store_rel :: handler where
  "handle_store_rel proc =
     (if ip proc < code_size proc then
        bindR (code_get proc (ip proc)) (\<lambda>off.
        let proc = proc\<lparr>ip := ip proc + 1\<rparr> in
        if sint (fp proc) < 0 then Inr (kill proc)
        else
          let idx = sint (fp proc + 1 + ucast off) in
          if 0 \<le> idx \<and> idx < int STACK_SIZE \<and> 0 < uint (sp proc) then
            bindR (stack_pop proc) (\<lambda>(val, proc).
            bindR (stack_set proc idx val) (\<lambda>proc. Inr (True, proc)))
          else Inr (True, proc))
      else Inr (True, proc))"

text \<open>
  Absolute accesses go to the machine's memory.  A stack entry becomes an address by sign
  extension to 64 bits; 32-bit and 16-bit accesses are little-endian.  The code accepts every
  address above one megabyte, and so also those of the process table, of the process heaps and of
  the kernel itself; what such an access reads or destroys is not described here.  \<open>memory\<close> is
  the part of the address space that holds none of this data, and an access outside it is a fault.
\<close>

definition abs_window :: "u64 \<Rightarrow> bool" where
  "abs_window addr \<longleftrightarrow> (0x100000 \<le> addr \<and> addr < 0xFFFFFFFF) \<or> (0xB8000 \<le> addr \<and> addr \<le> 0xB8FA0)"

definition mem_get :: "memory \<Rightarrow> u64 \<Rightarrow> u8 res" where
  "mem_get m a = (case m a of None \<Rightarrow> Inl OutOfBounds | Some v \<Rightarrow> Inr v)"

definition mem_set :: "memory \<Rightarrow> u64 \<Rightarrow> u8 \<Rightarrow> memory res" where
  "mem_set m a v = (case m a of None \<Rightarrow> Inl OutOfBounds | Some _ \<Rightarrow> Inr (m(a \<mapsto> v)))"

definition mem_get32 :: "memory \<Rightarrow> u64 \<Rightarrow> i32 res" where
  "mem_get32 m a =
     bindR (mem_get m a) (\<lambda>b0. bindR (mem_get m (a + 1)) (\<lambda>b1.
     bindR (mem_get m (a + 2)) (\<lambda>b2. bindR (mem_get m (a + 3)) (\<lambda>b3. Inr (le32 b0 b1 b2 b3)))))"

definition mem_set16 :: "memory \<Rightarrow> u64 \<Rightarrow> u16 \<Rightarrow> memory res" where
  "mem_set16 m a v = bindR (mem_set m a (ucast v)) (\<lambda>m. mem_set m (a + 1) (ucast (drop_bit 8 v)))"

definition mem_set32 :: "memory \<Rightarrow> u64 \<Rightarrow> i32 \<Rightarrow> memory res" where
  "mem_set32 m a v =
     bindR (mem_set m a (ucast v)) (\<lambda>m. bindR (mem_set m (a + 1) (ucast (drop_bit 8 v))) (\<lambda>m.
     bindR (mem_set m (a + 2) (ucast (drop_bit 16 v))) (\<lambda>m. mem_set m (a + 3) (ucast (drop_bit 24 v)))))"

definition handle_load_abs :: "nvm_process \<times> memory \<Rightarrow> (bool \<times> nvm_process \<times> memory) res" where
  "handle_load_abs = (\<lambda>(proc, m).
     bindR (caps_has_capability (Some proc) CAP_DRV_ACCESS) (\<lambda>has.
     if \<not> has then Inr (False, snd (kill proc), m)
     else if 0 < uint (sp proc) then
       bindR (stack_get proc (uint (sp proc) - 1)) (\<lambda>v.
       let addr = scast v in
       if abs_window addr then
         bindR (mem_get32 m addr) (\<lambda>val.
         bindR (stack_set proc (uint (sp proc) - 1) val) (\<lambda>proc. Inr (True, proc, m)))
       else Inr (True, proc, m))
     else Inr (True, proc, m)))"

definition handle_store_abs :: "nvm_process \<times> memory \<Rightarrow> (bool \<times> nvm_process \<times> memory) res" where
  "handle_store_abs = (\<lambda>(proc, m).
     bindR (caps_has_capability (Some proc) CAP_DRV_ACCESS) (\<lambda>has.
     if \<not> has then Inr (False, snd (kill proc), m)
     else if 2 \<le> uint (sp proc) then
       bindR (stack_get proc (uint (sp proc) - 2)) (\<lambda>a.
       bindR (stack_get proc (uint (sp proc) - 1)) (\<lambda>val.
       let addr = scast a in
       if abs_window addr then
         bindR (if 0xB8000 \<le> addr \<and> addr \<le> 0xB8FA0 then mem_set16 m addr (ucast val)
                else mem_set32 m addr val) (\<lambda>m.
         Inr (True, proc\<lparr>sp := sp proc - 2\<rparr>, m))
       else Inr (True, proc, m)))
     else Inr (True, proc, m)))"

definition handle_load_heap :: handler where
  "handle_load_heap proc =
     (if uint (sp proc) < 1 then Inr (kill proc)
      else
        bindR (stack_pop proc) (\<lambda>(offset, proc).
        if sint offset < 0 \<or> sint (heap_size proc) \<le> sint (offset + 3) then Inr (kill proc)
        else
          bindR (heap_get32 proc (sint offset)) (\<lambda>val.
          if int STACK_SIZE \<le> uint (sp proc) then Inr (kill proc)
          else bindR (stack_push proc val) (\<lambda>proc. Inr (True, proc)))))"

definition handle_store_heap :: handler where
  "handle_store_heap proc =
     (if uint (sp proc) < 2 then Inr (kill proc)
      else
        bindR (stack_pop proc) (\<lambda>(val, proc).
        bindR (stack_pop proc) (\<lambda>(offset, proc).
        if sint offset < 0 \<or> sint (heap_size proc) \<le> sint (offset + 3) then Inr (kill proc)
        else bindR (heap_set32 proc (sint offset) val) (\<lambda>proc. Inr (True, proc)))))"

subsection \<open>system.c\<close>

definition handle_break :: handler where
  "handle_break proc = Inr (True, proc)"

subsection \<open>The handler contract\<close>

text \<open>
  What an instruction leaves alone: the code, the identity, the capabilities and the wait
  state of its process, and the place and size of its heap.
\<close>

definition same_frame :: "nvm_process \<Rightarrow> nvm_process \<Rightarrow> bool" where
  "same_frame p p' \<longleftrightarrow> bytecode p' = bytecode p \<and> code_size p' = code_size p \<and> pid p' = pid p \<and>
     capabilities p' = capabilities p \<and> caps_count p' = caps_count p \<and> heap_size p' = heap_size p \<and>
     blocked p' = blocked p \<and> wakeup_reason p' = wakeup_reason p \<and>
     map_option fst (heap p') = map_option fst (heap p)"

definition handler_post :: "nvm_process \<Rightarrow> bool \<times> nvm_process \<Rightarrow> bool" where
  "handler_post p r \<longleftrightarrow> wf_proc (snd r) \<and> active (snd r) = fst r \<and> same_frame p (snd r)"

text \<open>The topmost and the second entry of the operand stack.\<close>

definition top_entry :: "nvm_process \<Rightarrow> i32" where
  "top_entry p = stack p ! nat (uint (sp p) - 1)"

definition second_entry :: "nvm_process \<Rightarrow> i32" where
  "second_entry p = stack p ! nat (uint (sp p) - 2)"

text \<open>
  The states in which \<open>DIV\<close> and \<open>MOD\<close> do not trap, and those in which the bounds test of
  the heap accesses does not wrap around.
\<close>

definition div_ok :: "nvm_process \<Rightarrow> bool" where
  "div_ok p \<longleftrightarrow> \<not> (2 \<le> uint (sp p) \<and> second_entry p = INT32_MIN \<and> top_entry p = - 1)"

definition load_heap_ok :: "nvm_process \<Rightarrow> bool" where
  "load_heap_ok p \<longleftrightarrow> (1 \<le> uint (sp p) \<longrightarrow> sint (top_entry p) < 2 ^ 31 - 3)"

definition store_heap_ok :: "nvm_process \<Rightarrow> bool" where
  "store_heap_ok p \<longleftrightarrow> (2 \<le> uint (sp p) \<longrightarrow> sint (second_entry p) < 2 ^ 31 - 3)"

text \<open>
  The states in which the absolute accesses stay within \<open>memory\<close>.
\<close>

definition load_abs_ok :: "memory \<Rightarrow> nvm_process \<Rightarrow> bool" where
  "load_abs_ok m p \<longleftrightarrow> (let a = scast (top_entry p) in
     (CAP_ALL \<in> capset p \<or> CAP_DRV_ACCESS \<in> capset p) \<and> 0 < uint (sp p) \<and> abs_window a \<longrightarrow>
     {a, a + 1, a + 2, a + 3} \<subseteq> dom m)"

definition store_abs_ok :: "memory \<Rightarrow> nvm_process \<Rightarrow> bool" where
  "store_abs_ok m p \<longleftrightarrow> (let a = scast (second_entry p) in
     (CAP_ALL \<in> capset p \<or> CAP_DRV_ACCESS \<in> capset p) \<and> 2 \<le> uint (sp p) \<and> abs_window a \<longrightarrow>
     (if 0xB8000 \<le> a \<and> a \<le> 0xB8FA0 then {a, a + 1} else {a, a + 1, a + 2, a + 3}) \<subseteq> dom m)"

text \<open>
  The contract every handler keeps: on a well-formed running process it either faults in a
  state excluded by \<open>ok\<close>, or returns a well-formed process that is running exactly if the
  handler returned \<open>true\<close> and whose frame is unchanged.
\<close>

locale nvm_handler =
  fixes h :: handler and ok :: "nvm_process \<Rightarrow> bool"
  assumes contract: "wf_proc p \<Longrightarrow> active p \<Longrightarrow> wp (h p) (\<lambda>_. \<not> ok p) (handler_post p)"
begin

lemma safe: "wf_proc p \<Longrightarrow> active p \<Longrightarrow> ok p \<Longrightarrow> \<exists>b p'. h p = Inr (b, p')"
  using contract [of p] by (cases "h p") (auto simp: wp_def)

lemma post: "wf_proc p \<Longrightarrow> active p \<Longrightarrow> h p = Inr r \<Longrightarrow> handler_post p r"
  by (rule wpD [OF contract])

lemma keeps_wf: "wf_proc p \<Longrightarrow> active p \<Longrightarrow> h p = Inr (b, p') \<Longrightarrow> wf_proc p'"
  using post [of p "(b, p')"] by (simp add: handler_post_def)

lemma keeps_caps: "wf_proc p \<Longrightarrow> active p \<Longrightarrow> h p = Inr (b, p') \<Longrightarrow> capset p' = capset p"
  using post [of p "(b, p')"] by (simp add: handler_post_def same_frame_def capset_def)

end

subsection \<open>Weakest preconditions of the access paths\<close>

lemma wp_stack_get [wps]: "wp (stack_get p i) F Q = wp (rd (stack p) i) F Q"
  by (simp add: stack_get_def)

lemma wp_stack_set [wps]: "wp (stack_set p i v) F Q = wp (wr (stack p) i v) F (\<lambda>st. Q (p\<lparr>stack := st\<rparr>))"
  by (simp add: stack_set_def wps)

lemma wp_stack_push [wps]:
  "wp (stack_push p v) F Q = wp (stack_set p (uint (sp p)) v) F (\<lambda>p. Q (p\<lparr>sp := sp p + 1\<rparr>))"
  by (simp add: stack_push_def wps)

lemma wp_stack_pop [wps]:
  "wp (stack_pop p) F Q = wp (rd (stack p) (uint (sp p - 1))) F (\<lambda>v. Q (v, p\<lparr>sp := sp p - 1\<rparr>))"
  by (simp add: stack_pop_def wps Let_def)

lemma wf_ip_add:
  assumes "wf_proc p"
  shows "uint (ip p + 1) = uint (ip p) + 1" "uint (ip p + 2) = uint (ip p) + 2"
    "uint (ip p + 3) = uint (ip p) + 3" "uint (ip p + 4) = uint (ip p) + 4"
  using assms by (auto simp: wf_proc_def intro!: uint_plus_small [THEN trans])

lemma code_get_byte:
  assumes "wf_proc p" "active p" "uint i < uint (code_size p)"
  shows "\<exists>b. code_get p i = Inr b"
  using assms by (auto simp: code_get_def wf_proc_def buf_len_def rd_def)

lemma code_get32_ok:
  assumes "wf_proc p" "active p" "ip p + 3 < code_size p"
  shows "\<exists>w. code_get32 p = Inr w"
proof -
  from assms(3) have "uint (ip p) + 3 < uint (code_size p)"
    by (simp add: word_less_def wf_ip_add [OF assms(1)])
  then have "\<exists>b. code_get p (ip p) = Inr b" "\<exists>b. code_get p (ip p + 1) = Inr b"
    "\<exists>b. code_get p (ip p + 2) = Inr b" "\<exists>b. code_get p (ip p + 3) = Inr b"
    by (auto intro!: code_get_byte assms simp: wf_ip_add [OF assms(1)])
  then show ?thesis by (auto simp: code_get32_def)
qed

lemma wf_sp: "wf_proc p \<Longrightarrow> uint (sp p) \<le> 1024" "wf_proc p \<Longrightarrow> length (stack p) = 1024"
  "wf_proc p \<Longrightarrow> length (locals p) = 256"
  by (simp_all add: wf_proc_def nvm_consts)

lemma wf_upd:
  "wf_proc p \<Longrightarrow> uint s \<le> 1024 \<Longrightarrow> wf_proc (p\<lparr>sp := s\<rparr>)"
  "wf_proc p \<Longrightarrow> length st = 1024 \<Longrightarrow> wf_proc (p\<lparr>stack := st\<rparr>)"
  "wf_proc p \<Longrightarrow> uint i \<le> uint (code_size p) \<Longrightarrow> wf_proc (p\<lparr>ip := i\<rparr>)"
  "wf_proc p \<Longrightarrow> length ls = 256 \<Longrightarrow> wf_proc (p\<lparr>locals := ls\<rparr>)"
  "wf_proc p \<Longrightarrow> wf_proc (p\<lparr>active := False\<rparr>)"
  "wf_proc p \<Longrightarrow> wf_proc (p\<lparr>exit_code := e\<rparr>)"
  "wf_proc p \<Longrightarrow> wf_proc (p\<lparr>fp := f\<rparr>)"
  "wf_proc p \<Longrightarrow> length hs = buf_len (heap p) \<Longrightarrow> heap p \<noteq> None \<Longrightarrow> wf_proc (p\<lparr>heap := Some (a, hs)\<rparr>)"
  by (auto simp: wf_proc_def nvm_consts buf_len_def)

lemma wp_code_get32 :
  assumes "wf_proc p" "active p" "ip p + 3 < code_size p" "\<And>w. Q w"
  shows "wp (code_get32 p) F Q"
  using code_get32_ok [OF assms(1-3)] assms(4) by (auto simp: wp_def)

lemma code_get_cases:
  assumes "wf_proc p" "active p" "ip p < code_size p"
  obtains b where "code_get p (ip p) = Inr b"
  using code_get_byte [OF assms(1,2), of "ip p"] assms(3) by (auto simp: word_less_def)

lemma wp_fetch:
  assumes "wf_proc p" "active p" "ip p < code_size p" "\<And>b. Q b"
  shows "wp (code_get p (ip p)) F Q"
  using code_get_cases [OF assms(1-3)] assms(4) by (metis wp_Inr)

lemma next_ip:
  "wf_proc p \<Longrightarrow> ip p + 3 < code_size p \<Longrightarrow> uint (ip p + 4) \<le> uint (code_size p)"
  "wf_proc p \<Longrightarrow> ip p < code_size p \<Longrightarrow> uint (ip p + 1) \<le> uint (code_size p)"
  "a < code_size p \<Longrightarrow> uint a \<le> uint (code_size p)"
  using wf_ip_add [of p] by (simp_all add: word_less_def)

lemma sp_arith:
  "uint (s::u16) < 1024 \<Longrightarrow> uint (s + 1) = uint s + 1"
  "0 < uint s \<Longrightarrow> uint (s - 1) = uint s - 1"
  "2 \<le> uint s \<Longrightarrow> uint (s - 1) = uint s - 1"
  "1 \<le> uint s \<Longrightarrow> uint (s - 1) = uint s - 1"
  "\<not> uint s < 1 \<Longrightarrow> uint (s - 1) = uint s - 1"
  "\<not> uint s < 2 \<Longrightarrow> uint (s - 1) = uint s - 1"
  "\<not> uint s < 2 \<Longrightarrow> uint (s - 1 - 1) = uint s - 2"
  "2 \<le> uint s \<Longrightarrow> uint (s - 2) = uint s - 2"
  by (simp_all add: uint_inc uint_dec uint_minus_small)

lemmas post_defs = handler_post_def kill_def same_frame_def

lemma uint_ucast_8_16 [simp]: "uint (ucast (w :: u8) :: u16) = uint w"
  by (rule uint_up_ucast) (simp add: is_up)

lemma wp_sdiv32 [wps]: "wp (sdiv32 a b) F Q =
  (if b = 0 \<or> (a = INT32_MIN \<and> b = - 1) then F DivideError else Q (word_of_int (sint a sdiv sint b)))"
  by (auto simp: sdiv32_def wp_def)

lemma wp_smod32 [wps]: "wp (smod32 a b) F Q =
  (if b = 0 \<or> (a = INT32_MIN \<and> b = - 1) then F DivideError else Q (word_of_int (sint a smod sint b)))"
  by (auto simp: smod32_def wp_def)

lemma sint_plus3: "0 \<le> sint (x :: i32) \<Longrightarrow> sint x < 2 ^ 31 - 3 \<Longrightarrow> sint (x + 3) = sint x + 3"
proof -
  assume a: "0 \<le> sint x" "sint x < 2 ^ 31 - 3"
  then have u: "uint x = sint x" using sint_nonneg_eq_uint [of x] by simp
  with a have v: "uint (x + 3) = uint x + 3" by (simp add: uint_plus_small)
  have "sint (x + 3) = uint (x + 3)" by (rule sint_small_eq_uint) (use a u v in simp)
  with u v show "sint (x + 3) = sint x + 3" by simp
qed

lemma wf_heap:
  assumes "wf_proc p" "active p" "heap p \<noteq> None"
  obtains a hs where "heap p = Some (a, hs)" "length hs = HEAP_SIZE" "sint (heap_size p) = int HEAP_SIZE"
proof -
  from assms obtain a hs where "heap p = Some (a, hs)" "length hs = HEAP_SIZE"
    by (auto simp: wf_proc_def buf_len_def)
  moreover from assms have "uint (heap_size p) = int HEAP_SIZE" by (simp add: wf_proc_def)
  then have "sint (heap_size p) = int HEAP_SIZE" by (simp add: sint_small_eq_uint nvm_consts)
  ultimately show ?thesis using that by blast
qed

lemma wp_heap_get32:
  assumes "wf_proc p" "active p" "\<And>w. Q w" "\<not> (0 \<le> i \<and> i + 3 < sint (heap_size p)) \<Longrightarrow> F OutOfBounds"
    "heap p = None \<Longrightarrow> F NullPointer"
  shows "wp (heap_get32 (p\<lparr>sp := s\<rparr>) i) F Q"
proof (cases "heap p")
  case None
  with assms(5) show ?thesis by (simp add: heap_get32_def wps)
next
  case (Some h)
  then obtain a hs where "heap p = Some (a, hs)" "length hs = HEAP_SIZE" "sint (heap_size p) = int HEAP_SIZE"
    using wf_heap [OF assms(1,2)] by blast
  with assms(3,4) show ?thesis by (auto simp: heap_get32_def rd_le32_def wps)
qed

lemma wp_heap_set32:
  assumes "wf_proc p" "active p" "uint s \<le> 1024"
    "\<not> (0 \<le> i \<and> i + 3 < sint (heap_size p)) \<Longrightarrow> F OutOfBounds" "heap p = None \<Longrightarrow> F NullPointer"
  shows "wp (heap_set32 (p\<lparr>sp := s\<rparr>) i v) F (\<lambda>p'. handler_post p (True, p'))"
proof (cases "heap p")
  case None
  with assms(5) show ?thesis by (simp add: heap_set32_def wps)
next
  case (Some h)
  then obtain a hs where "heap p = Some (a, hs)" "length hs = HEAP_SIZE" "sint (heap_size p) = int HEAP_SIZE"
    using wf_heap [OF assms(1,2)] by blast
  with assms show ?thesis
    by (auto simp: heap_set32_def wr_le32_def wps handler_post_def same_frame_def buf_len_def intro!: wf_upd)
qed

lemma push_zeroes_eq:
  "wf_proc p \<Longrightarrow> uint (sp p) + int n \<le> 1024 \<Longrightarrow>
   push_zeroes n p = Inr (p\<lparr>stack := take (unat (sp p)) (stack p) @ replicate n 0 @ drop (unat (sp p) + n) (stack p),
                           sp := sp p + of_nat n\<rparr>)"
proof (induction n arbitrary: p)
  case 0
  then show ?case by simp
next
  case (Suc n)
  let ?s = "unat (sp p)" and ?q = "p\<lparr>stack := (stack p)[unat (sp p) := 0], sp := sp p + 1\<rparr>"
  from Suc.prems have s: "?s < length (stack p)"
    using wf_sp [OF Suc.prems(1)] by (simp add: unat_less_uint)
  have u: "uint (sp p + 1) = uint (sp p) + 1" using Suc.prems by (simp add: uint_inc)
  then have n1: "unat (sp p + 1) = Suc ?s" by (metis Suc_as_int nat_uint_eq uint_nat)
  have "stack_push p 0 = Inr ?q"
    using Suc.prems wf_sp [OF Suc.prems(1)] by (simp add: stack_push_def stack_set_def wr_ok)
  moreover have "wf_proc ?q"
    using Suc.prems u wf_sp [OF Suc.prems(1)] by (auto intro!: wf_upd)
  ultimately have "push_zeroes (Suc n) p = Inr (?q\<lparr>stack := take (unat (sp ?q)) (stack ?q) @ replicate n 0 @ drop (unat (sp ?q) + n) (stack ?q),
                           sp := sp ?q + of_nat n\<rparr>)"
    using Suc.IH [of ?q] Suc.prems u by simp
  also have "take (unat (sp ?q)) (stack ?q) = take ?s (stack p) @ [0]"
    using s by (simp add: n1 take_Suc_conv_app_nth)
  also have "drop (unat (sp ?q) + n) (stack ?q) = drop (?s + Suc n) (stack p)"
    by (simp add: n1)
  also have "sp ?q + of_nat n = sp p + of_nat (Suc n)"
    by (simp add: add.assoc)
  finally show ?case by simp
qed

lemma sp_zero: "\<not> 0 < uint (s::u16) \<Longrightarrow> s = 0"
  using uint_ge_0 [of s] by (simp add: word_uint_eq_iff)

lemma leave_sp: "0 \<le> sint (f::i32) \<Longrightarrow> sint f < 1024 \<Longrightarrow> uint (scast f :: u16) = sint f"
  using uint_word_of_int_eq [of "sint f", where 'a = 16] by (simp add: take_bit_int_eq_self)

lemmas handler_wps = wps Let_def nvm_consts post_defs next_ip sp_arith

subsection \<open>Every handler keeps the contract\<close>

lemma binary_op_contract:
  assumes "wf_proc p" "active p"
  shows "wp (binary_op f p) F (handler_post p)"
  unfolding binary_op_def using wf_sp [OF assms(1)] assms
  by (auto simp: handler_wps intro!: wf_upd)

lemma jump_if_contract:
  assumes "wf_proc p" "active p"
  shows "wp (jump_if f p) F (handler_post p)"
  unfolding jump_if_def using wf_sp [OF assms(1)] assms
  by (auto simp: handler_wps intro!: wf_upd wp_code_get32)

interpretation add_i: nvm_handler handle_add "\<lambda>_. True"
  by unfold_locales (simp add: handle_add_def binary_op_contract)

interpretation sub_i: nvm_handler handle_sub "\<lambda>_. True"
  by unfold_locales (simp add: handle_sub_def binary_op_contract)

interpretation mul_i: nvm_handler handle_mul "\<lambda>_. True"
  by unfold_locales (simp add: handle_mul_def binary_op_contract)

interpretation cmp_i: nvm_handler handle_cmp "\<lambda>_. True"
  by unfold_locales (simp add: handle_cmp_def binary_op_contract)

interpretation eq_i: nvm_handler handle_eq "\<lambda>_. True"
  by unfold_locales (simp add: handle_eq_def binary_op_contract)

interpretation neq_i: nvm_handler handle_neq "\<lambda>_. True"
  by unfold_locales (simp add: handle_neq_def binary_op_contract)

interpretation gt_i: nvm_handler handle_gt "\<lambda>_. True"
  by unfold_locales (simp add: handle_gt_def binary_op_contract)

interpretation lt_i: nvm_handler handle_lt "\<lambda>_. True"
  by unfold_locales (simp add: handle_lt_def binary_op_contract)

interpretation and_i: nvm_handler handle_and "\<lambda>_. True"
  by unfold_locales (simp add: handle_and_def binary_op_contract)

interpretation or_i: nvm_handler handle_or "\<lambda>_. True"
  by unfold_locales (simp add: handle_or_def binary_op_contract)

interpretation xor_i: nvm_handler handle_xor "\<lambda>_. True"
  by unfold_locales (simp add: handle_xor_def binary_op_contract)

interpretation shl_i: nvm_handler handle_shl "\<lambda>_. True"
  by unfold_locales (simp add: handle_shl_def binary_op_contract)

interpretation shr_i: nvm_handler handle_shr "\<lambda>_. True"
  by unfold_locales (simp add: handle_shr_def binary_op_contract)

interpretation sar_i: nvm_handler handle_sar "\<lambda>_. True"
  by unfold_locales (simp add: handle_sar_def binary_op_contract)

interpretation jz_i: nvm_handler handle_jz "\<lambda>_. True"
  by unfold_locales (simp add: handle_jz_def jump_if_contract)

interpretation jnz_i: nvm_handler handle_jnz "\<lambda>_. True"
  by unfold_locales (simp add: handle_jnz_def jump_if_contract)

lemma not_contract:
  assumes "wf_proc p" "active p"
  shows "wp (handle_not p) F (handler_post p)"
  unfolding handle_not_def using wf_sp [OF assms(1)] assms
  by (auto simp: handler_wps sp_zero intro!: wf_upd wp_code_get32 wp_fetch)

interpretation not_i: nvm_handler handle_not "\<lambda>_. True"
  by unfold_locales (rule not_contract)

lemma halt_contract:
  assumes "wf_proc p" "active p"
  shows "wp (handle_halt p) F (handler_post p)"
  unfolding handle_halt_def using wf_sp [OF assms(1)] assms
  by (auto simp: handler_wps sp_zero intro!: wf_upd wp_code_get32 wp_fetch)

interpretation halt_i: nvm_handler handle_halt "\<lambda>_. True"
  by unfold_locales (rule halt_contract)

lemma nop_contract:
  assumes "wf_proc p" "active p"
  shows "wp (handle_nop p) F (handler_post p)"
  unfolding handle_nop_def using wf_sp [OF assms(1)] assms
  by (auto simp: handler_wps sp_zero intro!: wf_upd wp_code_get32 wp_fetch)

interpretation nop_i: nvm_handler handle_nop "\<lambda>_. True"
  by unfold_locales (rule nop_contract)

lemma push_contract:
  assumes "wf_proc p" "active p"
  shows "wp (handle_push p) F (handler_post p)"
  unfolding handle_push_def using wf_sp [OF assms(1)] assms
  by (auto simp: handler_wps sp_zero intro!: wf_upd wp_code_get32 wp_fetch)

interpretation push_i: nvm_handler handle_push "\<lambda>_. True"
  by unfold_locales (rule push_contract)

lemma pop_contract:
  assumes "wf_proc p" "active p"
  shows "wp (handle_pop p) F (handler_post p)"
  unfolding handle_pop_def using wf_sp [OF assms(1)] assms
  by (auto simp: handler_wps sp_zero intro!: wf_upd wp_code_get32 wp_fetch)

interpretation pop_i: nvm_handler handle_pop "\<lambda>_. True"
  by unfold_locales (rule pop_contract)

lemma dup_contract:
  assumes "wf_proc p" "active p"
  shows "wp (handle_dup p) F (handler_post p)"
  unfolding handle_dup_def using wf_sp [OF assms(1)] assms
  by (auto simp: handler_wps sp_zero intro!: wf_upd wp_code_get32 wp_fetch)

interpretation dup_i: nvm_handler handle_dup "\<lambda>_. True"
  by unfold_locales (rule dup_contract)

lemma swap_contract:
  assumes "wf_proc p" "active p"
  shows "wp (handle_swap p) F (handler_post p)"
  unfolding handle_swap_def using wf_sp [OF assms(1)] assms
  by (auto simp: handler_wps sp_zero intro!: wf_upd wp_code_get32 wp_fetch)

interpretation swap_i: nvm_handler handle_swap "\<lambda>_. True"
  by unfold_locales (rule swap_contract)

lemma jmp_contract:
  assumes "wf_proc p" "active p"
  shows "wp (handle_jmp p) F (handler_post p)"
  unfolding handle_jmp_def using wf_sp [OF assms(1)] assms
  by (auto simp: handler_wps sp_zero intro!: wf_upd wp_code_get32 wp_fetch)

interpretation jmp_i: nvm_handler handle_jmp "\<lambda>_. True"
  by unfold_locales (rule jmp_contract)

lemma call_contract:
  assumes "wf_proc p" "active p"
  shows "wp (handle_call p) F (handler_post p)"
  unfolding handle_call_def using wf_sp [OF assms(1)] assms
  by (auto simp: handler_wps sp_zero intro!: wf_upd wp_code_get32 wp_fetch)

interpretation call_i: nvm_handler handle_call "\<lambda>_. True"
  by unfold_locales (rule call_contract)

lemma ret_contract:
  assumes "wf_proc p" "active p"
  shows "wp (handle_ret p) F (handler_post p)"
  unfolding handle_ret_def using wf_sp [OF assms(1)] assms
  by (auto simp: handler_wps sp_zero intro!: wf_upd wp_code_get32 wp_fetch)

interpretation ret_i: nvm_handler handle_ret "\<lambda>_. True"
  by unfold_locales (rule ret_contract)

lemma load_arg_contract:
  assumes "wf_proc p" "active p"
  shows "wp (handle_load_arg p) F (handler_post p)"
  unfolding handle_load_arg_def using wf_sp [OF assms(1)] assms
  by (auto simp: handler_wps sp_zero intro!: wf_upd wp_code_get32 wp_fetch)

interpretation load_arg_i: nvm_handler handle_load_arg "\<lambda>_. True"
  by unfold_locales (rule load_arg_contract)

lemma store_arg_contract:
  assumes "wf_proc p" "active p"
  shows "wp (handle_store_arg p) F (handler_post p)"
  unfolding handle_store_arg_def using wf_sp [OF assms(1)] assms
  by (auto simp: handler_wps sp_zero intro!: wf_upd wp_code_get32 wp_fetch)

interpretation store_arg_i: nvm_handler handle_store_arg "\<lambda>_. True"
  by unfold_locales (rule store_arg_contract)

lemma load_contract:
  assumes "wf_proc p" "active p"
  shows "wp (handle_load p) F (handler_post p)"
  unfolding handle_load_def using wf_sp [OF assms(1)] assms
  by (auto simp: handler_wps sp_zero intro!: wf_upd wp_code_get32 wp_fetch)

interpretation load_i: nvm_handler handle_load "\<lambda>_. True"
  by unfold_locales (rule load_contract)

lemma store_contract:
  assumes "wf_proc p" "active p"
  shows "wp (handle_store p) F (handler_post p)"
  unfolding handle_store_def using wf_sp [OF assms(1)] assms
  by (auto simp: handler_wps sp_zero intro!: wf_upd wp_code_get32 wp_fetch)

interpretation store_i: nvm_handler handle_store "\<lambda>_. True"
  by unfold_locales (rule store_contract)

lemma load_rel_contract:
  assumes "wf_proc p" "active p"
  shows "wp (handle_load_rel p) F (handler_post p)"
  unfolding handle_load_rel_def using wf_sp [OF assms(1)] assms
  by (auto simp: handler_wps sp_zero intro!: wf_upd wp_code_get32 wp_fetch)

interpretation load_rel_i: nvm_handler handle_load_rel "\<lambda>_. True"
  by unfold_locales (rule load_rel_contract)

lemma store_rel_contract:
  assumes "wf_proc p" "active p"
  shows "wp (handle_store_rel p) F (handler_post p)"
  unfolding handle_store_rel_def using wf_sp [OF assms(1)] assms
  by (auto simp: handler_wps sp_zero intro!: wf_upd wp_code_get32 wp_fetch)

interpretation store_rel_i: nvm_handler handle_store_rel "\<lambda>_. True"
  by unfold_locales (rule store_rel_contract)

lemma break_contract:
  assumes "wf_proc p" "active p"
  shows "wp (handle_break p) F (handler_post p)"
  unfolding handle_break_def using wf_sp [OF assms(1)] assms
  by (auto simp: handler_wps sp_zero intro!: wf_upd wp_code_get32 wp_fetch)

interpretation break_i: nvm_handler handle_break "\<lambda>_. True"
  by unfold_locales (rule break_contract)

lemma div_contract:
  assumes "wf_proc p" "active p"
  shows "wp (handle_div p) (\<lambda>_. \<not> div_ok p) (handler_post p)"
  unfolding handle_div_def using wf_sp [OF assms(1)] assms
  by (auto simp: handler_wps div_ok_def top_entry_def second_entry_def intro!: wf_upd)

interpretation div_i: nvm_handler handle_div div_ok
  by unfold_locales (rule div_contract)

lemma mod_contract:
  assumes "wf_proc p" "active p"
  shows "wp (handle_mod p) (\<lambda>_. \<not> div_ok p) (handler_post p)"
  unfolding handle_mod_def using wf_sp [OF assms(1)] assms
  by (auto simp: handler_wps div_ok_def top_entry_def second_entry_def intro!: wf_upd)

interpretation mod_i: nvm_handler handle_mod div_ok
  by unfold_locales (rule mod_contract)

lemma enter_frame:
  assumes "wf_proc p" "uint (sp p) + 1 + uint (locs :: u8) \<le> 1024"
  shows "\<exists>st. bindR (stack_push p v) (\<lambda>p. push_zeroes (unat locs) (p\<lparr>fp := f p\<rparr>))
       = Inr (p\<lparr>stack := st, sp := sp p + 1 + ucast locs, fp := f (p\<lparr>stack := (stack p)[unat (sp p) := v], sp := sp p + 1\<rparr>)\<rparr>) \<and>
     st = take (unat (sp p)) (stack p) @ [v] @ replicate (unat locs) 0 @ drop (unat (sp p) + 1 + unat locs) (stack p)"
proof -
  let ?q = "p\<lparr>stack := (stack p)[unat (sp p) := v], sp := sp p + 1\<rparr>"
  note w = wf_sp [OF assms(1)]
  from assms(2) have u: "uint (sp p) < 1024" using uint_ge_0 [of locs] by linarith
  then have i: "uint (sp p + 1) = uint (sp p) + 1" by (rule sp_arith)
  then have n: "unat (sp p + 1) = Suc (unat (sp p))" by (metis Suc_as_int nat_uint_eq uint_nat)
  from u w have s: "unat (sp p) < length (stack p)" by (simp add: unat_less_uint)
  have "stack_push p v = Inr ?q" using u w by (simp add: stack_push_def stack_set_def wr_ok)
  moreover have "wf_proc (?q\<lparr>fp := f ?q\<rparr>)" using assms(1) w i u by (auto intro!: wf_upd)
  ultimately show ?thesis
    using assms(2) i s
    by (simp add: push_zeroes_eq n take_Suc_conv_app_nth)
qed

lemma enter_eq:
  assumes "wf_proc p" "ip p < code_size p" "code_get p (ip p) = Inr locs"
    "uint (sp p) + 1 + uint locs \<le> 1024"
  shows "handle_enter p = Inr (True, p\<lparr>ip := ip p + 1,
     stack := take (unat (sp p)) (stack p) @ [fp p] @ replicate (unat locs) 0
       @ drop (unat (sp p) + 1 + unat locs) (stack p),
     sp := sp p + 1 + ucast locs, fp := ucast (sp p)\<rparr>)"
proof -
  let ?q = "p\<lparr>ip := ip p + 1\<rparr>"
  have wf: "wf_proc ?q" using assms by (auto intro!: wf_upd simp: next_ip)
  have "uint (sp p) < 1024" using assms(4) uint_ge_0 [of locs] by linarith
  then have "uint (sp p + 1) = uint (sp p) + 1" by (rule sp_arith)
  then have f: "word_of_int (uint (sp p + 1) - 1) = (ucast (sp p) :: i32)" by simp
  have "handle_enter p = bindR (bindR (stack_push ?q (fp ?q)) (\<lambda>p. push_zeroes (unat locs) (p\<lparr>fp := word_of_int (uint (sp p) - 1)\<rparr>)))
      (\<lambda>p. Inr (True, p))"
    using assms by (simp add: handle_enter_def Let_def nvm_consts bindR_assoc)
  also have "\<dots> = Inr (True, p\<lparr>ip := ip p + 1,
     stack := take (unat (sp p)) (stack p) @ [fp p] @ replicate (unat locs) 0
       @ drop (unat (sp p) + 1 + unat locs) (stack p),
     sp := sp p + 1 + ucast locs, fp := word_of_int (uint (sp p + 1) - 1)\<rparr>)"
    using enter_frame [OF wf, of locs "fp ?q" "\<lambda>p. word_of_int (uint (sp p) - 1)"] assms(4) by auto
  finally show ?thesis by (simp only: f)
qed

lemma enter_contract:
  assumes "wf_proc p" "active p"
  shows "wp (handle_enter p) F (handler_post p)"
proof (cases "ip p < code_size p")
  case True
  obtain locs where l: "code_get p (ip p) = Inr locs"
    using code_get_cases [OF assms True] by blast
  show ?thesis
  proof (cases "uint (sp p) + 1 + uint locs \<le> 1024")
    case fits: True
    then have "uint (sp p) < 1024" using uint_ge_0 [of locs] by linarith
    then have "uint (sp p + 1) = uint (sp p) + 1" by (rule sp_arith)
    with fits have "uint (sp p + 1 + ucast locs) \<le> 1024" by (simp add: uint_plus_small)
    moreover from fits have "int (unat (sp p) + 1 + unat locs) \<le> int 1024" by simp
    then have "unat (sp p) + 1 + unat locs \<le> 1024" by (rule of_nat_le_iff [THEN iffD1])
    ultimately show ?thesis
      using True wf_sp [OF assms(1)] assms
      by (auto simp: enter_eq [OF assms(1) True l fits] wps handler_post_def same_frame_def min_def next_ip
          intro!: wf_upd)
  next
    case False
    with True l assms show ?thesis
      by (auto simp: handle_enter_def handler_wps intro!: wf_upd)
  qed
next
  case False
  with assms show ?thesis by (auto simp: handle_enter_def handler_wps intro!: wf_upd)
qed

interpretation enter_i: nvm_handler handle_enter "\<lambda>_. True"
  by unfold_locales (rule enter_contract)

lemma leave_contract:
  assumes "wf_proc p" "active p"
  shows "wp (handle_leave p) F (handler_post p)"
  unfolding handle_leave_def using wf_sp [OF assms(1)] assms
  by (auto simp: handler_wps leave_sp intro!: wf_upd)

interpretation leave_i: nvm_handler handle_leave "\<lambda>_. True"
  by unfold_locales (rule leave_contract)

lemma load_heap_contract:
  assumes "wf_proc p" "active p"
  shows "wp (handle_load_heap p) (\<lambda>_. \<not> (load_heap_ok p \<and> heap p \<noteq> None)) (handler_post p)"
  unfolding handle_load_heap_def using wf_sp [OF assms(1)] assms
  by (auto simp: handler_wps load_heap_ok_def top_entry_def sint_plus3
      intro!: wf_upd wp_heap_get32 wp_heap_set32 [unfolded post_defs, simplified])

interpretation load_heap_i: nvm_handler handle_load_heap "\<lambda>p. load_heap_ok p \<and> heap p \<noteq> None"
  by unfold_locales (rule load_heap_contract)

lemma store_heap_contract:
  assumes "wf_proc p" "active p"
  shows "wp (handle_store_heap p) (\<lambda>_. \<not> (store_heap_ok p \<and> heap p \<noteq> None)) (handler_post p)"
  unfolding handle_store_heap_def using wf_sp [OF assms(1)] assms
  by (auto simp: handler_wps store_heap_ok_def second_entry_def sint_plus3
      intro!: wf_upd wp_heap_get32 wp_heap_set32 [unfolded post_defs, simplified])

interpretation store_heap_i: nvm_handler handle_store_heap "\<lambda>p. store_heap_ok p \<and> heap p \<noteq> None"
  by unfold_locales (rule store_heap_contract)

text \<open>
  The absolute accesses: the process side keeps the same contract, the accessible part of the
  address space stays the same, and only a process with the driver capability changes it.
\<close>

lemma wp_mem_get [wps]: "wp (mem_get m a) F Q = (if a \<in> dom m then Q (the (m a)) else F OutOfBounds)"
  by (auto simp: mem_get_def wp_def split: option.split)

lemma wp_mem_set [wps]: "wp (mem_set m a v) F Q = (if a \<in> dom m then Q (m(a \<mapsto> v)) else F OutOfBounds)"
  by (auto simp: mem_set_def wp_def split: option.split)

lemma wp_mem_get32:
  assumes "\<And>v. Q v" "\<not> {a, a + 1, a + 2, a + 3} \<subseteq> dom m \<Longrightarrow> F OutOfBounds"
  shows "wp (mem_get32 m a) F Q"
  using assms by (auto simp: mem_get32_def wps)

lemma wp_mem_set16:
  assumes "\<And>m'. dom m' = dom m \<Longrightarrow> Q m'" "\<not> {a, a + 1} \<subseteq> dom m \<Longrightarrow> F OutOfBounds"
  shows "wp (mem_set16 m a v) F Q"
  using assms by (auto simp: mem_set16_def wps insert_absorb)

lemma wp_mem_set32:
  assumes "\<And>m'. dom m' = dom m \<Longrightarrow> Q m'" "\<not> {a, a + 1, a + 2, a + 3} \<subseteq> dom m \<Longrightarrow> F OutOfBounds"
  shows "wp (mem_set32 m a v) F Q"
  using assms by (auto simp: mem_set32_def wps insert_absorb)

lemma load_abs_contract:
  assumes "wf_proc p" "active p"
  shows "wp (handle_load_abs (p, m)) (\<lambda>_. \<not> load_abs_ok m p) (\<lambda>(b, p', m'). handler_post p (b, p') \<and> m' = m)"
  using wf_sp [OF assms(1)] assms
  by (auto simp: handle_load_abs_def caps_has_iff handler_wps load_abs_ok_def top_entry_def intro!: wf_upd wp_mem_get32)

lemma store_abs_contract:
  assumes "wf_proc p" "active p"
  shows "wp (handle_store_abs (p, m)) (\<lambda>_. \<not> store_abs_ok m p) (\<lambda>(b, p', m'). handler_post p (b, p') \<and>
           dom m' = dom m \<and> (m' \<noteq> m \<longrightarrow> CAP_ALL \<in> capset p \<or> CAP_DRV_ACCESS \<in> capset p))"
  using wf_sp [OF assms(1)] assms
  by (auto simp: handle_store_abs_def caps_has_iff handler_wps store_abs_ok_def second_entry_def
      intro!: wf_upd wp_mem_set16 wp_mem_set32)

end
