(* ===== verification/Nvm_World.thy ===== *)
theory Nvm_World
  imports Nvm_Instructions
begin

text \<open>
  The process table and process creation (\<open>core/kernel/nvm/nvm.c\<close>).  The calls the virtual
  machine makes into the allocator, the file systems, the console and the I/O ports are
  operations on a state \<open>'s\<close> of the rest of the kernel, collected in a record that the
  definitions take as an argument.
\<close>

subsection \<open>The rest of the kernel\<close>

record 's services =
  sv_kmalloc :: "u64 \<Rightarrow> 's \<Rightarrow> u64 \<times> 's"
  sv_kfree :: "u64 \<Rightarrow> 's \<Rightarrow> 's"
  sv_vfs_open :: "u8 list \<Rightarrow> i32 \<Rightarrow> 's \<Rightarrow> i32 \<times> 's"
  sv_vfs_readfd :: "i32 \<Rightarrow> 's \<Rightarrow> (u64 \<times> u8) \<times> 's"
  sv_vfs_writefd :: "i32 \<Rightarrow> u8 \<Rightarrow> 's \<Rightarrow> u64 \<times> 's"
  sv_vfs_delete :: "u8 list \<Rightarrow> 's \<Rightarrow> i32 \<times> 's"
  sv_procfs_register :: "nat \<Rightarrow> 's \<Rightarrow> 's"
  sv_procfs_unregister :: "nat \<Rightarrow> 's \<Rightarrow> 's"
  sv_procfs_set_args :: "int \<Rightarrow> u8 list list \<Rightarrow> 's \<Rightarrow> 's"
  sv_tty_puts :: "u8 list \<Rightarrow> 's \<Rightarrow> 's"
  sv_inb :: "u16 \<Rightarrow> 's \<Rightarrow> u8 \<times> 's"
  sv_outb :: "u16 \<Rightarrow> u8 \<Rightarrow> 's \<Rightarrow> 's"

text \<open>\<open>message_t\<close> and the static data of \<open>nvm.c\<close> and \<open>syscalls.c\<close>\<close>

record message =
  recipient :: u16
  sender :: u16
  content :: u8

record 's world =
  processes :: "nvm_process list"
  current_process :: u8
  timer_ticks :: u32
  message_queue :: "message list"
  message_count :: nat
  next_offset :: u32
  abs_mem :: memory
  kernel :: 's

definition MAX_MESSAGES :: nat where "MAX_MESSAGES = 32"

definition get_proc :: "'s world \<Rightarrow> nat \<Rightarrow> nvm_process res" where
  "get_proc w i = rd (processes w) (int i)"

definition put_proc :: "nat \<Rightarrow> nvm_process \<Rightarrow> 's world \<Rightarrow> 's world" where
  "put_proc i p w = w\<lparr>processes := (processes w)[i := p]\<rparr>"

subsection \<open>Initialisation and queries\<close>

definition nvm_init_process :: "nvm_process \<Rightarrow> nvm_process" where
  "nvm_init_process p = p\<lparr>active := False, sp := 0, ip := 0, exit_code := 0, caps_count := 0,
     fp := - 1, heap := None, heap_size := 0\<rparr>"

definition nvm_init :: "'s world \<Rightarrow> 's world" where
  "nvm_init w = w\<lparr>processes := map nvm_init_process (processes w)\<rparr>"

definition nvm_get_process :: "'s world \<Rightarrow> u8 \<Rightarrow> nvm_process res" where
  "nvm_get_process w p = get_proc w (unat p)"

definition nvm_get_exit_code :: "'s world \<Rightarrow> u8 \<Rightarrow> i32 res" where
  "nvm_get_exit_code w p =
     (if unat p < MAX_PROCESSES then
        bindR (get_proc w (unat p)) (\<lambda>proc. if \<not> active proc then Inr (exit_code proc) else Inr (- 1))
      else Inr (- 1))"

definition nvm_is_process_active :: "'s world \<Rightarrow> u8 \<Rightarrow> bool res" where
  "nvm_is_process_active w p =
     (if unat p < MAX_PROCESSES then bindR (get_proc w (unat p)) (\<lambda>proc. Inr (active proc)) else Inr False)"

subsection \<open>Process creation\<close>

text \<open>The signature test \<open>NVM0\<close>, with the short-circuit reads of the C condition.\<close>

definition bad_signature :: "buf \<Rightarrow> bool res" where
  "bad_signature b =
     bindR (rd (snd b) 0) (\<lambda>c. if c \<noteq> 0x4E then Inr True else
     bindR (rd (snd b) 1) (\<lambda>c. if c \<noteq> 0x56 then Inr True else
     bindR (rd (snd b) 2) (\<lambda>c. if c \<noteq> 0x4D then Inr True else
     bindR (rd (snd b) 3) (\<lambda>c. if c \<noteq> 0x30 then Inr True else Inr False))))"

text \<open>The fields both creation functions set before the heap is allocated.\<close>

definition init_slot :: "buf \<Rightarrow> u32 \<Rightarrow> nat \<Rightarrow> nvm_process \<Rightarrow> nvm_process" where
  "init_slot b sz i p = p\<lparr>bytecode := Some b, ip := 4, code_size := sz, active := True, exit_code := 0,
     pid := of_nat i, caps_count := 0, fp := - 1, blocked := False, wakeup_reason := 0\<rparr>"

text \<open>The capabilities and local variables both set afterwards.\<close>

definition init_caps_locals :: "u16 list \<Rightarrow> u8 \<Rightarrow> nvm_process \<Rightarrow> nvm_process res" where
  "init_caps_locals initial_caps count p =
     bindR (copy_loop (capabilities p) initial_caps 0 (min (unat count) MAX_CAPS)) (\<lambda>cs.
     Inr (p\<lparr>capabilities := cs, caps_count := count, locals := replicate MAX_LOCALS 0\<rparr>))"

definition nvm_create_process ::
    "'s services \<Rightarrow> buf \<Rightarrow> u32 \<Rightarrow> u16 list \<Rightarrow> u8 \<Rightarrow> 's world \<Rightarrow> (int \<times> 's world) res" where
  "nvm_create_process sv b sz initial_caps count w =
     bindR (bad_signature b) (\<lambda>bad.
     if bad then Inr (- 1, w)
     else bindR (search (\<lambda>p. \<not> active p) (processes w) 0 MAX_PROCESSES) (\<lambda>slot.
     case slot of None \<Rightarrow> Inr (- 1, w)
     | Some i \<Rightarrow>
         bindR (get_proc w i) (\<lambda>p.
         let p = (init_slot b sz i p)\<lparr>sp := 0\<rparr>;
             (a, k) = sv_kmalloc sv (of_nat HEAP_SIZE) (kernel w)
         in if a = 0 then Inr (- 1, (put_proc i (p\<lparr>heap := None\<rparr>) w)\<lparr>kernel := k\<rparr>)
         else
           let p = p\<lparr>heap := Some (a, replicate HEAP_SIZE 0), heap_size := of_nat HEAP_SIZE\<rparr>
           in bindR (init_caps_locals initial_caps count p) (\<lambda>p.
              Inr (int i, (put_proc i p w)\<lparr>kernel := sv_procfs_register sv i k\<rparr>)))))"

text \<open>
  \<open>nvm_create_process_with_stack\<close> also copies an initial stack and reverses each argument
  string on it in place: for the string that starts at \<open>str_start\<close>, the entries up to the
  first zero are exchanged end for end.
\<close>

function string_end :: "i32 list \<Rightarrow> nat \<Rightarrow> nat \<Rightarrow> nat res" where
  "string_end vals n e =
     (if e < n then bindR (rd vals (int e)) (\<lambda>v. if v \<noteq> 0 then string_end vals n (Suc e) else Inr e)
      else Inr e)"
  by pat_completeness auto
termination
  by (relation "measure (\<lambda>(vals, n, e). n - e)") auto

declare string_end.simps [simp del]

function swap_loop :: "i32 list \<Rightarrow> nat \<Rightarrow> nat \<Rightarrow> nat \<Rightarrow> i32 list res" where
  "swap_loop st s e k =
     (if k < (e - s) div 2 then
        bindR (rd st (int (s + k))) (\<lambda>temp.
        bindR (rd st (int e - 1 - int k)) (\<lambda>v.
        bindR (wr st (int (s + k)) v) (\<lambda>st.
        bindR (wr st (int e - 1 - int k) temp) (\<lambda>st. swap_loop st s e (Suc k)))))
      else Inr st)"
  by pat_completeness auto
termination
  by (relation "measure (\<lambda>(st, s, e, k). (e - s) div 2 - k)") auto

declare swap_loop.simps [simp del]

function arg_loop :: "i32 list \<Rightarrow> nat \<Rightarrow> int \<Rightarrow> nat \<Rightarrow> i32 list \<Rightarrow> i32 list res" where
  "arg_loop vals n argc idx st =
     (if int idx < argc then
        bindR (rd vals (1 + int idx)) (\<lambda>ptr.
        if 0 \<le> sint ptr \<and> sint ptr < int n then
          bindR (string_end vals n (nat (sint ptr))) (\<lambda>e.
          bindR (swap_loop st (nat (sint ptr)) e 0) (\<lambda>st. arg_loop vals n argc (Suc idx) st))
        else arg_loop vals n argc (Suc idx) st)
      else Inr st)"
  by pat_completeness auto
termination
  by (relation "measure (\<lambda>(vals, n, argc, idx, st). nat (argc - int idx))") auto

declare arg_loop.simps [simp del]

definition nvm_create_process_with_stack ::
    "'s services \<Rightarrow> buf \<Rightarrow> u32 \<Rightarrow> u16 list \<Rightarrow> u8 \<Rightarrow> i32 list \<Rightarrow> u16 \<Rightarrow> 's world \<Rightarrow> (int \<times> 's world) res" where
  "nvm_create_process_with_stack sv b sz initial_caps count vals stack_count w =
     bindR (bad_signature b) (\<lambda>bad.
     if bad then Inr (- 1, w)
     else if STACK_SIZE < unat stack_count then Inr (- 1, w)
     else bindR (search (\<lambda>p. \<not> active p) (processes w) 0 MAX_PROCESSES) (\<lambda>slot.
     case slot of None \<Rightarrow> Inr (- 1, w)
     | Some i \<Rightarrow>
         bindR (get_proc w i) (\<lambda>p.
         let p = init_slot b sz i p;
             (a, k) = sv_kmalloc sv (of_nat HEAP_SIZE) (kernel w)
         in if a = 0 then Inr (- 1, (put_proc i (p\<lparr>heap := None\<rparr>) w)\<lparr>kernel := k\<rparr>)
         else
           let p = p\<lparr>heap := Some (a, replicate HEAP_SIZE 0), heap_size := of_nat HEAP_SIZE\<rparr>
           in bindR (copy_loop (stack p) vals 0 (unat stack_count)) (\<lambda>st.
              bindR (if 0 < unat stack_count then
                       bindR (rd vals 0) (\<lambda>argc.
                       if 0 < sint argc then arg_loop vals (unat stack_count) (sint argc) 0 st else Inr st)
                     else Inr st) (\<lambda>st.
              let p = p\<lparr>stack := st, sp := stack_count\<rparr> in
              bindR (init_caps_locals initial_caps count p) (\<lambda>p.
              Inr (int i, (put_proc i p w)\<lparr>kernel := sv_procfs_register sv i k\<rparr>)))))))"

definition nvm_execute :: "'s services \<Rightarrow> buf \<Rightarrow> u32 \<Rightarrow> u16 list \<Rightarrow> u8 \<Rightarrow> 's world \<Rightarrow> 's world res" where
  "nvm_execute sv b sz caps count w =
     bindR (nvm_create_process sv b sz caps count w) (\<lambda>(p, w). Inr w)"

subsection \<open>Invariant and frame\<close>

text \<open>
  The invariant of the process table, the message queue and the static counters: every slot
  is well formed, a running process carries the number of its slot, and the counters index
  their arrays.
\<close>

definition wf_world :: "'s world \<Rightarrow> bool" where
  "wf_world w \<longleftrightarrow> length (processes w) = MAX_PROCESSES \<and>
     (\<forall>j < MAX_PROCESSES. wf_proc (processes w ! j) \<and> (active (processes w ! j) \<longrightarrow> unat (pid (processes w ! j)) = j)) \<and>
     unat (current_process w) < MAX_PROCESSES \<and>
     length (message_queue w) = MAX_MESSAGES \<and> message_count w \<le> MAX_MESSAGES \<and>
     unat (next_offset w) \<le> HEAP_SIZE"

text \<open>
  What one process may do to the table: in its own slot anything that gains no capability,
  to another running process only the wake-up of a message.
\<close>

definition wake :: "nvm_process \<Rightarrow> nvm_process" where
  "wake p = p\<lparr>blocked := False, wakeup_reason := 1\<rparr>"

definition slot_frame :: "bool \<Rightarrow> nvm_process \<Rightarrow> nvm_process \<Rightarrow> bool" where
  "slot_frame own p p' \<longleftrightarrow> capset p' \<subseteq> insert CAPS_NONE (capset p) \<and>
     (\<not> own \<and> active p \<longrightarrow> p' = p \<or> p' = wake p)"

definition frame :: "nat \<Rightarrow> 's world \<Rightarrow> 's world \<Rightarrow> bool" where
  "frame i w w' \<longleftrightarrow> length (processes w') = length (processes w) \<and>
     (\<forall>j < length (processes w). slot_frame (j = i) (processes w ! j) (processes w' ! j)) \<and>
     current_process w' = current_process w \<and> timer_ticks w' = timer_ticks w"

lemma slot_frame_refl [simp]: "slot_frame own p p"
  by (auto simp: slot_frame_def)

lemma slot_frame_trans:
  "slot_frame own p q \<Longrightarrow> slot_frame own q r \<Longrightarrow> slot_frame own p r"
  by (auto simp: slot_frame_def wake_def)

lemma frame_refl [simp]: "frame i w w"
  by (simp add: frame_def)

lemma frame_trans: "frame i w w' \<Longrightarrow> frame i w' w'' \<Longrightarrow> frame i w w''"
  by (auto simp: frame_def intro: slot_frame_trans)

lemma get_proc_ok: "i < length (processes w) \<Longrightarrow> get_proc w i = Inr (processes w ! i)"
  by (simp add: get_proc_def rd_ok)

lemma wf_world_get: "wf_world w \<Longrightarrow> i < MAX_PROCESSES \<Longrightarrow> get_proc w i = Inr (processes w ! i)"
  "wf_world w \<Longrightarrow> i < MAX_PROCESSES \<Longrightarrow> wf_proc (processes w ! i)"
  "wf_world w \<Longrightarrow> i < MAX_PROCESSES \<Longrightarrow> active (processes w ! i) \<Longrightarrow> unat (pid (processes w ! i)) = i"
  by (simp_all add: wf_world_def get_proc_ok)

lemma put_proc_sel [simp]:
  "processes (put_proc i p w) = (processes w)[i := p]"
  "current_process (put_proc i p w) = current_process w"
  "timer_ticks (put_proc i p w) = timer_ticks w"
  "message_queue (put_proc i p w) = message_queue w"
  "message_count (put_proc i p w) = message_count w"
  "next_offset (put_proc i p w) = next_offset w"
  "abs_mem (put_proc i p w) = abs_mem w"
  "kernel (put_proc i p w) = kernel w"
  by (simp_all add: put_proc_def)

lemma wf_world_put:
  assumes "wf_world w" "wf_proc p" "active p \<Longrightarrow> unat (pid p) = i"
  shows "wf_world (put_proc i p w)"
  using assms by (auto simp: wf_world_def nth_update)

lemma frame_put:
  assumes "slot_frame (j = i) (processes w ! j) p"
  shows "frame i w (put_proc j p w)"
  using assms by (auto simp: frame_def nth_update)

lemma frame_kernel [simp]:
  "frame i w (w'\<lparr>kernel := k\<rparr>) = frame i w w'" "frame i w (w'\<lparr>message_queue := q\<rparr>) = frame i w w'"
  "frame i w (w'\<lparr>message_count := c\<rparr>) = frame i w w'" "frame i w (w'\<lparr>next_offset := n\<rparr>) = frame i w w'"
  "frame i w (w'\<lparr>abs_mem := m\<rparr>) = frame i w w'" 
  by (simp_all add: frame_def)

lemma wf_world_kernel [simp]: "wf_world (w\<lparr>kernel := k\<rparr>) = wf_world w"
  "wf_world (w\<lparr>abs_mem := m\<rparr>) = wf_world w" "wf_world (w\<lparr>timer_ticks := t\<rparr>) = wf_world w"
  by (simp_all add: wf_world_def)

subsection \<open>Process creation\<close>

definition signature_bytes :: "u8 list" where
  "signature_bytes = [0x4E, 0x56, 0x4D, 0x30]"

lemma bad_signature_iff:
  assumes "4 \<le> length (snd b)"
  shows "bad_signature b = Inr (take 4 (snd b) \<noteq> signature_bytes)"
proof -
  obtain c0 c1 c2 c3 cs where "snd b = c0 # c1 # c2 # c3 # cs"
    using assms by (auto simp: numeral_eq_Suc Suc_le_length_iff)
  then show ?thesis by (simp add: bad_signature_def rd_def signature_bytes_def)
qed

text \<open>The slot after a successful creation, and after one whose heap could not be allocated.\<close>

definition new_process :: "buf \<Rightarrow> u32 \<Rightarrow> u16 list \<Rightarrow> u8 \<Rightarrow> nat \<Rightarrow> u64 \<Rightarrow> nvm_process \<Rightarrow> nvm_process" where
  "new_process b sz caps count i a p = (init_slot b sz i p)\<lparr>sp := 0,
     heap := Some (a, replicate HEAP_SIZE 0), heap_size := of_nat HEAP_SIZE,
     capabilities := take (unat count) caps @ drop (unat count) (capabilities p), caps_count := count,
     locals := replicate MAX_LOCALS 0\<rparr>"

definition failed_process :: "buf \<Rightarrow> u32 \<Rightarrow> nat \<Rightarrow> nvm_process \<Rightarrow> nvm_process" where
  "failed_process b sz i p = (init_slot b sz i p)\<lparr>sp := 0, heap := None\<rparr>"

lemma create_cases:
  assumes "wf_world w" "4 \<le> length (snd b)" "unat count \<le> MAX_CAPS" "unat count \<le> length caps"
  obtains
    (bad) "take 4 (snd b) \<noteq> signature_bytes" "nvm_create_process sv b sz caps count w = Inr (- 1, w)"
  | (full) "\<forall>i < MAX_PROCESSES. active (processes w ! i)" "nvm_create_process sv b sz caps count w = Inr (- 1, w)"
  | (nomem) i k where "i < MAX_PROCESSES" "\<not> active (processes w ! i)"
      "sv_kmalloc sv (of_nat HEAP_SIZE) (kernel w) = (0, k)"
      "nvm_create_process sv b sz caps count w
        = Inr (- 1, (put_proc i (failed_process b sz i (processes w ! i)) w)\<lparr>kernel := k\<rparr>)"
      "take 4 (snd b) = signature_bytes" "\<forall>j < i. active (processes w ! j)"
  | (ok) i a k where "take 4 (snd b) = signature_bytes" "i < MAX_PROCESSES" "\<not> active (processes w ! i)"
      "\<forall>j < i. active (processes w ! j)"
      "sv_kmalloc sv (of_nat HEAP_SIZE) (kernel w) = (a, k)" "a \<noteq> 0"
      "nvm_create_process sv b sz caps count w
        = Inr (int i, (put_proc i (new_process b sz caps count i a (processes w ! i)) w)\<lparr>kernel := sv_procfs_register sv i k\<rparr>)"
proof (cases "take 4 (snd b) = signature_bytes")
  case False
  then show ?thesis using bad by (simp add: nvm_create_process_def bad_signature_iff [OF assms(2)])
next
  case True
  from assms(1) have len: "length (processes w) = MAX_PROCESSES" by (simp add: wf_world_def)
  obtain r where r: "search (\<lambda>p. \<not> active p) (processes w) 0 MAX_PROCESSES = Inr r"
    using search_total [of MAX_PROCESSES "processes w"] len by auto
  show ?thesis
  proof (cases r)
    case None
    with r search_None [of _ "processes w" 0 MAX_PROCESSES] True show ?thesis
      using full by (auto simp: nvm_create_process_def bad_signature_iff [OF assms(2)])
  next
    case (Some i)
    with r search_Some have i: "i < MAX_PROCESSES" "\<not> active (processes w ! i)" "\<forall>j < i. active (processes w ! j)"
      by (fastforce dest: search_Some)+
    obtain a k where ak: "sv_kmalloc sv (of_nat HEAP_SIZE) (kernel w) = (a, k)" by force
    have g: "get_proc w i = Inr (processes w ! i)" using i len by (simp add: get_proc_ok)
    have c: "length (capabilities (processes w ! i)) = MAX_CAPS"
      using wf_world_get(2) [OF assms(1) i(1)] by (simp add: wf_proc_def)
    show ?thesis
    proof (cases "a = 0")
      case a0: True
      with r Some i ak g True show ?thesis
        by (intro nomem) (auto simp: nvm_create_process_def bad_signature_iff [OF assms(2)] failed_process_def)
    next
      case False
      with r Some i ak g True c assms(3,4) show ?thesis
        by (intro ok) (auto simp: nvm_create_process_def bad_signature_iff [OF assms(2)] new_process_def
          init_caps_locals_def copy_loop_eq init_slot_def min_absorb1)
    qed
  qed
qed

lemma wf_new_process:
  assumes "wf_proc p" "uint sz \<le> int (length (snd b))" "4 \<le> uint sz" "uint sz + 4 < 2 ^ 32"
    "unat count \<le> MAX_CAPS" "unat count \<le> length caps"
  shows "wf_proc (new_process b sz caps count i a p)"
    and "capset (new_process b sz caps count i a p) = set (take (unat count) caps)"
    and "abs_stack (new_process b sz caps count i a p) = []"
  using assms
  by (auto simp: new_process_def init_slot_def wf_proc_def nvm_consts buf_len_def capset_def abs_stack_def unat_le_uint split: prod.split)

lemma wf_failed_process:
  assumes "wf_proc p" "uint sz \<le> int (length (snd b))" "4 \<le> uint sz" "uint sz + 4 < 2 ^ 32"
  shows "wf_proc (failed_process b sz i p)" and "capset (failed_process b sz i p) = {}"
  using assms
  by (auto simp: failed_process_def init_slot_def wf_proc_def nvm_consts buf_len_def capset_def unat_le_uint split: prod.split)

lemma bad_signature_short:
  assumes "length (snd b) < 4" "snd b \<noteq> take (length (snd b)) signature_bytes"
  shows "bad_signature b = Inr True"
proof -
  obtain a bs where b: "b = (a, bs)" by force
  with assms have "length bs < 4" "bs \<noteq> take (length bs) signature_bytes" by simp_all
  then consider c0 where "bs = [c0]" "c0 \<noteq> 0x4E" | c0 c1 where "bs = [c0, c1]" "c0 \<noteq> 0x4E \<or> c1 \<noteq> 0x56"
    | c0 c1 c2 where "bs = [c0, c1, c2]" "c0 \<noteq> 0x4E \<or> c1 \<noteq> 0x56 \<or> c2 \<noteq> 0x4D"
    by (cases bs; cases "tl bs"; cases "tl (tl bs)") (auto simp: signature_bytes_def)
  then show ?thesis by cases (auto simp: b bad_signature_def rd_def)
qed

lemma create_short:
  assumes "length (snd b) < 4" "snd b \<noteq> take (length (snd b)) signature_bytes"
  shows "nvm_create_process sv b sz caps count w = Inr (- 1, w)"
  by (simp add: nvm_create_process_def bad_signature_short [OF assms])

lemma slot_frame_inactive:
  "\<not> active p \<Longrightarrow> capset p' \<subseteq> {CAPS_NONE} \<Longrightarrow> slot_frame own p p'"
  by (auto simp: slot_frame_def)

text \<open>What a caller that passes no capabilities on may rely on.\<close>

definition create_result :: "'s world \<Rightarrow> int \<times> 's world \<Rightarrow> bool" where
  "create_result w = (\<lambda>(r, w'). wf_world w' \<and>
     (r < 0 \<or> 0 \<le> r \<and> r < int MAX_PROCESSES \<and> \<not> active (processes w ! nat r) \<and>
      capset (processes w' ! nat r) \<subseteq> {CAPS_NONE} \<and>
      (\<forall>j. j \<noteq> nat r \<longrightarrow> processes w' ! j = processes w ! j)))"

lemma create_post:
  assumes "wf_world w" "4 \<le> length (snd b)" "uint sz = int (length (snd b))" "length (snd b) + 4 < 2 ^ 32"
  shows "\<exists>r w'. nvm_create_process sv b sz [CAPS_NONE] 1 w = Inr (r, w') \<and> frame i w w' \<and> create_result w (r, w')"
proof -
  have c: "unat (1::u8) \<le> MAX_CAPS" "unat (1::u8) \<le> length [CAPS_NONE]" by (simp_all add: nvm_consts)
  show ?thesis
  proof (cases rule: create_cases [OF assms(1,2) c, of sv sz])
    case nomem: (3 j k)
    let ?p = "failed_process b sz j (processes w ! j)"
    have p: "wf_proc ?p" "capset ?p = {}"
      using wf_failed_process [of "processes w ! j" sz b] wf_world_get(2) [OF assms(1) nomem(1)] assms by auto
    moreover have "unat (pid ?p) = j"
      using nomem(1) by (simp add: failed_process_def init_slot_def nvm_consts unat_of_nat take_bit_nat_eq_self)
    ultimately have "wf_world (put_proc j ?p w)" using assms(1) by (intro wf_world_put)
    then show ?thesis
      using nomem p by (auto simp: create_result_def intro!: frame_put slot_frame_inactive)
  next
    case ok: (4 j a k)
    have wf: "wf_proc (processes w ! j)" using wf_world_get [OF assms(1) ok(2)] by simp
    let ?p = "new_process b sz [CAPS_NONE] 1 j a (processes w ! j)"
    have p: "wf_proc ?p" "capset ?p \<subseteq> {CAPS_NONE}"
      using wf_new_process [OF wf _ _ _ c, of sz b] assms by auto
    moreover have "unat (pid ?p) = j"
      using ok(2) by (simp add: new_process_def init_slot_def nvm_consts unat_of_nat take_bit_nat_eq_self)
    ultimately have "wf_world (put_proc j ?p w)" using assms(1) by (intro wf_world_put)
    moreover have "j < length (processes w)" using ok(2) assms(1) by (simp add: wf_world_def)
    ultimately show ?thesis
      using ok p by (auto simp: create_result_def intro!: frame_put slot_frame_inactive)
  qed (use assms in \<open>auto simp: create_result_def\<close>)
qed

end
