(* ===== verification/Nvm_Syscalls.thy ===== *)
theory Nvm_Syscalls
  imports Nvm_World
begin

text \<open>
  The system calls of the virtual machine (\<open>core/kernel/nvm/syscalls.c\<close>), one definition per
  case of \<open>syscall_handler\<close>.  A call that touches only its process and the rest of the kernel
  works on that pair; message passing and process creation work on the whole world.  Every
  call returns the C result together with the new state.
\<close>

unbundle bit_operations_syntax

definition MAX_FILENAME :: nat where "MAX_FILENAME = 256"
definition VFS_READ :: i32 where "VFS_READ = 1"

type_synonym 's syscall = "nvm_process \<times> 's \<Rightarrow> (i32 \<times> nvm_process \<times> 's) res"

subsection \<open>Loops of the handler\<close>

text \<open>\<open>for (i = n - 1; i >= 0; i--) if (P(xs[i])) break;\<close>\<close>

fun find_down :: "('a \<Rightarrow> bool) \<Rightarrow> 'a list \<Rightarrow> nat \<Rightarrow> nat option res" where
  "find_down P xs 0 = Inr None"
| "find_down P xs (Suc i) = bindR (rd xs (int i)) (\<lambda>x. if P x then Inr (Some i) else find_down P xs i)"

text \<open>The low bytes of \<open>n\<close> stack entries from index \<open>i\<close> on.\<close>

fun stack_bytes :: "i32 list \<Rightarrow> nat \<Rightarrow> nat \<Rightarrow> u8 list res" where
  "stack_bytes st i 0 = Inr []"
| "stack_bytes st i (Suc n) =
     bindR (rd st (int i)) (\<lambda>v. bindR (stack_bytes st (Suc i) n) (\<lambda>bs. Inr (ucast v # bs)))"

text \<open>The string at \<open>cur\<close> in the heap, at most \<open>n\<close> characters long.\<close>

fun heap_string :: "nvm_process \<Rightarrow> nat \<Rightarrow> nat \<Rightarrow> u8 list res" where
  "heap_string p cur 0 = Inr []"
| "heap_string p cur (Suc n) =
     (if cur < unat (heap_size p) then
        bindR (heap_get p (int cur)) (\<lambda>ch.
        if ch = 0 then Inr [] else bindR (heap_string p (Suc cur) n) (\<lambda>s. Inr (ch # s)))
      else Inr [])"

text \<open>The loop of \<open>SYS_READ\<close>: bytes into the heap up to a zero, the end of the file or of the heap.\<close>

function read_loop :: "'s services \<Rightarrow> i32 \<Rightarrow> nvm_process \<Rightarrow> nat \<Rightarrow> 's \<Rightarrow> (nvm_process \<times> nat \<times> 's) res" where
  "read_loop sv fd p cur k =
     (if cur < unat (heap_size p - 1) then
        (case sv_vfs_readfd sv fd k of ((n, ch), k) \<Rightarrow>
           if n \<noteq> 1 then Inr (p, cur, k)
           else (case heap p of None \<Rightarrow> Inl NullPointer
             | Some (a, hs) \<Rightarrow> bindR (wr hs (int cur) ch) (\<lambda>hs.
                 let p = p\<lparr>heap := Some (a, hs)\<rparr> in
                 if ch = 0 then Inr (p, Suc cur, k) else read_loop sv fd p (Suc cur) k)))
      else Inr (p, cur, k))"
  by pat_completeness auto
termination
  by (relation "measure (\<lambda>(sv, fd, p, cur, k). unat (heap_size p - 1) - cur)") auto

declare read_loop.simps [simp del]

text \<open>The loop of \<open>SYS_WRITE\<close>, with descriptors 1 and 2 going to the console.\<close>

definition write_byte :: "'s services \<Rightarrow> i32 \<Rightarrow> u8 \<Rightarrow> 's \<Rightarrow> u64 \<times> 's" where
  "write_byte sv fd ch k = (if fd = 1 \<or> fd = 2 then (1, sv_tty_puts sv [ch] k) else sv_vfs_writefd sv fd ch k)"

function write_loop :: "'s services \<Rightarrow> i32 \<Rightarrow> nvm_process \<Rightarrow> nat \<Rightarrow> nat \<Rightarrow> 's \<Rightarrow> (i32 \<times> 's) res" where
  "write_loop sv fd p cur written k =
     (if cur < unat (heap_size p) then
        bindR (heap_get p (int cur)) (\<lambda>ch.
        if ch = 0 then Inr (of_nat written, k)
        else (case write_byte sv fd ch k of (n, k) \<Rightarrow>
          if n \<noteq> 1 then Inr (if written = 0 then - 1 else of_nat written, k)
          else write_loop sv fd p (Suc cur) (Suc written) k))
      else Inr (of_nat written, k))"
  by pat_completeness auto
termination
  by (relation "measure (\<lambda>(sv, fd, p, cur, written, k). unat (heap_size p) - cur)") auto

declare write_loop.simps [simp del]

subsection \<open>Calls on one process\<close>

text \<open>The code both \<open>SYS_EXIT\<close> and \<open>SYS_PRINT\<close> end a process with.\<close>

definition release :: "'s services \<Rightarrow> nvm_process \<times> 's \<Rightarrow> nvm_process \<times> 's" where
  "release sv = (\<lambda>(p, k).
     let p = p\<lparr>active := False\<rparr>;
         k = sv_procfs_unregister sv (unat (pid p)) k;
         p = p\<lparr>bytecode := None\<rparr>
     in case heap p of None \<Rightarrow> (p, k) | Some (a, hs) \<Rightarrow> (p\<lparr>heap := None\<rparr>, sv_kfree sv a k))"

definition sys_exit :: "'s services \<Rightarrow> 's syscall" where
  "sys_exit sv = (\<lambda>(p, k).
     bindR (if 1 \<le> uint (sp p) then stack_get p (uint (sp p) - 1) else Inr 0) (\<lambda>code.
     case release sv (p\<lparr>exit_code := code\<rparr>, k) of (p, k) \<Rightarrow>
       Inr (0, if 0 < uint (sp p) then p\<lparr>sp := sp p - 1\<rparr> else p, k)))"

definition sys_open :: "'s services \<Rightarrow> 's syscall" where
  "sys_open sv = (\<lambda>(p, k).
     bindR (caps_has_capability (Some p) CAP_FS_READ) (\<lambda>has.
     if \<not> has then Inr (- 1, p, k)
     else if uint (sp p) < 1 then Inr (- 1, p, k)
     else
       bindR (stack_get p (uint (sp p) - 1)) (\<lambda>offset.
       let p = p\<lparr>sp := sp p - 1\<rparr> in
       if sint offset < 0 \<or> sint (heap_size p) \<le> sint offset then Inr (- 1, p, k)
       else
         bindR (heap_string p (unat offset) (MAX_FILENAME - 1)) (\<lambda>filename.
         if filename = [] then Inr (- 1, p, k)
         else (case sv_vfs_open sv filename VFS_READ k of (fd, k) \<Rightarrow>
           bindR (stack_push p fd) (\<lambda>p. Inr (0, p, k)))))))"

definition sys_write :: "'s services \<Rightarrow> 's syscall" where
  "sys_write sv = (\<lambda>(p, k).
     bindR (caps_has_capability (Some p) CAP_FS_WRITE) (\<lambda>has.
     if \<not> has then Inr (- 1, p, k)
     else if uint (sp p) < 2 then Inr (- 1, p, k)
     else
       bindR (stack_get p (uint (sp p) - 1)) (\<lambda>offset.
       bindR (stack_get p (uint (sp p) - 2)) (\<lambda>fd.
       let p = p\<lparr>sp := sp p - 2\<rparr> in
       if sint fd < 0 \<or> sint offset < 0 \<or> sint (heap_size p) \<le> sint offset then Inr (- 1, p, k)
       else
         bindR (write_loop sv fd p (unat offset) 0 k) (\<lambda>(result, k).
         bindR (stack_push p result) (\<lambda>p. Inr (result, p, k)))))))"

definition sys_delete :: "'s services \<Rightarrow> 's syscall" where
  "sys_delete sv = (\<lambda>(p, k).
     bindR (caps_has_capability (Some p) CAP_FS_DELETE) (\<lambda>has.
     if \<not> has then Inr (- 1, p, k)
     else if uint (sp p) < 1 then Inr (- 1, p, k)
     else
       bindR (find_down (\<lambda>v. v AND 0xFF = 0) (stack p) (unat (sp p))) (\<lambda>r.
       case r of None \<Rightarrow> Inr (- 1, p, k)
       | Some null_pos \<Rightarrow>
           bindR (stack_bytes (stack p) (null_pos + 1) (min (unat (sp p) - (null_pos + 1)) (MAX_FILENAME - 1))) (\<lambda>filename.
           let p = p\<lparr>sp := of_nat null_pos\<rparr> in
           case sv_vfs_delete sv filename k of (result, k) \<Rightarrow> Inr (result, p, k)))))"

definition sys_port_in_byte :: "'s services \<Rightarrow> 's syscall" where
  "sys_port_in_byte sv = (\<lambda>(p, k).
     bindR (caps_has_capability (Some p) CAP_DRV_ACCESS) (\<lambda>has.
     if \<not> has then Inr (- 1, p, k)
     else if sp p = 0 then Inr (- 1, p, k)
     else
       bindR (stack_get p (uint (sp p) - 1)) (\<lambda>port.
       case sv_inb sv (ucast port) k of (val, k) \<Rightarrow>
         bindR (stack_set p (uint (sp p) - 1) (ucast val)) (\<lambda>p. Inr (0, p, k)))))"

definition sys_port_out_byte :: "'s services \<Rightarrow> 's syscall" where
  "sys_port_out_byte sv = (\<lambda>(p, k).
     bindR (caps_has_capability (Some p) CAP_DRV_ACCESS) (\<lambda>has.
     if \<not> has then Inr (- 1, p, k)
     else if uint (sp p) < 2 then Inr (- 1, p, k)
     else
       bindR (stack_get p (uint (sp p) - 2)) (\<lambda>port.
       bindR (stack_get p (uint (sp p) - 1)) (\<lambda>val.
       Inr (0, p\<lparr>sp := sp p - 2\<rparr>, sv_outb sv (ucast port) (ucast val) k)))))"

definition deprecated_msg :: string where
  "deprecated_msg = ''[DEPRECATED] SYS_PRINT is deprecated, killed. Use /dev/tty instead of SYS_PRINT'' @ [CHR 0x0A]"

definition sys_print :: "'s services \<Rightarrow> 's syscall" where
  "sys_print sv = (\<lambda>(p, k).
     if uint (sp p) < 1 then Inr (- 1, p, k)
     else
       let k = sv_tty_puts sv (map of_char deprecated_msg) k;
           p = p\<lparr>sp := sp p - 1, exit_code := - 1\<rparr>
       in case release sv (p, k) of (p, k) \<Rightarrow> Inr (- 1, p, k))"

definition sys_default :: "'s syscall" where
  "sys_default = (\<lambda>(p, k). Inr (0, p\<lparr>exit_code := - 1, active := False\<rparr>, k))"

text \<open>A call on one process, run on the process in slot \<open>i\<close>.\<close>

definition on_proc :: "'s syscall \<Rightarrow> nat \<Rightarrow> 's world \<Rightarrow> (i32 \<times> 's world) res" where
  "on_proc f i w =
     bindR (get_proc w i) (\<lambda>p.
     bindR (f (p, kernel w)) (\<lambda>(r, p, k). Inr (r, (put_proc i p w)\<lparr>kernel := k\<rparr>)))"

subsection \<open>Reading and messages\<close>

definition sys_read :: "'s services \<Rightarrow> nat \<Rightarrow> 's world \<Rightarrow> (i32 \<times> 's world) res" where
  "sys_read sv i w =
     bindR (get_proc w i) (\<lambda>p.
     bindR (caps_has_capability (Some p) CAP_FS_READ) (\<lambda>has.
     if \<not> has then Inr (- 1, w)
     else if uint (sp p) < 1 then Inr (- 1, w)
     else
       bindR (stack_get p (uint (sp p) - 1)) (\<lambda>fd.
       let p = p\<lparr>sp := sp p - 1\<rparr> in
       if sint fd < 0 then Inr (- 1, put_proc i p w)
       else
         bindR (read_loop sv fd p (unat (next_offset w)) (kernel w)) (\<lambda>(p, cur, k).
         if cur < unat (heap_size p) then
           bindR (heap_set p (int cur) 0) (\<lambda>p.
           bindR (stack_push p (next_offset w)) (\<lambda>p.
           Inr (next_offset w, (put_proc i p w)\<lparr>kernel := k, next_offset := of_nat (cur + 1)\<rparr>)))
         else Inr (- 1, (put_proc i p w)\<lparr>kernel := k\<rparr>)))))"

definition sys_msg_send :: "nat \<Rightarrow> 's world \<Rightarrow> (i32 \<times> 's world) res" where
  "sys_msg_send i w =
     bindR (get_proc w i) (\<lambda>p.
     if uint (sp p) < 2 then Inr (- 1, w)
     else
       bindR (stack_get p (uint (sp p) - 2)) (\<lambda>r.
       bindR (stack_get p (uint (sp p) - 1)) (\<lambda>c.
       if MAX_MESSAGES \<le> message_count w then Inr (- 1, w)
       else
         let msg = \<lparr>recipient = ucast r, sender = ucast (pid p), content = ucast c\<rparr> in
         bindR (wr (message_queue w) (int (message_count w)) msg) (\<lambda>q.
         let w = w\<lparr>message_queue := q, message_count := message_count w + 1\<rparr> in
         bindR (search (\<lambda>p. active p \<and> uint (pid p) = uint (recipient msg) \<and> blocked p) (processes w) 0 MAX_PROCESSES) (\<lambda>slot.
         bindR (case slot of None \<Rightarrow> Inr w
                | Some j \<Rightarrow> bindR (get_proc w j) (\<lambda>q. Inr (put_proc j (q\<lparr>blocked := False, wakeup_reason := 1\<rparr>) w))) (\<lambda>w.
         bindR (get_proc w i) (\<lambda>p. Inr (0, put_proc i (p\<lparr>sp := sp p - 2\<rparr>) w))))))))"

definition sys_msg_receive :: "nat \<Rightarrow> 's world \<Rightarrow> (i32 \<times> 's world) res" where
  "sys_msg_receive i w =
     bindR (get_proc w i) (\<lambda>p.
     bindR (search (\<lambda>m. uint (recipient m) = uint (pid p)) (message_queue w) 0 (message_count w)) (\<lambda>found.
     case found of None \<Rightarrow> Inr (- 1, put_proc i (p\<lparr>blocked := True\<rparr>) w)
     | Some j \<Rightarrow>
         if int STACK_SIZE \<le> uint (sp p) + 1 then Inr (- 1, w)
         else
           bindR (rd (message_queue w) (int j)) (\<lambda>msg.
           bindR (shift_down (message_queue w) j (message_count w)) (\<lambda>q.
           bindR (stack_set p (uint (sp p)) (ucast (sender msg))) (\<lambda>p.
           bindR (stack_set p (uint (sp p) + 1) (ucast (content msg))) (\<lambda>p.
           Inr (0, (put_proc i (p\<lparr>sp := sp p + 2\<rparr>) w)\<lparr>message_queue := q, message_count := message_count w - 1\<rparr>)))))))"

subsection \<open>Spawning a process\<close>

text \<open>
  The arguments are strings on the stack, each preceded by a zero, taken from the top down.
  The flag of the result is \<open>alloc_error\<close>; \<open>argv\<close> holds the entries written so far.
\<close>

function spawn_args :: "'s services \<Rightarrow> i32 list \<Rightarrow> nat \<Rightarrow> int \<Rightarrow> buf list \<Rightarrow> 's \<Rightarrow> (bool \<times> buf list \<times> int \<times> 's) res" where
  "spawn_args sv st argc stack_pos argv k =
     (if length argv < argc \<and> 0 \<le> stack_pos then
        bindR (find_down (\<lambda>v. v = 0) st (nat (stack_pos + 1))) (\<lambda>z.
        case z of None \<Rightarrow> Inr (True, argv, - 1, k)
        | Some j \<Rightarrow>
            if stack_pos < int j + 1 then Inr (True, argv, int j, k)
            else
              let len = nat (stack_pos - int j) in
              case sv_kmalloc sv (of_nat (len + 1)) k of (a, k) \<Rightarrow>
                if a = 0 then Inr (True, argv, int j, k)
                else bindR (stack_bytes st (j + 1) len) (\<lambda>bs.
                  spawn_args sv st argc (int j - 1) (argv @ [(a, bs @ [0])]) k))
      else Inr (False, argv, stack_pos, k))"
  by pat_completeness auto
termination
  by (relation "measure (\<lambda>(sv, st, argc, stack_pos, argv, k). argc - length argv)") auto

declare spawn_args.simps [simp del]

definition free_all :: "'s services \<Rightarrow> buf list \<Rightarrow> 's \<Rightarrow> 's" where
  "free_all sv argv k = fold (\<lambda>b. sv_kfree sv (fst b)) argv k"

text \<open>\<open>for (i = 0; i < argc; i++) kfree(argv[i]);\<close> reads entries that were perhaps never written.\<close>

definition free_argv :: "'s services \<Rightarrow> nat \<Rightarrow> buf list \<Rightarrow> 's \<Rightarrow> 's res" where
  "free_argv sv argc argv k = (if length argv < argc then Inl Uninitialised else Inr (free_all sv argv k))"

text \<open>
  The code is read byte by byte into a buffer that doubles when it is full.  The result is
  the buffer, or \<open>None\<close> after a failed allocation; a file without end makes the loop diverge.
\<close>

partial_function (option) read_code ::
    "'s services \<Rightarrow> i32 \<Rightarrow> u64 \<Rightarrow> u8 list \<Rightarrow> u64 \<Rightarrow> 's \<Rightarrow> (buf option \<times> 's) option" where
  "read_code sv fd a bs allocated k =
     (let ((n, c), k) = sv_vfs_readfd sv fd k in
      if n \<noteq> 1 then Some (Some (a, bs), k)
      else if allocated \<le> of_nat (length bs) then
        (let (a', k) = sv_kmalloc sv (allocated * 2) k in
         if a' = 0 then Some (None, sv_kfree sv a k)
         else read_code sv fd a' (bs @ [c]) (allocated * 2) (sv_kfree sv a k))
      else read_code sv fd a (bs @ [c]) allocated k)"

text \<open>
  The tail of the call, once the code is read: create the process, copy capabilities, pass
  the arguments on.  Only the bytes read from the file have been written to the code buffer.
\<close>

definition spawn_process :: "'s services \<Rightarrow> nat \<Rightarrow> nat \<Rightarrow> buf list \<Rightarrow> buf \<Rightarrow> 's world \<Rightarrow> (i32 \<times> 's world) res" where
  "spawn_process sv i argc argv b w =
     (if length (snd b) < 4 \<and> snd b = take (length (snd b)) signature_bytes then Inl Uninitialised
      else
        bindR (nvm_create_process sv b (of_nat (length (snd b))) [CAPS_NONE] 1 w) (\<lambda>(new_pid, w).
        if new_pid < 0 then
          bindR (free_argv sv argc argv (sv_kfree sv (fst b) (kernel w))) (\<lambda>k. Inr (- 1, w\<lparr>kernel := k\<rparr>))
        else
          bindR (get_proc w i) (\<lambda>p.
          bindR (nvm_get_process w (pid p)) (\<lambda>dest.
          bindR (nvm_get_process w (word_of_int new_pid)) (\<lambda>src.
          bindR (caps_copy (Some dest) (Some src)) (\<lambda>(ok, dest').
          let w = (case dest' of None \<Rightarrow> w | Some d \<Rightarrow> put_proc (unat (pid p)) d w) in
          if length argv < argc then Inl Uninitialised
          else
            let k = sv_procfs_set_args sv new_pid (if 1 < argc then map snd (tl argv) else []) (kernel w) in
            bindR (free_argv sv argc argv k) (\<lambda>k. Inr (word_of_int new_pid, w\<lparr>kernel := k\<rparr>))))))))"

definition sys_spawn :: "'s services \<Rightarrow> nat \<Rightarrow> 's world \<Rightarrow> (i32 \<times> 's world) res" where
  "sys_spawn sv i w =
     bindR (get_proc w i) (\<lambda>p.
     bindR (caps_has_capability (Some p) CAP_FS_READ) (\<lambda>has.
     if \<not> has then Inr (- 1, w)
     else if uint (sp p) < 1 then Inr (- 1, w)
     else
       bindR (stack_get p (uint (sp p) - 1)) (\<lambda>target_fd.
       bindR (stack_get p (uint (sp p) - 2)) (\<lambda>argc.
       if sint argc < 0 \<or> 32 < sint argc then Inr (- 1, w)
       else
         let p = p\<lparr>sp := sp p - 2\<rparr>; argc = nat (sint argc) in
         bindR (spawn_args sv (stack p) argc (uint (sp p) - 1) [] (kernel w)) (\<lambda>(alloc_error, argv, stack_pos, k).
         if alloc_error then Inr (- 1, (put_proc i p w)\<lparr>kernel := free_all sv argv k\<rparr>)
         else
           let w = put_proc i (p\<lparr>sp := word_of_int (stack_pos + 1)\<rparr>) w in
           case sv_kmalloc sv 1024 k of (a, k) \<Rightarrow>
             if a = 0 then bindR (free_argv sv argc argv k) (\<lambda>k. Inr (- 1, w\<lparr>kernel := k\<rparr>))
             else (case read_code sv target_fd a [] 1024 k of
               None \<Rightarrow> Inl Diverges
             | Some (None, k) \<Rightarrow> bindR (free_argv sv argc argv k) (\<lambda>k. Inr (- 1, w\<lparr>kernel := k\<rparr>))
             | Some (Some b, k) \<Rightarrow> spawn_process sv i argc argv b (w\<lparr>kernel := k\<rparr>)))))))"

subsection \<open>Dispatch\<close>

definition syscall_handler :: "'s services \<Rightarrow> u8 \<Rightarrow> nat \<Rightarrow> 's world \<Rightarrow> (i32 \<times> 's world) res" where
  "syscall_handler sv syscall_id i w =
     (if syscall_id = 0x00 then on_proc (sys_exit sv) i w
      else if syscall_id = 0x01 then sys_spawn sv i w
      else if syscall_id = 0x02 then on_proc (sys_open sv) i w
      else if syscall_id = 0x03 then sys_read sv i w
      else if syscall_id = 0x04 then on_proc (sys_write sv) i w
      else if syscall_id = 0x06 then on_proc (sys_delete sv) i w
      else if syscall_id = 0x0A then sys_msg_send i w
      else if syscall_id = 0x0B then sys_msg_receive i w
      else if syscall_id = 0x0C then on_proc (sys_port_in_byte sv) i w
      else if syscall_id = 0x0D then on_proc (sys_port_out_byte sv) i w
      else if syscall_id = 0x0E then on_proc (sys_print sv) i w
      else on_proc sys_default i w)"

subsection \<open>The loops return\<close>

text \<open>The heap of a process covers its recorded size.\<close>

definition heap_ok :: "nvm_process \<Rightarrow> bool" where
  "heap_ok p \<longleftrightarrow> (\<exists>a hs. heap p = Some (a, hs) \<and> length hs = unat (heap_size p))"

lemma wf_heap_ok: "wf_proc p \<Longrightarrow> active p \<Longrightarrow> heap p \<noteq> None \<Longrightarrow> heap_ok p \<and> unat (heap_size p) = HEAP_SIZE"
proof -
  assume a: "wf_proc p" "active p" "heap p \<noteq> None"
  then have "uint (heap_size p) = int HEAP_SIZE" by (simp add: wf_proc_def)
  then have "unat (heap_size p) = HEAP_SIZE" by (metis nat_int nat_uint_eq)
  with a show ?thesis by (auto simp: heap_ok_def wf_proc_def buf_len_def)
qed

lemma heap_ok_sp [simp]: "heap_ok (p\<lparr>sp := s\<rparr>) = heap_ok p"
  by (simp add: heap_ok_def)

lemma find_down_total:
  "n \<le> length xs \<Longrightarrow> (\<exists>r. find_down P xs n = Inr r \<and> (\<forall>j. r = Some j \<longrightarrow> j < n))"
  by (induction n) (auto simp: rd_nat less_Suc_eq)

lemma find_down_Some:
  "find_down P xs n = Inr (Some j) \<Longrightarrow> j < n \<and> j < length xs \<and> P (xs ! j) \<and> (\<forall>k. j < k \<and> k < n \<longrightarrow> \<not> P (xs ! k))"
proof (induction n)
  case (Suc n)
  then show ?case
    by (auto simp: res_iff less_Suc_eq split: if_splits)
qed simp

lemma stack_bytes_eq:
  "i + n \<le> length st \<Longrightarrow> stack_bytes st i n = Inr (map ucast (take n (drop i st)))"
proof (induction n arbitrary: i)
  case (Suc n)
  then have "drop i st = st ! i # drop (Suc i) st" by (intro Cons_nth_drop_Suc [symmetric]) simp
  with Suc show ?case by (simp add: rd_nat)
qed simp

lemma heap_string_total: "heap_ok p \<Longrightarrow> \<exists>s. heap_string p cur n = Inr s \<and> length s \<le> n"
proof (induction n arbitrary: cur)
  case (Suc n)
  then obtain a hs where h: "heap p = Some (a, hs)" "length hs = unat (heap_size p)" by (auto simp: heap_ok_def)
  obtain s where "heap_string p (Suc cur) n = Inr s" "length s \<le> n" using Suc by blast
  with h show ?case by (auto simp: heap_get_def rd_nat)
qed simp

lemma write_loop_total: "heap_ok p \<Longrightarrow> \<exists>r k'. write_loop sv fd p cur n k = Inr (r, k')"
proof (induction sv fd p cur n k rule: write_loop.induct)
  case (1 sv fd p cur n k)
  then obtain a hs where h: "heap p = Some (a, hs)" "length hs = unat (heap_size p)" by (auto simp: heap_ok_def)
  with 1 show ?case
    by (cases "cur < unat (heap_size p)"; cases "hs ! cur = 0"; cases "write_byte sv fd (hs ! cur) k")
      (auto simp: write_loop.simps [of sv fd p cur n k] heap_get_def rd_nat)
qed

lemma read_loop_total:
  "heap p = Some (a, hs) \<Longrightarrow> length hs = unat (heap_size p) \<Longrightarrow> cur \<le> unat (heap_size p) \<Longrightarrow> 0 < unat (heap_size p) \<Longrightarrow>
   \<exists>hs' cur' k'. read_loop sv fd p cur k = Inr (p\<lparr>heap := Some (a, hs')\<rparr>, cur', k') \<and>
     length hs' = length hs \<and> cur' \<le> unat (heap_size p)"
proof (induction sv fd p cur k arbitrary: hs rule: read_loop.induct)
  case (1 sv fd p cur k)
  obtain n ch k' where r: "sv_vfs_readfd sv fd k = ((n, ch), k')" by (metis surj_pair)
  have "heap_size p \<noteq> 0" using "1.prems"(4) by auto
  then have s: "unat (heap_size p - 1) = unat (heap_size p) - 1" by (rule unat_minus_one)
  show ?case
  proof (cases "cur < unat (heap_size p - 1) \<and> n = 1")
    case True
    let ?q = "p\<lparr>heap := Some (a, hs[cur := ch])\<rparr>"
    from True s have "cur < unat (heap_size p) - 1" by simp
    then have c: "cur < length hs" "Suc cur \<le> unat (heap_size p)" using "1.prems"(2) by linarith+
    then have w: "wr hs (int cur) ch = Inr (hs[cur := ch])" by (intro wr_nat)
    have step: "read_loop sv fd p cur k = (if ch = 0 then Inr (?q, Suc cur, k') else read_loop sv fd ?q (Suc cur) k')"
      using True w r "1.prems"(1) by (simp add: read_loop.simps [of sv fd p cur k])
    show ?thesis
    proof (cases "ch = 0")
      case True with step c show ?thesis by auto
    next
      case False
      have "\<exists>hs' cur' k''. read_loop sv fd ?q (Suc cur) k' = Inr (?q\<lparr>heap := Some (a, hs')\<rparr>, cur', k'') \<and>
          length hs' = length (hs[cur := ch]) \<and> cur' \<le> unat (heap_size ?q)"
        by (rule "1.IH" [OF _ r [symmetric] refl _ _ refl w refl]) (use True False c "1.prems" in simp_all)
      with step False show ?thesis by simp
    qed
  next
    case False
    then have "read_loop sv fd p cur k = Inr (p, cur, k) \<or> read_loop sv fd p cur k = Inr (p, cur, k')"
      using r by (auto simp: read_loop.simps [of sv fd p cur k])
    moreover have "p = p\<lparr>heap := Some (a, hs)\<rparr>" using "1.prems"(1) by (cases p) simp
    ultimately show ?thesis using "1.prems" by metis
  qed
qed

subsection \<open>Calls on one process\<close>

text \<open>The contract of a call on one process: it faults only if it uses the heap and
  the process has none, keeps the
  process well formed and changes neither its number nor its capabilities.\<close>

definition syscall_post :: "nvm_process \<Rightarrow> nvm_process \<Rightarrow> bool" where
  "syscall_post p p' \<longleftrightarrow> wf_proc p' \<and> pid p' = pid p \<and> capabilities p' = capabilities p \<and> caps_count p' = caps_count p"

lemma own_step:
  assumes "wf_world w" "i < MAX_PROCESSES" "active (processes w ! i)" "syscall_post (processes w ! i) p'"
  shows "wf_world (put_proc i p' w)" and "frame i w (put_proc i p' w)"
  using assms wf_world_get [OF assms(1,2)]
  by (auto intro!: wf_world_put frame_put simp: slot_frame_def syscall_post_def capset_def)

locale nvm_syscall =
  fixes f :: "'s syscall" and uses_heap :: bool
  assumes contract: "wf_proc p \<Longrightarrow> active p \<Longrightarrow> wp (f (p, k)) (\<lambda>_. uses_heap \<and> heap p = None) (\<lambda>(r, p', k'). syscall_post p p')"
begin

lemma on_proc_post:
  assumes "wf_world w" "i < MAX_PROCESSES" "active (processes w ! i)"
  shows "wp (on_proc f i w) (\<lambda>_. uses_heap \<and> heap (processes w ! i) = None) (\<lambda>(r, w'). wf_world w' \<and> frame i w w')"
proof -
  note g = wf_world_get [OF assms(1,2)]
  have "wp (f (processes w ! i, kernel w)) (\<lambda>_. uses_heap \<and> heap (processes w ! i) = None)
      (\<lambda>(r, p', k'). syscall_post (processes w ! i) p')"
    by (rule contract [OF g(2) assms(3)])
  then show ?thesis
    using own_step [OF assms] g(1) by (auto simp: on_proc_def wps wp_def split: sum.splits)
qed

end

lemmas syscall_wps = wps Let_def nvm_consts syscall_post_def sp_arith caps_has_iff

interpretation default_s: nvm_syscall sys_default False
  by unfold_locales (auto simp: sys_default_def syscall_wps intro!: wf_upd)

lemma release_post:
  "wf_proc p \<Longrightarrow> syscall_post p (fst (release sv (p, k)))"
  by (cases "heap p") (auto simp: release_def syscall_post_def wf_proc_def)

lemma release_sp: "sp (fst (release sv (p, k))) = sp p"
  by (cases "heap p") (auto simp: release_def)

interpretation exit_s: nvm_syscall "sys_exit sv" False for sv
proof unfold_locales
  fix p k assume a: "wf_proc p" "active p"
  have "wp (if 1 \<le> uint (sp p) then stack_get p (uint (sp p) - 1) else Inr 0) (\<lambda>_. False) (\<lambda>_. True)"
    using wf_sp [OF a(1)] by (simp add: wps)
  then obtain c where c: "(if 1 \<le> uint (sp p) then stack_get p (uint (sp p) - 1) else Inr 0) = Inr c"
    by (auto simp: wp_total)
  obtain p' k' where r: "release sv (p\<lparr>exit_code := c\<rparr>, k) = (p', k')" by force
  then have p: "syscall_post p p'" "sp p' = sp p"
    using release_post [of "p\<lparr>exit_code := c\<rparr>" sv k] release_sp [of sv "p\<lparr>exit_code := c\<rparr>" k] a
    by (auto simp: syscall_post_def intro!: wf_upd)
  with r c wf_sp [OF a(1)] show "wp (sys_exit sv (p, k)) (\<lambda>_. False \<and> heap p = None) (\<lambda>(r, p', k'). syscall_post p p')"
    by (auto simp: sys_exit_def wps syscall_post_def sp_arith intro!: wf_upd)
qed

interpretation print_s: nvm_syscall "sys_print sv" False for sv
proof unfold_locales
  fix p k assume a: "wf_proc p" "active p"
  show "wp (sys_print sv (p, k)) (\<lambda>_. False \<and> heap p = None) (\<lambda>(r, p', k'). syscall_post p p')"
  proof (cases "uint (sp p) < 1")
    case True
    with a show ?thesis by (simp add: sys_print_def syscall_wps)
  next
    case False
    let ?k = "sv_tty_puts sv (map of_char deprecated_msg) k" and ?p = "p\<lparr>sp := sp p - 1, exit_code := - 1\<rparr>"
    obtain p' k' where r: "release sv (?p, ?k) = (p', k')" by force
    have "wf_proc ?p" using False wf_sp [OF a(1)] a by (auto simp: sp_arith intro!: wf_upd)
    then have "syscall_post ?p p'" using release_post [of ?p sv ?k] r by simp
    with False r show ?thesis by (simp add: sys_print_def wps syscall_post_def)
  qed
qed

interpretation port_in_s: nvm_syscall "sys_port_in_byte sv" False for sv
proof unfold_locales
  fix p k assume a: "wf_proc p" "active p"
  show "wp (sys_port_in_byte sv (p, k)) (\<lambda>_. False \<and> heap p = None) (\<lambda>(r, p', k'). syscall_post p p')"
    using a wf_sp [OF a(1)] sp_zero [of "sp p"]
    by (auto simp: sys_port_in_byte_def syscall_wps split: prod.splits intro!: wf_upd)
qed

interpretation port_out_s: nvm_syscall "sys_port_out_byte sv" False for sv
proof unfold_locales
  fix p k assume a: "wf_proc p" "active p"
  show "wp (sys_port_out_byte sv (p, k)) (\<lambda>_. False \<and> heap p = None) (\<lambda>(r, p', k'). syscall_post p p')"
    using a wf_sp [OF a(1)]
    by (auto simp: sys_port_out_byte_def syscall_wps intro!: wf_upd)
qed

interpretation open_s: nvm_syscall "sys_open sv" True for sv
proof unfold_locales
  fix p k assume a: "wf_proc p" "active p"
  have h: "wp (heap_string (p\<lparr>sp := s\<rparr>) cur n) (\<lambda>_. heap p = None) Q" if "\<And>x. Q x" for s cur n Q
    using heap_string_total [of "p\<lparr>sp := s\<rparr>" cur n] wf_heap_ok [OF a] that
    by (cases "heap p") (auto simp: wp_def split: sum.split)
  show "wp (sys_open sv (p, k)) (\<lambda>_. True \<and> heap p = None) (\<lambda>(r, p', k'). syscall_post p p')"
    using a wf_sp [OF a(1)]
    by (auto simp: sys_open_def syscall_wps split: prod.splits intro!: wf_upd h)
qed

interpretation write_s: nvm_syscall "sys_write sv" True for sv
proof unfold_locales
  fix p k assume a: "wf_proc p" "active p"
  have h: "wp (write_loop sv fd (p\<lparr>sp := s\<rparr>) cur n k) (\<lambda>_. heap p = None) Q" if "\<And>x k. Q (x, k)" for s fd cur n Q
    using write_loop_total [of "p\<lparr>sp := s\<rparr>" sv fd cur n k] wf_heap_ok [OF a] that
    by (cases "heap p") (auto simp: wp_def split: sum.split)
  show "wp (sys_write sv (p, k)) (\<lambda>_. True \<and> heap p = None) (\<lambda>(r, p', k'). syscall_post p p')"
    using a wf_sp [OF a(1)]
    by (auto simp: sys_write_def syscall_wps uint_minus_small uint_inc intro!: wf_upd h)
qed

interpretation delete_s: nvm_syscall "sys_delete sv" False for sv
proof unfold_locales
  fix p k assume a: "wf_proc p" "active p"
  note w = wf_sp [OF a(1)]
  then have n: "unat (sp p) \<le> length (stack p)" by (simp add: unat_le_uint)
  obtain r where r: "find_down (\<lambda>v. v AND 0xFF = 0) (stack p) (unat (sp p)) = Inr r" "\<forall>j. r = Some j \<longrightarrow> j < unat (sp p)"
    using find_down_total [OF n] by blast
  have s: "wp (stack_bytes (stack p) (j + 1) (min (unat (sp p) - (j + 1)) m)) F Q"
    if "j < unat (sp p)" "\<And>x. Q x" for j m F Q
    using that n by (simp add: stack_bytes_eq wp_Inr)
  have u: "uint (of_nat j :: u16) \<le> 1024" if "j < unat (sp p)" for j
  proof -
    from that n w have "j \<le> 1024" by simp
    then show ?thesis by (simp add: uint_nat unat_of_nat take_bit_nat_eq_self)
  qed
  show "wp (sys_delete sv (p, k)) (\<lambda>_. False \<and> heap p = None) (\<lambda>(r, p', k'). syscall_post p p')"
    using a r by (cases r) (auto simp: sys_delete_def syscall_wps split: prod.splits intro!: wf_upd u s [simplified])
qed

subsection \<open>Reading and messages\<close>

lemma wf_world_next: "wf_world w \<Longrightarrow> n \<le> HEAP_SIZE \<Longrightarrow> wf_world (w\<lparr>next_offset := of_nat n\<rparr>)"
  by (simp add: wf_world_def unat_of_nat take_bit_nat_eq_self nvm_consts)

lemma sys_read_heap:
  assumes "wf_world w" "i < MAX_PROCESSES" "active (processes w ! i)" "heap (processes w ! i) \<noteq> None"
  shows "\<exists>r w'. sys_read sv i w = Inr (r, w') \<and> wf_world w' \<and> frame i w w'"
proof -
  let ?p = "processes w ! i"
  note g = wf_world_get [OF assms(1,2)] and own = own_step [OF assms(1-3)]
  note wfp = g(2) and w = wf_sp [OF g(2)]
  have has: "caps_has_capability (Some ?p) CAP_FS_READ = Inr (CAP_ALL \<in> capset ?p \<or> 0 \<le> sint CAP_FS_READ \<and> CAP_FS_READ \<in> capset ?p)"
    by (rule caps_has_iff [OF wfp])
  show ?thesis
  proof (cases "uint (sp ?p) < 1 \<or> \<not> (CAP_ALL \<in> capset ?p \<or> 0 \<le> sint CAP_FS_READ \<and> CAP_FS_READ \<in> capset ?p)")
    case True
    with assms has g(1) show ?thesis by (auto simp: sys_read_def)
  next
    case False
    let ?fd = "stack ?p ! nat (uint (sp ?p) - 1)" and ?q = "?p\<lparr>sp := sp ?p - 1\<rparr>"
    from False w have sp: "stack_get ?p (uint (sp ?p) - 1) = Inr ?fd" "uint (sp ?p - 1) = uint (sp ?p) - 1"
      by (simp_all add: stack_get_def rd_ok sp_arith)
    have q: "syscall_post ?p ?q" using sp w wfp by (auto simp: syscall_post_def intro!: wf_upd)
    obtain a hs where h: "heap ?p = Some (a, hs)" "length hs = unat (heap_size ?p)" "unat (heap_size ?p) = HEAP_SIZE"
      using wf_heap_ok [OF wfp assms(3,4)] by (auto simp: heap_ok_def)
    obtain hs' cur k' where l: "read_loop sv ?fd ?q (unat (next_offset w)) (kernel w) = Inr (?q\<lparr>heap := Some (a, hs')\<rparr>, cur, k')"
        "length hs' = length hs" "cur \<le> HEAP_SIZE"
      using read_loop_total [of ?q a hs "unat (next_offset w)" sv ?fd "kernel w"] h assms(1)
      by (auto simp: wf_world_def nvm_consts)
    let ?r = "\<lambda>hs. ?q\<lparr>heap := Some (a, hs)\<rparr>"
    have r: "syscall_post ?p (?r hs'')" if "length hs'' = length hs" for hs''
      using q h that by (auto simp: syscall_post_def buf_len_def intro!: wf_upd)
    show ?thesis
    proof (cases "sint ?fd < 0 \<or> \<not> cur < HEAP_SIZE")
      case True
      with False has g(1) sp l h own [OF q] own [OF r [OF l(2)]] show ?thesis
        by (cases "sint ?fd < 0") (auto simp: sys_read_def Let_def)
    next
      case fits: False
      let ?hs = "hs'[cur := 0]"
      let ?s = "(?r ?hs)\<lparr>stack := (stack ?p)[nat (uint (sp ?p) - 1) := next_offset w], sp := sp ?p - 1 + 1\<rparr>"
      have hset: "heap_set (?r hs') (int cur) 0 = Inr (?r ?hs)"
        using fits l(2) h by (simp add: heap_set_def wr_nat)
      have push: "stack_push (?r ?hs) (next_offset w) = Inr ?s"
        using False w sp(2) by (simp add: stack_push_def stack_set_def wr_ok)
      have "syscall_post ?p ?s"
        using wfp h(1) l(2) w sp(2) by (auto simp: syscall_post_def buf_len_def intro!: wf_upd)
      note o = own [OF this]
      have "sys_read sv i w = Inr (next_offset w, (put_proc i ?s w)\<lparr>kernel := k', next_offset := of_nat (cur + 1)\<rparr>)"
        using False has g(1) sp l h fits hset push by (simp add: sys_read_def)
      moreover have "wf_world ((put_proc i ?s w)\<lparr>kernel := k', next_offset := of_nat (cur + 1)\<rparr>)"
        using o fits by (intro wf_world_next) auto
      ultimately show ?thesis using o by auto
    qed
  qed
qed

text \<open>Without a heap the call returns only when it has nothing to store.\<close>

lemma read_loop_null:
  "read_loop sv fd p cur k = Inr (p', cur', k') \<Longrightarrow> heap p = None \<Longrightarrow> p' = p"
  by (subst (asm) read_loop.simps) (auto split: prod.splits if_splits)

lemma sys_read_null:
  assumes "wf_world w" "i < MAX_PROCESSES" "active (processes w ! i)" "heap (processes w ! i) = None"
    "sys_read sv i w = Inr (r, w')"
  shows "wf_world w' \<and> frame i w w'"
proof -
  let ?p = "processes w ! i"
  let ?q = "?p\<lparr>sp := sp ?p - 1\<rparr>"
  note g = wf_world_get [OF assms(1,2)]
  have "w' = w \<or> 1 \<le> uint (sp ?p) \<and> (\<exists>k. w' = (put_proc i ?q w)\<lparr>kernel := k\<rparr> \<or> w' = put_proc i ?q w)"
    using assms(4,5) g(1)
    by (auto simp: sys_read_def bindR_Inr_iff Let_def heap_set_def dest!: read_loop_null split: if_splits)
  moreover have "syscall_post ?p ?q" if "1 \<le> uint (sp ?p)"
    using that wf_sp [OF g(2)] g(2) by (auto simp: syscall_post_def sp_arith intro!: wf_upd)
  ultimately show ?thesis using own_step [OF assms(1-3)] assms(1) by auto
qed

lemma sys_read_post:
  assumes "wf_world w" "i < MAX_PROCESSES" "active (processes w ! i)"
  shows "wp (sys_read sv i w) (\<lambda>_. heap (processes w ! i) = None) (\<lambda>(r, w'). wf_world w' \<and> frame i w w')"
proof (cases "heap (processes w ! i)")
  case None
  with sys_read_null [OF assms, of sv] show ?thesis by (auto simp: wp_def split: sum.split)
next
  case (Some h)
  with sys_read_heap [OF assms, of sv] show ?thesis by (auto simp: wp_def)
qed

lemma sys_msg_receive_post:
  assumes "wf_world w" "i < MAX_PROCESSES" "active (processes w ! i)"
  shows "\<exists>r w'. sys_msg_receive i w = Inr (r, w') \<and> wf_world w' \<and> frame i w w'"
proof -
  let ?p = "processes w ! i" and ?q = "message_queue w" and ?n = "message_count w"
  note g = wf_world_get [OF assms(1,2)] and own = own_step [OF assms]
  note w = wf_sp [OF g(2)]
  have q: "length ?q = MAX_MESSAGES" "?n \<le> length ?q" using assms(1) by (simp_all add: wf_world_def)
  obtain r where r: "search (\<lambda>m. uint (recipient m) = uint (pid ?p)) ?q 0 ?n = Inr r"
    using search_total [OF q(2)] by blast
  show ?thesis
  proof (cases r)
    case None
    have "syscall_post ?p (?p\<lparr>blocked := True\<rparr>)" using g(2) by (auto simp: syscall_post_def wf_proc_def)
    with own r None g(1) show ?thesis by (simp add: sys_msg_receive_def)
  next
    case (Some j)
    with r have j: "j < ?n" "j < length ?q" by (auto dest: search_Some)
    obtain q' where q': "shift_down ?q j ?n = Inr q'" "length q' = length ?q"
      using shift_down_eq [OF j(1) q(2)] shift_down_length [of ?q j ?n] by metis
    show ?thesis
    proof (cases "int STACK_SIZE \<le> uint (sp ?p) + 1")
      case True
      with r Some g(1) assms(1) show ?thesis by (simp add: sys_msg_receive_def)
    next
      case False
      then have u: "uint (sp ?p) + 2 \<le> 1024" by (simp add: nvm_consts)
      then have u': "uint (sp ?p + 2) \<le> 1024" by (simp add: uint_plus_small)
      let ?st = "(stack ?p)[unat (sp ?p) := ucast (sender (?q ! j)), nat (uint (sp ?p) + 1) := ucast (content (?q ! j))]"
      have p: "syscall_post ?p (?p\<lparr>stack := ?st, sp := sp ?p + 2\<rparr>)"
        using g(2) u' w by (auto simp: syscall_post_def intro!: wf_upd)
      have "sys_msg_receive i w = Inr (0, (put_proc i (?p\<lparr>stack := ?st, sp := sp ?p + 2\<rparr>) w)\<lparr>message_queue := q', message_count := ?n - 1\<rparr>)"
        using r Some g(1) j False u w q' by (simp add: sys_msg_receive_def rd_nat stack_set_def wr_ok)
      with own [OF p] q q' show ?thesis by (auto simp: wf_world_def)
    qed
  qed
qed

lemma frame_wake:
  assumes "j < length (processes w)"
  shows "frame i w (put_proc j (wake (processes w ! j)) w)"
  by (rule frame_put) (auto simp: slot_frame_def wake_def capset_def)

lemma wf_world_wake:
  assumes "wf_world w" "j < MAX_PROCESSES"
  shows "wf_world (put_proc j (wake (processes w ! j)) w)"
  using wf_world_get [OF assms] by (intro wf_world_put assms) (auto simp: wake_def wf_proc_def)

lemma sys_msg_send_post:
  assumes "wf_world w" "i < MAX_PROCESSES" "active (processes w ! i)"
  shows "\<exists>r w'. sys_msg_send i w = Inr (r, w') \<and> wf_world w' \<and> frame i w w'"
proof -
  let ?p = "processes w ! i" and ?q = "message_queue w" and ?n = "message_count w"
  note g = wf_world_get [OF assms(1,2)]
  note w = wf_sp [OF g(2)]
  have len: "length (processes w) = MAX_PROCESSES" "length ?q = MAX_MESSAGES" using assms(1) by (simp_all add: wf_world_def)
  show ?thesis
  proof (cases "uint (sp ?p) < 2 \<or> MAX_MESSAGES \<le> ?n")
    case True
    with g(1) w assms(1) show ?thesis by (auto simp: sys_msg_send_def stack_get_def rd_ok)
  next
    case False
    let ?r = "stack ?p ! nat (uint (sp ?p) - 2)" and ?c = "stack ?p ! nat (uint (sp ?p) - 1)"
    let ?m = "\<lparr>recipient = ucast ?r, sender = ucast (pid ?p), content = ucast ?c\<rparr>"
    let ?P = "\<lambda>p. active p \<and> uint (pid p) = uint (recipient ?m) \<and> blocked p"
    let ?w1 = "w\<lparr>message_queue := ?q[?n := ?m], message_count := ?n + 1\<rparr>"
    obtain slot where s: "search ?P (processes w) 0 MAX_PROCESSES = Inr slot"
      using search_total [of MAX_PROCESSES "processes w"] len by auto
    have w1: "wf_world ?w1" using assms(1) False by (auto simp: wf_world_def)
    define w2 where "w2 = (case slot of None \<Rightarrow> ?w1 | Some j \<Rightarrow> put_proc j (wake (processes ?w1 ! j)) ?w1)"
    have j: "j < MAX_PROCESSES" if "slot = Some j" for j using s that by (auto dest: search_Some)
    have w2: "wf_world w2" "frame i ?w1 w2" "processes w2 ! i = ?p \<or> processes w2 ! i = wake ?p"
      using w1 j len wf_world_wake [OF w1] frame_wake [of _ ?w1 i] assms(2)
      by (auto simp: w2_def nth_update split: option.split)
    have a2: "active (processes w2 ! i)" using w2(3) assms(3) by (auto simp: wake_def)
    let ?p2 = "(processes w2 ! i)\<lparr>sp := sp (processes w2 ! i) - 2\<rparr>"
    have "sys_msg_send i w = Inr (0, put_proc i ?p2 w2)"
      using g(1) w False len s w2(1) assms(2) j
      by (auto simp: sys_msg_send_def stack_get_def rd_ok wr_nat w2_def wake_def get_proc_ok nth_update split: option.splits)
    moreover have "syscall_post (processes w2 ! i) ?p2"
      using wf_world_get(2) [OF w2(1) assms(2)] w False w2(3)
      by (auto simp: syscall_post_def wake_def sp_arith intro!: wf_upd)
    note o = own_step [OF w2(1) assms(2) a2 this]
    moreover have "frame i w ?w1" by simp
    ultimately show ?thesis using w2(2) frame_trans by blast
  qed
qed

subsection \<open>Spawning\<close>

text \<open>Every file ends before its length exceeds the 32-bit code size.\<close>

definition short_files :: "'s services \<Rightarrow> bool" where
  "short_files sv \<longleftrightarrow> (\<forall>fd a n k b k'. read_code sv fd a [] n k = Some (Some b, k') \<longrightarrow> length (snd b) + 4 < 2 ^ 32)"

lemma spawn_args_pos:
  "spawn_args sv st argc pos argv k = Inr (False, argv', pos', k') \<Longrightarrow> - 1 \<le> pos \<Longrightarrow> - 1 \<le> pos' \<and> pos' \<le> pos"
proof (induction sv st argc pos argv k rule: spawn_args.induct)
  case (1 sv st argc pos argv k)
  show ?case
  proof (cases "length argv < argc \<and> 0 \<le> pos")
    case False
    with "1.prems" show ?thesis by (auto simp: spawn_args.simps [of sv st argc pos argv k])
  next
    case True
    note step = spawn_args.simps [of sv st argc pos argv k]
    from True "1.prems"(1) obtain z where z: "find_down (\<lambda>v. v = 0) st (nat (pos + 1)) = Inr z"
      by (auto simp: step bindR_Inr_iff simp del: bindR.simps)
    with True "1.prems"(1) obtain j where j1: "z = Some j" "\<not> pos < int j + 1"
      by (cases z) (auto simp: step split: if_splits)
    obtain a k1 where m: "sv_kmalloc sv (of_nat (nat (pos - int j) + 1)) k = (a, k1)" by force
    with True "1.prems"(1) z j1 have "a \<noteq> 0" by (auto simp: step simp del: of_nat_nat)
    with True "1.prems"(1) z j1 m obtain bs where bs: "stack_bytes st (j + 1) (nat (pos - int j)) = Inr bs"
        "spawn_args sv st argc (int j - 1) (argv @ [(a, bs @ [0])]) k1 = Inr (False, argv', pos', k')"
      by (auto simp: step bindR_Inr_iff Let_def simp del: of_nat_nat)
    note j = z [unfolded j1(1)] j1(2) m \<open>a \<noteq> 0\<close> bs
    from find_down_Some [OF j(1)] True have jp: "int j \<le> pos" by auto
    have "- 1 \<le> pos' \<and> pos' \<le> int j - 1"
      by (rule "1.IH" [OF True j(1) refl j(2) refl j(3) [symmetric] j(4,5,6)]) simp
    with jp show ?thesis by auto
  qed
qed

lemma caps_copied:
  assumes "wf_proc d" "wf_proc s"
    and d'_def: "d' = d\<lparr>caps_count := caps_count s, capabilities := take (unat (caps_count s)) (capabilities s)
       @ drop (unat (caps_count s)) (capabilities d)\<rparr>"
  shows "wf_proc d'" and "capset d' = capset s"
  using assms caps_bound [OF assms(2)] by (auto simp: wf_proc_def capset_def)

lemma spawn_process_post:
  assumes "wf_world w" "i < MAX_PROCESSES" "active (processes w ! i)" "length (snd b) + 4 < 2 ^ 32"
    "spawn_process sv i argc argv b w = Inr (r, w')"
  shows "frame i w w' \<and> wf_world w' \<and> (r = - 1 \<or> capset (processes w' ! i) \<subseteq> {CAPS_NONE})"
proof (cases "length (snd b) < 4")
  case True
  with assms(5) have "snd b \<noteq> take (length (snd b)) signature_bytes"
    by (auto simp: spawn_process_def)
  with assms True show ?thesis
    by (auto simp: spawn_process_def create_short bindR_Inr_iff)
next
  case False
  let ?sz = "of_nat (length (snd b)) :: u32"
  have sz: "uint ?sz = int (length (snd b))"
    using assms(4) by (simp add: uint_nat unat_of_nat take_bit_nat_eq_self)
  obtain n w1 where c: "nvm_create_process sv b ?sz [CAPS_NONE] 1 w = Inr (n, w1)" "frame i w w1" "create_result w (n, w1)"
    using create_post [OF assms(1) _ sz assms(4), of sv i] False by auto
  show ?thesis
  proof (cases "n < 0")
    case True
    with c assms(5) False show ?thesis
      by (auto simp: spawn_process_def bindR_Inr_iff create_result_def)
  next
    case n: False
    then have ni: "nat n \<noteq> i" using c(3) assms(3) by (auto simp: create_result_def)
    with n have r: "0 \<le> n" "n < int MAX_PROCESSES" "wf_world w1" "nat n \<noteq> i" "processes w1 ! i = processes w ! i"
        "capset (processes w1 ! nat n) \<subseteq> {CAPS_NONE}"
      using c(3) by (simp_all add: create_result_def)
    then have nn: "nat n < MAX_PROCESSES" "unat (word_of_int n :: u8) = nat n"
      by (auto simp: nvm_consts unat_eq_nat_uint take_bit_int_eq_self uint_word_of_int_eq)
    note gi = wf_world_get [OF r(3) assms(2)] and gn = wf_world_get [OF r(3) nn(1)]
    have pid: "unat (pid (processes w1 ! i)) = i" using gi(3) r(5) assms(3) by simp
    define d where "d = (processes w1 ! i)\<lparr>caps_count := caps_count (processes w1 ! nat n),
      capabilities := take (unat (caps_count (processes w1 ! nat n))) (capabilities (processes w1 ! nat n))
       @ drop (unat (caps_count (processes w1 ! nat n))) (capabilities (processes w1 ! i))\<rparr>"
    note d = caps_copied [OF gi(2) gn(2) d_def]
    have "caps_copy (Some (processes w1 ! i)) (Some (processes w1 ! nat n)) = Inr (True, Some d)"
      using caps_copy_eq [OF gi(2) gn(2)] by (simp add: d_def)
    with c(1) n False assms(5) gi(1) gn(1) pid nn(2) obtain k where w': "w' = (put_proc i d w1)\<lparr>kernel := k\<rparr>"
      by (auto simp: spawn_process_def nvm_get_process_def bindR_Inr_iff Let_def split: if_splits)
    have "wf_world (put_proc i d w1)"
      using d(1) r(3) pid by (intro wf_world_put) (auto simp: d_def)
    moreover have "frame i w1 (put_proc i d w1)"
      using d(2) r(6) by (intro frame_put) (auto simp: slot_frame_def)
    moreover have "processes w' ! i = d" using w' r(3) assms(2) by (simp add: wf_world_def)
    ultimately show ?thesis using w' c(2) d(2) r(6) by (auto intro: frame_trans)
  qed
qed

lemma sys_spawn_post:
  assumes "wf_world w" "i < MAX_PROCESSES" "active (processes w ! i)" "short_files sv" "sys_spawn sv i w = Inr (r, w')"
  shows "frame i w w' \<and> wf_world w' \<and> (r = - 1 \<or> capset (processes w' ! i) \<subseteq> {CAPS_NONE})"
proof -
  let ?p = "processes w ! i"
  note g = wf_world_get [OF assms(1,2)] and own = own_step [OF assms(1-3)]
  note w = wf_sp [OF g(2)]
  have has: "caps_has_capability (Some ?p) CAP_FS_READ = Inr (CAP_ALL \<in> capset ?p \<or> 0 \<le> sint CAP_FS_READ \<and> CAP_FS_READ \<in> capset ?p)"
    by (rule caps_has_iff [OF g(2)])
  show ?thesis
  proof (cases "w' = w \<and> r = - 1")
    case True with assms(1) show ?thesis by simp
  next
    case False
    with assms(5) g(1) has have u: "2 \<le> uint (sp ?p)"
      by (auto simp: sys_spawn_def stack_get_def res_iff split: if_splits)
    let ?q = "?p\<lparr>sp := sp ?p - 2\<rparr>"
    from assms(5) g(1) has False obtain fd argc e argv pos k
      where e: "spawn_args sv (stack ?p) argc (uint (sp ?p - 2) - 1) [] (kernel w) = Inr (e, argv, pos, k)"
      and t: "(if e then Inr (- 1, (put_proc i ?q w)\<lparr>kernel := free_all sv argv k\<rparr>)
         else
           let w = put_proc i (?q\<lparr>sp := word_of_int (pos + 1)\<rparr>) w in
           case sv_kmalloc sv 1024 k of (a, k) \<Rightarrow>
             if a = 0 then bindR (free_argv sv argc argv k) (\<lambda>k. Inr (- 1, w\<lparr>kernel := k\<rparr>))
             else (case read_code sv fd a [] 1024 k of
               None \<Rightarrow> Inl Diverges
             | Some (None, k) \<Rightarrow> bindR (free_argv sv argc argv k) (\<lambda>k. Inr (- 1, w\<lparr>kernel := k\<rparr>))
             | Some (Some b, k) \<Rightarrow> spawn_process sv i argc argv b (w\<lparr>kernel := k\<rparr>))) = Inr (r, w')"
      by (auto simp: sys_spawn_def stack_get_def bindR_Inr_iff Let_def simp del: bindR.simps split: if_split_asm)
    show ?thesis
    proof (cases e)
      case True
      have "syscall_post ?p ?q" using u w g(2) by (auto simp: syscall_post_def sp_arith intro!: wf_upd)
      with True t own show ?thesis by auto
    next
      case False
      from spawn_args_pos e False u have pos: "- 1 \<le> pos" "pos \<le> uint (sp ?p) - 3"
        by (fastforce simp: sp_arith)+
      let ?q = "?q\<lparr>sp := word_of_int (pos + 1)\<rparr>"
      have "uint (word_of_int (pos + 1) :: u16) \<le> 1024"
        using pos w uint_word_of_int_eq [of "pos + 1", where 'a = 16]
        by (simp add: take_bit_int_eq_self del: of_int_add)
      then have "syscall_post ?p ?q" using g(2) by (auto simp: syscall_post_def intro!: wf_upd)
      note o = own [OF this]
      have a: "active (processes (put_proc i ?q w) ! i)"
        using assms by (simp add: nth_update wf_world_def)
      have sp: "frame i w w' \<and> wf_world w' \<and> (r = - 1 \<or> capset (processes w' ! i) \<subseteq> {CAPS_NONE})"
        if "read_code sv fd a0 [] 1024 k0 = Some (Some b, k1)"
          "spawn_process sv i argc argv b ((put_proc i ?q w)\<lparr>kernel := k1\<rparr>) = Inr (r, w')" for a0 k0 b k1
      proof -
        have "length (snd b) + 4 < 2 ^ 32" using that(1) assms(4) unfolding short_files_def by blast
        then have "frame i ((put_proc i ?q w)\<lparr>kernel := k1\<rparr>) w' \<and> wf_world w' \<and>
            (r = - 1 \<or> capset (processes w' ! i) \<subseteq> {CAPS_NONE})"
          using o a by (intro spawn_process_post [OF _ assms(2) _ _ that(2)]) auto
        moreover have "frame i w ((put_proc i ?q w)\<lparr>kernel := k1\<rparr>)" using o(2) by simp
        ultimately show ?thesis using frame_trans by blast
      qed
      from t False o sp show ?thesis
        by (auto simp: bindR_Inr_iff Let_def split: prod.splits if_splits option.splits)
    qed
  qed
qed

subsection \<open>Every system call\<close>

lemmas one_process_calls = exit_s.on_proc_post open_s.on_proc_post write_s.on_proc_post
  delete_s.on_proc_post port_in_s.on_proc_post port_out_s.on_proc_post print_s.on_proc_post
  default_s.on_proc_post

text \<open>The calls that go through the heap of the process.\<close>

definition heap_call :: "u8 \<Rightarrow> bool" where
  "heap_call sid \<longleftrightarrow> sid \<in> {0x02, 0x03, 0x04}"

lemma syscall_wp:
  assumes "wf_world w" "i < MAX_PROCESSES" "active (processes w ! i)" "sid \<noteq> 0x01"
  shows "wp (syscall_handler sv sid i w) (\<lambda>_. heap_call sid \<and> heap (processes w ! i) = None) (\<lambda>(r, w'). wf_world w' \<and> frame i w w')"
  using assms(4) one_process_calls [OF assms(1-3)] sys_read_post [OF assms(1-3)]
    sys_msg_send_post [OF assms(1-3)] sys_msg_receive_post [OF assms(1-3)]
  by (auto simp: syscall_handler_def heap_call_def wp_Inr)

lemma syscall_post:
  assumes "wf_world w" "i < MAX_PROCESSES" "active (processes w ! i)" "short_files sv"
    "syscall_handler sv sid i w = Inr (r, w')"
  shows "frame i w w'" and "wf_world w'"
proof -
  have "frame i w w' \<and> wf_world w'"
  proof (cases "sid = 0x01")
    case True
    with assms(5) have "sys_spawn sv i w = Inr (r, w')" by (simp add: syscall_handler_def)
    with sys_spawn_post [OF assms(1-4)] show ?thesis by blast
  next
    case False
    from wpD [OF syscall_wp [OF assms(1-3) False] assms(5)] show ?thesis by auto
  qed
  then show "frame i w w'" and "wf_world w'" by auto
qed

end
