(* ===== verification/Nvm_Machine.thy ===== *)
theory Nvm_Machine
  imports Nvm_Syscalls
begin

text \<open>
  The interpreter and the scheduler (\<open>core/kernel/nvm/nvm.c\<close>): the instruction table, one
  instruction of a process, and the timer tick that gives the next runnable process its time
  slice.
\<close>

subsection \<open>Instructions\<close>

text \<open>\<open>nvm_init_instruction_table\<close>: the handlers on one process, and those that also access memory.\<close>

definition instruction_table :: "(u8 \<times> handler) list" where
  "instruction_table =
    [(0x00, handle_halt), (0x01, handle_nop), (0x02, handle_push), (0x04, handle_pop), (0x05, handle_dup),
     (0x06, handle_swap),
     (0x10, handle_add), (0x11, handle_sub), (0x12, handle_mul), (0x13, handle_div), (0x14, handle_mod),
     (0x20, handle_cmp), (0x21, handle_eq), (0x22, handle_neq), (0x23, handle_gt), (0x24, handle_lt),
     (0x30, handle_jmp), (0x31, handle_jz), (0x32, handle_jnz), (0x33, handle_call), (0x34, handle_ret),
     (0x35, handle_enter), (0x36, handle_leave), (0x37, handle_load_arg), (0x38, handle_store_arg),
     (0x40, handle_load), (0x41, handle_store), (0x42, handle_load_rel), (0x43, handle_store_rel),
     (0x46, handle_load_heap), (0x47, handle_store_heap),
     (0x51, handle_break),
     (0x60, handle_and), (0x61, handle_or), (0x62, handle_xor), (0x63, handle_not), (0x64, handle_shl),
     (0x65, handle_shr), (0x66, handle_sar)]"

definition memory_table :: "(u8 \<times> (nvm_process \<times> memory \<Rightarrow> (bool \<times> nvm_process \<times> memory) res)) list" where
  "memory_table = [(0x44, handle_load_abs), (0x45, handle_store_abs)]"

definition run_local :: "handler \<Rightarrow> nat \<Rightarrow> 's world \<Rightarrow> (bool \<times> 's world) res" where
  "run_local h i w =
     bindR (get_proc w i) (\<lambda>p. bindR (h p) (\<lambda>(b, p). Inr (b, put_proc i p w)))"

definition run_memory ::
    "(nvm_process \<times> memory \<Rightarrow> (bool \<times> nvm_process \<times> memory) res) \<Rightarrow> nat \<Rightarrow> 's world \<Rightarrow> (bool \<times> 's world) res" where
  "run_memory h i w =
     bindR (get_proc w i) (\<lambda>p.
     bindR (h (p, abs_mem w)) (\<lambda>(b, p, m). Inr (b, (put_proc i p w)\<lparr>abs_mem := m\<rparr>)))"

definition handle_syscall :: "'s services \<Rightarrow> nat \<Rightarrow> 's world \<Rightarrow> (bool \<times> 's world) res" where
  "handle_syscall sv i w =
     bindR (get_proc w i) (\<lambda>p.
     if ip p < code_size p then
       bindR (code_get p (ip p)) (\<lambda>syscall_id.
       bindR (syscall_handler sv syscall_id i (put_proc i (p\<lparr>ip := ip p + 1\<rparr>) w)) (\<lambda>(r, w). Inr (True, w)))
     else Inr (True, w))"

definition run_opcode :: "'s services \<Rightarrow> u8 \<Rightarrow> nat \<Rightarrow> 's world \<Rightarrow> (bool \<times> 's world) res" where
  "run_opcode sv opcode i w =
     (if opcode = 0x50 then handle_syscall sv i w
      else case map_of instruction_table opcode of Some h \<Rightarrow> run_local h i w
      | None \<Rightarrow> (case map_of memory_table opcode of Some h \<Rightarrow> run_memory h i w
        | None \<Rightarrow> Inr (True, w)))"

definition nvm_execute_instruction :: "'s services \<Rightarrow> nat \<Rightarrow> 's world \<Rightarrow> (bool \<times> 's world) res" where
  "nvm_execute_instruction sv i w =
     bindR (get_proc w i) (\<lambda>p.
     if code_size p \<le> ip p then Inr (False, put_proc i (snd (kill p)) w)
     else
       bindR (code_get p (ip p)) (\<lambda>opcode.
       run_opcode sv opcode i (put_proc i (p\<lparr>ip := ip p + 1\<rparr>) w)))"

subsection \<open>Scheduling\<close>

definition runnable :: "nvm_process \<Rightarrow> bool" where
  "runnable p \<longleftrightarrow> active p \<and> \<not> blocked p"

text \<open>The round-robin search, which stops at a runnable process or back at its start.\<close>

partial_function (option) pick_next :: "nvm_process list \<Rightarrow> u8 \<Rightarrow> u8 \<Rightarrow> u8 res option" where
  "pick_next ps start c =
     (let c = word_of_int ((uint c + 1) mod int MAX_PROCESSES) in
      case rd ps (uint c) of Inl e \<Rightarrow> Some (Inl e)
      | Inr p \<Rightarrow> if runnable p then Some (Inr c)
                 else if c \<noteq> start then pick_next ps start c else Some (Inr c))"

text \<open>The time slice: at most \<open>n\<close> instructions of the current process.\<close>

fun run_slice :: "'s services \<Rightarrow> nat \<Rightarrow> 's world \<Rightarrow> 's world res" where
  "run_slice sv 0 w = Inr w"
| "run_slice sv (Suc n) w =
     bindR (get_proc w (unat (current_process w))) (\<lambda>p.
     if ip p < code_size p \<and> active p \<and> \<not> blocked p then
       bindR (nvm_execute_instruction sv (unat (current_process w)) w) (\<lambda>(b, w).
       if b then run_slice sv n w else Inr w)
     else if code_size p \<le> ip p \<and> active p then
       Inr (put_proc (unat (current_process w)) (p\<lparr>active := False, exit_code := 0\<rparr>) w)
     else Inr w)"

definition SLICE :: nat where "SLICE = 5000"

definition nvm_scheduler_tick :: "'s services \<Rightarrow> 's world \<Rightarrow> 's world res" where
  "nvm_scheduler_tick sv w =
     (let w = w\<lparr>timer_ticks := timer_ticks w + 1\<rparr> in
      if unat (timer_ticks w) mod TIME_SLICE_MS \<noteq> 0 then Inr w
      else
        let original = current_process w in
        case pick_next (processes w) original original of
          None \<Rightarrow> Inl Diverges
        | Some r \<Rightarrow> bindR r (\<lambda>c.
            let w = w\<lparr>current_process := c\<rparr> in
            bindR (get_proc w (unat c)) (\<lambda>p.
            if runnable p then run_slice sv SLICE w
            else Inr (w\<lparr>current_process := original\<rparr>))))"

subsection \<open>Execution keeps the invariant\<close>

text \<open>The states in which an instruction of a well-formed process cannot fault.\<close>

definition instr_ok :: "u8 \<Rightarrow> nvm_process \<Rightarrow> bool" where
  "instr_ok opcode p \<longleftrightarrow>
     (if opcode = 0x13 \<or> opcode = 0x14 then div_ok p
      else if opcode = 0x46 then load_heap_ok p \<and> heap p \<noteq> None
      else if opcode = 0x47 then store_heap_ok p \<and> heap p \<noteq> None
      else True)"

definition mem_ok :: "u8 \<Rightarrow> memory \<Rightarrow> nvm_process \<Rightarrow> bool" where
  "mem_ok opcode m p \<longleftrightarrow>
     (if opcode = 0x44 then load_abs_ok m p else if opcode = 0x45 then store_abs_ok m p else True)"

lemma instr_ok_simps [simp]:
  "instr_ok 0x13 = div_ok" "instr_ok 0x14 = div_ok" "instr_ok 0x46 = (\<lambda>p. load_heap_ok p \<and> heap p \<noteq> None)"
  "instr_ok 0x47 = (\<lambda>p. store_heap_ok p \<and> heap p \<noteq> None)"
  "opcode \<notin> {0x13, 0x14, 0x46, 0x47} \<Longrightarrow> instr_ok opcode = (\<lambda>_. True)"
  by (auto simp: instr_ok_def fun_eq_iff)

lemma instr_ok_ip [simp]: "instr_ok opcode (p\<lparr>ip := n\<rparr>) = instr_ok opcode p"
  by (simp add: instr_ok_def div_ok_def load_heap_ok_def store_heap_ok_def top_entry_def second_entry_def)

lemma mem_ok_ip [simp]: "mem_ok opcode m (p\<lparr>ip := n\<rparr>) = mem_ok opcode m p"
  by (simp add: mem_ok_def load_abs_ok_def store_abs_ok_def top_entry_def second_entry_def capset_def)

lemmas handler_facts =
  halt_i.nvm_handler_axioms nop_i.nvm_handler_axioms push_i.nvm_handler_axioms pop_i.nvm_handler_axioms
  dup_i.nvm_handler_axioms swap_i.nvm_handler_axioms add_i.nvm_handler_axioms sub_i.nvm_handler_axioms
  mul_i.nvm_handler_axioms div_i.nvm_handler_axioms mod_i.nvm_handler_axioms cmp_i.nvm_handler_axioms
  eq_i.nvm_handler_axioms neq_i.nvm_handler_axioms gt_i.nvm_handler_axioms lt_i.nvm_handler_axioms
  jmp_i.nvm_handler_axioms jz_i.nvm_handler_axioms jnz_i.nvm_handler_axioms call_i.nvm_handler_axioms
  ret_i.nvm_handler_axioms enter_i.nvm_handler_axioms leave_i.nvm_handler_axioms
  load_arg_i.nvm_handler_axioms store_arg_i.nvm_handler_axioms load_i.nvm_handler_axioms
  store_i.nvm_handler_axioms load_rel_i.nvm_handler_axioms store_rel_i.nvm_handler_axioms
  load_heap_i.nvm_handler_axioms store_heap_i.nvm_handler_axioms break_i.nvm_handler_axioms
  and_i.nvm_handler_axioms or_i.nvm_handler_axioms xor_i.nvm_handler_axioms not_i.nvm_handler_axioms
  shl_i.nvm_handler_axioms shr_i.nvm_handler_axioms sar_i.nvm_handler_axioms

lemma table_contract: "list_all (\<lambda>(opcode, h). nvm_handler h (instr_ok opcode)) instruction_table"
  unfolding instruction_table_def by (simp add: handler_facts del: not_None_eq)

lemma table_handler:
  assumes "map_of instruction_table opcode = Some h"
  shows "nvm_handler h (instr_ok opcode)"
  using table_contract map_of_SomeD [OF assms] by (auto simp: list_all_iff)

lemma handler_syscall_post: "handler_post p (b, p') \<Longrightarrow> syscall_post p p'"
  by (simp add: handler_post_def syscall_post_def same_frame_def)

lemma fetched:
  assumes "wf_world w" "i < MAX_PROCESSES" "active (processes w ! i)" "ip (processes w ! i) < code_size (processes w ! i)"
  shows "\<exists>c. code_get (processes w ! i) (ip (processes w ! i)) = Inr c"
    and "syscall_post (processes w ! i) ((processes w ! i)\<lparr>ip := ip (processes w ! i) + 1\<rparr>)"
    and "processes (put_proc i ((processes w ! i)\<lparr>ip := ip (processes w ! i) + 1\<rparr>) w) ! i
       = (processes w ! i)\<lparr>ip := ip (processes w ! i) + 1\<rparr>"
proof -
  note wfp = wf_world_get(2) [OF assms(1,2)]
  show "\<exists>c. code_get (processes w ! i) (ip (processes w ! i)) = Inr c"
    using code_get_cases [OF wfp assms(3,4)] by metis
  show "syscall_post (processes w ! i) ((processes w ! i)\<lparr>ip := ip (processes w ! i) + 1\<rparr>)"
    using wfp next_ip(2) [OF wfp assms(4)] by (auto simp: syscall_post_def intro!: wf_upd)
qed (use assms(1,2) in \<open>simp add: wf_world_def\<close>)

lemma run_local_post:
  assumes "wf_world w" "i < MAX_PROCESSES" "active (processes w ! i)" "map_of instruction_table opcode = Some h"
  shows "wp (run_local h i w) (\<lambda>_. \<not> instr_ok opcode (processes w ! i)) (\<lambda>(b, w'). wf_world w' \<and> frame i w w')"
proof -
  note g = wf_world_get [OF assms(1,2)]
  have "wp (h (processes w ! i)) (\<lambda>_. \<not> instr_ok opcode (processes w ! i)) (handler_post (processes w ! i))"
    by (rule nvm_handler.contract [OF table_handler [OF assms(4)] g(2) assms(3)])
  then show ?thesis
    using own_step [OF assms(1-3)] g(1) by (auto simp: run_local_def wps wp_def dest: handler_syscall_post split: sum.splits)
qed

lemma run_memory_post:
  assumes "wf_world w" "i < MAX_PROCESSES" "active (processes w ! i)" "map_of memory_table opcode = Some h"
  shows "wp (run_memory h i w) (\<lambda>_. \<not> mem_ok opcode (abs_mem w) (processes w ! i)) (\<lambda>(b, w'). wf_world w' \<and> frame i w w')"
proof -
  note g = wf_world_get [OF assms(1,2)]
  have "wp (h (processes w ! i, abs_mem w)) (\<lambda>_. \<not> mem_ok opcode (abs_mem w) (processes w ! i))
      (\<lambda>(b, p', m'). handler_post (processes w ! i) (b, p'))"
    using assms(4)
    by (auto simp: memory_table_def mem_ok_def split: if_splits
        intro: wp_mono [OF load_abs_contract [OF g(2) assms(3)]] wp_mono [OF store_abs_contract [OF g(2) assms(3)]])
  then show ?thesis
    using own_step [OF assms(1-3)] g(1) by (auto simp: run_memory_def wps wp_def dest: handler_syscall_post split: sum.splits)
qed

lemma handle_syscall_post:
  assumes "wf_world w" "i < MAX_PROCESSES" "active (processes w ! i)" "short_files sv"
    "handle_syscall sv i w = Inr (b, w')"
  shows "frame i w w'" and "wf_world w'"
proof -
  let ?p = "processes w ! i"
  note g = wf_world_get [OF assms(1,2)]
  have "frame i w w' \<and> wf_world w'"
  proof (cases "ip ?p < code_size ?p")
    case False
    with assms(1,5) g(1) show ?thesis by (simp add: handle_syscall_def)
  next
    case True
    let ?w = "put_proc i (?p\<lparr>ip := ip ?p + 1\<rparr>) w"
    note f = fetched [OF assms(1-3) True]
    note o = own_step [OF assms(1-3) f(2)]
    from f(1) assms(5) g(1) True obtain sid r where "syscall_handler sv sid i ?w = Inr (r, w')"
      by (auto simp: handle_syscall_def bindR_Inr_iff)
    with syscall_post [OF o(1) assms(2) _ assms(4)] o(2) f(3) assms(3) show ?thesis
      by (auto intro: frame_trans)
  qed
  then show "frame i w w'" and "wf_world w'" by auto
qed

lemma run_opcode_post:
  assumes "wf_world w" "i < MAX_PROCESSES" "active (processes w ! i)" "short_files sv"
    "run_opcode sv opcode i w = Inr (b, w')"
  shows "frame i w w' \<and> wf_world w'"
proof (cases "opcode = 0x50")
  case True
  with assms(5) handle_syscall_post [OF assms(1-4)] show ?thesis by (auto simp: run_opcode_def)
next
  case False
  show ?thesis
  proof (cases "map_of instruction_table opcode")
    case (Some h)
    with assms(5) False wpD [OF run_local_post [OF assms(1-3) Some]] show ?thesis by (auto simp: run_opcode_def)
  next
    case None
    with assms(1,5) False wpD [OF run_memory_post [OF assms(1-3)]] show ?thesis
      by (auto simp: run_opcode_def split: option.splits)
  qed
qed

lemma kill_post: "wf_proc p \<Longrightarrow> syscall_post p (snd (kill p))"
  by (auto simp: kill_def syscall_post_def intro!: wf_upd)

lemma execute_post:
  assumes "wf_world w" "i < MAX_PROCESSES" "active (processes w ! i)" "short_files sv"
    "nvm_execute_instruction sv i w = Inr (b, w')"
  shows "frame i w w'" and "wf_world w'"
proof -
  let ?p = "processes w ! i"
  note g = wf_world_get [OF assms(1,2)]
  have "frame i w w' \<and> wf_world w'"
  proof (cases "ip ?p < code_size ?p")
    case False
    with assms(5) g(1) own_step [OF assms(1-3) kill_post [OF g(2)]] show ?thesis
      by (auto simp: nvm_execute_instruction_def not_less)
  next
    case True
    let ?w = "put_proc i (?p\<lparr>ip := ip ?p + 1\<rparr>) w"
    note f = fetched [OF assms(1-3) True]
    note o = own_step [OF assms(1-3) f(2)]
    have "\<not> code_size ?p \<le> ip ?p" using True by simp
    with f(1) assms(5) g(1) obtain opcode where "run_opcode sv opcode i ?w = Inr (b, w')"
      by (auto simp: nvm_execute_instruction_def bindR_Inr_iff)
    with run_opcode_post [OF o(1) assms(2) _ assms(4)] o(2) f(3) assms(3) show ?thesis
      by (auto intro: frame_trans)
  qed
  then show "frame i w w'" and "wf_world w'" by auto
qed

text \<open>
  The next instruction of a process is not in a state of \<open>DIV\<close>, \<open>MOD\<close> or a heap access that
  faults, makes no absolute access outside \<open>m\<close>, is not \<open>SPAWN\<close>, and does not go through the heap
  of a process without one.
\<close>

definition instr_safe :: "memory \<Rightarrow> nvm_process \<Rightarrow> bool" where
  "instr_safe m p \<longleftrightarrow> (\<forall>opcode. code_get p (ip p) = Inr opcode \<longrightarrow>
     instr_ok opcode p \<and> mem_ok opcode m p \<and>
     (opcode = 0x50 \<longrightarrow> (\<forall>sid. code_get p (ip p + 1) = Inr sid \<longrightarrow>
       sid \<noteq> 0x01 \<and> (heap_call sid \<longrightarrow> heap p \<noteq> None))))"

lemma execute_safe:
  assumes "wf_world w" "i < MAX_PROCESSES" "active (processes w ! i)" "instr_safe (abs_mem w) (processes w ! i)"
  shows "\<exists>b w'. nvm_execute_instruction sv i w = Inr (b, w') \<and> wf_world w'"
proof -
  let ?p = "processes w ! i"
  note g = wf_world_get [OF assms(1,2)]
  show ?thesis
  proof (cases "ip ?p < code_size ?p")
    case False
    with g(1) own_step [OF assms(1-3) kill_post [OF g(2)]] show ?thesis
      by (auto simp: nvm_execute_instruction_def not_less)
  next
    case True
    let ?w = "put_proc i (?p\<lparr>ip := ip ?p + 1\<rparr>) w"
    note f = fetched [OF assms(1-3) True]
    note o = own_step [OF assms(1-3) f(2)]
    note gw = wf_world_get [OF o(1) assms(2)]
    obtain opcode where c: "code_get ?p (ip ?p) = Inr opcode" using f(1) by blast
    then have ok: "instr_ok opcode (processes ?w ! i)" "mem_ok opcode (abs_mem ?w) (processes ?w ! i)"
        "\<And>sid. opcode = 0x50 \<Longrightarrow> code_get ?p (ip ?p + 1) = Inr sid \<Longrightarrow> sid \<noteq> 0x01 \<and> (heap_call sid \<longrightarrow> heap ?p \<noteq> None)"
      using assms(4) f(3) by (auto simp: instr_safe_def)
    have a: "active (processes ?w ! i)" using f(3) assms(3) by simp
    have "\<exists>b w'. run_opcode sv opcode i ?w = Inr (b, w') \<and> wf_world w'"
    proof (cases "opcode = 0x50")
      case sys: True
      show ?thesis
      proof (cases "ip ?p + 1 < code_size ?p")
        case False
        with sys gw(1) f(3) o(1) show ?thesis by (auto simp: run_opcode_def handle_syscall_def)
      next
        case True
        then have lt: "ip (processes ?w ! i) < code_size (processes ?w ! i)" using f(3) by simp
        note f' = fetched [OF o(1) assms(2) a lt]
        note o' = own_step [OF o(1) assms(2) a f'(2)]
        obtain sid where s: "code_get (processes ?w ! i) (ip (processes ?w ! i)) = Inr sid" using f'(1) by blast
        from s [unfolded f(3)] have "code_get ?p (ip ?p + 1) = Inr sid" by (simp add: code_get_def)
        with ok(3) [OF sys] have sid: "sid \<noteq> 0x01" "heap_call sid \<longrightarrow> heap ?p \<noteq> None" by auto
        let ?w' = "put_proc i ((processes ?w ! i)\<lparr>ip := ip (processes ?w ! i) + 1\<rparr>) ?w"
        have a': "active (processes ?w' ! i)" "heap (processes ?w' ! i) = heap ?p" using f'(3) f(3) a by simp_all
        from syscall_wp [OF o'(1) assms(2) a'(1) sid(1), of sv] sid(2) a'(2)
        obtain r w' where "syscall_handler sv sid i ?w' = Inr (r, w')" "wf_world w'"
          by (cases "syscall_handler sv sid i ?w'") (auto simp: wp_def)
        with sys gw(1) lt s show ?thesis by (auto simp: run_opcode_def handle_syscall_def)
      qed
    next
      case False
      show ?thesis
      proof (cases "map_of instruction_table opcode")
        case (Some h)
        with False ok(1) run_local_post [OF o(1) assms(2) a Some] show ?thesis
          by (auto simp: run_opcode_def wp_def split: sum.splits)
      next
        case None
        show ?thesis
        proof (cases "map_of memory_table opcode")
          case (Some h)
          with False None ok(2) run_memory_post [OF o(1) assms(2) a Some] show ?thesis
            by (auto simp: run_opcode_def wp_def split: sum.splits)
        qed (use False None o(1) in \<open>auto simp: run_opcode_def\<close>)
      qed
    qed
    moreover have "\<not> code_size ?p \<le> ip ?p" using True by simp
    ultimately show ?thesis using c g(1) by (auto simp: nvm_execute_instruction_def)
  qed
qed

subsection \<open>Time slices\<close>

lemma finish_post: "wf_proc p \<Longrightarrow> syscall_post p (p\<lparr>active := False, exit_code := 0\<rparr>)"
  by (auto simp: syscall_post_def intro!: wf_upd)

lemma run_slice_post:
  assumes "wf_world w" "short_files sv" "run_slice sv n w = Inr w'"
  shows "wf_world w' \<and> frame (unat (current_process w)) w w'"
  using assms(1,3)
proof (induction n arbitrary: w)
  case (Suc n)
  let ?c = "unat (current_process w)"
  let ?p = "processes w ! ?c"
  have c: "?c < MAX_PROCESSES" using Suc.prems(1) by (simp add: wf_world_def)
  note g = wf_world_get [OF Suc.prems(1) c]
  consider (run) "ip ?p < code_size ?p" "active ?p" "\<not> blocked ?p"
    | (stop) "\<not> (ip ?p < code_size ?p \<and> active ?p \<and> \<not> blocked ?p)" by blast
  then show ?case
  proof cases
    case run
    with Suc.prems(2) g(1) obtain b w1 where e: "nvm_execute_instruction sv ?c w = Inr (b, w1)"
      and r: "(if b then run_slice sv n w1 else Inr w1) = Inr w'"
      by (auto simp: bindR_Inr_iff)
    note post = execute_post [OF Suc.prems(1) c run(2) assms(2) e]
    have "current_process w1 = current_process w" using post(1) by (simp add: frame_def)
    with r post Suc.IH [of w1] show ?thesis by (auto split: if_splits intro: frame_trans)
  next
    case stop
    with Suc.prems g(1) own_step [OF Suc.prems(1) c _ finish_post [OF g(2)]] show ?thesis
      by (auto split: if_splits)
  qed
qed simp

subsection \<open>Round robin\<close>

text \<open>The slot \<open>d\<close> steps after slot \<open>c\<close> in the cyclic order.\<close>

definition after_slot :: "u8 \<Rightarrow> nat \<Rightarrow> nat" where
  "after_slot c d = (unat c + d) mod MAX_PROCESSES"

lemma after_slot_lt: "after_slot c d < MAX_PROCESSES"
  by (simp add: after_slot_def nvm_consts)

lemma unat_slot: "n < MAX_PROCESSES \<Longrightarrow> unat (of_nat n :: u8) = n"
  by (simp add: nvm_consts unat_of_nat take_bit_nat_eq_self)

lemma next_slot:
  assumes "unat c = after_slot start k"
  shows "word_of_int ((uint c + 1) mod int MAX_PROCESSES) = (of_nat (after_slot start (Suc k)) :: u8)"
proof -
  have "(uint c + 1) mod int MAX_PROCESSES = int ((unat c + 1) mod MAX_PROCESSES)"
    by (simp add: zmod_int add.commute)
  also have "(unat c + 1) mod MAX_PROCESSES = after_slot start (Suc k)"
    using assms by (simp add: after_slot_def mod_Suc_eq)
  finally show ?thesis by simp
qed

lemma pick_next_from:
  assumes "length ps = MAX_PROCESSES" "unat start < MAX_PROCESSES"
  shows "k < MAX_PROCESSES \<Longrightarrow> unat c = after_slot start k \<Longrightarrow>
    \<exists>d. k < d \<and> d \<le> MAX_PROCESSES \<and> pick_next ps start c = Some (Inr (of_nat (after_slot start d))) \<and>
      (\<forall>e. k < e \<and> e < d \<longrightarrow> \<not> runnable (ps ! after_slot start e)) \<and>
      (runnable (ps ! after_slot start d) \<or> d = MAX_PROCESSES)"
proof (induction "MAX_PROCESSES - k" arbitrary: k c)
  case 0
  then show ?case by simp
next
  case (Suc m)
  let ?n = "after_slot start (Suc k)"
  let ?c = "of_nat ?n :: u8"
  have n: "unat ?c = ?n" by (rule unat_slot [OF after_slot_lt])
  have rd: "rd ps (uint ?c) = Inr (ps ! ?n)"
    using rd_nat [of ?n ps] after_slot_lt [of start "Suc k"] assms(1) n by (metis uint_nat)
  have step: "pick_next ps start c = (if runnable (ps ! ?n) then Some (Inr ?c)
      else if ?c \<noteq> start then pick_next ps start ?c else Some (Inr ?c))"
    by (subst pick_next.simps) (simp add: next_slot [OF Suc.prems(2)] rd del: of_nat_mod)
  have eq: "?c = start \<longleftrightarrow> Suc k = MAX_PROCESSES"
  proof -
    have "?c = start \<longleftrightarrow> ?n = unat start" using n by (metis word_unat_eq_iff)
    also have "\<dots> \<longleftrightarrow> Suc k = MAX_PROCESSES"
      using Suc.prems(1) assms(2) by (auto simp: after_slot_def nvm_consts mod_if split: if_splits)
    finally show ?thesis .
  qed
  show ?case
  proof (cases "runnable (ps ! ?n) \<or> Suc k = MAX_PROCESSES")
    case True
    with step eq Suc.prems(1) show ?thesis by (intro exI [of _ "Suc k"]) auto
  next
    case False
    then have k: "Suc k < MAX_PROCESSES" using Suc.prems(1) by simp
    have "m = MAX_PROCESSES - Suc k" using Suc.hyps(2) by simp
    from Suc.hyps(1) [OF this k n] obtain d where d: "Suc k < d" "d \<le> MAX_PROCESSES"
      "pick_next ps start ?c = Some (Inr (of_nat (after_slot start d)))"
      "\<forall>e. Suc k < e \<and> e < d \<longrightarrow> \<not> runnable (ps ! after_slot start e)"
      "runnable (ps ! after_slot start d) \<or> d = MAX_PROCESSES" by blast
    have "\<not> runnable (ps ! after_slot start e)" if "k < e" "e < d" for e
      using that d(4) False by (cases "e = Suc k") auto
    with d step False eq show ?thesis by (intro exI [of _ d]) auto
  qed
qed

lemma pick_next_spec:
  assumes "length ps = MAX_PROCESSES" "unat start < MAX_PROCESSES"
  obtains d where "0 < d" "d \<le> MAX_PROCESSES" "pick_next ps start start = Some (Inr (of_nat (after_slot start d)))"
    "\<forall>e. 0 < e \<and> e < d \<longrightarrow> \<not> runnable (ps ! after_slot start e)"
    "runnable (ps ! after_slot start d) \<or> d = MAX_PROCESSES"
  using pick_next_from [OF assms, of 0 start] assms(2) by (auto simp: after_slot_def nvm_consts)

text \<open>How many steps of the search lead from slot \<open>c\<close> to slot \<open>j\<close>.\<close>

definition slot_distance :: "u8 \<Rightarrow> nat \<Rightarrow> nat" where
  "slot_distance c j = (j + MAX_PROCESSES - unat c - 1) mod MAX_PROCESSES + 1"

lemma slot_distance:
  assumes "unat c < MAX_PROCESSES" "j < MAX_PROCESSES"
  shows "0 < slot_distance c j" "slot_distance c j \<le> MAX_PROCESSES" "after_slot c (slot_distance c j) = j"
  using assms by (auto simp: slot_distance_def after_slot_def nvm_consts mod_if Suc_le_eq split: if_splits)

lemma mod_small: "(x::nat) < 2 * n \<Longrightarrow> x mod n = (if x < n then x else x - n)"
  by (auto simp: mod_if)

lemma slot_distance_eq:
  assumes "unat c < MAX_PROCESSES" "j < MAX_PROCESSES"
  shows "slot_distance c j = (if unat c < j then j - unat c else j + 32 - unat c)"
proof -
  define a where "a = unat c"
  have a: "a < 32" "j < 32" using assms by (simp_all add: a_def nvm_consts)
  then have "(j + 32 - a - 1) mod 32 = (if j + 32 - a - 1 < 32 then j + 32 - a - 1 else j + 32 - a - 1 - 32)"
    by (intro mod_small) linarith
  then have "(j + 32 - a - 1) mod 32 + 1 = (if a < j then j - a else j + 32 - a)"
    using a by (cases "j + 32 - a - 1 < 32") (simp_all, linarith+)
  then show ?thesis by (simp add: slot_distance_def a_def nvm_consts)
qed

lemma slot_distance_step:
  assumes "unat c < MAX_PROCESSES" "j < MAX_PROCESSES" "0 < d" "d < slot_distance c j" "unat c' = after_slot c d"
  shows "slot_distance c' j < slot_distance c j"
proof -
  have c': "unat c' < MAX_PROCESSES" using assms(5) after_slot_lt by simp
  note e = slot_distance_eq [OF assms(1,2)] slot_distance_eq [OF c' assms(2)]
  have d: "unat c < 32" "d \<le> 32" "j < 32" using assms slot_distance(2) [OF assms(1,2)] by (simp_all add: nvm_consts)
  then have b: "unat c' = (if unat c + d < 32 then unat c + d else unat c + d - 32)"
    using assms(5) mod_small [of "unat c + d" 32] by (simp add: after_slot_def nvm_consts)
  show ?thesis
    using assms(3,4) d b unfolding e by (auto split: if_splits)
qed

lemma tick_cases:
  assumes "wf_world w"
  obtains
    (count) "unat (timer_ticks w + 1) mod TIME_SLICE_MS \<noteq> 0"
      "nvm_scheduler_tick sv w = Inr (w\<lparr>timer_ticks := timer_ticks w + 1\<rparr>)"
  | (idle) "unat (timer_ticks w + 1) mod TIME_SLICE_MS = 0" "\<forall>j < MAX_PROCESSES. \<not> runnable (processes w ! j)"
      "nvm_scheduler_tick sv w = Inr (w\<lparr>timer_ticks := timer_ticks w + 1\<rparr>)"
  | (slice) d where "unat (timer_ticks w + 1) mod TIME_SLICE_MS = 0" "0 < d" "d \<le> MAX_PROCESSES"
      "runnable (processes w ! after_slot (current_process w) d)"
      "\<forall>e. 0 < e \<and> e < d \<longrightarrow> \<not> runnable (processes w ! after_slot (current_process w) e)"
      "nvm_scheduler_tick sv w = run_slice sv SLICE
         (w\<lparr>timer_ticks := timer_ticks w + 1, current_process := of_nat (after_slot (current_process w) d)\<rparr>)"
proof (cases "unat (timer_ticks w + 1) mod TIME_SLICE_MS = 0")
  case False
  then show ?thesis using count by (simp add: nvm_scheduler_tick_def)
next
  case t: True
  let ?c = "current_process w"
  have len: "length (processes w) = MAX_PROCESSES" "unat ?c < MAX_PROCESSES" using assms by (simp_all add: wf_world_def)
  obtain d where d: "0 < d" "d \<le> MAX_PROCESSES" "pick_next (processes w) ?c ?c = Some (Inr (of_nat (after_slot ?c d)))"
    "\<forall>e. 0 < e \<and> e < d \<longrightarrow> \<not> runnable (processes w ! after_slot ?c e)"
    "runnable (processes w ! after_slot ?c d) \<or> d = MAX_PROCESSES"
    using pick_next_spec [OF len] by blast
  have g: "get_proc (w\<lparr>timer_ticks := timer_ticks w + 1, current_process := of_nat (after_slot ?c d)\<rparr>) (after_slot ?c d)
      = Inr (processes w ! after_slot ?c d)"
    using len after_slot_lt by (simp add: get_proc_ok)
  note simps = nvm_scheduler_tick_def Let_def unat_slot [OF after_slot_lt]
  show ?thesis
  proof (cases "runnable (processes w ! after_slot ?c d)")
    case True
    with t d g show ?thesis by (intro slice [of d]) (simp_all add: simps)
  next
    case False
    with d(5) have "d = MAX_PROCESSES" by simp
    have "\<not> runnable (processes w ! j)" if j: "j < MAX_PROCESSES" for j
    proof -
      note e = slot_distance [OF len(2) j]
      show ?thesis
        using d(4) e False \<open>d = MAX_PROCESSES\<close> by (metis le_neq_implies_less)
    qed
    moreover have "nvm_scheduler_tick sv w = Inr (w\<lparr>timer_ticks := timer_ticks w + 1\<rparr>)"
      using t d g False by (simp add: simps)
    ultimately show ?thesis using idle t by blast
  qed
qed

lemma tick_post:
  assumes "wf_world w" "short_files sv" "nvm_scheduler_tick sv w = Inr w'"
  shows "wf_world w'"
    and "\<forall>j < MAX_PROCESSES. capset (processes w' ! j) \<subseteq> insert CAPS_NONE (capset (processes w ! j))"
proof -
  have "wf_world w' \<and> (\<forall>j < MAX_PROCESSES. capset (processes w' ! j) \<subseteq> insert CAPS_NONE (capset (processes w ! j)))"
  proof (cases rule: tick_cases [OF assms(1), of sv])
    case slice: (3 d)
    let ?w = "w\<lparr>timer_ticks := timer_ticks w + 1, current_process := of_nat (after_slot (current_process w) d)\<rparr>"
    have "wf_world ?w" using assms(1) after_slot_lt by (simp add: wf_world_def unat_slot)
    moreover have "run_slice sv SLICE ?w = Inr w'" using slice(6) assms(3) by simp
    ultimately have r: "wf_world w'" "frame (unat (current_process ?w)) ?w w'"
      using run_slice_post [OF _ assms(2)] by blast+
    with assms(1) show ?thesis by (auto simp: frame_def slot_frame_def wf_world_def)
  qed (use assms(1,3) in auto)
  then show "wf_world w'"
    and "\<forall>j < MAX_PROCESSES. capset (processes w' ! j) \<subseteq> insert CAPS_NONE (capset (processes w ! j))" by auto
qed

lemma run_slice_current:
  assumes "wf_world w" "short_files sv" "run_slice sv n w = Inr w'"
  shows "current_process w' = current_process w"
  using run_slice_post [OF assms] by (simp add: frame_def)

subsection \<open>Runs of the machine\<close>

text \<open>
  The kernel drives the machine by timer ticks and by creating processes; in between, the
  rest of the kernel and the memory outside the machine's data change.  A tick that faults, and so
  also one with an absolute access to the machine's own data, ends the run.
\<close>

definition start_args :: "buf \<Rightarrow> u16 list \<Rightarrow> u8 \<Rightarrow> bool" where
  "start_args b caps count \<longleftrightarrow> 4 \<le> length (snd b) \<and> length (snd b) + 4 < 2 ^ 32 \<and>
     unat count \<le> MAX_CAPS \<and> unat count \<le> length caps"

inductive nvm_run :: "'s services \<Rightarrow> 's world \<Rightarrow> 's world \<Rightarrow> bool" for sv where
  run_tick: "nvm_scheduler_tick sv w = Inr w' \<Longrightarrow> nvm_run sv w w'"
| run_create: "start_args b caps count \<Longrightarrow>
    nvm_create_process sv b (of_nat (length (snd b))) caps count w = Inr (r, w') \<Longrightarrow> nvm_run sv w w'"
| run_kernel: "nvm_run sv w (w\<lparr>kernel := k, abs_mem := m\<rparr>)"

inductive_cases nvm_runE: "nvm_run sv w w'"

lemma create_wf:
  assumes "wf_world w" "start_args b caps count"
    "nvm_create_process sv b (of_nat (length (snd b))) caps count w = Inr (r, w')"
  shows "wf_world w'"
proof -
  let ?sz = "of_nat (length (snd b)) :: u32"
  from assms(2) have a: "4 \<le> length (snd b)" "length (snd b) + 4 < 2 ^ 32" "unat count \<le> MAX_CAPS" "unat count \<le> length caps"
    by (simp_all add: start_args_def)
  have sz: "uint ?sz = int (length (snd b))"
    using a(2) by (simp add: uint_nat unat_of_nat take_bit_nat_eq_self)
  show ?thesis
  proof (cases rule: create_cases [OF assms(1) a(1,3,4), of sv ?sz])
    case nomem: (3 i k)
    let ?p = "failed_process b ?sz i (processes w ! i)"
    have "wf_proc ?p"
      using wf_failed_process(1) [of "processes w ! i" ?sz b] wf_world_get(2) [OF assms(1) nomem(1)] a sz by simp
    moreover have "unat (pid ?p) = i" using unat_slot [OF nomem(1)] by (simp add: failed_process_def init_slot_def)
    ultimately have "wf_world (put_proc i ?p w)" by (intro wf_world_put assms(1))
    with nomem assms(3) show ?thesis by simp
  next
    case ok: (4 i a k)
    let ?p = "new_process b ?sz caps count i a (processes w ! i)"
    have "wf_proc ?p"
      using wf_new_process(1) [OF _ _ _ _ a(3,4), of "processes w ! i" ?sz b] wf_world_get(2) [OF assms(1) ok(2)] a sz
      by simp
    moreover have "unat (pid ?p) = i" using unat_slot [OF ok(2)] by (simp add: new_process_def init_slot_def)
    ultimately have "wf_world (put_proc i ?p w)" by (intro wf_world_put assms(1))
    with ok assms(3) show ?thesis by simp
  qed (use assms in auto)
qed

lemma nvm_run_wf:
  assumes "short_files sv" "nvm_run sv w w'" "wf_world w"
  shows "wf_world w'"
  using assms(2,3)
proof (cases rule: nvm_run.cases)
  case run_tick
  with assms tick_post(1) show ?thesis by blast
next
  case run_create
  with assms create_wf show ?thesis by blast
qed (use assms(3) in simp)

text \<open>The zero-initialised data of the kernel image.\<close>

definition zero_world :: "memory \<Rightarrow> 's \<Rightarrow> 's world" where
  "zero_world m k = \<lparr>processes = replicate MAX_PROCESSES zero_process, current_process = 0, timer_ticks = 0,
     message_queue = replicate MAX_MESSAGES \<lparr>recipient = 0, sender = 0, content = 0\<rparr>, message_count = 0,
     next_offset = 0, abs_mem = m, kernel = k\<rparr>"

lemma nvm_init_wf: "wf_world (nvm_init (zero_world m k))"
  by (simp add: nvm_init_def zero_world_def wf_world_def MAX_MESSAGES_def nvm_init_process_def zero_process_def
      wf_proc_def nvm_consts)

end
