(* ===== verification/Nvm_Alu.thy ===== *)
theory Nvm_Alu
  imports Nvm_Instructions
begin

text \<open>
  An abstract specification of the stack instructions and the proof that the handlers
  implement it.  The specification works on a list of 32-bit cells, top first, and computes
  with mathematical integers; the handlers work on an array and a stack pointer with the
  operations of the C code.
\<close>

unbundle bit_operations_syntax

subsection \<open>Specification\<close>

datatype alu_op = ADD | SUB | MUL | DIV | MOD | CMP | EQ | NEQ | GT | LT
  | AND_OP | OR_OP | XOR_OP | NOT_OP | SHL | SHR | SAR | POP | DUP | SWAP

text \<open>The result of a binary instruction on the integers read from the two operands.\<close>

fun alu_int :: "alu_op \<Rightarrow> i32 \<Rightarrow> i32 \<Rightarrow> int" where
  "alu_int ADD a b = sint a + sint b"
| "alu_int SUB a b = sint a - sint b"
| "alu_int MUL a b = sint a * sint b"
| "alu_int DIV a b = sint a sdiv sint b"
| "alu_int MOD a b = sint a smod sint b"
| "alu_int CMP a b = sgn (sint a - sint b)"
| "alu_int EQ a b = of_bool (sint a = sint b)"
| "alu_int NEQ a b = of_bool (sint a \<noteq> sint b)"
| "alu_int GT a b = of_bool (sint a > sint b)"
| "alu_int LT a b = of_bool (sint a < sint b)"
| "alu_int AND_OP a b = sint a AND sint b"
| "alu_int OR_OP a b = sint a OR sint b"
| "alu_int XOR_OP a b = sint a XOR sint b"
| "alu_int SHL a b = sint a * 2 ^ nat (uint b mod 32)"
| "alu_int SHR a b = uint a div 2 ^ nat (uint b mod 32)"
| "alu_int SAR a b = sint a div 2 ^ nat (uint b mod 32)"
| "alu_int _ a b = 0"

fun alu_spec :: "alu_op \<Rightarrow> i32 list \<Rightarrow> i32 list option" where
  "alu_spec POP st = (case st of [] \<Rightarrow> None | x # xs \<Rightarrow> Some xs)"
| "alu_spec DUP st = (case st of [] \<Rightarrow> None
     | x # xs \<Rightarrow> if length st < STACK_SIZE then Some (x # x # xs) else None)"
| "alu_spec SWAP st = (case st of y # x # xs \<Rightarrow> Some (x # y # xs) | _ \<Rightarrow> None)"
| "alu_spec NOT_OP st = (case st of [] \<Rightarrow> None | x # xs \<Rightarrow> Some (word_of_int (- sint x - 1) # xs))"
| "alu_spec op st = (case st of
     b # a # xs \<Rightarrow> if (op = DIV \<or> op = MOD) \<and> b = 0 then None else Some (word_of_int (alu_int op a b) # xs)
   | _ \<Rightarrow> None)"

fun alu_handler :: "alu_op \<Rightarrow> handler" where
  "alu_handler ADD = handle_add"
| "alu_handler SUB = handle_sub"
| "alu_handler MUL = handle_mul"
| "alu_handler DIV = handle_div"
| "alu_handler MOD = handle_mod"
| "alu_handler CMP = handle_cmp"
| "alu_handler EQ = handle_eq"
| "alu_handler NEQ = handle_neq"
| "alu_handler GT = handle_gt"
| "alu_handler LT = handle_lt"
| "alu_handler AND_OP = handle_and"
| "alu_handler OR_OP = handle_or"
| "alu_handler XOR_OP = handle_xor"
| "alu_handler NOT_OP = handle_not"
| "alu_handler SHL = handle_shl"
| "alu_handler SHR = handle_shr"
| "alu_handler SAR = handle_sar"
| "alu_handler POP = handle_pop"
| "alu_handler DUP = handle_dup"
| "alu_handler SWAP = handle_swap"

text \<open>Everything but the operand stack is as before.\<close>

definition stack_only :: "nvm_process \<Rightarrow> nvm_process \<Rightarrow> bool" where
  "stack_only p p' \<longleftrightarrow> p' = p\<lparr>stack := stack p', sp := sp p'\<rparr>"

text \<open>What implementing a specified step means: the new stack on success, death otherwise.\<close>

definition implements :: "handler \<Rightarrow> nvm_process \<Rightarrow> i32 list option \<Rightarrow> bool" where
  "implements h p spec = (case spec of
     Some st \<Rightarrow> \<exists>p'. h p = Inr (True, p') \<and> abs_stack p' = st \<and> stack_only p p'
   | None \<Rightarrow> h p = Inr (kill p))"

subsection \<open>The operand stack as a list\<close>

lemma unat_sp: "wf_proc p \<Longrightarrow> unat (sp p) \<le> 1024" "wf_proc p \<Longrightarrow> unat (sp p) \<le> length (stack p)"
  using wf_sp [of p] by (simp_all add: unat_le_uint)

lemma length_abs_stack: "wf_proc p \<Longrightarrow> length (abs_stack p) = unat (sp p)"
  using unat_sp [of p] by (simp add: abs_stack_def)

lemma abs_stack_empty: "wf_proc p \<Longrightarrow> abs_stack p = [] \<longleftrightarrow> uint (sp p) = 0"
  using length_abs_stack [of p] by (metis length_0_conv nat_0_iff nat_uint_eq order_refl unat_eq_zero unsigned_0)

lemma uint_ge_nat: "k \<le> uint w \<Longrightarrow> nat k \<le> unat w"
  by (metis nat_mono nat_uint_eq)

lemma rev_take_Suc: "n < length xs \<Longrightarrow> rev (take (Suc n) xs) = xs ! n # rev (take n xs)"
  by (simp add: take_Suc_conv_app_nth)

lemma abs_stack_one:
  assumes "wf_proc p" "1 \<le> uint (sp p)"
  shows "abs_stack p = top_entry p # rev (take (unat (sp p) - 1) (stack p))"
proof -
  have "1 \<le> unat (sp p)" using uint_ge_nat [OF assms(2)] by simp
  then obtain n where n: "unat (sp p) = Suc n" by (cases "unat (sp p)") auto
  with unat_sp [OF assms(1)] show ?thesis
    by (simp add: abs_stack_def rev_take_Suc top_entry_def nat_uint_minus)
qed

lemma abs_stack_two:
  assumes "wf_proc p" "2 \<le> uint (sp p)"
  shows "abs_stack p = top_entry p # second_entry p # rev (take (unat (sp p) - 2) (stack p))"
proof -
  have "2 \<le> unat (sp p)" using uint_ge_nat [OF assms(2)] by simp
  then obtain n where n: "unat (sp p) = Suc (Suc n)"
    by (metis Suc_le_D numeral_2_eq_2 old.nat.exhaust Suc_le_mono)
  with unat_sp [OF assms(1)] show ?thesis
    by (simp add: abs_stack_def rev_take_Suc top_entry_def second_entry_def nat_uint_minus)
qed

lemma unat_sp_dec: "1 \<le> uint (w :: u16) \<Longrightarrow> unat (w - 1) = unat w - 1"
  by (intro unat_minus_one) auto

lemma abs_stack_binary:
  assumes "wf_proc p" "2 \<le> uint (sp p)"
  shows "abs_stack (p\<lparr>stack := (stack p)[nat (uint (sp p) - 2) := v], sp := sp p - 1\<rparr>)
       = v # rev (take (unat (sp p) - 2) (stack p))"
proof -
  have "2 \<le> unat (sp p)" using uint_ge_nat [OF assms(2)] by simp
  then obtain n where n: "unat (sp p) = Suc (Suc n)"
    by (metis Suc_le_D numeral_2_eq_2 old.nat.exhaust Suc_le_mono)
  with unat_sp [OF assms(1)] assms(2) show ?thesis
    by (simp add: abs_stack_def unat_sp_dec nat_uint_minus rev_take_Suc)
qed

lemma abs_stack_lt2: "wf_proc p \<Longrightarrow> uint (sp p) < 2 \<Longrightarrow> abs_stack p = [] \<or> (\<exists>x. abs_stack p = [x])"
proof -
  assume a: "wf_proc p" "uint (sp p) < 2"
  then have "length (abs_stack p) < 2" by (simp add: length_abs_stack unat_less_uint)
  then show ?thesis by (cases "abs_stack p" rule: remdups_adj.cases) auto
qed

subsection \<open>Binary instructions\<close>

lemma binary_op_eq:
  assumes "wf_proc p" "2 \<le> uint (sp p)"
  shows "binary_op f p = Inr (True, p\<lparr>stack := (stack p)[nat (uint (sp p) - 2) := f (second_entry p) (top_entry p)],
           sp := sp p - 1\<rparr>)"
  using wf_sp [OF assms(1)] assms
  by (simp add: binary_op_def stack_get_def stack_set_def rd_ok wr_ok top_entry_def second_entry_def)

lemma binary_op_implements:
  assumes "wf_proc p" "\<And>a b. f a b = g a b"
  shows "implements (binary_op f) p (case abs_stack p of b # a # xs \<Rightarrow> Some (g a b # xs) | _ \<Rightarrow> None)"
proof (cases "2 \<le> uint (sp p)")
  case True
  with assms show ?thesis
    by (simp add: implements_def binary_op_eq abs_stack_two abs_stack_binary stack_only_def)
next
  case False
  with abs_stack_lt2 [OF assms(1)] show ?thesis
    by (auto simp: implements_def binary_op_def)
qed

subsection \<open>Machine operations against integer operations\<close>

lemma shift_amount: "unat (b AND 31 :: i32) = nat (uint b mod 32)"
proof -
  have "b AND 31 = take_bit 5 b" by (simp add: take_bit_eq_mask mask_eq_exp_minus_1)
  then have "uint (b AND 31) = take_bit 5 (uint b)" by (simp only: unsigned_take_bit_eq)
  then have "uint (b AND 31) = uint b mod 32" by (simp only: take_bit_eq_mod) simp
  then show ?thesis by (metis nat_uint_eq)
qed

lemma word_of_int_sint_eq: "word_of_int (sint w) = w"
  by simp

lemma word_cmp_int: "(a = b) = (sint a = sint b)"
  by (metis word_of_int_sint_eq)

lemma push_bit_int: "push_bit n (a :: i32) = word_of_int (sint a * 2 ^ n)"
  by (simp add: push_bit_eq_mult)

lemma drop_bit_int: "drop_bit n (a :: i32) = word_of_int (uint a div 2 ^ n)"
proof -
  have "take_bit 32 (uint a) = uint a"
    by (rule take_bit_int_eq_self) (use uint_lt2p [of a] in simp_all)
  then have "uint (drop_bit n a) = drop_bit n (uint a)" by (simp add: unsigned_drop_bit_eq)
  then show ?thesis by (metis drop_bit_eq_div word_of_int_uint)
qed

lemma signed_drop_bit_int: "signed_drop_bit n (a :: i32) = word_of_int (sint a div 2 ^ n)"
  by (metis drop_bit_eq_div sint_signed_drop_bit_eq word_of_int_sint_eq)

lemma not_int: "NOT (a :: i32) = word_of_int (- sint a - 1)"
  by (simp add: not_eq_complement)

lemma and_int: "(a AND b :: i32) = word_of_int (sint a AND sint b)"
  by (metis word_of_int_sint_eq word_and_def of_int_and_eq)

lemma or_int: "(a OR b :: i32) = word_of_int (sint a OR sint b)"
  by (metis word_of_int_sint_eq of_int_or_eq)

lemma xor_int: "(a XOR b :: i32) = word_of_int (sint a XOR sint b)"
  by (metis word_of_int_sint_eq of_int_xor_eq)

text \<open>Each binary handler computes the specified integer function.\<close>

lemma handle_add_int: "handle_add = binary_op (\<lambda>a b. word_of_int (alu_int ADD a b))"
  unfolding handle_add_def
  by (intro arg_cong [where f = binary_op] ext) (simp add: add.commute)

lemma handle_sub_int: "handle_sub = binary_op (\<lambda>a b. word_of_int (alu_int SUB a b))"
  unfolding handle_sub_def
  by (intro arg_cong [where f = binary_op] ext) (simp)

lemma handle_mul_int: "handle_mul = binary_op (\<lambda>a b. word_of_int (alu_int MUL a b))"
  unfolding handle_mul_def
  by (intro arg_cong [where f = binary_op] ext) (simp)

lemma handle_cmp_int: "handle_cmp = binary_op (\<lambda>a b. word_of_int (alu_int CMP a b))"
  unfolding handle_cmp_def
  by (intro arg_cong [where f = binary_op] ext) (auto simp: sgn_if word_cmp_int [of "_ :: i32"])

lemma handle_eq_int: "handle_eq = binary_op (\<lambda>a b. word_of_int (alu_int EQ a b))"
  unfolding handle_eq_def
  by (intro arg_cong [where f = binary_op] ext) (auto simp: sgn_if word_cmp_int [of "_ :: i32"])

lemma handle_neq_int: "handle_neq = binary_op (\<lambda>a b. word_of_int (alu_int NEQ a b))"
  unfolding handle_neq_def
  by (intro arg_cong [where f = binary_op] ext) (auto simp: sgn_if word_cmp_int [of "_ :: i32"])

lemma handle_gt_int: "handle_gt = binary_op (\<lambda>a b. word_of_int (alu_int GT a b))"
  unfolding handle_gt_def
  by (intro arg_cong [where f = binary_op] ext) (simp)

lemma handle_lt_int: "handle_lt = binary_op (\<lambda>a b. word_of_int (alu_int LT a b))"
  unfolding handle_lt_def
  by (intro arg_cong [where f = binary_op] ext) (simp)

lemma handle_and_int: "handle_and = binary_op (\<lambda>a b. word_of_int (alu_int AND_OP a b))"
  unfolding handle_and_def and_int
  by (intro arg_cong [where f = binary_op] ext) simp

lemma handle_or_int: "handle_or = binary_op (\<lambda>a b. word_of_int (alu_int OR_OP a b))"
  unfolding handle_or_def or_int
  by (intro arg_cong [where f = binary_op] ext) simp

lemma handle_xor_int: "handle_xor = binary_op (\<lambda>a b. word_of_int (alu_int XOR_OP a b))"
  unfolding handle_xor_def xor_int
  by (intro arg_cong [where f = binary_op] ext) simp

lemma handle_shl_int: "handle_shl = binary_op (\<lambda>a b. word_of_int (alu_int SHL a b))"
  unfolding handle_shl_def shift_amount Let_def
  by (intro arg_cong [where f = binary_op] ext) (simp add: push_bit_int)

lemma handle_shr_int: "handle_shr = binary_op (\<lambda>a b. word_of_int (alu_int SHR a b))"
  unfolding handle_shr_def shift_amount Let_def
  by (intro arg_cong [where f = binary_op] ext) (simp add: drop_bit_int)

lemma handle_sar_int: "handle_sar = binary_op (\<lambda>a b. word_of_int (alu_int SAR a b))"
  unfolding handle_sar_def shift_amount Let_def
  by (intro arg_cong [where f = binary_op] ext) (simp add: signed_drop_bit_int)

lemmas handlers_int = handle_add_int handle_sub_int handle_mul_int handle_cmp_int handle_eq_int handle_neq_int handle_gt_int handle_lt_int handle_and_int handle_or_int handle_xor_int handle_shl_int handle_shr_int handle_sar_int

lemma binary_refines:
  assumes "wf_proc p" "op \<notin> {DIV, MOD, NOT_OP, POP, DUP, SWAP}"
  shows "implements (alu_handler op) p (alu_spec op (abs_stack p))"
proof -
  have "alu_spec op st = (case st of b # a # xs \<Rightarrow> Some (word_of_int (alu_int op a b) # xs) | _ \<Rightarrow> None)" for st
    using assms(2) by (cases op) (auto split: list.split)
  moreover have "alu_handler op = binary_op (\<lambda>a b. word_of_int (alu_int op a b))"
    using assms(2) by (cases op) (simp_all only: alu_handler.simps handlers_int, simp_all)
  ultimately show ?thesis
    by (simp only:) (rule binary_op_implements [OF assms(1) refl])
qed

subsection \<open>The other stack instructions\<close>

lemma div_mod_refines:
  assumes "wf_proc p" "div_ok p" "op = DIV \<or> op = MOD"
  shows "implements (alu_handler op) p (alu_spec op (abs_stack p))"
proof (cases "2 \<le> uint (sp p)")
  case True
  note w = wf_sp [OF assms(1)]
  from assms(2) True have ok: "\<not> (second_entry p = INT32_MIN \<and> top_entry p = - 1)"
    by (simp add: div_ok_def)
  have h: "handle_div p = (if top_entry p = 0 then Inr (kill p) else
      Inr (True, p\<lparr>stack := (stack p)[nat (uint (sp p) - 2) := word_of_int (sint (second_entry p) sdiv sint (top_entry p))],
           sp := sp p - 1\<rparr>))"
    "handle_mod p = (if top_entry p = 0 then Inr (kill p) else
      Inr (True, p\<lparr>stack := (stack p)[nat (uint (sp p) - 2) := word_of_int (sint (second_entry p) smod sint (top_entry p))],
           sp := sp p - 1\<rparr>))"
    using True w ok
    by (auto simp: handle_div_def handle_mod_def stack_get_def stack_set_def rd_ok wr_ok sdiv32_def smod32_def
        top_entry_def second_entry_def)
  from assms(1,3) True show ?thesis
    by (auto simp: implements_def h abs_stack_two abs_stack_binary stack_only_def)
next
  case False
  with abs_stack_lt2 [OF assms(1)] assms(3) show ?thesis
    by (auto simp: implements_def handle_div_def handle_mod_def)
qed

lemma abs_stack_cases:
  assumes "wf_proc p"
  obtains "uint (sp p) = 0" "sp p = 0" "abs_stack p = []"
  | "1 \<le> uint (sp p)" "sp p \<noteq> 0" "abs_stack p = top_entry p # rev (take (unat (sp p) - 1) (stack p))"
proof (cases "sp p = 0")
  case True
  then show ?thesis using that(1) by (simp add: abs_stack_def)
next
  case False
  then have "1 \<le> uint (sp p)" by (metis sp_zero zless_imp_add1_zle add_0)
  with False show ?thesis using that(2) abs_stack_one [OF assms] by blast
qed

lemma not_refines:
  assumes "wf_proc p"
  shows "implements handle_not p (alu_spec NOT_OP (abs_stack p))"
proof (cases rule: abs_stack_cases [OF assms])
  case 1
  then show ?thesis by (simp add: implements_def handle_not_def)
next
  case 2
  obtain n where n: "unat (sp p) = Suc n" using 2(1) uint_ge_nat [OF 2(1)] by (cases "unat (sp p)") auto
  have "handle_not p = Inr (True, p\<lparr>stack := (stack p)[n := NOT (top_entry p)]\<rparr>)"
    using 2(1) wf_sp [OF assms]
    by (simp add: handle_not_def stack_get_def stack_set_def rd_ok wr_ok top_entry_def nat_uint_minus n)
  moreover have "abs_stack (p\<lparr>stack := (stack p)[n := NOT (top_entry p)]\<rparr>) = NOT (top_entry p) # rev (take n (stack p))"
    using n unat_sp [OF assms] by (simp add: abs_stack_def rev_take_Suc)
  ultimately show ?thesis
    using 2 n by (simp add: implements_def stack_only_def not_int)
qed

lemma pop_refines:
  assumes "wf_proc p"
  shows "implements handle_pop p (alu_spec POP (abs_stack p))"
proof (cases rule: abs_stack_cases [OF assms])
  case 1
  then show ?thesis by (simp add: implements_def handle_pop_def)
next
  case 2
  then show ?thesis
    by (simp add: implements_def handle_pop_def stack_only_def abs_stack_def unat_sp_dec)
qed

lemma dup_refines:
  assumes "wf_proc p"
  shows "implements handle_dup p (alu_spec DUP (abs_stack p))"
proof (cases rule: abs_stack_cases [OF assms])
  case 1
  then show ?thesis by (simp add: implements_def handle_dup_def)
next
  case 2
  show ?thesis
  proof (cases "uint (sp p) < 1024")
    case True
    have n: "unat (sp p + 1) = Suc (unat (sp p))"
      using sp_arith(1) [OF True] by (metis Suc_as_int nat_uint_eq uint_nat)
    have u: "unat (sp p) < 1024" using True by (simp add: unat_less_uint)
    then have s: "unat (sp p) < length (stack p)" using wf_sp [OF assms] by simp
    have "handle_dup p = Inr (True, p\<lparr>stack := (stack p)[unat (sp p) := top_entry p], sp := sp p + 1\<rparr>)"
      using 2(1,2) True wf_sp [OF assms]
      by (simp add: handle_dup_def stack_get_def stack_set_def rd_ok wr_ok top_entry_def nvm_consts)
    moreover have "abs_stack (p\<lparr>stack := (stack p)[unat (sp p) := top_entry p], sp := sp p + 1\<rparr>) = top_entry p # abs_stack p"
      using s by (simp add: abs_stack_def n rev_take_Suc)
    moreover have "length (abs_stack p) < 1024" using u by (simp add: length_abs_stack [OF assms])
    ultimately show ?thesis
      using 2(3) by (simp add: implements_def stack_only_def nvm_consts)
  next
    case False
    then have "\<not> length (abs_stack p) < 1024" by (simp add: length_abs_stack [OF assms] unat_less_uint)
    with 2 False show ?thesis
      by (simp add: implements_def handle_dup_def nvm_consts)
  qed
qed

lemma swap_refines:
  assumes "wf_proc p"
  shows "implements handle_swap p (alu_spec SWAP (abs_stack p))"
proof (cases "2 \<le> uint (sp p)")
  case True
  obtain n where n: "unat (sp p) = Suc (Suc n)"
    using uint_ge_nat [OF True] by (metis Suc_le_D nat_numeral numeral_2_eq_2 Suc_le_mono)
  have "handle_swap p = Inr (True, p\<lparr>stack := (stack p)[n := top_entry p, Suc n := second_entry p]\<rparr>)"
    using True wf_sp [OF assms]
    by (simp add: handle_swap_def stack_get_def stack_set_def rd_ok wr_ok top_entry_def second_entry_def nat_uint_minus n)
  moreover have "abs_stack (p\<lparr>stack := (stack p)[n := top_entry p, Suc n := second_entry p]\<rparr>)
      = second_entry p # top_entry p # rev (take n (stack p))"
    using n unat_sp [OF assms] by (simp add: abs_stack_def rev_take_Suc)
  ultimately show ?thesis
    using n True by (simp add: implements_def stack_only_def abs_stack_two [OF assms])
next
  case False
  with abs_stack_lt2 [OF assms] show ?thesis by (auto simp: implements_def handle_swap_def)
qed

text \<open>C5. Refinement: on a well-formed process every arithmetic, comparison, bitwise and stack instruction
  does to the operand stack what the specification over integers says, and touches nothing else;
  where the specification has no result the process is killed.  \<open>DIV\<close> and \<open>MOD\<close> are covered
  outside their trap.\<close>

theorem alu_refines:
  assumes "wf_proc p" "op = DIV \<or> op = MOD \<Longrightarrow> div_ok p"
  shows "implements (alu_handler op) p (alu_spec op (abs_stack p))"
proof -
  consider "op = DIV \<or> op = MOD" | "op = NOT_OP" | "op = POP" | "op = DUP" | "op = SWAP"
    | "op \<notin> {DIV, MOD, NOT_OP, POP, DUP, SWAP}" by blast
  then show ?thesis
    using div_mod_refines [OF assms(1)] assms(2) not_refines [OF assms(1)] pop_refines [OF assms(1)]
      dup_refines [OF assms(1)] swap_refines [OF assms(1)] binary_refines [OF assms(1)]
    by cases (simp_all only: alu_handler.simps)
qed

theorem alu_refines_witness:
  "implements handle_sub (demo_process [0x4E, 0x56, 0x4D, 0x30, 0x11] [9, 3, 7]) (Some [- 4, 9])"
proof -
  let ?p = "demo_process [0x4E, 0x56, 0x4D, 0x30, 0x11] [9, 3, 7]"
  have "wf_proc ?p" by (rule wf_demo_process; simp add: nvm_consts)
  then have "implements (alu_handler SUB) ?p (alu_spec SUB (abs_stack ?p))" by (rule alu_refines) simp
  moreover have "abs_stack ?p = [7, 3, 9]" by (simp add: abs_stack_def)
  ultimately show ?thesis by simp
qed

end
