(* ===== verification/Nvm_Control.thy ===== *)
theory Nvm_Control
  imports Nvm_Alu
begin

text \<open>
  What the control-flow and memory instructions achieve together: a call and its return, a
  stack frame and its removal, a heap store and the loads after it, and the exact states in
  which division and heap access fault.
\<close>

subsection \<open>Calls and returns\<close>

lemma top_after_push:
  assumes "wf_proc p" "uint (sp p) < 1024"
  shows "stack_push p v = Inr (p\<lparr>stack := (stack p)[unat (sp p) := v], sp := sp p + 1\<rparr>)"
    and "unat (sp p + 1) = Suc (unat (sp p))" and "unat (sp p) < length (stack p)"
proof -
  show "stack_push p v = Inr (p\<lparr>stack := (stack p)[unat (sp p) := v], sp := sp p + 1\<rparr>)"
    using assms wf_sp [OF assms(1)] by (simp add: stack_push_def stack_set_def wr_ok)
  show "unat (sp p + 1) = Suc (unat (sp p))"
    using sp_arith(1) [OF assms(2)] by (metis Suc_as_int nat_uint_eq uint_nat)
  show "unat (sp p) < length (stack p)"
    using assms(2) wf_sp [OF assms(1)] by (simp add: unat_less_uint)
qed

lemma pop_after_push:
  assumes "wf_proc p" "uint (sp p) < 1024"
  shows "stack_pop (p\<lparr>stack := (stack p)[unat (sp p) := v], sp := sp p + 1\<rparr>)
     = Inr (v, p\<lparr>stack := (stack p)[unat (sp p) := v]\<rparr>)"
  using top_after_push [OF assms] wf_sp [OF assms(1)] assms(2)
  by (simp add: stack_pop_def stack_get_def rd_ok Let_def)

definition same_but_ip :: "nvm_process \<Rightarrow> u32 \<Rightarrow> nvm_process \<Rightarrow> bool" where
  "same_but_ip p i p' \<longleftrightarrow> abs_stack p' = abs_stack p \<and> p' = p\<lparr>ip := i, stack := stack p'\<rparr>"

text \<open>C6. After \<open>CALL addr\<close> execution continues at \<open>addr\<close>, and a \<open>RET\<close> in that state resumes right
  after the operand of the call with everything but the dead part of the stack as before.\<close>

theorem call_ret:
  assumes "wf_proc p" "active p" "ip p + 4 < code_size p" "uint (sp p) < 1023"
    "code_get32 p = Inr addr" "4 \<le> addr" "addr < code_size p"
  shows "\<exists>q p'. handle_call p = Inr (True, q) \<and> ip q = addr \<and> abs_stack q = (ip p + 4) # abs_stack p \<and>
    handle_ret q = Inr (True, p') \<and> same_but_ip p (ip p + 4) p'"
proof -
  let ?r = "ip p + 4"
  let ?q = "p\<lparr>ip := addr, stack := (stack p)[unat (sp p) := ?r], sp := sp p + 1\<rparr>"
  have "uint (ip p) \<le> uint (code_size p)" using assms(1) by (simp add: wf_proc_def)
  have r: "uint ?r = uint (ip p) + 4" "uint (ip p + 3) = uint (ip p) + 3"
    using wf_ip_add [OF assms(1)] by simp_all
  have lt: "ip p + 3 < code_size p" using assms(3) r by (simp add: word_less_def)
  have r4: "4 \<le> ?r" using r by (simp add: word_le_def)
  have wf: "wf_proc (p\<lparr>ip := ?r\<rparr>)" using assms(1) next_ip(1) [OF assms(1) lt] by (auto intro!: wf_upd)
  have sp: "uint (sp p) < 1024" using assms(4) by simp
  have call: "handle_call p = Inr (True, ?q)"
    using lt assms top_after_push(1) [OF wf, of ?r] sp by (simp add: handle_call_def Let_def nvm_consts)
  have ret: "handle_ret ?q = Inr (True, p\<lparr>ip := ?r, stack := (stack p)[unat (sp p) := ?r]\<rparr>)"
  proof -
    have "wf_proc (p\<lparr>ip := addr\<rparr>)" using assms(1,7) by (auto intro!: wf_upd simp: next_ip)
    from pop_after_push [OF this, of ?r] sp
    have "stack_pop ?q = Inr (?r, p\<lparr>ip := addr, stack := (stack p)[unat (sp p) := ?r]\<rparr>)" by simp
    moreover have "0 < uint (sp p + 1)" using sp_arith(1) [OF sp] by simp
    ultimately show ?thesis using r4 assms(3) by (simp add: handle_ret_def)
  qed
  have "abs_stack ?q = ?r # abs_stack p"
    using top_after_push(2,3) [OF assms(1) sp] by (simp add: abs_stack_def rev_take_Suc)
  with call ret show ?thesis
    by (auto simp: same_but_ip_def abs_stack_def)
qed

text \<open>A program that calls address 12 and returns.\<close>

theorem call_ret_witness:
  "\<exists>q p'. handle_call (demo_process [0x4E, 0x56, 0x4D, 0x30, 0, 0, 0, 12, 0, 0, 0, 0, 0x34] [5]) = Inr (True, q) \<and>
    ip q = 12 \<and> abs_stack q = [8, 5] \<and> handle_ret q = Inr (True, p') \<and>
    same_but_ip (demo_process [0x4E, 0x56, 0x4D, 0x30, 0, 0, 0, 12, 0, 0, 0, 0, 0x34] [5]) 8 p'"
proof -
  let ?p = "demo_process [0x4E, 0x56, 0x4D, 0x30, 0, 0, 0, 12, 0, 0, 0, 0, 0x34] [5]"
  have "wf_proc ?p" "active ?p" by (rule wf_demo_process; simp add: nvm_consts)+
  moreover have "code_get32 ?p = Inr 12" by (simp add: code_get32_def code_get_def rd_def be32_def)
  ultimately have "\<exists>q p'. handle_call ?p = Inr (True, q) \<and> ip q = 12 \<and> abs_stack q = (ip ?p + 4) # abs_stack ?p \<and>
      handle_ret q = Inr (True, p') \<and> same_but_ip ?p (ip ?p + 4) p'"
    by (intro call_ret) simp_all
  moreover have "ip ?p + 4 = 8" "abs_stack ?p = [5]" by (simp_all add: abs_stack_def)
  ultimately show ?thesis by simp
qed

subsection \<open>Stack frames\<close>

text \<open>C7. \<open>ENTER n\<close> pushes the old frame pointer and \<open>n\<close> zeroes and points the frame pointer at the saved
  one; a \<open>LEAVE\<close> in that state removes the frame and restores stack and frame pointer.\<close>

theorem enter_leave:
  assumes "wf_proc p" "active p" "ip p < code_size p" "code_get p (ip p) = Inr locs"
    "uint (sp p) + 1 + uint locs \<le> int STACK_SIZE"
  shows "\<exists>q p'. handle_enter p = Inr (True, q) \<and> abs_stack q = replicate (unat locs) 0 @ fp p # abs_stack p \<and>
    sint (fp q) = uint (sp p) \<and> handle_leave q = Inr (True, p') \<and> same_but_ip p (ip p + 1) p'"
proof -
  let ?n = "unat (sp p)" and ?l = "unat locs"
  let ?st = "take ?n (stack p) @ [fp p] @ replicate ?l 0 @ drop (?n + 1 + ?l) (stack p)"
  let ?q = "p\<lparr>ip := ip p + 1, stack := ?st, sp := sp p + 1 + ucast locs, fp := ucast (sp p)\<rparr>"
  have fits: "uint (sp p) + 1 + uint locs \<le> 1024" using assms(5) by (simp add: nvm_consts)
  have e: "handle_enter p = Inr (True, ?q)" using enter_eq [OF assms(1,3,4) fits] by simp
  have lt: "uint (sp p) < 1024" using fits uint_ge_0 [of locs] by linarith
  then have s1: "uint (sp p + 1) = uint (sp p) + 1" by (rule sp_arith)
  with fits have sq: "uint (sp p + 1 + ucast locs) = uint (sp p) + 1 + uint locs" by (simp add: uint_plus_small)
  have nq: "unat (sp p + 1 + ucast locs) = ?n + 1 + ?l"
  proof -
    have "int (unat (sp p + 1 + ucast locs)) = int (?n + 1 + ?l)" using sq by simp
    then show ?thesis by (rule of_nat_eq_iff [THEN iffD1])
  qed
  have n: "?n < length (stack p)" using lt wf_sp [OF assms(1)] by (simp add: unat_less_uint)
  have uf: "uint (ucast (sp p) :: i32) = uint (sp p)" by (rule uint_up_ucast) (simp add: is_up)
  then have f: "sint (ucast (sp p) :: i32) = uint (sp p)" using lt by (simp add: sint_small_eq_uint)
  have a: "abs_stack ?q = replicate ?l 0 @ fp p # abs_stack p"
    using n by (simp add: abs_stack_def nq)
  have len: "length ?st = 1024"
  proof -
    from fits have "int (?n + 1 + ?l) \<le> int 1024" by simp
    then have "?n + 1 + ?l \<le> 1024" by (rule of_nat_le_iff [THEN iffD1])
    then show ?thesis using wf_sp [OF assms(1)] by simp
  qed
  have g: "?st ! nat (uint (sp p)) = fp p" using n by (simp add: nth_append)
  have "(scast (ucast (sp p) :: i32) :: u16) = word_of_int (sint (ucast (sp p) :: i32))" by simp
  then have sc: "(scast (ucast (sp p) :: i32) :: u16) = sp p" by (simp only: f) simp
  have l0: "\<not> 1 + uint locs \<le> 0" using uint_ge_0 [of locs] by linarith
  have "p\<lparr>ip := ip p + 1, stack := ?st, sp := sp p, fp := fp p\<rparr> = p\<lparr>ip := ip p + 1, stack := ?st\<rparr>"
    by (cases p) simp
  then have l: "handle_leave ?q = Inr (True, p\<lparr>ip := ip p + 1, stack := ?st\<rparr>)"
    using lt sq len g l0 by (simp add: handle_leave_def f nvm_consts stack_get_def rd_ok Let_def sc)
  have "abs_stack (p\<lparr>ip := ip p + 1, stack := ?st\<rparr>) = abs_stack p" using n by (simp add: abs_stack_def)
  with e a f l show ?thesis unfolding same_but_ip_def
    by (intro exI [of _ ?q] exI [of _ "p\<lparr>ip := ip p + 1, stack := ?st\<rparr>"] conjI) simp_all
qed

theorem enter_leave_witness:
  "\<exists>q p'. handle_enter (demo_process [0x4E, 0x56, 0x4D, 0x30, 2, 0x36] [5]) = Inr (True, q) \<and> abs_stack q = [0, 0, - 1, 5] \<and>
    handle_leave q = Inr (True, p') \<and> same_but_ip (demo_process [0x4E, 0x56, 0x4D, 0x30, 2, 0x36] [5]) 5 p'"
proof -
  let ?p = "demo_process [0x4E, 0x56, 0x4D, 0x30, 2, 0x36] [5]"
  have "wf_proc ?p" "active ?p" by (rule wf_demo_process; simp add: nvm_consts)+
  moreover have "code_get ?p (ip ?p) = Inr 2" by (simp add: code_get_def rd_def)
  ultimately have "\<exists>q p'. handle_enter ?p = Inr (True, q) \<and> abs_stack q = replicate (unat (2 :: u8)) 0 @ fp ?p # abs_stack ?p \<and>
      sint (fp q) = uint (sp ?p) \<and> handle_leave q = Inr (True, p') \<and> same_but_ip ?p (ip ?p + 1) p'"
    by (intro enter_leave) (simp_all add: nvm_consts)
  moreover have "ip ?p + 1 = 5" "abs_stack ?p = [5]" by (simp_all add: abs_stack_def)
  moreover have "unat (2 :: u8) = Suc (Suc 0)" by simp
  then have "replicate (unat (2 :: u8)) (0 :: i32) = [0, 0]" by (simp only: replicate.simps)
  ultimately show ?thesis by auto
qed

subsection \<open>Heap accesses\<close>

lemma rd_wr_le32_other:
  assumes "wr_le32 bs i v = Inr bs'" "j + 4 \<le> i \<or> i + 4 \<le> j"
  shows "rd_le32 bs' j = rd_le32 bs j"
proof -
  from assms(1) obtain b1 b2 b3 where w: "wr bs i (ucast v) = Inr b1" "wr b1 (i + 1) (ucast (drop_bit 8 v)) = Inr b2"
    "wr b2 (i + 2) (ucast (drop_bit 16 v)) = Inr b3" "wr b3 (i + 3) (ucast (drop_bit 24 v)) = Inr bs'"
    by (auto simp: wr_le32_def bindR_Inr_iff)
  have "rd bs' k = rd bs k" if "k < i \<or> i + 4 \<le> k" for k
    using that rd_wr_other [OF w(1), of k] rd_wr_other [OF w(2), of k] rd_wr_other [OF w(3), of k] rd_wr_other [OF w(4), of k]
    by auto
  with assms(2) show ?thesis by (auto simp: rd_le32_def)
qed

lemma store_heap_eq:
  assumes "wf_proc p" "active p" "2 \<le> uint (sp p)" "0 \<le> sint (second_entry p)" "sint (second_entry p) + 3 < int HEAP_SIZE"
    "heap p = Some (a, hs)"
  obtains hs' where "wr_le32 hs (sint (second_entry p)) (top_entry p) = Inr hs'" "length hs' = length hs"
    "handle_store_heap p = Inr (True, p\<lparr>sp := sp p - 1 - 1, heap := Some (a, hs')\<rparr>)"
proof -
  have len: "length hs = HEAP_SIZE" "sint (heap_size p) = int HEAP_SIZE" using wf_heap [OF assms(1,2)] assms(6) by auto
  obtain hs' where h: "wr_le32 hs (sint (second_entry p)) (top_entry p) = Inr hs'"
    using assms(4,5) len wr_le32_Inr_iff by metis
  have s: "sint (second_entry p + 3) = sint (second_entry p) + 3"
    using assms(4,5) by (intro sint_plus3) (simp_all add: nvm_consts)
  have u: "uint (sp p - 1) = uint (sp p) - 1" "uint (sp p - 1 - 1) = uint (sp p) - 2" using assms(3) by (simp_all add: sp_arith)
  have "handle_store_heap p = Inr (True, p\<lparr>sp := sp p - 1 - 1, heap := Some (a, hs')\<rparr>)"
    using assms(3-6) wf_sp [OF assms(1)] u s len h
    by (simp add: handle_store_heap_def stack_pop_def stack_get_def rd_ok Let_def heap_set32_def
        flip: top_entry_def second_entry_def)
  then show ?thesis using that h wr_le32_length [OF h] by blast
qed

text \<open>C8. For a process that has a heap, \<open>STORE_HEAP\<close> takes the value from the top of the stack and the offset
  from below it, and writes the value if the word lies within the heap: a later \<open>LOAD_HEAP\<close> of the same offset
  pushes that value, and every word that does not overlap it is unchanged.\<close>

theorem store_load_heap:
  assumes "wf_proc p" "active p" "2 \<le> uint (sp p)" "0 \<le> sint (second_entry p)" "sint (second_entry p) + 3 < int HEAP_SIZE"
    "heap p \<noteq> None"
  shows "\<exists>q r s. handle_store_heap p = Inr (True, q) \<and> abs_stack q = tl (tl (abs_stack p)) \<and>
    stack_push q (second_entry p) = Inr r \<and> handle_load_heap r = Inr (True, s) \<and>
    abs_stack s = top_entry p # abs_stack q \<and>
    (\<forall>j. j + 4 \<le> sint (second_entry p) \<or> sint (second_entry p) + 4 \<le> j \<longrightarrow> heap_get32 q j = heap_get32 p j)"
proof -
  let ?off = "second_entry p" and ?v = "top_entry p"
  obtain a hs where h: "heap p = Some (a, hs)" "length hs = HEAP_SIZE" "sint (heap_size p) = int HEAP_SIZE"
    using wf_heap [OF assms(1,2,6)] by blast
  obtain hs' where w: "wr_le32 hs (sint ?off) ?v = Inr hs'" "length hs' = length hs"
    "handle_store_heap p = Inr (True, p\<lparr>sp := sp p - 1 - 1, heap := Some (a, hs')\<rparr>)"
    using store_heap_eq [OF assms(1-5) h(1)] by blast
  let ?q = "p\<lparr>sp := sp p - 1 - 1, heap := Some (a, hs')\<rparr>"
  have uq: "uint (sp ?q) = uint (sp p) - 2" using assms(3) by (simp add: sp_arith)
  then have uq': "uint (sp ?q) < 1024" using wf_sp(1) [OF assms(1)] by linarith
  have wfq: "wf_proc ?q" using assms(1) wf_sp [OF assms(1)] uq h w(2) by (auto simp: buf_len_def intro!: wf_upd)
  let ?r = "?q\<lparr>stack := (stack ?q)[unat (sp ?q) := ?off], sp := sp ?q + 1\<rparr>"
  have push: "stack_push ?q ?off = Inr ?r" by (rule top_after_push(1) [OF wfq uq'])
  let ?r' = "?q\<lparr>stack := (stack ?q)[unat (sp ?q) := ?off]\<rparr>"
  have wfr: "wf_proc ?r'" using wf_sp(2) [OF wfq] by (intro wf_upd(2) [OF wfq]) simp
  have pop: "stack_pop ?r = Inr (?off, ?r')" by (rule pop_after_push [OF wfq uq'])
  let ?s = "?r'\<lparr>stack := (stack ?r')[unat (sp ?r') := ?v], sp := sp ?r' + 1\<rparr>"
  have push2: "stack_push ?r' ?v = Inr ?s" by (rule top_after_push(1) [OF wfr]) (use uq' in simp)
  have get: "heap_get32 ?r' (sint ?off) = Inr ?v" using rd_wr_le32 [OF w(1)] by (simp add: heap_get32_def)
  have s3: "sint (?off + 3) = sint ?off + 3" using assms(4,5) by (intro sint_plus3) (simp_all add: nvm_consts)
  have "0 < uint (sp ?r)" using sp_arith(1) [OF uq'] uint_ge_0 [of "sp ?q"] by simp
  then have load: "handle_load_heap ?r = Inr (True, ?s)"
    using pop push2 get s3 assms(4,5) h(3) uq' by (simp add: handle_load_heap_def nvm_consts)
  have abs: "abs_stack ?s = ?v # abs_stack ?q"
    using top_after_push(2,3) [OF wfq uq'] by (simp add: abs_stack_def rev_take_Suc)
  have absq: "abs_stack ?q = tl (tl (abs_stack p))"
  proof -
    have "unat (sp ?q) = unat (sp p) - 2"
      using uq nat_uint_minus [of 2 "sp p"] by (metis nat_numeral nat_uint_eq zero_le_numeral)
    with abs_stack_two [OF assms(1,3)] show ?thesis by (simp add: abs_stack_def)
  qed
  have "heap_get32 ?q j = heap_get32 p j" if "j + 4 \<le> sint ?off \<or> sint ?off + 4 \<le> j" for j
    using rd_wr_le32_other [OF w(1) that] h(1) by (simp add: heap_get32_def)
  with w(3) push load abs absq show ?thesis by blast
qed

theorem store_load_heap_witness:
  "\<exists>q r s. handle_store_heap (demo_process [0x4E, 0x56, 0x4D, 0x30] [9, 64, 7]) = Inr (True, q) \<and> abs_stack q = [9] \<and>
    stack_push q 64 = Inr r \<and> handle_load_heap r = Inr (True, s) \<and> abs_stack s = [7, 9]"
proof -
  let ?p = "demo_process [0x4E, 0x56, 0x4D, 0x30] [9, 64, 7]"
  have wf: "wf_proc ?p" "active ?p" by (rule wf_demo_process; simp add: nvm_consts)+
  have e: "second_entry ?p = 64" "top_entry ?p = 7" "abs_stack ?p = [7, 64, 9]"
    by (simp_all add: second_entry_def top_entry_def abs_stack_def)
  show ?thesis
    using store_load_heap [OF wf, unfolded e] by (auto simp: nvm_consts)
qed

subsection \<open>Faults\<close>

lemma div_traps:
  assumes "wf_proc p" "\<not> div_ok p"
  shows "handle_div p = Inl DivideError" "handle_mod p = Inl DivideError"
  using assms wf_sp [OF assms(1)]
  by (auto simp: div_ok_def handle_div_def handle_mod_def stack_get_def rd_ok sdiv32_def smod32_def
      top_entry_def second_entry_def)

lemma sint_wraps: "2 ^ 31 - 3 \<le> sint (x :: i32) \<Longrightarrow> sint (x + 3) < 0"
proof -
  assume a: "2 ^ 31 - 3 \<le> sint x"
  have l: "sint x < 2 ^ 31" using sint_lt [of x] by simp
  from a l have u: "uint x = sint x" using sint_nonneg_eq_uint [of x] by simp
  with l have v: "uint (x + 3) = uint x + 3" by (simp add: uint_plus_small)
  show "sint (x + 3) < 0"
  proof (rule ccontr)
    assume "\<not> sint (x + 3) < 0"
    then have "sint (x + 3) = uint (x + 3)" using sint_nonneg_eq_uint [of "x + 3"] by simp
    moreover have "sint (x + 3) < 2 ^ 31" using sint_lt [of "x + 3"] by simp
    ultimately show False using a u v by simp
  qed
qed

lemma heap_overruns:
  assumes "wf_proc p" "active p" "heap p \<noteq> None"
  shows "\<not> load_heap_ok p \<Longrightarrow> handle_load_heap p = Inl OutOfBounds"
    and "\<not> store_heap_ok p \<Longrightarrow> handle_store_heap p = Inl OutOfBounds"
proof -
  obtain a hs where h: "heap p = Some (a, hs)" "length hs = HEAP_SIZE" "sint (heap_size p) = int HEAP_SIZE"
    using wf_heap [OF assms] by blast
  show "handle_load_heap p = Inl OutOfBounds" if "\<not> load_heap_ok p"
    using that h wf_sp [OF assms(1)] sint_wraps [of "top_entry p"]
    by (auto simp: load_heap_ok_def handle_load_heap_def stack_pop_def stack_get_def rd_def Let_def sp_arith
        heap_get32_def rd_le32_def nvm_consts top_entry_def)
  show "handle_store_heap p = Inl OutOfBounds" if "\<not> store_heap_ok p"
    using that h wf_sp [OF assms(1)] sint_wraps [of "second_entry p"]
    by (auto simp: store_heap_ok_def handle_store_heap_def stack_pop_def stack_get_def rd_def Let_def sp_arith
        heap_set32_def wr_le32_def wr_def nvm_consts second_entry_def)
qed

text \<open>An offset that passes the bounds test of the heap instructions, as the code computes it.\<close>

definition offset_accepted :: "nvm_process \<Rightarrow> i32 \<Rightarrow> bool" where
  "offset_accepted p offset \<longleftrightarrow> 0 \<le> sint offset \<and> sint (offset + 3) < sint (heap_size p)"

lemma heap_missing:
  assumes "wf_proc p" "heap p = None"
  shows "handle_load_heap p = Inl e \<longleftrightarrow> 1 \<le> uint (sp p) \<and> offset_accepted p (top_entry p) \<and> e = NullPointer"
    and "handle_store_heap p = Inl e \<longleftrightarrow> 2 \<le> uint (sp p) \<and> offset_accepted p (second_entry p) \<and> e = NullPointer"
  using assms(2) wf_sp [OF assms(1)]
  by (auto simp: handle_load_heap_def handle_store_heap_def stack_pop_def stack_get_def rd_ok Let_def sp_arith
      heap_get32_def heap_set32_def offset_accepted_def top_entry_def second_entry_def not_less not_le)

text \<open>C14. \<open>DIV\<close> and \<open>MOD\<close> raise the divide error exactly for the least integer divided by minus one; the
  heap instructions of a process with a heap leave the heap exactly for the three offsets whose bounds test
  wraps around; and those of a process without a heap follow the null pointer exactly when the bounds test,
  made against the size recorded for an earlier heap of the slot, accepts the offset.\<close>

theorem exact_faults:
  assumes "wf_proc p" "active p"
  shows "(handle_div p = Inl e \<longleftrightarrow> \<not> div_ok p \<and> e = DivideError) \<and>
    (handle_mod p = Inl e \<longleftrightarrow> \<not> div_ok p \<and> e = DivideError) \<and>
    (heap p \<noteq> None \<longrightarrow> (handle_load_heap p = Inl e \<longleftrightarrow> \<not> load_heap_ok p \<and> e = OutOfBounds) \<and>
      (handle_store_heap p = Inl e \<longleftrightarrow> \<not> store_heap_ok p \<and> e = OutOfBounds)) \<and>
    (heap p = None \<longrightarrow>
      (handle_load_heap p = Inl e \<longleftrightarrow> 1 \<le> uint (sp p) \<and> offset_accepted p (top_entry p) \<and> e = NullPointer) \<and>
      (handle_store_heap p = Inl e \<longleftrightarrow> 2 \<le> uint (sp p) \<and> offset_accepted p (second_entry p) \<and> e = NullPointer))"
proof (intro conjI impI)
  show "handle_div p = Inl e \<longleftrightarrow> \<not> div_ok p \<and> e = DivideError" "handle_mod p = Inl e \<longleftrightarrow> \<not> div_ok p \<and> e = DivideError"
    using div_traps [OF assms(1)] div_i.safe [OF assms] mod_i.safe [OF assms] by (cases "div_ok p"; auto)+
  show "handle_load_heap p = Inl e \<longleftrightarrow> \<not> load_heap_ok p \<and> e = OutOfBounds"
    "handle_store_heap p = Inl e \<longleftrightarrow> \<not> store_heap_ok p \<and> e = OutOfBounds" if "heap p \<noteq> None"
    using heap_overruns [OF assms that] load_heap_i.safe [OF assms] store_heap_i.safe [OF assms] that
    by (cases "load_heap_ok p"; cases "store_heap_ok p"; auto)+
qed (use heap_missing [OF assms(1)] in auto)

theorem exact_faults_witness:
  "handle_div (demo_process [0x4E, 0x56, 0x4D, 0x30] [0x80000000, - 1]) = Inl DivideError \<and>
   handle_load_heap (demo_process [0x4E, 0x56, 0x4D, 0x30] [0x7FFFFFFE]) = Inl OutOfBounds"
proof -
  let ?p = "demo_process [0x4E, 0x56, 0x4D, 0x30] [0x80000000, - 1]" and ?q = "demo_process [0x4E, 0x56, 0x4D, 0x30] [0x7FFFFFFE]"
  have p: "wf_proc ?p" "active ?p" by (rule wf_demo_process; simp add: nvm_consts)+
  have q: "wf_proc ?q" "active ?q" by (rule wf_demo_process; simp add: nvm_consts)+
  have "\<not> div_ok ?p" by (simp add: div_ok_def second_entry_def top_entry_def INT32_MIN_def)
  moreover have "\<not> load_heap_ok ?q" by (simp add: load_heap_ok_def top_entry_def)
  ultimately show ?thesis using exact_faults [OF p, of DivideError] exact_faults [OF q, of OutOfBounds] by simp
qed

end
