(* ===== verification/Nvm_Properties.thy ===== *)
theory Nvm_Properties
  imports Nvm_Machine Nvm_Control
begin

text \<open>
  The theorems about the whole virtual machine: memory safety and the invariant of every run,
  isolation of processes, capabilities, message passing, process creation and scheduling.
\<close>

subsection \<open>A machine for the examples\<close>

text \<open>Services whose allocator always answers with the same address and whose files are empty.\<close>

definition demo_services :: "unit services" where
  "demo_services = \<lparr>sv_kmalloc = \<lambda>n k. (0x5000, k), sv_kfree = \<lambda>a k. k, sv_vfs_open = \<lambda>f m k. (3, k),
     sv_vfs_readfd = \<lambda>fd k. ((0, 0), k), sv_vfs_writefd = \<lambda>fd c k. (1, k), sv_vfs_delete = \<lambda>f k. (0, k),
     sv_procfs_register = \<lambda>i k. k, sv_procfs_unregister = \<lambda>i k. k, sv_procfs_set_args = \<lambda>i a k. k,
     sv_tty_puts = \<lambda>s k. k, sv_inb = \<lambda>p k. (0, k), sv_outb = \<lambda>p v k. k\<rparr>"


text \<open>Slot 0 runs the given process, all other slots are free.\<close>

definition demo_world :: "nvm_process \<Rightarrow> unit world" where
  "demo_world p = put_proc 0 p (zero_world Map.empty ())"

lemma demo_services_ok: "short_files demo_services"
  by (simp add: short_files_def demo_services_def read_code.simps)

lemma wf_zero_world: "wf_world (zero_world m k)"
  by (simp add: wf_world_def zero_world_def wf_zero_process MAX_MESSAGES_def nvm_consts) (simp add: zero_process_def)

lemma demo_pid [simp]: "pid (demo_process code vals) = 0"
  by (simp add: demo_process_def zero_process_def)

lemma wf_demo_world:
  assumes "wf_proc p" "pid p = 0"
  shows "wf_world (demo_world p)" "processes (demo_world p) ! 0 = p" "0 < MAX_PROCESSES"
proof -
  show "wf_world (demo_world p)"
    unfolding demo_world_def by (intro wf_world_put wf_zero_world) (simp_all add: assms)
qed (simp_all add: demo_world_def zero_world_def nvm_consts)

text \<open>Process 0 halts in the slice that tick 10 starts.\<close>

lemma run_slice_stops:
  assumes "0 < n" "get_proc w (unat (current_process w)) = Inr p" "ip p < code_size p" "runnable p"
    "nvm_execute_instruction sv (unat (current_process w)) w = Inr (False, w')"
  shows "run_slice sv n w = Inr w'"
  using assms by (cases n) (simp_all add: runnable_def)

lemma demo_halt:
  "nvm_execute_instruction demo_services 0 ((demo_world (demo_process [0x4E, 0x56, 0x4D, 0x30, 0] []))\<lparr>timer_ticks := t, current_process := c\<rparr>)
   = Inr (False, (demo_world ((demo_process [0x4E, 0x56, 0x4D, 0x30, 0] [])\<lparr>ip := 5, active := False, exit_code := 0\<rparr>))\<lparr>timer_ticks := t, current_process := c\<rparr>)"
proof -
  let ?p = "demo_process [0x4E, 0x56, 0x4D, 0x30, 0] []"
  let ?w = "(demo_world ?p)\<lparr>timer_ticks := t, current_process := c\<rparr>"
  have g: "get_proc ?w 0 = Inr ?p" "\<And>q. get_proc (put_proc 0 q ?w) 0 = Inr q" by (simp_all add: get_proc_def rd_def demo_world_def zero_world_def nvm_consts)
  have "code_get ?p 4 = Inr 0" by (simp add: code_get_def rd_def)
  then show ?thesis
    by (simp add: nvm_execute_instruction_def g run_opcode_def instruction_table_def run_local_def handle_halt_def)
      (simp add: demo_world_def put_proc_def)
qed

lemma demo_halt_tick:
  assumes "w = (demo_world (demo_process [0x4E, 0x56, 0x4D, 0x30, 0] []))\<lparr>timer_ticks := 9\<rparr>"
  shows "wf_world w" "\<exists>w'. nvm_scheduler_tick demo_services w = Inr w'" "runnable (processes w ! 0)"
proof -
  let ?p = "demo_process [0x4E, 0x56, 0x4D, 0x30, 0] []"
  have p: "wf_proc ?p" "active ?p" by (rule wf_demo_process; simp add: nvm_consts)+
  note d = wf_demo_world [OF p(1) demo_pid]
  show wf: "wf_world w" using d(1) by (simp add: assms)
  have r0: "runnable ?p" by (simp add: runnable_def demo_process_def zero_process_def)
  with d(2) show r: "runnable (processes w ! 0)" by (simp add: assms)
  have c: "current_process w = 0" by (simp add: assms demo_world_def zero_world_def)
  show "\<exists>w'. nvm_scheduler_tick demo_services w = Inr w'"
  proof (cases rule: tick_cases [OF wf, of demo_services])
    case slice: (3 e)
    have "\<not> runnable (processes w ! j)" if "0 < j" "j < MAX_PROCESSES" for j
      using that by (simp add: assms demo_world_def zero_world_def nvm_consts runnable_def zero_process_def)
    with slice(4) after_slot_lt have "after_slot (current_process w) e = 0" by blast
    with slice(6) have t: "nvm_scheduler_tick demo_services w
        = run_slice demo_services SLICE ((demo_world ?p)\<lparr>timer_ticks := 10, current_process := 0\<rparr>)"
      by (simp add: assms)
    have g: "get_proc ((demo_world ?p)\<lparr>timer_ticks := 10, current_process := 0\<rparr>) 0 = Inr ?p"
      by (simp add: get_proc_def rd_def demo_world_def zero_world_def nvm_consts)
    show ?thesis
      unfolding t by (rule exI, rule run_slice_stops [where p = ?p]) (use r0 in \<open>simp_all add: SLICE_def g demo_halt\<close>)
  qed auto
qed

subsection \<open>Safety and the invariant\<close>

text \<open>C1. No instruction of a well-formed machine faults (leaves an array, follows a null pointer, traps
  or runs forever), and it leaves the machine well formed, outside the states that \<open>instr_safe\<close> excludes:
  \<open>DIV\<close>, \<open>MOD\<close> and the heap accesses in the states of their wrapped tests, heap accesses and the calls
  \<open>OPEN\<close>, \<open>READ\<close> and \<open>WRITE\<close> of a process whose heap could not be allocated, absolute accesses to the
  machine's own data, and the call \<open>SPAWN\<close>.  Nothing is assumed of the allocator, which may fail; process
  heaps and loaded code are taken to be blocks of their own.\<close>

theorem instruction_safe:
  assumes "wf_world w" "i < MAX_PROCESSES" "active (processes w ! i)" "instr_safe (abs_mem w) (processes w ! i)"
  shows "\<exists>b w'. nvm_execute_instruction sv i w = Inr (b, w') \<and> wf_world w'"
  using execute_safe [OF assms] by blast

theorem instruction_safe_witness:
  "\<exists>b w'. nvm_execute_instruction demo_services 0 (demo_world (demo_process [0x4E, 0x56, 0x4D, 0x30, 0x13] [6, 2])) = Inr (b, w') \<and>
    wf_world w'"
proof -
  let ?p = "demo_process [0x4E, 0x56, 0x4D, 0x30, 0x13] [6, 2]"
  have p: "wf_proc ?p" "active ?p" by (rule wf_demo_process; simp add: nvm_consts)+
  have s: "instr_safe Map.empty ?p"
    by (simp add: instr_safe_def mem_ok_def code_get_def rd_def div_ok_def second_entry_def top_entry_def INT32_MIN_def)
  show ?thesis
    using wf_demo_world [OF p(1) demo_pid] p(2) s
    by (intro instruction_safe) (simp_all add: demo_world_def zero_world_def)
qed



text \<open>C3. Isolation: an instruction of process \<open>i\<close> that does not fault leaves every other running process
  exactly as it was, or only wakes it up; and no process, running or new, gains a capability.  An absolute
  store into the machine's own data, which a process with the driver capability can make, is a fault here:
  against such a store the code gives no isolation.  The heaps of different processes are taken to be
  different blocks, and the files that \<open>SPAWN\<close> loads to be shorter than the 32-bit code size.\<close>

theorem isolation:
  assumes "wf_world w" "i < MAX_PROCESSES" "active (processes w ! i)" "short_files sv"
    "nvm_execute_instruction sv i w = Inr (b, w')" "j < MAX_PROCESSES"
  shows "(j \<noteq> i \<and> active (processes w ! j) \<longrightarrow> processes w' ! j = processes w ! j \<or> processes w' ! j = wake (processes w ! j)) \<and>
    capset (processes w' ! j) \<subseteq> insert CAPS_NONE (capset (processes w ! j))"
  using execute_post(1) [OF assms(1-5)] assms(1,6) by (auto simp: frame_def slot_frame_def wf_world_def)

theorem isolation_witness:
  "\<exists>w w'. nvm_execute_instruction demo_services 0 w = Inr (False, w') \<and> active (processes w ! 0) \<and>
    capset (processes w' ! 1) \<subseteq> insert CAPS_NONE (capset (processes w ! 1))"
proof -
  let ?p = "demo_process [0x4E, 0x56, 0x4D, 0x30, 0] []"
  let ?w = "(demo_world ?p)\<lparr>timer_ticks := 0, current_process := 0\<rparr>"
  have p: "wf_proc ?p" "active ?p" by (rule wf_demo_process; simp add: nvm_consts)+
  note d = wf_demo_world [OF p(1) demo_pid]
  have w: "wf_world ?w" "active (processes ?w ! 0)" using d p(2) by (simp_all add: wf_world_def nvm_consts)
  obtain w' where e: "nvm_execute_instruction demo_services 0 ?w = Inr (False, w')" using demo_halt by blast
  have "1 < MAX_PROCESSES" by (simp add: nvm_consts)
  from isolation [OF w(1) d(3) w(2) demo_services_ok e this] e w(2) show ?thesis by blast
qed

text \<open>C4. A timer tick that returns never gives a process a capability it did not hold, other than the empty
  one.  As for single instructions, an absolute store into the machine's own data is a fault and not a
  tick that returns, and the files that \<open>SPAWN\<close> loads are shorter than the 32-bit code size.\<close>

theorem tick_no_escalation:
  assumes "wf_world w" "short_files sv" "nvm_scheduler_tick sv w = Inr w'" "j < MAX_PROCESSES"
  shows "capset (processes w' ! j) \<subseteq> insert CAPS_NONE (capset (processes w ! j))"
  using tick_post(2) [OF assms(1-3)] assms(4) by blast

theorem tick_no_escalation_witness:
  "\<exists>w w'. nvm_scheduler_tick demo_services w = Inr w' \<and> runnable (processes w ! 0) \<and>
    capset (processes w' ! 0) \<subseteq> insert CAPS_NONE (capset (processes w ! 0))"
proof -
  define w where "w = (demo_world (demo_process [0x4E, 0x56, 0x4D, 0x30, 0] []))\<lparr>timer_ticks := 9\<rparr>"
  note d = demo_halt_tick [OF w_def]
  obtain w' where "nvm_scheduler_tick demo_services w = Inr w'" using d(2) by blast
  with tick_no_escalation [OF d(1) demo_services_ok this, of 0] d(3) show ?thesis by (auto simp: nvm_consts)
qed

subsection \<open>Scheduling\<close>

text \<open>C10. When a tick that ends a time slice returns, the process that ran is one that was runnable, and every
  process \<open>j\<close> that was runnable is either this one or comes strictly closer to its turn in the round-robin
  order, whose distances are at most 32.  The allocator may fail; the files that \<open>SPAWN\<close> loads are shorter
  than the 32-bit code size, and the tick makes no absolute access to the machine's own data.\<close>

theorem round_robin_progress:
  assumes "wf_world w" "short_files sv" "nvm_scheduler_tick sv w = Inr w'"
    "unat (timer_ticks w + 1) mod TIME_SLICE_MS = 0" "j < MAX_PROCESSES" "runnable (processes w ! j)"
  shows "runnable (processes w ! unat (current_process w')) \<and> (unat (current_process w') = j \<or>
    slot_distance (current_process w') j < slot_distance (current_process w) j)"
proof -
  let ?c = "current_process w"
  have c: "unat ?c < MAX_PROCESSES" using assms(1) by (simp add: wf_world_def)
  obtain d where d: "0 < d" "d \<le> MAX_PROCESSES" "runnable (processes w ! after_slot ?c d)"
      "\<forall>e. 0 < e \<and> e < d \<longrightarrow> \<not> runnable (processes w ! after_slot ?c e)"
      "run_slice sv SLICE (w\<lparr>timer_ticks := timer_ticks w + 1, current_process := of_nat (after_slot ?c d)\<rparr>) = Inr w'"
    using assms(3-6) by (cases rule: tick_cases [OF assms(1), of sv]) auto
  have "wf_world (w\<lparr>timer_ticks := timer_ticks w + 1, current_process := of_nat (after_slot ?c d)\<rparr>)"
    using assms(1) after_slot_lt by (simp add: wf_world_def unat_slot)
  from run_slice_current [OF this assms(2) d(5)] have c': "unat (current_process w') = after_slot ?c d"
    by (simp add: unat_slot [OF after_slot_lt])
  note e = slot_distance [OF c assms(5)]
  have "d \<le> slot_distance ?c j" using d(4) e assms(6) by (metis not_le)
  moreover have "slot_distance (current_process w') j < slot_distance ?c j" if "d < slot_distance ?c j"
    by (rule slot_distance_step [OF c assms(5) d(1) that c'])
  ultimately have "unat (current_process w') = j \<or> slot_distance (current_process w') j < slot_distance ?c j"
    using e(3) c' by (metis le_neq_implies_less)
  then show ?thesis using c' d(3) by simp
qed

theorem round_robin_progress_witness:
  "\<exists>w w'. nvm_scheduler_tick demo_services w = Inr w' \<and> runnable (processes w ! 0) \<and>
    runnable (processes w ! unat (current_process w')) \<and>
    (unat (current_process w') = 0 \<or> slot_distance (current_process w') 0 < slot_distance (current_process w) 0)"
proof -
  define w where "w = (demo_world (demo_process [0x4E, 0x56, 0x4D, 0x30, 0] []))\<lparr>timer_ticks := 9\<rparr>"
  note d = demo_halt_tick [OF w_def]
  obtain w' where "nvm_scheduler_tick demo_services w = Inr w'" using d(2) by blast
  moreover have "unat (timer_ticks w + 1) mod TIME_SLICE_MS = 0" by (simp add: w_def nvm_consts)
  ultimately show ?thesis
    using round_robin_progress [OF d(1) demo_services_ok, of w' 0] d(3) by (auto simp: nvm_consts)
qed

subsection \<open>Capabilities\<close>

lemma put_proc_same:
  assumes "wf_world w" "i < MAX_PROCESSES"
  shows "(put_proc i (processes w ! i) w)\<lparr>kernel := kernel w\<rparr> = w"
  using assms by (simp add: put_proc_def)

definition holds :: "nvm_process \<Rightarrow> u16 \<Rightarrow> bool" where
  "holds p cap \<longleftrightarrow> CAP_ALL \<in> capset p \<or> cap \<in> capset p"

lemma has_capability_holds:
  assumes "wf_proc p" "cap \<in> {CAP_FS_READ, CAP_FS_WRITE, CAP_FS_DELETE, CAP_DRV_ACCESS}"
  shows "caps_has_capability (Some p) cap = Inr (holds p cap)"
  using caps_has_iff [OF assms(1), of cap] assms(2) by (auto simp: holds_def cap_consts)

lemma on_proc_refused:
  assumes "wf_world w" "i < MAX_PROCESSES" "f (processes w ! i, kernel w) = Inr (- 1, processes w ! i, kernel w)"
  shows "on_proc f i w = Inr (- 1, w)"
  using assms wf_world_get(1) [OF assms(1,2)] by (simp add: on_proc_def put_proc_same)

text \<open>C9. Without its capability the handler of a privileged system call returns -1 and changes nothing at all, so
  the process finds no result on its stack, and an absolute memory access kills the process without touching memory.\<close>

theorem privileged_refused:
  assumes "wf_world w" "i < MAX_PROCESSES" "p = processes w ! i"
  shows "(\<not> holds p CAP_FS_READ \<longrightarrow> sys_spawn sv i w = Inr (- 1, w) \<and> on_proc (sys_open sv) i w = Inr (- 1, w) \<and>
      sys_read sv i w = Inr (- 1, w)) \<and>
    (\<not> holds p CAP_FS_WRITE \<longrightarrow> on_proc (sys_write sv) i w = Inr (- 1, w)) \<and>
    (\<not> holds p CAP_FS_DELETE \<longrightarrow> on_proc (sys_delete sv) i w = Inr (- 1, w)) \<and>
    (\<not> holds p CAP_DRV_ACCESS \<longrightarrow> on_proc (sys_port_in_byte sv) i w = Inr (- 1, w) \<and>
      on_proc (sys_port_out_byte sv) i w = Inr (- 1, w) \<and>
      handle_load_abs (p, m) = Inr (False, snd (kill p), m) \<and> handle_store_abs (p, m) = Inr (False, snd (kill p), m))"
proof -
  note g = wf_world_get [OF assms(1,2)]
  note h = has_capability_holds [OF g(2)]
  show ?thesis unfolding assms(3)
    by (intro conjI impI on_proc_refused assms(1,2))
      (simp_all add: sys_spawn_def sys_open_def sys_read_def sys_write_def sys_delete_def sys_port_in_byte_def
        sys_port_out_byte_def handle_load_abs_def handle_store_abs_def g(1) h)
qed

theorem privileged_refused_witness:
  "\<exists>w. active (processes w ! 0) \<and> on_proc (sys_open demo_services) 0 w = Inr (- 1, w)"
proof -
  let ?p = "demo_process [0x4E, 0x56, 0x4D, 0x30, 0x50, 2] [64]"
  have p: "wf_proc ?p" "active ?p" by (rule wf_demo_process; simp add: nvm_consts)+
  note d = wf_demo_world [OF p(1) demo_pid]
  have "\<not> holds ?p CAP_FS_READ" by (simp add: holds_def)
  with privileged_refused [OF d(1,3) refl, of demo_services Map.empty] d(2) p(2) show ?thesis
    by (intro exI [of _ "demo_world ?p"]) simp
qed

text \<open>Services with one open file, whose read position is the kernel's state.\<close>

definition file_services :: "u8 list \<Rightarrow> nat services" where
  "file_services f = \<lparr>sv_kmalloc = \<lambda>n k. (0x5000, k), sv_kfree = \<lambda>a k. k, sv_vfs_open = \<lambda>f m k. (3, k),
     sv_vfs_readfd = \<lambda>fd k. (if k < length f then ((1, f ! k), Suc k) else ((0, 0), k)),
     sv_vfs_writefd = \<lambda>fd c k. (1, k), sv_vfs_delete = \<lambda>f k. (0, k),
     sv_procfs_register = \<lambda>i k. k, sv_procfs_unregister = \<lambda>i k. k, sv_procfs_set_args = \<lambda>i a k. k,
     sv_tty_puts = \<lambda>s k. k, sv_inb = \<lambda>p k. (0, k), sv_outb = \<lambda>p v k. k\<rparr>"

lemma file_read_code:
  "\<exists>a' k'. read_code (file_services f) fd a bs n k = Some (Some (a', bs @ drop k f), k')"
proof (induction "length f - k" arbitrary: k bs a n)
  case 0
  then show ?case by (subst read_code.simps) (simp add: file_services_def)
next
  case (Suc m)
  then have k: "k < length f" "m = length f - Suc k" by auto
  then have "drop k f = f ! k # drop (Suc k) f" by (intro Cons_nth_drop_Suc [symmetric])
  with Suc.hyps(1) [OF k(2), of _ "bs @ [f ! k]"] k(1) show ?case
    by (subst read_code.simps) (simp add: file_services_def Let_def)
qed

lemma file_services_ok:
  assumes "length f + 4 < 2 ^ 32"
  shows "short_files (file_services f)"
  unfolding short_files_def
proof (intro allI impI)
  fix fd a n k b k' assume "read_code (file_services f) fd a [] n k = Some (Some b, k')"
  with file_read_code [of f fd a "[]" n k] have "snd b = drop k f" by auto
  with assms show "length (snd b) + 4 < 2 ^ 32" by simp
qed

lemma spawn_process_ok:
  assumes "wf_world w" "i < MAX_PROCESSES" "active (processes w ! i)"
    "4 \<le> length (snd b)" "nvm_create_process sv b (of_nat (length (snd b))) [CAPS_NONE] 1 w = Inr (int n, w1)"
    "wf_world w1" "n < MAX_PROCESSES" "processes w1 ! i = processes w ! i"
  shows "\<exists>w'. spawn_process sv i 0 [] b w = Inr (of_nat n, w')"
proof -
  note gi = wf_world_get [OF assms(6,2)] and gn = wf_world_get [OF assms(6,7)]
  have pid: "unat (pid (processes w1 ! i)) = i" using gi(3) assms(3,8) by simp
  have n: "unat (of_nat n :: u8) = n" by (rule unat_slot [OF assms(7)])
  show ?thesis
    using assms(4,5) gi(1) gn(1) pid n caps_copy_eq [OF gi(2) gn(2)]
    by (simp add: spawn_process_def nvm_get_process_def free_argv_def)
qed

definition spawner :: nvm_process where
  "spawner = (demo_process [0x4E, 0x56, 0x4D, 0x30, 0x50, 1] [0, 3])\<lparr>capabilities := CAP_FS_READ # replicate 7 0, caps_count := 1\<rparr>"

lemma spawner_runs:
  assumes w_def: "w = put_proc 0 spawner (zero_world Map.empty (0 :: nat))"
  shows "wf_world w" "processes w ! 0 = spawner" "active spawner" "capset spawner = {CAP_FS_READ}"
    "\<exists>w'. sys_spawn (file_services [0x4E, 0x56, 0x4D, 0x30]) 0 w = Inr (1, w')"
proof -
  let ?sv = "file_services [0x4E, 0x56, 0x4D, 0x30]"
  have wfd: "wf_proc (demo_process [0x4E, 0x56, 0x4D, 0x30, 0x50, 1] [0, 3])" by (rule wf_demo_process; simp add: nvm_consts)
  have p: "wf_proc spawner" using wfd by (simp add: spawner_def wf_proc_def nvm_consts)
  show a: "active spawner" by (simp add: spawner_def demo_process_def)
  have pid: "pid spawner = 0" by (simp add: spawner_def)
  show wf: "wf_world w" unfolding w_def by (intro wf_world_put wf_zero_world p) (simp add: pid)
  show p0: "processes w ! 0 = spawner" by (simp add: w_def zero_world_def nvm_consts)
  show c: "capset spawner = {CAP_FS_READ}" by (simp add: spawner_def capset_def)
  have m: "0 < MAX_PROCESSES" by (simp add: nvm_consts)
  note g = wf_world_get [OF wf m]
  let ?w2 = "(put_proc 0 (spawner\<lparr>sp := 0\<rparr>) w)"
  obtain a' k' where r: "read_code ?sv 3 0x5000 [] 1024 0 = Some (Some (a', [0x4E, 0x56, 0x4D, 0x30]), k')"
    using file_read_code [of "[0x4E, 0x56, 0x4D, 0x30]" 3 "0x5000" "[]" 1024 0] by auto
  let ?b = "(a', [0x4E, 0x56, 0x4D, 0x30]) :: buf" and ?w3 = "?w2\<lparr>kernel := k'\<rparr>"
  have w3: "wf_world ?w3" "processes ?w3 ! 0 = spawner\<lparr>sp := 0\<rparr>" "active (processes ?w3 ! 0)"
    using a by (auto simp: w_def zero_world_def nvm_consts pid intro!: wf_world_put wf_upd p wf [unfolded w_def zero_world_def nvm_consts])
  have b: "4 \<le> length (snd ?b)" "unat (1 :: u8) \<le> MAX_CAPS" "unat (1 :: u8) \<le> length [CAPS_NONE]" "start_args ?b [CAPS_NONE] 1"
    by (simp_all add: nvm_consts start_args_def)
  have "\<exists>w'. spawn_process ?sv 0 0 [] ?b ?w3 = Inr (of_nat 1, w')"
  proof (cases rule: create_cases [OF w3(1) b(1-3), of ?sv "of_nat (length (snd ?b))"])
    case 1
    then show ?thesis by (simp add: signature_bytes_def)
  next
    case 2
    moreover have "1 < MAX_PROCESSES" by (simp add: nvm_consts)
    ultimately have "active (processes ?w3 ! 1)" by blast
    then show ?thesis by (simp add: w_def zero_world_def nvm_consts zero_process_def)
  next
    case (3 i k)
    then show ?thesis by (simp add: file_services_def)
  next
    case ok: (4 i a k)
    have "i = 1"
    proof (rule ccontr)
      assume "i \<noteq> 1"
      then consider "i = 0" | "1 < i" by linarith
      then show False
      proof cases
        case 1 with ok w3(3) show ?thesis by simp
      next
        case 2
        with ok(4) have "active (processes ?w3 ! 1)" by blast
        then show ?thesis by (simp add: w_def zero_world_def nvm_consts zero_process_def)
      qed
    qed
    let ?w4 = "(put_proc i (new_process ?b (of_nat (length (snd ?b))) [CAPS_NONE] 1 i a (processes ?w3 ! i)) ?w3)\<lparr>kernel := sv_procfs_register ?sv i k\<rparr>"
    have "wf_world ?w4" by (rule create_wf [OF w3(1) b(4) ok(7)])
    moreover have "processes ?w4 ! 0 = processes ?w3 ! 0" using \<open>i = 1\<close> by simp
    ultimately show ?thesis
      using spawn_process_ok [OF w3(1) m w3(3) b(1) ok(7) _ ok(2)] \<open>i = 1\<close> by simp
  qed
  then obtain w' where s: "spawn_process ?sv 0 0 [] ?b ?w3 = Inr (1, w')" by auto
  have has: "caps_has_capability (Some spawner) CAP_FS_READ = Inr True"
    using has_capability_holds [OF p, of CAP_FS_READ] c by (simp add: holds_def)
  have st: "stack_get spawner 1 = Inr 3" "stack_get spawner 0 = Inr 0" "sp spawner = 2"
    by (simp_all add: spawner_def stack_get_def rd_def nvm_consts)
  have args: "spawn_args ?sv xs 0 pos [] k = Inr (False, [], pos, k)" for xs pos k
    by (subst spawn_args.simps) simp
  have k0: "kernel w = 0" "sv_kmalloc ?sv n k = (0x5000, k)" for n k
    by (simp_all add: w_def zero_world_def file_services_def)
  have "sys_spawn ?sv 0 w = Inr (1, w')"
    using s g(1) has st r by (simp add: sys_spawn_def p0 args k0)
  then show "\<exists>w'. sys_spawn ?sv 0 w = Inr (1, w')" by blast
qed

text \<open>C15. A process that successfully spawns another one loses its own capabilities: the child's list, which
  holds the empty capability only, is copied over the parent's.\<close>

theorem spawn_drops_parent_caps:
  assumes "wf_world w" "i < MAX_PROCESSES" "active (processes w ! i)" "short_files sv" "sys_spawn sv i w = Inr (r, w')" "r \<noteq> - 1"
  shows "capset (processes w' ! i) \<subseteq> {CAPS_NONE}"
  using sys_spawn_post [OF assms(1-5)] assms(6) by blast

theorem spawn_drops_parent_caps_witness:
  "\<exists>w w'. sys_spawn (file_services [0x4E, 0x56, 0x4D, 0x30]) 0 w = Inr (1, w') \<and>
    capset (processes w ! 0) = {CAP_FS_READ} \<and> capset (processes w' ! 0) \<subseteq> {CAPS_NONE}"
proof -
  define w where "w = put_proc 0 spawner (zero_world Map.empty (0 :: nat))"
  note s = spawner_runs [OF w_def]
  obtain w' where e: "sys_spawn (file_services [0x4E, 0x56, 0x4D, 0x30]) 0 w = Inr (1, w')" using s(5) by blast
  have "capset (processes w' ! 0) \<subseteq> {CAPS_NONE}"
    by (rule spawn_drops_parent_caps [OF s(1) _ _ file_services_ok e]) (simp_all add: s(2,3) nvm_consts)
  with e s(2,4) show ?thesis by (intro exI [of _ w] exI [of _ w'] conjI) simp_all
qed

subsection \<open>Messages\<close>

text \<open>The pending messages, oldest first, and the specification of a receive: the oldest message for the
  recipient is taken out.\<close>

definition pending :: "'s world \<Rightarrow> message list" where
  "pending w = take (message_count w) (message_queue w)"

primrec msg_take :: "u16 \<Rightarrow> message list \<Rightarrow> (message \<times> message list) option" where
  "msg_take r [] = None"
| "msg_take r (m # ms) = (if recipient m = r then Some (m, ms)
     else map_option (\<lambda>(x, xs). (x, m # xs)) (msg_take r ms))"

lemma msg_take_None: "msg_take r ms = None \<longleftrightarrow> (\<forall>m \<in> set ms. recipient m \<noteq> r)"
  by (induction ms) auto

lemma msg_take_first:
  "j < length ms \<Longrightarrow> recipient (ms ! j) = r \<Longrightarrow> \<forall>k < j. recipient (ms ! k) \<noteq> r \<Longrightarrow>
   msg_take r ms = Some (ms ! j, take j ms @ drop (Suc j) ms)"
proof (induction ms arbitrary: j)
  case (Cons m ms)
  show ?case
  proof (cases j)
    case (Suc k)
    with Cons.prems have "recipient m \<noteq> r" "k < length ms" "recipient (ms ! k) = r" "\<forall>l < k. recipient (ms ! l) \<noteq> r" by auto
    with Suc Cons.IH [of k] show ?thesis by simp
  qed (use Cons.prems in simp)
qed simp

lemma recipient_pid: "uint (recipient m) = uint (pid p :: u8) \<longleftrightarrow> recipient m = ucast (pid p)"
  by (metis uint_ucast_8_16 word_uint_eq_iff)

lemma send_cases:
  assumes "wf_world w" "i < MAX_PROCESSES" "2 \<le> uint (sp (processes w ! i))" "message_count w < MAX_MESSAGES"
  obtains w' where "sys_msg_send i w = Inr (0, w')"
    "pending w' = pending w @ [\<lparr>recipient = ucast (second_entry (processes w ! i)), sender = ucast (pid (processes w ! i)),
        content = ucast (top_entry (processes w ! i))\<rparr>]"
    "abs_stack (processes w' ! i) = tl (tl (abs_stack (processes w ! i)))"
    "\<forall>j < MAX_PROCESSES. j \<noteq> i \<and> active (processes w ! j) \<and> blocked (processes w ! j) \<and>
        uint (pid (processes w ! j)) = uint (ucast (second_entry (processes w ! i)) :: u16) \<longrightarrow> processes w' ! j = wake (processes w ! j)"
proof -
  let ?p = "processes w ! i" and ?q = "message_queue w" and ?n = "message_count w"
  note g = wf_world_get [OF assms(1,2)]
  note w = wf_sp [OF g(2)]
  have len: "length (processes w) = MAX_PROCESSES" "length ?q = MAX_MESSAGES" using assms(1) by (simp_all add: wf_world_def)
  let ?m = "\<lparr>recipient = ucast (second_entry ?p), sender = ucast (pid ?p), content = ucast (top_entry ?p)\<rparr>"
  let ?P = "\<lambda>p. active p \<and> uint (pid p) = uint (recipient ?m) \<and> blocked p"
  let ?w1 = "w\<lparr>message_queue := ?q[?n := ?m], message_count := ?n + 1\<rparr>"
  obtain slot where s: "search ?P (processes w) 0 MAX_PROCESSES = Inr slot"
    using search_total [of MAX_PROCESSES "processes w"] len by auto
  have j: "j < MAX_PROCESSES \<and> ?P (processes w ! j)" if "slot = Some j" for j using s that by (auto dest: search_Some)
  define w2 where "w2 = (case slot of None \<Rightarrow> ?w1 | Some j \<Rightarrow> put_proc j (wake (processes w ! j)) ?w1)"
  let ?p2 = "(processes w2 ! i)\<lparr>sp := sp (processes w2 ! i) - 2\<rparr>"
  have len2: "length (processes w2) = MAX_PROCESSES" using len by (auto simp: w2_def split: option.split)
  have sel: "sp (processes w2 ! i) = sp ?p" "stack (processes w2 ! i) = stack ?p"
    using assms(2) len j by (auto simp: w2_def nth_update wake_def split: option.splits)
  have "sys_msg_send i w = Inr (0, put_proc i ?p2 w2)"
    using g(1) w assms len s len2 j
    by (auto simp: sys_msg_send_def stack_get_def rd_ok wr_nat w2_def wake_def get_proc_ok nth_update top_entry_def
        second_entry_def split: option.splits)
  moreover have "pending (put_proc i ?p2 w2) = pending w @ [?m]"
    using assms(4) len by (auto simp: pending_def w2_def take_Suc_conv_app_nth split: option.split)
  moreover have "abs_stack (processes (put_proc i ?p2 w2) ! i) = tl (tl (abs_stack ?p))"
  proof -
    have "uint (sp ?p - 2) = uint (sp ?p) - 2" using assms(3) by (simp add: sp_arith)
    then have "unat (sp ?p - 2) = unat (sp ?p) - 2"
      using nat_uint_minus [of 2 "sp ?p"] by (metis nat_numeral nat_uint_eq zero_le_numeral)
    with abs_stack_two [OF g(2) assms(3)] show ?thesis
      using assms(2) len2 sel by (simp add: abs_stack_def)
  qed
  moreover have "processes (put_proc i ?p2 w2) ! k = wake (processes w ! k)"
    if k: "k < MAX_PROCESSES" "k \<noteq> i" "?P (processes w ! k)" for k
  proof -
    from k s obtain l where l: "slot = Some l" using search_None [of ?P "processes w" 0 MAX_PROCESSES k] by (cases slot) auto
    with j have l2: "l < MAX_PROCESSES" "?P (processes w ! l)" by auto
    have lk: "unat (pid (processes w ! l)) = l" "unat (pid (processes w ! k)) = k"
      using wf_world_get(3) [OF assms(1)] k l2 by auto
    have "uint (pid (processes w ! l)) = uint (recipient ?m)" "uint (pid (processes w ! k)) = uint (recipient ?m)"
      using k(3) l2(2) by blast+
    then have "pid (processes w ! l) = pid (processes w ! k)" by (intro word_uint_eqI) (rule trans [OF _ sym])
    then have "l = k" by (rule subst [where P = "\<lambda>x. l = unat x", THEN trans [OF _ lk(2)]]) (rule lk(1) [symmetric])
    with l k len show ?thesis by (simp add: w2_def nth_update)
  qed
  ultimately show ?thesis using that by auto
qed

lemma receive_cases:
  assumes "wf_world w" "i < MAX_PROCESSES"
  shows "case msg_take (ucast (pid (processes w ! i))) (pending w) of
      None \<Rightarrow> sys_msg_receive i w = Inr (- 1, put_proc i ((processes w ! i)\<lparr>blocked := True\<rparr>) w)
    | Some (m, ms) \<Rightarrow>
        if uint (sp (processes w ! i)) + 1 < int STACK_SIZE then
          \<exists>w'. sys_msg_receive i w = Inr (0, w') \<and> pending w' = ms \<and>
            abs_stack (processes w' ! i) = ucast (content m) # ucast (sender m) # abs_stack (processes w ! i)
        else sys_msg_receive i w = Inr (- 1, w)"
proof -
  let ?p = "processes w ! i" and ?q = "message_queue w" and ?n = "message_count w"
  let ?r = "ucast (pid ?p) :: u16"
  note g = wf_world_get [OF assms(1,2)]
  note w = wf_sp [OF g(2)]
  have q: "length ?q = MAX_MESSAGES" "?n \<le> length ?q" using assms(1) by (simp_all add: wf_world_def)
  let ?P = "\<lambda>m. uint (recipient m) = uint (pid ?p)"
  obtain r where r: "search ?P ?q 0 ?n = Inr r" using search_total [OF q(2)] by blast
  show ?thesis
  proof (cases r)
    case None
    with r search_None_iff [OF q(2), of ?P] have "\<forall>m \<in> set (pending w). recipient m \<noteq> ?r"
      by (auto simp: pending_def recipient_pid)
    then have "msg_take ?r (pending w) = None" by (simp add: msg_take_None)
    with r None g(1) show ?thesis by (simp add: sys_msg_receive_def)
  next
    case (Some j)
    with r have j: "j < ?n" "j < length ?q" "recipient (?q ! j) = ?r" "\<forall>k < j. recipient (?q ! k) \<noteq> ?r"
      by (auto dest!: search_Some simp: recipient_pid)
    let ?ms = "take j (pending w) @ drop (Suc j) (pending w)"
    have t: "msg_take ?r (pending w) = Some (?q ! j, ?ms)"
      using msg_take_first [of j "pending w" ?r] j q(2) by (simp add: pending_def)
    obtain q' where q': "shift_down ?q j ?n = Inr q'" using shift_down_eq [OF j(1) q(2)] by blast
    have ms: "take (?n - 1) q' = ?ms" using shift_down_take [OF j(1) q(2) q'] by (simp add: pending_def)
    show ?thesis
    proof (cases "uint (sp ?p) + 1 < int STACK_SIZE")
      case False
      with t r Some g(1) show ?thesis by (simp add: sys_msg_receive_def)
    next
      case True
      then have u: "uint (sp ?p) + 2 \<le> 1024" by (simp add: nvm_consts)
      let ?st = "(stack ?p)[unat (sp ?p) := ucast (sender (?q ! j)), nat (uint (sp ?p) + 1) := ucast (content (?q ! j))]"
      let ?w' = "(put_proc i (?p\<lparr>stack := ?st, sp := sp ?p + 2\<rparr>) w)\<lparr>message_queue := q', message_count := ?n - 1\<rparr>"
      have e: "sys_msg_receive i w = Inr (0, ?w')"
        using r Some g(1) j(2) True u w q' by (simp add: sys_msg_receive_def rd_nat stack_set_def wr_ok)
      have n2: "unat (sp ?p + 2) = Suc (Suc (unat (sp ?p)))" "nat (uint (sp ?p) + 1) = Suc (unat (sp ?p))"
      proof -
        have "uint (sp ?p + 2) = uint (sp ?p) + 2" using u by (simp add: uint_plus_small)
        then have "int (unat (sp ?p + 2)) = int (Suc (Suc (unat (sp ?p))))" by simp
        then show "unat (sp ?p + 2) = Suc (Suc (unat (sp ?p)))" by (rule of_nat_eq_iff [THEN iffD1])
        have "int (nat (uint (sp ?p) + 1)) = int (Suc (unat (sp ?p)))" by simp
        then show "nat (uint (sp ?p) + 1) = Suc (unat (sp ?p))" by (rule of_nat_eq_iff [THEN iffD1])
      qed
      have l: "Suc (unat (sp ?p)) < length (stack ?p)"
      proof -
        have "int (Suc (unat (sp ?p))) < int (length (stack ?p))" using u w by simp
        then show ?thesis by (rule of_nat_less_iff [THEN iffD1])
      qed
      have "abs_stack (processes ?w' ! i) = ucast (content (?q ! j)) # ucast (sender (?q ! j)) # abs_stack ?p"
        using assms l by (simp add: wf_world_def abs_stack_def n2 rev_take_Suc)
      moreover have "pending ?w' = ?ms" using ms by (simp add: pending_def)
      ultimately show ?thesis using t e True by auto
    qed
  qed
qed

text \<open>C11. Messages: a send appends the message with the sender's number and wakes a blocked recipient; a
  receive takes out the oldest pending message for the process and pushes sender and content, and
  blocks the process when there is none.\<close>

theorem messages:
  assumes "wf_world w" "i < MAX_PROCESSES"
  shows "(2 \<le> uint (sp (processes w ! i)) \<and> message_count w < MAX_MESSAGES \<longrightarrow>
      (\<exists>w'. sys_msg_send i w = Inr (0, w') \<and>
        pending w' = pending w @ [\<lparr>recipient = ucast (second_entry (processes w ! i)), sender = ucast (pid (processes w ! i)),
          content = ucast (top_entry (processes w ! i))\<rparr>] \<and>
        abs_stack (processes w' ! i) = tl (tl (abs_stack (processes w ! i))) \<and>
        (\<forall>j < MAX_PROCESSES. j \<noteq> i \<and> active (processes w ! j) \<and> blocked (processes w ! j) \<and>
          uint (pid (processes w ! j)) = uint (ucast (second_entry (processes w ! i)) :: u16) \<longrightarrow>
          processes w' ! j = wake (processes w ! j)))) \<and>
    (case msg_take (ucast (pid (processes w ! i))) (pending w) of
      None \<Rightarrow> sys_msg_receive i w = Inr (- 1, put_proc i ((processes w ! i)\<lparr>blocked := True\<rparr>) w)
    | Some (m, ms) \<Rightarrow>
        if uint (sp (processes w ! i)) + 1 < int STACK_SIZE then
          \<exists>w'. sys_msg_receive i w = Inr (0, w') \<and> pending w' = ms \<and>
            abs_stack (processes w' ! i) = ucast (content m) # ucast (sender m) # abs_stack (processes w ! i)
        else sys_msg_receive i w = Inr (- 1, w))"
proof (rule conjI [OF impI receive_cases [OF assms]], elim conjE)
qed (rule send_cases [OF assms], assumption, assumption, intro exI conjI, assumption+)

theorem messages_witness:
  "\<exists>w w' :: unit world. sys_msg_send 0 w = Inr (0, w') \<and> pending w = [] \<and> pending w' = [\<lparr>recipient = 0, sender = 0, content = 7\<rparr>]"
proof -
  let ?p = "demo_process [0x4E, 0x56, 0x4D, 0x30, 0x50, 0x0A] [0, 7]"
  have p: "wf_proc ?p" "active ?p" by (rule wf_demo_process; simp add: nvm_consts)+
  note d = wf_demo_world [OF p(1) demo_pid]
  have e: "second_entry ?p = 0" "top_entry ?p = 7" "pid ?p = 0" by (simp_all add: second_entry_def top_entry_def)
  have c: "message_count (demo_world ?p) = 0" "pending (demo_world ?p) = []"
    by (simp_all add: demo_world_def zero_world_def pending_def)
  have "2 \<le> uint (sp (processes (demo_world ?p) ! 0))" unfolding d(2) by simp
  with messages [OF d(1,3)] c have "\<exists>w'. sys_msg_send 0 (demo_world ?p) = Inr (0, w') \<and>
      pending w' = [\<lparr>recipient = ucast (second_entry ?p), sender = ucast (pid ?p), content = ucast (top_entry ?p)\<rparr>]"
    unfolding d(2) by (auto simp: MAX_MESSAGES_def)
  then obtain w' where s: "sys_msg_send 0 (demo_world ?p) = Inr (0, w')"
      "pending w' = [\<lparr>recipient = ucast (second_entry ?p), sender = ucast (pid ?p), content = ucast (top_entry ?p)\<rparr>]"
    by blast
  show ?thesis by (rule exI [of _ "demo_world ?p"], rule exI [of _ w']) (simp add: s c e)
qed

subsection \<open>Process creation\<close>

text \<open>C12. Creating a process from code with a valid signature takes the first free slot and starts there a
  well-formed process with an empty stack, the given code and exactly the given capabilities; it
  fails without effect when the signature is wrong or the table is full; and when no heap can be
  allocated it returns -1 but leaves the slot occupied by an active process without a heap.\<close>

theorem create_process:
  assumes "wf_world w" "start_args b caps count" "sz = of_nat (length (snd b))"
  shows "(take 4 (snd b) \<noteq> signature_bytes \<or> (\<forall>i < MAX_PROCESSES. active (processes w ! i)) \<longrightarrow>
      nvm_create_process sv b sz caps count w = Inr (- 1, w)) \<and>
    (take 4 (snd b) = signature_bytes \<and> i < MAX_PROCESSES \<and> \<not> active (processes w ! i) \<and> (\<forall>j < i. active (processes w ! j)) \<longrightarrow>
      (\<exists>r w'. nvm_create_process sv b sz caps count w = Inr (r, w') \<and> active (processes w' ! i) \<and>
        (\<forall>j. j \<noteq> i \<longrightarrow> processes w' ! j = processes w ! j) \<and>
        wf_world w' \<and>
        (if fst (sv_kmalloc sv (of_nat HEAP_SIZE) (kernel w)) = 0 then r = - 1 \<and> heap (processes w' ! i) = None
         else r = int i \<and> heap (processes w' ! i) = Some (fst (sv_kmalloc sv (of_nat HEAP_SIZE) (kernel w)), replicate HEAP_SIZE 0) \<and>
           bytecode (processes w' ! i) = Some b \<and> ip (processes w' ! i) = 4 \<and>
           abs_stack (processes w' ! i) = [] \<and> capset (processes w' ! i) = set (take (unat count) caps))))"
proof -
  from assms(2) have a: "4 \<le> length (snd b)" "length (snd b) + 4 < 2 ^ 32" "unat count \<le> MAX_CAPS" "unat count \<le> length caps"
    by (simp_all add: start_args_def)
  have len: "length (processes w) = MAX_PROCESSES" using assms(1) by (simp add: wf_world_def)
  have sz: "uint sz = int (length (snd b))"
    using a(2) assms(3) by (simp add: uint_nat unat_of_nat take_bit_nat_eq_self)
  show ?thesis
  proof (cases rule: create_cases [OF assms(1) a(1,3,4), of sv sz])
    case 1 then show ?thesis by simp
  next
    case 2 then show ?thesis by simp
  next
    case nomem: (3 l k)
    let ?p = "failed_process b sz l (processes w ! l)"
    have "active ?p" "heap ?p = None" "unat (pid ?p) = l"
      using unat_slot [OF nomem(1)] by (simp_all add: failed_process_def init_slot_def)
    moreover have "wf_proc ?p"
      using wf_failed_process(1) [of "processes w ! l" sz b] wf_world_get(2) [OF assms(1) nomem(1)] a sz by simp
    then have "wf_world (put_proc l ?p w)" by (intro wf_world_put assms(1)) (use calculation in simp_all)
    moreover have "l = i" if "\<not> active (processes w ! i)" "\<forall>j < i. active (processes w ! j)"
      using that nomem(2,6) by (metis nat_neq_iff)
    ultimately show ?thesis using nomem len by auto
  next
    case ok: (4 l ad k)
    let ?p = "new_process b sz caps count l ad (processes w ! l)"
    have p: "wf_proc ?p" "capset ?p = set (take (unat count) caps)" "abs_stack ?p = []"
      using wf_new_process [OF _ _ _ _ a(3,4), of "processes w ! l" sz b] wf_world_get(2) [OF assms(1) ok(2)] a sz by auto
    have q: "unat (pid ?p) = l" "active ?p" "bytecode ?p = Some b" "ip ?p = 4"
        "heap ?p = Some (ad, replicate HEAP_SIZE 0)"
      using unat_slot [OF ok(2)] by (simp_all add: new_process_def init_slot_def)
    have "wf_world (put_proc l ?p w)" by (intro wf_world_put assms(1) p(1) q(1))
    moreover have "l = i" if "\<not> active (processes w ! i)" "\<forall>j < i. active (processes w ! j)"
      using that ok(3,4) by (metis nat_neq_iff)
    ultimately show ?thesis using ok len p q by auto
  qed
qed

theorem create_process_witness:
  "\<exists>r w'. nvm_create_process demo_services (0x1000, [0x4E, 0x56, 0x4D, 0x30, 0]) 5 [CAP_ALL] 1 (zero_world Map.empty ()) = Inr (r, w') \<and>
    r = 0 \<and> active (processes w' ! 0) \<and> capset (processes w' ! 0) = {CAP_ALL}"
proof -
  let ?b = "(0x1000, [0x4E, 0x56, 0x4D, 0x30, 0]) :: buf" and ?w = "zero_world Map.empty ()"
  have a: "start_args ?b [CAP_ALL] 1" by (simp add: start_args_def nvm_consts)
  have i: "0 < MAX_PROCESSES" "\<not> active (processes ?w ! 0)" by (simp_all add: zero_world_def zero_process_def nvm_consts)
  have s: "take 4 (snd ?b) = signature_bytes" by (simp add: signature_bytes_def)
  have k: "fst (sv_kmalloc demo_services (of_nat HEAP_SIZE) (kernel ?w)) \<noteq> 0" by (simp add: demo_services_def)
  show ?thesis
    using create_process [OF wf_zero_world [of Map.empty "()"] a refl, of demo_services 0] i s k
    by auto
qed

end
