(* ===== verification/Bitmap.thy ===== *)
theory Bitmap
  imports Prelude
begin

text \<open>
  Bit arrays: the bitmaps of the file systems (\<open>core/fs/bitmap.c\<close>) as lists of bytes, and the
  interface a bit array offers to its clients.  The allocator's bitmaps, lists of 32-bit words,
  implement the same interface.
\<close>

unbundle bit_operations_syntax

subsection \<open>bitmap.c\<close>

definition bitmap_set :: "u8 list \<Rightarrow> nat \<Rightarrow> u8 list res" where
  "bitmap_set bitmap b =
     bindR (rd bitmap (int (b div 8))) (\<lambda>v. wr bitmap (int (b div 8)) (v OR push_bit (b mod 8) 1))"

definition bitmap_clear :: "u8 list \<Rightarrow> nat \<Rightarrow> u8 list res" where
  "bitmap_clear bitmap b =
     bindR (rd bitmap (int (b div 8))) (\<lambda>v. wr bitmap (int (b div 8)) (v AND NOT (push_bit (b mod 8) 1)))"

definition bitmap_test :: "u8 list \<Rightarrow> nat \<Rightarrow> bool res" where
  "bitmap_test bitmap b = bindR (rd bitmap (int (b div 8))) (\<lambda>v. Inr (v AND push_bit (b mod 8) 1 \<noteq> 0))"

text \<open>
  The two searches differ in the bit they look for and the byte they skip.  The scan of a
  byte finds a bit, leaves the function past the last bit, or falls through to the next byte.
\<close>

datatype scan = Found nat | PastEnd | NotHere

function scan_byte :: "bool \<Rightarrow> u8 list \<Rightarrow> nat \<Rightarrow> nat \<Rightarrow> nat \<Rightarrow> scan res" where
  "scan_byte want bitmap num_bits i j =
     (if j < 8 then
        (if num_bits \<le> i * 8 + j then Inr PastEnd
         else bindR (bitmap_test bitmap (i * 8 + j)) (\<lambda>t.
           if t = want then Inr (Found (i * 8 + j)) else scan_byte want bitmap num_bits i (Suc j)))
      else Inr NotHere)"
  by pat_completeness auto
termination
  by (relation "measure (\<lambda>(want, bitmap, num_bits, i, j). 8 - j)") auto

declare scan_byte.simps [simp del]

function scan_bytes :: "bool \<Rightarrow> u8 \<Rightarrow> u8 list \<Rightarrow> nat \<Rightarrow> nat \<Rightarrow> i32 res" where
  "scan_bytes want skip bitmap num_bits i =
     (if i < (num_bits + 7) div 8 then
        bindR (rd bitmap (int i)) (\<lambda>v.
        if v \<noteq> skip then
          bindR (scan_byte want bitmap num_bits i 0) (\<lambda>s.
          case s of Found b \<Rightarrow> Inr (of_nat b) | PastEnd \<Rightarrow> Inr (- 1)
          | NotHere \<Rightarrow> scan_bytes want skip bitmap num_bits (Suc i))
        else scan_bytes want skip bitmap num_bits (Suc i))
      else Inr (- 1))"
  by pat_completeness auto
termination
  by (relation "measure (\<lambda>(want, skip, bitmap, num_bits, i). (num_bits + 7) div 8 - i)") auto

declare scan_bytes.simps [simp del]

definition bitmap_find_first_free :: "u8 list \<Rightarrow> nat \<Rightarrow> i32 res" where
  "bitmap_find_first_free bitmap num_bits = scan_bytes False 0xFF bitmap num_bits 0"

definition bitmap_find_first_set :: "u8 list \<Rightarrow> nat \<Rightarrow> i32 res" where
  "bitmap_find_first_set bitmap num_bits = scan_bytes True 0x00 bitmap num_bits 0"

text \<open>The counts: bits of one byte below \<open>num_bits\<close>, then all bytes.\<close>

function count_byte :: "bool \<Rightarrow> u8 \<Rightarrow> nat \<Rightarrow> nat \<Rightarrow> nat \<Rightarrow> nat" where
  "count_byte want v num_bits i j =
     (if j < 8 \<and> i * 8 + j < num_bits then
        (if (v AND push_bit j 1 \<noteq> 0) = want then 1 else 0) + count_byte want v num_bits i (Suc j)
      else 0)"
  by pat_completeness auto
termination
  by (relation "measure (\<lambda>(want, v, num_bits, i, j). 8 - j)") auto

declare count_byte.simps [simp del]

function count_bytes :: "bool \<Rightarrow> u8 list \<Rightarrow> nat \<Rightarrow> nat \<Rightarrow> nat \<Rightarrow> nat res" where
  "count_bytes want bitmap num_bits i count =
     (if i < (num_bits + 7) div 8 then
        bindR (rd bitmap (int i)) (\<lambda>v.
        count_bytes want bitmap num_bits (Suc i) (count + count_byte want v num_bits i 0))
      else Inr count)"
  by pat_completeness auto
termination
  by (relation "measure (\<lambda>(want, bitmap, num_bits, i, count). (num_bits + 7) div 8 - i)") auto

declare count_bytes.simps [simp del]

definition bitmap_count_free :: "u8 list \<Rightarrow> nat \<Rightarrow> nat res" where
  "bitmap_count_free bitmap num_bits = count_bytes False bitmap num_bits 0 0"

definition bitmap_count_set :: "u8 list \<Rightarrow> nat \<Rightarrow> nat res" where
  "bitmap_count_set bitmap num_bits = count_bytes True bitmap num_bits 0 0"

subsection \<open>Bit arrays\<close>

text \<open>
  The interface: \<open>view\<close> is the bit sequence an array stands for, \<open>cap\<close> its length; testing reads
  it, setting and clearing change one bit.
\<close>

locale bit_array =
  fixes view :: "'b \<Rightarrow> nat \<Rightarrow> bool" and cap :: "'b \<Rightarrow> nat"
    and test_b :: "'b \<Rightarrow> nat \<Rightarrow> bool res" and set_b :: "'b \<Rightarrow> nat \<Rightarrow> 'b res" and clear_b :: "'b \<Rightarrow> nat \<Rightarrow> 'b res"
  assumes test_view: "i < cap b \<Longrightarrow> test_b b i = Inr (view b i)"
    and set_view: "i < cap b \<Longrightarrow> \<exists>b'. set_b b i = Inr b' \<and> cap b' = cap b \<and> (\<forall>j. view b' j = (j = i \<or> view b j))"
    and clear_view: "i < cap b \<Longrightarrow> \<exists>b'. clear_b b i = Inr b' \<and> cap b' = cap b \<and> (\<forall>j. view b' j = (j \<noteq> i \<and> view b j))"
begin

definition zeros :: "'b \<Rightarrow> nat \<Rightarrow> nat set" where
  "zeros b n = {i. i < n \<and> \<not> view b i}"

lemma finite_zeros [simp]: "finite (zeros b n)"
  by (simp add: zeros_def)

lemma zeros_le: "card (zeros b n) \<le> n"
proof -
  have "card (zeros b n) \<le> card {..<n}" by (rule card_mono) (auto simp: zeros_def)
  then show ?thesis by simp
qed

lemma set_zeros:
  assumes "i < cap b" "set_b b i = Inr b'"
  shows "zeros b' n = zeros b n - {i}" and "cap b' = cap b"
  using set_view [OF assms(1)] assms(2) by (auto simp: zeros_def)

lemma clear_zeros:
  assumes "i < cap b" "clear_b b i = Inr b'" "i < n"
  shows "zeros b' n = insert i (zeros b n)" and "cap b' = cap b"
  using clear_view [OF assms(1)] assms(2,3) by (auto simp: zeros_def)

lemma set_card:
  assumes "i < cap b" "set_b b i = Inr b'" "i \<in> zeros b n"
  shows "Suc (card (zeros b' n)) = card (zeros b n)"
  using set_zeros(1) [OF assms(1,2)] assms(3) by (metis card.remove finite_zeros)

lemma clear_card:
  assumes "i < cap b" "clear_b b i = Inr b'" "i < n" "view b i"
  shows "card (zeros b' n) = Suc (card (zeros b n))"
  using clear_zeros(1) [OF assms(1-3)] assms(4) by (simp add: zeros_def)

lemma set_clear:
  assumes "i < cap b" "\<not> view b i"
  shows "\<exists>b1 b2. set_b b i = Inr b1 \<and> clear_b b1 i = Inr b2 \<and> view b2 = view b"
proof -
  obtain b1 where b1: "set_b b i = Inr b1" "cap b1 = cap b" "\<forall>j. view b1 j = (j = i \<or> view b j)"
    using set_view [OF assms(1)] by blast
  then obtain b2 where b2: "clear_b b1 i = Inr b2" "\<forall>j. view b2 j = (j \<noteq> i \<and> view b1 j)"
    using clear_view [of i b1] assms(1) by auto
  have "view b2 = view b" using b1(3) b2(2) assms(2) by auto
  with b1 b2 show ?thesis by blast
qed

end

text \<open>A list of words as a bit sequence.\<close>

definition word_view :: "'a::len word list \<Rightarrow> nat \<Rightarrow> bool" where
  "word_view ws i \<longleftrightarrow> i div LENGTH('a) < length ws \<and> bit (ws ! (i div LENGTH('a))) (i mod LENGTH('a))"

definition word_cap :: "'a::len word list \<Rightarrow> nat" where
  "word_cap ws = length ws * LENGTH('a)"

lemma word_cap_div: "i < word_cap (ws :: 'a::len word list) \<longleftrightarrow> i div LENGTH('a) < length ws"
  by (simp add: word_cap_def div_less_iff_less_mult)

lemma and_push_bit_iff: "n < LENGTH('a) \<Longrightarrow> (w AND push_bit n 1 \<noteq> (0 :: 'a::len word)) = bit w n"
  by (metis and_exp_eq_0_iff_not_bit push_bit_of_1)

lemma div_mod_eq: "0 < (n::nat) \<Longrightarrow> (i = j) = (i div n = j div n \<and> i mod n = j mod n)"
  by (metis div_mult_mod_eq)

lemma word_view_set:
  fixes ws :: "'a::len word list"
  assumes "i div LENGTH('a) < length ws"
  shows "word_view (ws[i div LENGTH('a) := ws ! (i div LENGTH('a)) OR push_bit (i mod LENGTH('a)) 1]) j
    = (j = i \<or> word_view ws j)"
proof -
  have "j mod LENGTH('a) < LENGTH('a)" by simp
  then show ?thesis
    using assms div_mod_eq [of "LENGTH('a)" j i]
    by (cases "j div LENGTH('a) = i div LENGTH('a)") (auto simp: word_view_def bit_simps)
qed

lemma word_view_clear:
  fixes ws :: "'a::len word list"
  assumes "i div LENGTH('a) < length ws"
  shows "word_view (ws[i div LENGTH('a) := ws ! (i div LENGTH('a)) AND NOT (push_bit (i mod LENGTH('a)) 1)]) j
    = (j \<noteq> i \<and> word_view ws j)"
proof -
  have "j mod LENGTH('a) < LENGTH('a)" by simp
  then show ?thesis
    using assms div_mod_eq [of "LENGTH('a)" j i]
    by (cases "j div LENGTH('a) = i div LENGTH('a)") (auto simp: word_view_def bit_simps)
qed

interpretation fs_bitmap: bit_array "word_view :: u8 list \<Rightarrow> nat \<Rightarrow> bool" word_cap bitmap_test bitmap_set bitmap_clear
proof
  fix i and b :: "u8 list" assume "i < word_cap b"
  then have i: "i div 8 < length b" by (simp add: word_cap_def div_less_iff_less_mult)
  show "bitmap_test b i = Inr (word_view b i)"
    using i by (simp add: bitmap_test_def rd_nat word_view_def and_exp_eq_0_iff_not_bit del: of_nat_div)
  show "\<exists>b'. bitmap_set b i = Inr b' \<and> word_cap b' = word_cap b \<and> (\<forall>j. word_view b' j = (j = i \<or> word_view b j))"
    using i word_view_set [of i b] by (simp add: bitmap_set_def rd_nat wr_nat word_cap_def del: of_nat_div)
  show "\<exists>b'. bitmap_clear b i = Inr b' \<and> word_cap b' = word_cap b \<and> (\<forall>j. word_view b' j = (j \<noteq> i \<and> word_view b j))"
    using i word_view_clear [of i b] by (simp add: bitmap_clear_def rd_nat wr_nat word_cap_def del: of_nat_div)
qed

subsection \<open>Searches and counts\<close>

lemma test_bit_at: "b < word_cap bm \<Longrightarrow> bitmap_test bm b = Inr (word_view bm b)"
  by (rule fs_bitmap.test_view)

text \<open>No bit from \<open>a\<close> up to \<open>b\<close> has the wanted value.\<close>

definition none_from :: "bool \<Rightarrow> u8 list \<Rightarrow> nat \<Rightarrow> nat \<Rightarrow> bool" where
  "none_from want bm a b \<longleftrightarrow> (\<forall>k. a \<le> k \<and> k < b \<longrightarrow> word_view bm k \<noteq> want)"

lemma none_from_Suc: "word_view bm a \<noteq> want \<Longrightarrow> none_from want bm (Suc a) b \<Longrightarrow> none_from want bm a b"
  unfolding none_from_def by (metis Suc_leI le_neq_implies_less)

lemma none_from_trans: "none_from want bm a b \<Longrightarrow> none_from want bm b c \<Longrightarrow> none_from want bm a c"
  unfolding none_from_def by (metis not_le)

lemma none_from_empty: "b \<le> a \<Longrightarrow> none_from want bm a b"
  by (auto simp: none_from_def)

definition scan_ok :: "bool \<Rightarrow> u8 list \<Rightarrow> nat \<Rightarrow> nat \<Rightarrow> nat \<Rightarrow> scan \<Rightarrow> bool" where
  "scan_ok want bm num_bits a e s = (case s of
       Found b \<Rightarrow> b < num_bits \<and> word_view bm b = want \<and> none_from want bm a b
     | PastEnd \<Rightarrow> num_bits < e \<and> none_from want bm a num_bits
     | NotHere \<Rightarrow> none_from want bm a e)"

lemma scan_byte_spec:
  assumes "num_bits \<le> word_cap bm" "j \<le> 8"
  shows "\<exists>s. scan_byte want bm num_bits i j = Inr s \<and> scan_ok want bm num_bits (i * 8 + j) (i * 8 + 8) s"
  using assms
proof (induction want bm num_bits i j rule: scan_byte.induct)
  case (1 want bm num_bits i j)
  let ?b = "i * 8 + j"
  note step = scan_byte.simps [of want bm num_bits i j]
  consider (all) "j = 8" | (past) "j < 8" "num_bits \<le> ?b" | (found) "j < 8" "?b < num_bits" "word_view bm ?b = want"
    | (more) "j < 8" "?b < num_bits" "word_view bm ?b \<noteq> want"
    using "1.prems"(2) by linarith
  then show ?case
  proof cases
    case all
    then show ?thesis by (simp add: scan_byte.simps [of want bm num_bits i 8] scan_ok_def none_from_empty)
  next
    case past
    then show ?thesis by (simp add: step scan_ok_def none_from_empty)
  next
    case found
    then have "bitmap_test bm ?b = Inr want" using "1.prems"(1) by (simp add: test_bit_at)
    with found show ?thesis by (simp add: step scan_ok_def none_from_empty)
  next
    case more
    then have t: "bitmap_test bm ?b = Inr (word_view bm ?b)" using "1.prems"(1) by (simp add: test_bit_at)
    from more have e: "scan_byte want bm num_bits i j = scan_byte want bm num_bits i (Suc j)"
      by (simp add: step t)
    obtain s where s: "scan_byte want bm num_bits i (Suc j) = Inr s" "scan_ok want bm num_bits (i * 8 + Suc j) (i * 8 + 8) s"
      using "1.IH" [OF _ _ t] more "1.prems" by auto
    have "scan_ok want bm num_bits ?b (i * 8 + 8) s"
      using s(2) more(3) by (auto simp: scan_ok_def none_from_Suc split: scan.splits)
    with s(1) e show ?thesis by simp
  qed
qed

text \<open>A byte that is skipped has no bit of the wanted value.\<close>

lemma skipped_byte:
  assumes "i < length bm" "bm ! i = (if want then 0x00 else 0xFF)"
  shows "none_from want bm (i * 8) (i * 8 + 8)"
proof -
  have "word_view bm k \<noteq> want" if "i * 8 \<le> k" "k < i * 8 + 8" for k
  proof -
    from that have k: "k div 8 = i" "k mod 8 < 8" by auto
    have "bit (0xFF :: u8) n" if "n < 8" for n
    proof -
      have e: "(0xFF :: u8) = - 1" by simp
      show ?thesis unfolding e using that by (simp add: bit_simps)
    qed
    with k assms show ?thesis by (cases want) (simp_all add: word_view_def)
  qed
  then show ?thesis by (simp add: none_from_def)
qed

lemma scan_bytes_spec:
  assumes "num_bits \<le> word_cap bm" "skip = (if want then 0x00 else 0xFF)" "none_from want bm 0 (i * 8)"
  shows "(\<exists>b < num_bits. scan_bytes want skip bm num_bits i = Inr (of_nat b) \<and> word_view bm b = want \<and> none_from want bm 0 b) \<or>
    (scan_bytes want skip bm num_bits i = Inr (- 1) \<and> none_from want bm 0 num_bits)"
  using assms
proof (induction want skip bm num_bits i rule: scan_bytes.induct)
  case (1 want skip bm num_bits i)
  note step = scan_bytes.simps [of want skip bm num_bits i]
  show ?case
  proof (cases "i < (num_bits + 7) div 8")
    case False
    then have "num_bits \<le> i * 8" by linarith
    with "1.prems"(3) False show ?thesis by (auto simp: step none_from_def)
  next
    case True
    then have "i < length bm" using "1.prems"(1) by (simp add: word_cap_def)
    then have r: "rd bm (int i) = Inr (bm ! i)" by (rule rd_nat)
    have no: "none_from want bm 0 (Suc i * 8)" if "none_from want bm (i * 8) (i * 8 + 8)"
      using none_from_trans [OF "1.prems"(3) that] by (simp add: add.commute)
    obtain s where s: "scan_byte want bm num_bits i 0 = Inr s" "scan_ok want bm num_bits (i * 8) (i * 8 + 8) s"
      using scan_byte_spec [OF "1.prems"(1), of 0 want i] by auto
    show ?thesis
    proof (cases "bm ! i = skip")
      case skip: True
      have "none_from want bm (i * 8) (i * 8 + 8)"
        by (rule skipped_byte [OF \<open>i < length bm\<close>]) (use skip "1.prems"(2) in simp)
      moreover have "scan_bytes want skip bm num_bits i = scan_bytes want skip bm num_bits (Suc i)"
        using True r skip by (simp add: step)
      ultimately show ?thesis
        using "1.IH"(2) [OF True r] skip "1.prems"(1,2) no by simp
    next
      case False
      show ?thesis
      proof (cases s)
        case (Found b)
        then have "none_from want bm 0 b"
          using s(2) none_from_trans [OF "1.prems"(3), of b] by (simp add: scan_ok_def)
        with Found True r s False show ?thesis by (auto simp: step scan_ok_def)
      next
        case PastEnd
        then have "none_from want bm 0 num_bits"
          using s(2) none_from_trans [OF "1.prems"(3), of num_bits] by (simp add: scan_ok_def)
        with PastEnd True r s False show ?thesis by (simp add: step)
      next
        case NotHere
        then have e: "scan_bytes want skip bm num_bits i = scan_bytes want skip bm num_bits (Suc i)"
          using True r s False by (simp add: step)
        have "none_from want bm 0 (Suc i * 8)" using s(2) NotHere no by (simp add: scan_ok_def)
        with "1.IH"(1) [OF True r _ s(1)] False NotHere "1.prems"(1,2) show ?thesis unfolding e by simp
      qed
    qed
  qed
qed

lemma count_byte_card:
  "j \<le> 8 \<Longrightarrow> count_byte want v num_bits i j = card {k. j \<le> k \<and> k < 8 \<and> i * 8 + k < num_bits \<and> bit v k = want}"
proof (induction want v num_bits i j rule: count_byte.induct)
  case (1 want v num_bits i j)
  let ?S = "\<lambda>j. {k. j \<le> k \<and> k < 8 \<and> i * 8 + k < num_bits \<and> bit v k = want}"
  show ?case
  proof (cases "j < 8 \<and> i * 8 + j < num_bits")
    case True
    have "?S j = (if bit v j = want then insert j (?S (Suc j)) else ?S (Suc j))"
      using True by (auto simp: Suc_le_eq order_le_less)
    then have "card (?S j) = (if bit v j = want then 1 else 0) + card (?S (Suc j))"
      by simp
    with True "1.IH" show ?thesis
      by (simp add: count_byte.simps [of want v num_bits i j] and_exp_eq_0_iff_not_bit)
  next
    case False
    then have "?S j = {}" by auto
    moreover have "count_byte want v num_bits i j = 0" using False by (subst count_byte.simps) auto
    ultimately show ?thesis by (simp only: card.empty)
  qed
qed

lemma count_bytes_card:
  assumes "num_bits \<le> word_cap bm"
  shows "count_bytes want bm num_bits i c = Inr (c + card {k. i * 8 \<le> k \<and> k < num_bits \<and> word_view bm k = want})"
  using assms
proof (induction want bm num_bits i c rule: count_bytes.induct)
  case (1 want bm num_bits i c)
  let ?T = "\<lambda>i. {k. i * 8 \<le> k \<and> k < num_bits \<and> word_view bm k = want}"
  show ?case
  proof (cases "i < (num_bits + 7) div 8")
    case False
    then have "?T i = {}" by auto
    moreover have "count_bytes want bm num_bits i c = Inr c" using False by (subst count_bytes.simps) auto
    ultimately show ?thesis by (simp only: card.empty add_0_right)
  next
    case True
    then have l: "i < length bm" using "1.prems" by (simp add: word_cap_def)
    let ?B = "{k. k < 8 \<and> i * 8 + k < num_bits \<and> bit (bm ! i) k = want}"
    have "?T i = (\<lambda>k. i * 8 + k) ` ?B \<union> ?T (Suc i)" (is "_ = ?I \<union> _")
    proof
      show "?T i \<subseteq> ?I \<union> ?T (Suc i)"
      proof
        fix k assume k: "k \<in> ?T i"
        show "k \<in> ?I \<union> ?T (Suc i)"
        proof (cases "k < i * 8 + 8")
          case True
          with k have d: "k div 8 = i" by auto
          then have "k mod 8 = k - i * 8" by (simp add: minus_div_mult_eq_mod [symmetric])
          note d = d this
          with k True l have "k - i * 8 \<in> ?B" by (auto simp: word_view_def)
          moreover have "k = i * 8 + (k - i * 8)" using k by simp
          ultimately show ?thesis by blast
        qed (use k in auto)
      qed
      have "word_view bm (i * 8 + k) = bit (bm ! i) k" if "k < 8" for k
        using that l by (simp add: word_view_def)
      then show "?I \<union> ?T (Suc i) \<subseteq> ?T i" by auto
    qed
    moreover have "?I \<inter> ?T (Suc i) = {}" by auto
    moreover have "finite ?I" "finite (?T (Suc i))" by auto
    ultimately have "card (?T i) = card ?I + card (?T (Suc i))" by (simp add: card_Un_disjoint)
    moreover have "card ?I = card ?B" by (intro card_image) (simp add: inj_on_def)
    moreover have "count_byte want (bm ! i) num_bits i 0 = card ?B" by (simp add: count_byte_card)
    ultimately show ?thesis
      using True l "1.IH" [OF True rd_nat [OF l]] "1.prems"
      by (simp add: count_bytes.simps [of want bm num_bits i c] rd_nat)
  qed
qed

text \<open>C26. The file system bitmaps implement a set of bit numbers: setting and clearing change exactly the given
  bit, the searches return the least free or the least set bit below the limit or -1, and the counts
  are the numbers of clear and of set bits.\<close>

theorem bitmap_refines:
  assumes "num_bits \<le> word_cap bm" "num_bits < 2 ^ 31" "b < num_bits"
  shows "(\<exists>bm'. bitmap_set bm b = Inr bm' \<and> (\<forall>j. word_view bm' j = (j = b \<or> word_view bm j))) \<and>
    (\<exists>bm'. bitmap_clear bm b = Inr bm' \<and> (\<forall>j. word_view bm' j = (j \<noteq> b \<and> word_view bm j))) \<and>
    bitmap_test bm b = Inr (word_view bm b) \<and>
    (bitmap_find_first_free bm num_bits = Inr (of_nat b) \<longleftrightarrow> \<not> word_view bm b \<and> (\<forall>k < b. word_view bm k)) \<and>
    (bitmap_find_first_free bm num_bits = Inr (- 1) \<longleftrightarrow> (\<forall>k < num_bits. word_view bm k)) \<and>
    (bitmap_find_first_set bm num_bits = Inr (of_nat b) \<longleftrightarrow> word_view bm b \<and> (\<forall>k < b. \<not> word_view bm k)) \<and>
    (bitmap_find_first_set bm num_bits = Inr (- 1) \<longleftrightarrow> (\<forall>k < num_bits. \<not> word_view bm k)) \<and>
    bitmap_count_free bm num_bits = Inr (card {k. k < num_bits \<and> \<not> word_view bm k}) \<and>
    bitmap_count_set bm num_bits = Inr (card {k. k < num_bits \<and> word_view bm k})"
proof -
  have cap: "b < word_cap bm" using assms by simp
  have inj: "(of_nat c :: i32) = of_nat b \<longleftrightarrow> c = b" "(of_nat c :: i32) \<noteq> - 1" if "c < num_bits" for c
  proof -
    have c: "unat (of_nat c :: i32) = c" "unat (of_nat b :: i32) = b"
      using that assms by (simp_all add: unat_of_nat take_bit_nat_eq_self)
    then show "(of_nat c :: i32) = of_nat b \<longleftrightarrow> c = b" by metis
    have "(of_nat (Suc c) :: i32) \<noteq> 0"
      unfolding word_of_nat_eq_0_iff using that assms(2) by (auto dest: dvd_imp_le)
    then show "(of_nat c :: i32) \<noteq> - 1" by auto
  qed
  have spec: "(scan_bytes want skip bm num_bits 0 = Inr (of_nat b) \<longleftrightarrow> word_view bm b = want \<and> (\<forall>k < b. word_view bm k \<noteq> want)) \<and>
      (scan_bytes want skip bm num_bits 0 = Inr (- 1) \<longleftrightarrow> (\<forall>k < num_bits. word_view bm k \<noteq> want))"
    if skip: "skip = (if want then 0x00 else 0xFF)" for skip want
    using scan_bytes_spec [OF assms(1) skip none_from_empty, of 0, simplified]
  proof (elim disjE exE conjE)
    fix c assume c: "c < num_bits" "scan_bytes want skip bm num_bits 0 = Inr (of_nat c)" "word_view bm c = want" "none_from want bm 0 c"
    have "(word_view bm b = want \<and> (\<forall>k < b. word_view bm k \<noteq> want)) \<longleftrightarrow> c = b"
      using c(3,4) by (metis none_from_def le0 linorder_neqE_nat)
    moreover have "\<not> (\<forall>k < num_bits. word_view bm k \<noteq> want)" using c(1,3) by blast
    ultimately show ?thesis using c(2) inj [OF c(1)] by simp
  next
    assume "scan_bytes want skip bm num_bits 0 = Inr (- 1)" "none_from want bm 0 num_bits"
    with inj [OF assms(3)] assms(3) show ?thesis by (auto simp: none_from_def)
  qed
  show ?thesis
    using fs_bitmap.set_view [OF cap] fs_bitmap.clear_view [OF cap] test_bit_at [OF cap] spec [where want = False, OF refl] spec [where want = True, OF refl]
      count_bytes_card [OF assms(1), where want = False and i = 0 and c = 0] count_bytes_card [OF assms(1), where want = True and i = 0 and c = 0]
    unfolding bitmap_find_first_free_def bitmap_find_first_set_def bitmap_count_free_def bitmap_count_set_def
    by (intro conjI) (simp_all, blast+)
qed

theorem bitmap_refines_witness:
  "12 \<le> word_cap [0xFF, 0x05 :: u8] \<and> \<not> word_view [0xFF, 0x05 :: u8] 9 \<and> list_all (word_view [0xFF, 0x05 :: u8]) [0..<9] \<and>
   bitmap_find_first_free [0xFF, 0x05] 12 = Inr 9"
proof -
  have cap: "12 \<le> word_cap [0xFF, 0x05 :: u8]" by (simp add: word_cap_def)
  have 9: "\<not> word_view [0xFF, 0x05 :: u8] 9" by (simp add: word_view_def)
  have "\<forall>k \<in> set [0..<9]. word_view [0xFF, 0x05 :: u8] k" by (simp add: word_view_def upt_rec)
  then have all: "\<forall>k < 9. word_view [0xFF, 0x05 :: u8] k" by simp
  then have "list_all (word_view [0xFF, 0x05 :: u8]) [0..<9]" using all by (simp only: list_all_iff set_upt atLeastLessThan_iff) simp
  moreover have "bitmap_find_first_free [0xFF, 0x05] 12 = Inr 9" using bitmap_refines [OF cap, of 9] 9 all by simp
  ultimately show ?thesis using cap 9 by simp
qed

end
