(* ===== verification/Spinlock.thy ===== *)
theory Spinlock
  imports Prelude
begin

text \<open>
  The spin lock of \<open>core/arch/spinlock.c\<close>.  The atomic instruction \<open>lock cmpxchgl\<close> is a function of
  the expected value, the memory cell and the new value.  Run by one CPU alone, acquiring a
  lock that is taken never returns; between CPUs, each exchange is one step.
\<close>

record spinlock =
  lock :: u32

definition cmpxchg :: "u32 \<Rightarrow> u32 \<Rightarrow> u32 \<Rightarrow> u32 \<times> u32" where
  "cmpxchg expected cell new_value = (if cell = expected then (expected, new_value) else (cell, cell))"

definition spinlock_init :: "spinlock \<Rightarrow> spinlock" where
  "spinlock_init l = l\<lparr>lock := 0\<rparr>"

partial_function (option) spinlock_acquire :: "spinlock \<Rightarrow> spinlock option" where
  "spinlock_acquire l =
     (let (expected, cell) = cmpxchg 0 (lock l) 1 in
      if expected = 0 then Some (l\<lparr>lock := cell\<rparr>) else spinlock_acquire (l\<lparr>lock := cell\<rparr>))"

definition spinlock_release :: "spinlock \<Rightarrow> spinlock" where
  "spinlock_release l = l\<lparr>lock := 0\<rparr>"

definition spinlock_try_acquire :: "spinlock \<Rightarrow> bool \<times> spinlock" where
  "spinlock_try_acquire l = (let (expected, cell) = cmpxchg 0 (lock l) 1 in (expected = 0, l\<lparr>lock := cell\<rparr>))"

text \<open>A loop that does not return, as a fault of the function that contains it.\<close>

definition returns :: "'a option \<Rightarrow> 'a res" where
  "returns m = (case m of None \<Rightarrow> Inl Diverges | Some x \<Rightarrow> Inr x)"

lemma returns_simps [simp]: "returns None = Inl Diverges" "returns (Some x) = Inr x"
  by (simp_all add: returns_def)

abbreviation free_lock :: "spinlock \<Rightarrow> bool" where
  "free_lock l \<equiv> lock l = 0"

lemma acquire_free: "free_lock l \<Longrightarrow> spinlock_acquire l = Some (l\<lparr>lock := 1\<rparr>)"
  by (simp add: spinlock_acquire.simps [of l] cmpxchg_def)

lemma acquire_only_free: "spinlock_acquire l = Some m \<Longrightarrow> free_lock l"
  by (rule spinlock_acquire.raw_induct [where P = "\<lambda>l m. free_lock l"])
    (auto simp: cmpxchg_def split: if_splits)

lemma acquire_taken: "\<not> free_lock l \<Longrightarrow> spinlock_acquire l = None"
  using acquire_only_free by (metis not_Some_eq)

lemma release_free [simp]: "free_lock (spinlock_release l)" "free_lock (spinlock_init l)"
  by (simp_all add: spinlock_release_def spinlock_init_def)

lemma release_acquired: "free_lock l \<Longrightarrow> spinlock_release (l\<lparr>lock := v\<rparr>) = l"
  by (cases l) (simp add: spinlock_release_def)

lemma try_acquire_cases:
  "spinlock_try_acquire l = (if free_lock l then (True, l\<lparr>lock := 1\<rparr>) else (False, l))"
  by (cases l) (auto simp: spinlock_try_acquire_def cmpxchg_def)

end
