(* ===== verification/Work_Queue.thy ===== *)
theory Work_Queue
  imports Spinlock
begin

text \<open>
  The per-CPU work queues of \<open>core/arch/work_queue.c\<close>: ring buffers of 256 slots guarded by a spin
  lock.  A queued function is a code pointer; what calling it does is the argument \<open>call\<close>, which
  may change the queues and the rest of the kernel.
\<close>

subsection \<open>State\<close>

definition WQ_MAX_ITEMS :: u32 where "WQ_MAX_ITEMS = 256"

definition MAX_CPUS :: nat where "MAX_CPUS = 64"

record work_item =
  fn :: u64
  arg :: u64

record cpu_work_queue =
  items :: "work_item list"
  head :: u32
  tail :: u32
  wq_lock :: spinlock

datatype cpu_state = CPU_STATE_OFFLINE | CPU_STATE_STARTING | CPU_STATE_ONLINE | CPU_STATE_HALTED

record 's wq_world =
  cpu_wqs :: "cpu_work_queue list"
  cpu_count :: u32
  cpu_states :: "cpu_state list"
  rest :: 's

subsection \<open>Operations\<close>

definition put_wq :: "u32 \<Rightarrow> cpu_work_queue \<Rightarrow> 's wq_world \<Rightarrow> 's wq_world" where
  "put_wq i wq w = w\<lparr>cpu_wqs := (cpu_wqs w)[unat i := wq]\<rparr>"

definition wq_init :: "'s wq_world \<Rightarrow> 's wq_world" where
  "wq_init w = w\<lparr>cpu_wqs := map (\<lambda>wq. wq\<lparr>head := 0, tail := 0, wq_lock := spinlock_init (wq_lock wq)\<rparr>) (cpu_wqs w)\<rparr>"

definition acquire_wq :: "cpu_work_queue \<Rightarrow> cpu_work_queue res" where
  "acquire_wq wq = bindR (returns (spinlock_acquire (wq_lock wq))) (\<lambda>l. Inr (wq\<lparr>wq_lock := l\<rparr>))"

definition release_wq :: "cpu_work_queue \<Rightarrow> cpu_work_queue" where
  "release_wq wq = wq\<lparr>wq_lock := spinlock_release (wq_lock wq)\<rparr>"

definition wq_next :: "u32 \<Rightarrow> u32" where
  "wq_next i = (i + 1) mod WQ_MAX_ITEMS"

definition wq_used :: "cpu_work_queue \<Rightarrow> u32" where
  "wq_used wq = (tail wq - head wq + WQ_MAX_ITEMS) mod WQ_MAX_ITEMS"

definition wq_submit :: "u32 \<Rightarrow> u64 \<Rightarrow> u64 \<Rightarrow> 's wq_world \<Rightarrow> (i32 \<times> 's wq_world) res" where
  "wq_submit cpu_id f a w =
     (if cpu_count w \<le> cpu_id then Inr (- 1, w)
      else if f = 0 then Inr (- 1, w)
      else
        bindR (rd (cpu_wqs w) (uint cpu_id)) (\<lambda>wq.
        bindR (acquire_wq wq) (\<lambda>wq.
        let nxt = wq_next (tail wq) in
        if nxt = head wq then Inr (- 1, put_wq cpu_id (release_wq wq) w)
        else
          bindR (rd (items wq) (uint (tail wq))) (\<lambda>it.
          bindR (wr (items wq) (uint (tail wq)) (it\<lparr>fn := f, arg := a\<rparr>)) (\<lambda>its.
          Inr (0, put_wq cpu_id (release_wq (wq\<lparr>items := its, tail := nxt\<rparr>)) w))))))"

text \<open>One round of the loop of \<open>wq_run\<close>: the item taken, if the queue is not empty.\<close>

definition wq_take :: "u32 \<Rightarrow> 's wq_world \<Rightarrow> (work_item option \<times> 's wq_world) res" where
  "wq_take cpu_id w =
     bindR (rd (cpu_wqs w) (uint cpu_id)) (\<lambda>wq.
     bindR (acquire_wq wq) (\<lambda>wq.
     if head wq = tail wq then Inr (None, put_wq cpu_id (release_wq wq) w)
     else
       bindR (rd (items wq) (uint (head wq))) (\<lambda>item.
       Inr (Some item, put_wq cpu_id (release_wq (wq\<lparr>head := wq_next (head wq)\<rparr>)) w))))"

text \<open>The loop ends when the queue is empty; queued functions may add work for ever.\<close>

partial_function (option) wq_loop ::
    "(u64 \<Rightarrow> u64 \<Rightarrow> 's wq_world \<Rightarrow> 's wq_world res) \<Rightarrow> u32 \<Rightarrow> 's wq_world \<Rightarrow> 's wq_world res option" where
  "wq_loop call cpu_id w =
     (case wq_take cpu_id w of
        Inl e \<Rightarrow> Some (Inl e)
      | Inr (None, w) \<Rightarrow> Some (Inr w)
      | Inr (Some item, w) \<Rightarrow>
          (case call (fn item) (arg item) w of Inl e \<Rightarrow> Some (Inl e) | Inr w \<Rightarrow> wq_loop call cpu_id w))"

definition wq_run ::
    "(u64 \<Rightarrow> u64 \<Rightarrow> 's wq_world \<Rightarrow> 's wq_world res) \<Rightarrow> u32 \<Rightarrow> 's wq_world \<Rightarrow> 's wq_world res" where
  "wq_run call cpu_id w =
     (if of_nat MAX_CPUS \<le> cpu_id then Inr w
      else bindR (returns (wq_loop call cpu_id w)) (\<lambda>r. r))"

function best_cpu :: "'s wq_world \<Rightarrow> nat \<Rightarrow> u32 \<Rightarrow> u32 \<Rightarrow> u32 res" where
  "best_cpu w i best min_items =
     (if i < unat (cpu_count w) then
        bindR (rd (cpu_states w) (int i)) (\<lambda>st.
        if st \<noteq> CPU_STATE_ONLINE then best_cpu w (Suc i) best min_items
        else
          bindR (rd (cpu_wqs w) (int i)) (\<lambda>wq.
          if wq_used wq < min_items then best_cpu w (Suc i) (of_nat i) (wq_used wq)
          else best_cpu w (Suc i) best min_items))
      else Inr best)"
  by pat_completeness auto
termination
  by (relation "measure (\<lambda>(w, i, best, min_items). unat (cpu_count w) - i)") auto

declare best_cpu.simps [simp del]

definition wq_submit_any :: "u64 \<Rightarrow> u64 \<Rightarrow> 's wq_world \<Rightarrow> (i32 \<times> 's wq_world) res" where
  "wq_submit_any f a w =
     bindR (best_cpu w 0 (- 1) (WQ_MAX_ITEMS + 1)) (\<lambda>best.
     if best = - 1 then Inr (- 1, w) else wq_submit best f a w)"

definition wq_pending :: "u32 \<Rightarrow> 's wq_world \<Rightarrow> (u32 \<times> 's wq_world) res" where
  "wq_pending cpu_id w =
     (if of_nat MAX_CPUS \<le> cpu_id then Inr (0, w)
      else
        bindR (rd (cpu_wqs w) (uint cpu_id)) (\<lambda>wq.
        bindR (acquire_wq wq) (\<lambda>wq. Inr (wq_used wq, put_wq cpu_id (release_wq wq) w))))"

subsection \<open>Ring buffers\<close>

definition ring :: "'a list \<Rightarrow> nat \<Rightarrow> nat \<Rightarrow> 'a list" where
  "ring xs h t = map (\<lambda>k. xs ! ((h + k) mod length xs)) [0..<(t + length xs - h) mod length xs]"

lemma mod_once: "(h::nat) < n \<Longrightarrow> k \<le> n \<Longrightarrow> (h + k) mod n = (if h + k < n then h + k else h + k - n)"
  by (auto simp: mod_if)

lemma ring_used: "h < n \<Longrightarrow> t < n \<Longrightarrow> (t + n - h) mod n = (if h \<le> t then t - h else t + n - (h::nat))"
  by (auto simp: mod_if)

lemma Suc_mod: "t < n \<Longrightarrow> Suc t mod n = (if Suc t = n then 0 else Suc t)"
  by auto

lemma ring_used_step:
  assumes "h < n" "t < n" "Suc t mod n \<noteq> h"
  shows "(Suc t mod n + n - h) mod n = Suc ((t + n - h) mod n)"
proof -
  have "Suc t mod n < n" using assms by simp
  with assms show ?thesis by (auto simp: ring_used Suc_mod split: if_splits)
qed

lemma ring_slot: "h < n \<Longrightarrow> t < n \<Longrightarrow> (h + (t + n - h) mod n) mod (n::nat) = t"
  by (simp add: mod_simps)

lemma ring_push:
  assumes "h < length xs" "t < length xs" "Suc t mod length xs \<noteq> h"
  shows "ring xs h (Suc t mod length xs) = ring xs h t @ [xs ! t]"
  using ring_used_step [OF assms] ring_slot [OF assms(1,2)] by (simp add: ring_def)

lemma ring_other:
  assumes "h < length xs" "t < length xs"
  shows "ring (xs[t := x]) h t = ring xs h t"
proof -
  have "(h + k) mod length xs \<noteq> t" if "k < (t + length xs - h) mod length xs" for k
  proof
    assume e: "(h + k) mod length xs = t"
    have "k < length xs" using that mod_less_divisor [of "length xs" "t + length xs - h"] assms by linarith
    with e that assms show False by (auto simp: mod_once ring_used split: if_splits)
  qed
  then have "xs[t := x] ! ((h + k) mod length xs) = xs ! ((h + k) mod length xs)" if "k < (t + length xs - h) mod length xs" for k
    using that by (metis nth_list_update_neq)
  then show ?thesis by (simp add: ring_def)
qed

lemma ring_empty: "h < length xs \<Longrightarrow> t < length xs \<Longrightarrow> ring xs h t = [] \<longleftrightarrow> h = t"
  by (auto simp: ring_def mod_if)

lemma ring_pop:
  assumes "h < length xs" "t < length xs" "h \<noteq> t"
  shows "ring xs h t = xs ! h # ring xs (Suc h mod length xs) t"
proof -
  let ?n = "length xs" and ?h = "Suc h mod length xs"
  have u: "(t + ?n - h) mod ?n = Suc ((t + ?n - ?h) mod ?n)"
    using assms mod_less_divisor [of ?n "Suc h"] by (auto simp: ring_used Suc_mod split: if_splits)
  have "(h + Suc k) mod ?n = (?h + k) mod ?n" for k
    by (simp add: mod_simps)
  then have "map (\<lambda>k. xs ! ((h + k) mod ?n)) [Suc 0..<Suc m] = map (\<lambda>k. xs ! ((?h + k) mod ?n)) [0..<m]" for m
    by (simp add: map_Suc_upt [symmetric] comp_def del: map_Suc_upt upt_Suc)
  then show ?thesis unfolding ring_def u using assms by (simp add: upt_conv_Cons del: upt_Suc)
qed

lemma ring_length: "h < length xs \<Longrightarrow> length (ring xs h t) < length xs"
  unfolding ring_def length_map length_upt diff_zero by (rule mod_less_divisor) auto

text \<open>A queue in order, and the work it holds.\<close>

definition wq_ok :: "cpu_work_queue \<Rightarrow> bool" where
  "wq_ok q \<longleftrightarrow> length (items q) = 256 \<and> unat (head q) < 256 \<and> unat (tail q) < 256"

definition wq_list :: "cpu_work_queue \<Rightarrow> work_item list" where
  "wq_list q = ring (items q) (unat (head q)) (unat (tail q))"

lemma unat_next: "unat i < 256 \<Longrightarrow> unat (wq_next i) = Suc (unat i) mod 256"
proof -
  assume i: "unat i < 256"
  then have "unat (i + 1) = Suc (unat i)" by (simp add: unat_word_ariths)
  then show ?thesis by (simp add: wq_next_def WQ_MAX_ITEMS_def unat_mod_distrib)
qed

lemma next_eq_iff: "unat i < 256 \<Longrightarrow> wq_next i = j \<longleftrightarrow> Suc (unat i) mod 256 = unat j"
  by (metis unat_next word_unat_eq_iff)

lemma wrapped_diff: "0 \<le> a \<Longrightarrow> a < 256 \<Longrightarrow> 0 \<le> b \<Longrightarrow> b < 256 \<Longrightarrow> (a - b + 256) mod 2 ^ 32 = a + 256 - (b::int)"
  by (subst mod_pos_pos_trivial) auto

lemma used_list: "wq_ok q \<Longrightarrow> unat (wq_used q) = length (wq_list q)"
proof -
  assume q: "wq_ok q"
  then have b: "uint (tail q) < 256" "uint (head q) < 256" by (simp_all add: wq_ok_def unat_less_uint)
  have "uint (tail q - head q + WQ_MAX_ITEMS) = (uint (tail q) - uint (head q) + 256) mod 2 ^ 32"
    by (simp add: uint_word_ariths WQ_MAX_ITEMS_def mod_simps)
  also have "\<dots> = uint (tail q) + 256 - uint (head q)"
    by (rule wrapped_diff) (use b in simp_all)
  finally have "int (unat (tail q - head q + WQ_MAX_ITEMS)) = int (unat (tail q) + 256 - unat (head q))"
    using q by (simp add: wq_ok_def of_nat_diff)
  then have "unat (tail q - head q + WQ_MAX_ITEMS) = unat (tail q) + 256 - unat (head q)" by linarith
  then show ?thesis using q
    by (simp add: wq_used_def WQ_MAX_ITEMS_def wq_list_def ring_def wq_ok_def unat_mod_distrib mod_mod_cancel)
qed

lemma wq_list_empty: "wq_ok q \<Longrightarrow> wq_list q = [] \<longleftrightarrow> head q = tail q"
  by (simp add: wq_list_def wq_ok_def ring_empty word_unat_eq_iff)

lemma wq_list_full: "wq_ok q \<Longrightarrow> wq_next (tail q) = head q \<longleftrightarrow> length (wq_list q) = 255"
  by (auto simp: wq_list_def wq_ok_def ring_def next_eq_iff ring_used Suc_mod split: if_splits)

lemma wq_list_bound: "wq_ok q \<Longrightarrow> length (wq_list q) \<le> 255"
  using ring_length [of "unat (head q)" "items q" "unat (tail q)"] by (simp add: wq_list_def wq_ok_def)

lemma wq_list_publish:
  assumes "wq_ok q" "wq_next (tail q) \<noteq> head q"
  shows "wq_list (q\<lparr>tail := wq_next (tail q)\<rparr>) = wq_list q @ [items q ! unat (tail q)]"
    and "wq_ok (q\<lparr>tail := wq_next (tail q)\<rparr>)"
  using assms ring_push [of "unat (head q)" "items q" "unat (tail q)"]
  by (auto simp: wq_list_def wq_ok_def unat_next next_eq_iff)

lemma wq_list_store:
  assumes "wq_ok q"
  shows "wq_list (q\<lparr>items := (items q)[unat (tail q) := it]\<rparr>) = wq_list q"
    and "wq_ok (q\<lparr>items := (items q)[unat (tail q) := it]\<rparr>)"
  using assms by (auto simp: wq_list_def wq_ok_def ring_other)

lemma wq_list_pop:
  assumes "wq_ok q" "head q \<noteq> tail q"
  shows "wq_list q = items q ! unat (head q) # wq_list (q\<lparr>head := wq_next (head q)\<rparr>)"
    and "wq_ok (q\<lparr>head := wq_next (head q)\<rparr>)"
  using assms ring_pop [of "unat (head q)" "items q" "unat (tail q)"]
  by (auto simp: wq_list_def wq_ok_def unat_next word_unat_eq_iff)

lemma wq_lock_irrelevant [simp]:
  "wq_ok (q\<lparr>wq_lock := l\<rparr>) = wq_ok q" "wq_list (q\<lparr>wq_lock := l\<rparr>) = wq_list q"
  by (simp_all add: wq_ok_def wq_list_def)

subsection \<open>The queues as bounded FIFO queues\<close>

text \<open>What a bounded queue promises: submitting appends unless the queue is full, taking removes the first element.\<close>

locale bounded_queue =
  fixes contents :: "'q \<Rightarrow> 'a list" and inv :: "'q \<Rightarrow> bool" and valid :: "'a \<Rightarrow> bool" and bound :: nat
    and submit :: "'a \<Rightarrow> 'q \<Rightarrow> (bool \<times> 'q) res" and take_q :: "'q \<Rightarrow> ('a option \<times> 'q) res"
  assumes submit_spec: "inv q \<Longrightarrow> valid a \<Longrightarrow>
      \<exists>q'. submit a q = Inr (length (contents q) < bound, q') \<and> inv q' \<and>
        contents q' = (if length (contents q) < bound then contents q @ [a] else contents q)"
    and take_spec: "inv q \<Longrightarrow>
      \<exists>q'. take_q q = Inr (case contents q of [] \<Rightarrow> None | a # _ \<Rightarrow> Some a, q') \<and> inv q' \<and> contents q' = tl (contents q)"
begin

fun submit_all :: "'a list \<Rightarrow> 'q \<Rightarrow> 'q res" where
  "submit_all [] q = Inr q"
| "submit_all (a # as) q = bindR (submit a q) (\<lambda>(_, q). submit_all as q)"

fun take_n :: "nat \<Rightarrow> 'q \<Rightarrow> ('a list \<times> 'q) res" where
  "take_n 0 q = Inr ([], q)"
| "take_n (Suc n) q = bindR (take_q q) (\<lambda>(r, q). bindR (take_n n q) (\<lambda>(as, q).
     Inr (case r of None \<Rightarrow> as | Some a \<Rightarrow> a # as, q)))"

lemma submit_all_spec:
  "inv q \<Longrightarrow> \<forall>a \<in> set as. valid a \<Longrightarrow> length (contents q) + length as \<le> bound \<Longrightarrow>
   \<exists>q'. submit_all as q = Inr q' \<and> inv q' \<and> contents q' = contents q @ as"
proof (induction as arbitrary: q)
  case (Cons a as)
  then obtain q1 where q1: "submit a q = Inr (True, q1)" "inv q1" "contents q1 = contents q @ [a]"
    using submit_spec [of q a] by auto
  with Cons.IH [of q1] Cons.prems show ?case by auto
qed simp

lemma take_n_spec:
  "inv q \<Longrightarrow> \<exists>q'. take_n n q = Inr (take n (contents q), q') \<and> inv q' \<and> contents q' = drop n (contents q)"
proof (induction n arbitrary: q)
  case (Suc n)
  obtain q1 where q1: "take_q q = Inr (case contents q of [] \<Rightarrow> None | a # _ \<Rightarrow> Some a, q1)" "inv q1" "contents q1 = tl (contents q)"
    using take_spec [OF Suc.prems] by blast
  with Suc.IH [OF q1(2)] show ?case by (cases "contents q") auto
qed simp

text \<open>First in, first out: what is submitted to a queue that has room comes back in order.\<close>

lemma fifo:
  assumes "inv q" "contents q = []" "\<forall>a \<in> set as. valid a" "length as \<le> bound"
  shows "\<exists>q' q''. submit_all as q = Inr q' \<and> take_n (length as) q' = Inr (as, q'') \<and> contents q'' = []"
proof -
  obtain q' where "submit_all as q = Inr q'" "inv q'" "contents q' = as"
    using submit_all_spec [OF assms(1,3)] assms(2,4) by auto
  with take_n_spec [of q' "length as"] show ?thesis by auto
qed

end

text \<open>The world as seen by CPU \<open>i\<close>: its queue is in order and not locked.\<close>

definition wq_at :: "u32 \<Rightarrow> 's wq_world \<Rightarrow> cpu_work_queue" where
  "wq_at i w = cpu_wqs w ! unat i"

definition wq_inv :: "u32 \<Rightarrow> 's wq_world \<Rightarrow> bool" where
  "wq_inv i w \<longleftrightarrow> unat i < length (cpu_wqs w) \<and> i < cpu_count w \<and> wq_ok (wq_at i w) \<and> free_lock (wq_lock (wq_at i w))"

lemma acquire_wq_free: "free_lock (wq_lock q) \<Longrightarrow> acquire_wq q = Inr (q\<lparr>wq_lock := (wq_lock q)\<lparr>lock := 1\<rparr>\<rparr>)"
  by (simp add: acquire_wq_def acquire_free)

lemma release_wq_acquired: "free_lock (wq_lock q) \<Longrightarrow> release_wq (q'\<lparr>wq_lock := (wq_lock q)\<lparr>lock := v\<rparr>\<rparr>) = q'\<lparr>wq_lock := wq_lock q\<rparr>"
  by (simp add: release_wq_def release_acquired)

lemma wq_at_put: "unat i < length (cpu_wqs w) \<Longrightarrow> wq_at i (put_wq i q w) = q"
  by (simp add: wq_at_def put_wq_def)

lemma wq_at_other: "j \<noteq> i \<Longrightarrow> wq_at j (put_wq i q w) = wq_at j w"
  by (simp add: wq_at_def put_wq_def word_unat_eq_iff)

lemma rest_put [simp]: "rest (put_wq i q w) = rest w"
  by (simp add: put_wq_def)

lemma put_wq_same: "put_wq i (wq_at i w) w = w"
  by (simp add: wq_at_def put_wq_def)

lemma put_wq_inv: "wq_inv i w \<Longrightarrow> wq_ok q \<Longrightarrow> free_lock (wq_lock q) \<Longrightarrow> wq_inv i (put_wq i q w)"
  by (simp add: wq_inv_def wq_at_def put_wq_def)

lemma rd_wq: "wq_inv i w \<Longrightarrow> rd (cpu_wqs w) (uint i) = Inr (wq_at i w)"
  by (metis rd_nat uint_nat wq_at_def wq_inv_def)

lemma wq_submit_eq:
  assumes "wq_inv i w" "f \<noteq> 0"
  shows "wq_submit i f a w =
    (if length (wq_list (wq_at i w)) = 255 then Inr (- 1, w)
     else let q = wq_at i w in
       Inr (0, put_wq i (q\<lparr>items := (items q)[unat (tail q) := (items q ! unat (tail q))\<lparr>fn := f, arg := a\<rparr>], tail := wq_next (tail q)\<rparr>) w))"
proof -
  let ?q = "wq_at i w"
  from assms have q: "wq_ok ?q" "free_lock (wq_lock ?q)" "\<not> cpu_count w \<le> i" by (auto simp: wq_inv_def)
  then have t: "rd (items ?q) (uint (tail ?q)) = Inr (items ?q ! unat (tail ?q))"
     "wr (items ?q) (uint (tail ?q)) v = Inr ((items ?q)[unat (tail ?q) := v])" for v
    by (metis wq_ok_def rd_nat uint_nat, metis wq_ok_def wr_nat uint_nat)
  have r: "release_wq (?q\<lparr>wq_lock := (wq_lock ?q)\<lparr>lock := 1\<rparr>\<rparr>) = ?q"
     "release_wq (?q\<lparr>wq_lock := (wq_lock ?q)\<lparr>lock := 1\<rparr>, items := its, tail := n\<rparr>) = ?q\<lparr>items := its, tail := n\<rparr>" for its n
    using q(2) by (cases "?q"; simp add: release_wq_def release_acquired)+
  show ?thesis
    using q assms wq_list_full [OF q(1)]
    by (simp add: wq_submit_def rd_wq acquire_wq_free t r put_wq_same Let_def)
qed

lemma wq_take_eq:
  assumes "wq_inv i w"
  shows "wq_take i w =
    (case wq_list (wq_at i w) of [] \<Rightarrow> Inr (None, w)
     | a # _ \<Rightarrow> Inr (Some a, put_wq i ((wq_at i w)\<lparr>head := wq_next (head (wq_at i w))\<rparr>) w))"
proof -
  let ?q = "wq_at i w"
  from assms have q: "wq_ok ?q" "free_lock (wq_lock ?q)" by (auto simp: wq_inv_def)
  then have t: "rd (items ?q) (uint (head ?q)) = Inr (items ?q ! unat (head ?q))"
    by (metis wq_ok_def rd_nat uint_nat)
  have r: "release_wq (?q\<lparr>wq_lock := (wq_lock ?q)\<lparr>lock := 1\<rparr>\<rparr>) = ?q"
     "release_wq (?q\<lparr>wq_lock := (wq_lock ?q)\<lparr>lock := 1\<rparr>, head := n\<rparr>) = ?q\<lparr>head := n\<rparr>" for n
    using q(2) by (cases "?q"; simp add: release_wq_def release_acquired)+
  show ?thesis
  proof (cases "head ?q = tail ?q")
    case True
    with wq_list_empty [OF q(1)] q show ?thesis
      by (simp add: wq_take_def rd_wq [OF assms] acquire_wq_free r put_wq_same)
  next
    case False
    with wq_list_pop(1) [OF q(1) False] q show ?thesis
      by (simp add: wq_take_def rd_wq [OF assms] acquire_wq_free t r)
  qed
qed

lemma wq_take_list:
  assumes "wq_inv i w" "wq_list (wq_at i w) = a # as" "wq_take i w = Inr (r, w')"
  shows "r = Some a \<and> wq_inv i w' \<and> wq_list (wq_at i w') = as \<and> rest w' = rest w \<and>
    cpu_count w' = cpu_count w \<and> cpu_states w' = cpu_states w \<and> (\<forall>j. j \<noteq> unat i \<longrightarrow> cpu_wqs w' ! j = cpu_wqs w ! j)"
proof -
  let ?q = "wq_at i w"
  from assms(1) have q: "wq_ok ?q" "free_lock (wq_lock ?q)" "unat i < length (cpu_wqs w)" by (auto simp: wq_inv_def)
  then have ne: "head ?q \<noteq> tail ?q" using assms(2) wq_list_empty [OF q(1)] by auto
  from assms(2,3) have e: "r = Some a" "w' = put_wq i (?q\<lparr>head := wq_next (head ?q)\<rparr>) w"
    unfolding wq_take_eq [OF assms(1)] by auto
  have "wq_inv i w'" using put_wq_inv [OF assms(1) wq_list_pop(2) [OF q(1) ne]] q by (simp add: e)
  moreover have "wq_list (wq_at i w') = as"
    using wq_list_pop(1) [OF q(1) ne] assms(2) by (simp add: e wq_at_put [OF q(3)])
  ultimately show ?thesis using e by (simp add: put_wq_def)
qed

definition submit_bool :: "u32 \<Rightarrow> work_item \<Rightarrow> 's wq_world \<Rightarrow> (bool \<times> 's wq_world) res" where
  "submit_bool i it w = bindR (wq_submit i (fn it) (arg it) w) (\<lambda>(r, w). Inr (r = 0, w))"

interpretation wq: bounded_queue "\<lambda>w. wq_list (wq_at i w)" "wq_inv i" "\<lambda>it. fn it \<noteq> 0" 255 "submit_bool i" "wq_take i" for i
proof
  fix w :: "'a wq_world" and it :: work_item
  assume w: "wq_inv i w" and f: "fn it \<noteq> 0"
  let ?q = "wq_at i w"
  from w have q: "wq_ok ?q" "free_lock (wq_lock ?q)" "unat i < length (cpu_wqs w)" by (auto simp: wq_inv_def)
  show "\<exists>w'. submit_bool i it w = Inr (length (wq_list ?q) < 255, w') \<and> wq_inv i w' \<and>
      wq_list (wq_at i w') = (if length (wq_list ?q) < 255 then wq_list ?q @ [it] else wq_list ?q)"
  proof (cases "length (wq_list ?q) = 255")
    case True
    then show ?thesis using w f by (simp add: submit_bool_def wq_submit_eq)
  next
    case False
    let ?q1 = "?q\<lparr>items := (items ?q)[unat (tail ?q) := (items ?q ! unat (tail ?q))\<lparr>fn := fn it, arg := arg it\<rparr>]\<rparr>"
    have q1: "wq_ok ?q1" "wq_next (tail ?q1) \<noteq> head ?q1" "wq_list ?q1 = wq_list ?q"
      using wq_list_store [OF q(1)] wq_list_full [OF q(1)] False by auto
    have "items ?q1 ! unat (tail ?q1) = it"
      using q(1) by (cases it) (simp add: wq_ok_def)
    then show ?thesis
      using w f False wq_list_bound [OF q(1)] wq_list_publish [OF q1(1,2)] q1(3) q
      by (auto simp: submit_bool_def wq_submit_eq Let_def wq_at_put intro!: put_wq_inv)
  qed
next
  fix w :: "'a wq_world"
  assume w: "wq_inv i w"
  show "\<exists>w'. wq_take i w = Inr (case wq_list (wq_at i w) of [] \<Rightarrow> None | a # _ \<Rightarrow> Some a, w') \<and>
      wq_inv i w' \<and> wq_list (wq_at i w') = tl (wq_list (wq_at i w))"
  proof (cases "wq_list (wq_at i w)")
    case Nil
    then show ?thesis using w by (simp add: wq_take_eq)
  next
    case (Cons a as)
    then obtain w' where w': "wq_take i w = Inr (Some a, w')" using wq_take_eq [OF w] by auto
    then show ?thesis using wq_take_list [OF w Cons w'] Cons by simp
  qed
qed

subsection \<open>Running a queue\<close>

text \<open>Queued functions that touch only the rest of the kernel.\<close>

definition outside :: "(u64 \<Rightarrow> u64 \<Rightarrow> 's \<Rightarrow> 's) \<Rightarrow> u64 \<Rightarrow> u64 \<Rightarrow> 's wq_world \<Rightarrow> 's wq_world res" where
  "outside g f a w = Inr (w\<lparr>rest := g f a (rest w)\<rparr>)"

lemma rest_irrelevant [simp]: "wq_inv i (w\<lparr>rest := r\<rparr>) = wq_inv i w" "wq_at i (w\<lparr>rest := r\<rparr>) = wq_at i w"
  by (simp_all add: wq_inv_def wq_at_def)

lemma wq_loop_drains:
  "wq_inv i w \<Longrightarrow> wq_list (wq_at i w) = its \<Longrightarrow>
   \<exists>w'. wq_loop (outside g) i w = Some (Inr w') \<and> wq_inv i w' \<and> wq_list (wq_at i w') = [] \<and>
     rest w' = fold (\<lambda>it. g (fn it) (arg it)) its (rest w) \<and> (\<forall>j. j \<noteq> unat i \<longrightarrow> cpu_wqs w' ! j = cpu_wqs w ! j)"
proof (induction its arbitrary: w)
  case Nil
  then show ?case by (simp add: wq_loop.simps [of "outside g" i w] wq_take_eq)
next
  case (Cons it its)
  then obtain w1 where t: "wq_take i w = Inr (Some it, w1)" using wq_take_eq [OF Cons.prems(1)] by auto
  note w1 = wq_take_list [OF Cons.prems t]
  let ?w2 = "w1\<lparr>rest := g (fn it) (arg it) (rest w1)\<rparr>"
  obtain w' where w': "wq_loop (outside g) i ?w2 = Some (Inr w')" "wq_inv i w'" "wq_list (wq_at i w') = []"
      "rest w' = fold (\<lambda>it. g (fn it) (arg it)) its (rest ?w2)" "\<forall>j. j \<noteq> unat i \<longrightarrow> cpu_wqs w' ! j = cpu_wqs ?w2 ! j"
    using Cons.IH [of ?w2] w1 by auto
  have "wq_loop (outside g) i w = wq_loop (outside g) i ?w2"
    by (subst wq_loop.simps) (simp add: t outside_def)
  with w' w1 show ?case by auto
qed

text \<open>The state of the search for the least loaded CPU before CPU \<open>i\<close>.\<close>

abbreviation online :: "'s wq_world \<Rightarrow> nat \<Rightarrow> bool" where
  "online w j \<equiv> cpu_states w ! j = CPU_STATE_ONLINE"

definition best_ok :: "'s wq_world \<Rightarrow> nat \<Rightarrow> u32 \<Rightarrow> u32 \<Rightarrow> bool" where
  "best_ok w i b m \<longleftrightarrow>
     b = - 1 \<and> m = 257 \<and> (\<forall>j < i. \<not> online w j) \<or>
     unat b < i \<and> online w (unat b) \<and> m = wq_used (cpu_wqs w ! unat b) \<and>
     (\<forall>j < i. online w j \<longrightarrow> m \<le> wq_used (cpu_wqs w ! j))"

lemma wq_used_less: "wq_used q < 257"
proof -
  have "unat (wq_used q) < 256" by (simp add: wq_used_def WQ_MAX_ITEMS_def unat_mod_distrib)
  then show ?thesis by (simp add: word_less_nat_alt)
qed

lemma best_ok_skip: "best_ok w i b m \<Longrightarrow> \<not> online w i \<or> m \<noteq> 257 \<and> m \<le> wq_used (cpu_wqs w ! i) \<Longrightarrow> best_ok w (Suc i) b m"
  unfolding best_ok_def less_Suc_eq by blast

lemma best_ok_better:
  assumes "best_ok w i b m" "online w i" "wq_used (cpu_wqs w ! i) < m" "i < 2 ^ 31"
  shows "best_ok w (Suc i) (of_nat i) (wq_used (cpu_wqs w ! i))"
proof -
  have "unat (of_nat i :: u32) = i" using assms(4) by (simp add: unat_of_nat take_bit_nat_eq_self)
  moreover have "wq_used (cpu_wqs w ! i) \<le> wq_used (cpu_wqs w ! j)" if "j < i" "online w j" for j
    using assms(1,3) that unfolding best_ok_def by fastforce
  ultimately show ?thesis using assms(2) unfolding best_ok_def less_Suc_eq by auto
qed

lemma best_cpu_spec:
  assumes "unat (cpu_count w) \<le> length (cpu_states w)" "unat (cpu_count w) \<le> length (cpu_wqs w)" "unat (cpu_count w) \<le> 64"
    and "best_ok w i b m" "i \<le> unat (cpu_count w)"
  shows "\<exists>b' m'. best_cpu w i b m = Inr b' \<and> best_ok w (unat (cpu_count w)) b' m'"
  using assms
proof (induction w i b m rule: best_cpu.induct)
  case (1 w i b m)
  note step = best_cpu.simps [of w i b m]
  show ?case
  proof (cases "i < unat (cpu_count w)")
    case False
    with "1.prems" have "i = unat (cpu_count w)" by simp
    moreover have "best_cpu w i b m = Inr b" using False by (simp add: step)
    ultimately show ?thesis using "1.prems"(4) by metis
  next
    case True
    with "1.prems" have r: "rd (cpu_states w) (int i) = Inr (cpu_states w ! i)" "rd (cpu_wqs w) (int i) = Inr (cpu_wqs w ! i)"
      by (simp_all add: rd_nat)
    consider (off) "\<not> online w i" | (better) "online w i" "wq_used (cpu_wqs w ! i) < m"
      | (worse) "online w i" "\<not> wq_used (cpu_wqs w ! i) < m" by blast
    then show ?thesis
    proof cases
      case off
      then have "best_ok w (Suc i) b m" using best_ok_skip [OF "1.prems"(4)] by blast
      with off True r "1.IH"(1) [OF True r(1)] "1.prems" show ?thesis by (simp add: step)
    next
      case better
      with True r "1.IH"(2) [OF True r(1) _ r(2)] "1.prems" best_ok_better [OF "1.prems"(4) better] show ?thesis by (simp add: step)
    next
      case worse
      then have "m \<noteq> 257 \<and> m \<le> wq_used (cpu_wqs w ! i)" using wq_used_less [of "cpu_wqs w ! i"] by auto
      then have "best_ok w (Suc i) b m" using best_ok_skip [OF "1.prems"(4)] by blast
      with True r worse "1.IH"(3) [OF True r(1) _ r(2)] "1.prems" show ?thesis by (simp add: step)
    qed
  qed
qed

text \<open>A world with the given work in the queues of its first CPUs, all of them online.\<close>

definition demo_wq :: "work_item list \<Rightarrow> cpu_work_queue" where
  "demo_wq its = \<lparr>items = its @ replicate (256 - length its) \<lparr>fn = 0, arg = 0\<rparr>, head = 0, tail = of_nat (length its), wq_lock = \<lparr>lock = 0\<rparr>\<rparr>"

definition demo_wq_world :: "work_item list list \<Rightarrow> (u64 \<times> u64) list wq_world" where
  "demo_wq_world its = \<lparr>cpu_wqs = map demo_wq its @ replicate (64 - length its) (demo_wq []), cpu_count = of_nat (length its),
     cpu_states = replicate (length its) CPU_STATE_ONLINE @ replicate (64 - length its) CPU_STATE_OFFLINE, rest = []\<rparr>"

lemmas demo_wq_defs = demo_wq_world_def demo_wq_def wq_inv_def wq_at_def wq_ok_def wq_list_def ring_def nth_append upt_rec

text \<open>C18. A CPU that runs its queue returns when the queued functions leave the queues alone: every function
  queued has been called once, in the order of submission, the queue is empty and the queues of the other
  CPUs are as before.\<close>

theorem wq_run_drains:
  assumes "wq_inv i w" "unat i < MAX_CPUS"
  shows "\<exists>w'. wq_run (outside g) i w = Inr w' \<and> wq_pending i w' = Inr (0, w') \<and>
    rest w' = fold (\<lambda>it. g (fn it) (arg it)) (wq_list (wq_at i w)) (rest w) \<and>
    (\<forall>j. j \<noteq> unat i \<longrightarrow> cpu_wqs w' ! j = cpu_wqs w ! j)"
proof -
  from assms(2) have i: "\<not> of_nat MAX_CPUS \<le> i" by (simp add: MAX_CPUS_def word_le_nat_alt)
  obtain w' where w': "wq_loop (outside g) i w = Some (Inr w')" "wq_inv i w'" "wq_list (wq_at i w') = []"
      "rest w' = fold (\<lambda>it. g (fn it) (arg it)) (wq_list (wq_at i w)) (rest w)" "\<forall>j. j \<noteq> unat i \<longrightarrow> cpu_wqs w' ! j = cpu_wqs w ! j"
    using wq_loop_drains [OF assms(1) refl] by blast
  then have q: "wq_ok (wq_at i w')" "free_lock (wq_lock (wq_at i w'))" by (simp_all add: wq_inv_def)
  have "wq_used (wq_at i w') = 0"
    using used_list [OF q(1)] w'(3) by (simp add: unat_eq_0)
  moreover have "release_wq ((wq_at i w')\<lparr>wq_lock := (wq_lock (wq_at i w'))\<lparr>lock := 1\<rparr>\<rparr>) = wq_at i w'"
    using q(2) by (cases "wq_at i w'") (simp add: release_wq_def release_acquired)
  ultimately have "wq_pending i w' = Inr (0, w')"
    using i w'(2) q(2) by (simp add: wq_pending_def rd_wq acquire_wq_free wq_used_def put_wq_same)
  with i w' show ?thesis by (simp add: wq_run_def)
qed

theorem wq_run_drains_witness:
  "\<exists>w'. wq_run (outside (\<lambda>f a log. log @ [(f, a)])) 0 (demo_wq_world [[\<lparr>fn = 1, arg = 10\<rparr>, \<lparr>fn = 2, arg = 20\<rparr>]]) = Inr w' \<and>
     rest w' = [(1, 10), (2, 20)]"
proof -
  let ?w = "demo_wq_world [[\<lparr>fn = 1, arg = 10\<rparr>, \<lparr>fn = 2, arg = 20\<rparr>]] :: (u64 \<times> u64) list wq_world"
  have i: "wq_inv 0 ?w" "unat (0 :: u32) < MAX_CPUS"
    by (simp_all add: demo_wq_defs MAX_CPUS_def)
  have l: "wq_list (wq_at 0 ?w) = [\<lparr>fn = 1, arg = 10\<rparr>, \<lparr>fn = 2, arg = 20\<rparr>]"
    by (simp add: demo_wq_defs)
  have r: "rest ?w = []" by (simp add: demo_wq_world_def)
  from wq_run_drains [OF i, of "\<lambda>f a log. log @ [(f, a)]"] show ?thesis unfolding l r by auto
qed

text \<open>C19. Work for any CPU goes to the online CPU with the fewest pending items: it is appended to that queue
  unless the queue is full, and no other queue changes.  Without an online CPU the call is refused.\<close>

theorem wq_submit_any_least:
  assumes "f \<noteq> 0" "length (cpu_states w) = MAX_CPUS" "length (cpu_wqs w) = MAX_CPUS" "cpu_count w \<le> 64"
    and "\<forall>i < cpu_count w. wq_inv i w"
  shows "((\<forall>i < cpu_count w. \<not> online w (unat i)) \<longrightarrow> wq_submit_any f a w = Inr (- 1, w)) \<and>
    ((\<exists>i < cpu_count w. online w (unat i)) \<longrightarrow>
      (\<exists>i < cpu_count w. online w (unat i) \<and>
        (\<forall>j < cpu_count w. online w (unat j) \<longrightarrow> length (wq_list (wq_at i w)) \<le> length (wq_list (wq_at j w))) \<and>
        (if length (wq_list (wq_at i w)) = 255 then wq_submit_any f a w = Inr (- 1, w)
         else \<exists>w'. wq_submit_any f a w = Inr (0, w') \<and> wq_list (wq_at i w') = wq_list (wq_at i w) @ [\<lparr>fn = f, arg = a\<rparr>] \<and>
           (\<forall>j. j \<noteq> i \<longrightarrow> wq_at j w' = wq_at j w) \<and> rest w' = rest w)))"
proof -
  let ?n = "unat (cpu_count w)"
  have n: "?n \<le> 64" using assms(4) by (simp add: word_le_nat_alt)
  have in_n: "unat i < ?n \<longleftrightarrow> i < cpu_count w" for i by (simp add: word_less_nat_alt)
  have nat_n: "\<exists>i. unat i = j \<and> i < cpu_count w" if "j < ?n" for j
    using that n by (intro exI [of _ "of_nat j"]) (simp add: word_less_nat_alt unat_of_nat take_bit_nat_eq_self)
  obtain b m where b: "best_cpu w 0 (- 1) 257 = Inr b" "best_ok w ?n b m"
    using best_cpu_spec [of w 0 "- 1" 257] assms n by (auto simp: best_ok_def MAX_CPUS_def)
  have any: "wq_submit_any f a w = (if b = - 1 then Inr (- 1, w) else wq_submit b f a w)"
    by (simp add: wq_submit_any_def WQ_MAX_ITEMS_def b(1))
  show ?thesis
  proof (cases "b = - 1")
    case True
    then have "\<not> unat b < ?n" unfolding in_n by (simp add: not_less)
    then have no: "\<not> online w (unat i)" if "i < cpu_count w" for i
      using b(2) that by (simp add: best_ok_def in_n)
    have "wq_submit_any f a w = Inr (- 1, w)" using any True by simp
    moreover have "\<not> (\<exists>i < cpu_count w. online w (unat i))" using no by blast
    ultimately show ?thesis by (intro conjI) (simp, blast)
  next
    case False
    with b(2) have bn: "b < cpu_count w" "online w (unat b)" "\<forall>j < ?n. online w j \<longrightarrow> wq_used (wq_at b w) \<le> wq_used (cpu_wqs w ! j)"
      by (auto simp: best_ok_def in_n wq_at_def)
    have inv: "wq_inv b w" and ok: "wq_ok (wq_at b w)" "unat b < length (cpu_wqs w)" using assms(5) bn(1) by (auto simp: wq_inv_def)
    have least: "length (wq_list (wq_at b w)) \<le> length (wq_list (wq_at j w))" if "j < cpu_count w" "online w (unat j)" for j
    proof -
      have "wq_used (wq_at b w) \<le> wq_used (wq_at j w)" using bn(3) that by (simp add: in_n wq_at_def)
      moreover have "wq_ok (wq_at j w)" using assms(5) that(1) by (simp add: wq_inv_def)
      ultimately show ?thesis using used_list ok(1) by (simp add: word_le_nat_alt)
    qed
    let ?it = "\<lparr>fn = f, arg = a\<rparr>"
    obtain w' where w': "submit_bool b ?it w = Inr (length (wq_list (wq_at b w)) < 255, w')"
        "wq_list (wq_at b w') = (if length (wq_list (wq_at b w)) < 255 then wq_list (wq_at b w) @ [?it] else wq_list (wq_at b w))"
      using wq.submit_spec [OF inv, of ?it] assms(1) by auto
    have frame: "wq_submit b f a w = Inr (r, v) \<Longrightarrow> (\<forall>j. j \<noteq> b \<longrightarrow> wq_at j v = wq_at j w) \<and> rest v = rest w" for r v
      unfolding wq_submit_eq [OF inv assms(1)]
      by (auto simp: Let_def wq_at_other split: if_splits)
    show ?thesis
    proof (cases "length (wq_list (wq_at b w)) = 255")
      case True
      then have "wq_submit_any f a w = Inr (- 1, w)" using False any wq_submit_eq [OF inv assms(1)] by simp
      then show ?thesis using True bn(1,2) least by auto
    next
      case room: False
      then have r: "wq_submit_any f a w = Inr (0, w')" 
        using False any w'(1) wq_list_bound [OF ok(1)] wq_submit_eq [OF inv assms(1)] by (auto simp: submit_bool_def Let_def)
      then have "(\<forall>j. j \<noteq> b \<longrightarrow> wq_at j w' = wq_at j w) \<and> rest w' = rest w" using frame False any by simp
      then show ?thesis using room r bn(1,2) least w'(2) wq_list_bound [OF ok(1)] by (intro conjI impI exI [of _ b]) auto
    qed
  qed
qed

theorem wq_submit_any_least_witness:
  "\<exists>w'. wq_submit_any 7 70 (demo_wq_world [[\<lparr>fn = 1, arg = 10\<rparr>], []]) = Inr (0, w') \<and> wq_list (wq_at 1 w') = [\<lparr>fn = 7, arg = 70\<rparr>]"
proof -
  let ?w = "demo_wq_world [[\<lparr>fn = 1, arg = 10\<rparr>], []] :: (u64 \<times> u64) list wq_world"
  have two: "i < cpu_count ?w \<longleftrightarrow> i = 0 \<or> i = 1" for i
  proof -
    have "unat i < 2 \<longleftrightarrow> unat i = 0 \<or> unat i = 1" by auto
    then show ?thesis by (simp add: demo_wq_world_def word_less_nat_alt word_unat_eq_iff)
  qed
  have c: "cpu_count ?w \<le> 64" by (simp add: demo_wq_world_def)
  have inv: "wq_inv 0 ?w" "wq_inv 1 ?w" by (simp_all add: demo_wq_defs)
  have on: "online ?w (unat (0 :: u32))" "online ?w (unat (1 :: u32))" by (simp_all add: demo_wq_world_def)
  have l: "wq_list (wq_at 0 ?w) = [\<lparr>fn = 1, arg = 10\<rparr>]" "wq_list (wq_at 1 ?w) = []" by (simp_all add: demo_wq_defs)
  have "(7 :: u64) \<noteq> 0" "length (cpu_states ?w) = MAX_CPUS" "length (cpu_wqs ?w) = MAX_CPUS" "\<forall>i < cpu_count ?w. wq_inv i ?w"
    using two inv by (auto simp: demo_wq_world_def MAX_CPUS_def)
  note t = wq_submit_any_least [OF this(1-3) c this(4), of 70, THEN conjunct2, THEN mp]
  have "\<exists>i < cpu_count ?w. online ?w (unat i)" using two on(1) by blast
  from t [OF this] obtain i where i: "i < cpu_count ?w" "\<forall>j < cpu_count ?w. online ?w (unat j) \<longrightarrow> length (wq_list (wq_at i ?w)) \<le> length (wq_list (wq_at j ?w))"
    and r: "if length (wq_list (wq_at i ?w)) = 255 then wq_submit_any 7 70 ?w = Inr (- 1, ?w)
      else \<exists>w'. wq_submit_any 7 70 ?w = Inr (0, w') \<and> wq_list (wq_at i w') = wq_list (wq_at i ?w) @ [\<lparr>fn = 7, arg = 70\<rparr>] \<and>
           (\<forall>j. j \<noteq> i \<longrightarrow> wq_at j w' = wq_at j ?w) \<and> rest w' = rest ?w"
    by blast
  have "i = 1" using i two on l by force
  with r l show ?thesis by auto
qed

end
