(* ===== verification/Work_Queue_Smp.thy ===== *)
theory Work_Queue_Smp
  imports Work_Queue
begin

text \<open>
  A work queue shared by several CPUs.  \<open>wq_step\<close> cuts \<open>wq_submit\<close>, \<open>wq_run\<close> and \<open>wq_pending\<close> into steps:
  every attempt to take the lock, every store and every release is a step of its own, while reads of the queue
  under the lock belong to the step that uses them, since only the holder of the lock writes what they read.
  \<open>wq_move\<close> interleaves the steps of any number of callers.  Stores reach memory in program order, as the x86 memory model guarantees for the stores of one CPU.
\<close>

subsection \<open>Steps\<close>

datatype wq_pc =
    Idle
  | SubmitSpin work_item | SubmitCheck work_item | SubmitFull
  | SubmitFn work_item u32 | SubmitArg work_item u32 | SubmitTail work_item u32 | SubmitRelease
  | RunSpin | RunCheck | RunEmpty | RunTake | RunHead work_item | RunRelease work_item | RunCall work_item
  | PendingSpin | PendingRead | PendingRelease u32

definition spin :: "wq_pc \<Rightarrow> wq_pc \<Rightarrow> cpu_work_queue \<Rightarrow> (wq_pc \<times> cpu_work_queue) res" where
  "spin again got q =
     (let (expected, cell) = cmpxchg 0 (lock (wq_lock q)) 1 in
      Inr (if expected = 0 then got else again, q\<lparr>wq_lock := (wq_lock q)\<lparr>lock := cell\<rparr>\<rparr>))"

fun wq_step :: "wq_pc \<Rightarrow> cpu_work_queue \<Rightarrow> (wq_pc \<times> cpu_work_queue) res" where
  "wq_step Idle q = Inr (Idle, q)"
| "wq_step (SubmitSpin it) q = spin (SubmitSpin it) (SubmitCheck it) q"
| "wq_step (SubmitCheck it) q = Inr (if wq_next (tail q) = head q then SubmitFull else SubmitFn it (wq_next (tail q)), q)"
| "wq_step SubmitFull q = Inr (Idle, release_wq q)"
| "wq_step (SubmitFn it n) q =
     bindR (rd (items q) (uint (tail q))) (\<lambda>c.
     bindR (wr (items q) (uint (tail q)) (c\<lparr>fn := fn it\<rparr>)) (\<lambda>its. Inr (SubmitArg it n, q\<lparr>items := its\<rparr>)))"
| "wq_step (SubmitArg it n) q =
     bindR (rd (items q) (uint (tail q))) (\<lambda>c.
     bindR (wr (items q) (uint (tail q)) (c\<lparr>arg := arg it\<rparr>)) (\<lambda>its. Inr (SubmitTail it n, q\<lparr>items := its\<rparr>)))"
| "wq_step (SubmitTail it n) q = Inr (SubmitRelease, q\<lparr>tail := n\<rparr>)"
| "wq_step SubmitRelease q = Inr (Idle, release_wq q)"
| "wq_step RunSpin q = spin RunSpin RunCheck q"
| "wq_step RunCheck q = Inr (if head q = tail q then RunEmpty else RunTake, q)"
| "wq_step RunEmpty q = Inr (Idle, release_wq q)"
| "wq_step RunTake q = bindR (rd (items q) (uint (head q))) (\<lambda>it. Inr (RunHead it, q))"
| "wq_step (RunHead it) q = Inr (RunRelease it, q\<lparr>head := wq_next (head q)\<rparr>)"
| "wq_step (RunRelease it) q = Inr (RunCall it, release_wq q)"
| "wq_step (RunCall it) q = Inr (RunSpin, q)"
| "wq_step PendingSpin q = spin PendingSpin PendingRead q"
| "wq_step PendingRead q = Inr (PendingRelease (wq_used q), q)"
| "wq_step (PendingRelease n) q = Inr (Idle, release_wq q)"

text \<open>The calls an idle CPU can make.\<close>

fun entry :: "wq_pc \<Rightarrow> bool" where
  "entry (SubmitSpin it) \<longleftrightarrow> fn it \<noteq> 0"
| "entry RunSpin \<longleftrightarrow> True"
| "entry PendingSpin \<longleftrightarrow> True"
| "entry _ \<longleftrightarrow> False"

text \<open>The state of the machine, with the history of what was published and what was taken.\<close>

record wq_state =
  queue :: cpu_work_queue
  pcs :: "nat \<Rightarrow> wq_pc"
  submitted :: "work_item list"
  taken :: "work_item list"

fun note_submit :: "wq_pc \<Rightarrow> work_item list" where
  "note_submit (SubmitTail it n) = [it]"
| "note_submit _ = []"

fun note_take :: "wq_pc \<Rightarrow> work_item list" where
  "note_take (RunHead it) = [it]"
| "note_take _ = []"

inductive wq_move :: "wq_state \<Rightarrow> wq_state \<Rightarrow> bool" where
  call: "pcs s c = Idle \<Longrightarrow> entry pc \<Longrightarrow> wq_move s (s\<lparr>pcs := (pcs s)(c := pc)\<rparr>)"
| step: "wq_step (pcs s c) (queue s) = Inr (pc, q) \<Longrightarrow>
    wq_move s \<lparr>queue = q, pcs = (pcs s)(c := pc),
      submitted = submitted s @ note_submit (pcs s c), taken = taken s @ note_take (pcs s c)\<rparr>"

text \<open>After \<open>wq_init\<close>: nobody runs, the queue is empty and free.\<close>

definition wq_start :: "wq_state \<Rightarrow> bool" where
  "wq_start s \<longleftrightarrow> wq_ok (queue s) \<and> wq_list (queue s) = [] \<and> free_lock (wq_lock (queue s)) \<and>
     pcs s = (\<lambda>_. Idle) \<and> submitted s = [] \<and> taken s = []"

subsection \<open>The invariant\<close>

text \<open>The program points between acquiring and releasing the lock, and what holds there.\<close>

fun critical :: "wq_pc \<Rightarrow> bool" where
  "critical Idle \<longleftrightarrow> False"
| "critical (SubmitSpin _) \<longleftrightarrow> False"
| "critical RunSpin \<longleftrightarrow> False"
| "critical (RunCall _) \<longleftrightarrow> False"
| "critical PendingSpin \<longleftrightarrow> False"
| "critical _ \<longleftrightarrow> True"

fun pc_ok :: "cpu_work_queue \<Rightarrow> wq_pc \<Rightarrow> bool" where
  "pc_ok q (SubmitFn it n) \<longleftrightarrow> n = wq_next (tail q) \<and> n \<noteq> head q"
| "pc_ok q (SubmitArg it n) \<longleftrightarrow> n = wq_next (tail q) \<and> n \<noteq> head q \<and> fn (items q ! unat (tail q)) = fn it"
| "pc_ok q (SubmitTail it n) \<longleftrightarrow> n = wq_next (tail q) \<and> n \<noteq> head q \<and> items q ! unat (tail q) = it"
| "pc_ok q RunTake \<longleftrightarrow> head q \<noteq> tail q"
| "pc_ok q (RunHead it) \<longleftrightarrow> head q \<noteq> tail q \<and> it = items q ! unat (head q)"
| "pc_ok q _ \<longleftrightarrow> True"

definition wq_good :: "wq_state \<Rightarrow> bool" where
  "wq_good s \<longleftrightarrow> wq_ok (queue s) \<and> submitted s = taken s @ wq_list (queue s) \<and>
     (\<forall>c. critical (pcs s c) \<longrightarrow> pc_ok (queue s) (pcs s c)) \<and>
     (\<forall>c d. critical (pcs s c) \<and> critical (pcs s d) \<longrightarrow> c = d) \<and>
     (free_lock (wq_lock (queue s)) \<longleftrightarrow> (\<forall>c. \<not> critical (pcs s c)))"

lemma pc_ok_lock [simp]: "pc_ok (q\<lparr>wq_lock := l\<rparr>) pc = pc_ok q pc"
  by (cases pc) auto

text \<open>What one step of a CPU does to the queue, given what holds at its program point.\<close>

definition step_ok :: "wq_pc \<Rightarrow> cpu_work_queue \<Rightarrow> wq_pc \<Rightarrow> cpu_work_queue \<Rightarrow> bool" where
  "step_ok pc q pc' q' \<longleftrightarrow> wq_ok q' \<and> note_take pc @ wq_list q' = wq_list q @ note_submit pc \<and>
     (critical pc' \<longrightarrow> pc_ok q' pc') \<and>
     (if critical pc then free_lock (wq_lock q') \<longleftrightarrow> \<not> critical pc'
      else (\<exists>l. q' = q\<lparr>wq_lock := l\<rparr> \<and> (free_lock (wq_lock q) \<longrightarrow> (free_lock l \<longleftrightarrow> \<not> critical pc')) \<and>
        (\<not> free_lock (wq_lock q) \<longrightarrow> \<not> free_lock l \<and> \<not> critical pc')))"

lemma spin_ok:
  assumes "wq_ok q" "\<not> critical pc" "critical got" "pc_ok q got" "note_take pc = []" "note_submit pc = []"
  shows "\<exists>pc' q'. spin pc got q = Inr (pc', q') \<and> step_ok pc q pc' q'"
  using assms by (auto simp: spin_def cmpxchg_def step_ok_def intro: exI [of _ "wq_lock q"])

lemma rd_item: "wq_ok q \<Longrightarrow> unat i < 256 \<Longrightarrow> rd (items q) (uint i) = Inr (items q ! unat i)"
  by (metis rd_nat uint_nat wq_ok_def)

lemma wr_item: "wq_ok q \<Longrightarrow> unat i < 256 \<Longrightarrow> wr (items q) (uint i) v = Inr ((items q)[unat i := v])"
  by (metis wr_nat uint_nat wq_ok_def)

lemma release_wq_lock: "release_wq q = q\<lparr>wq_lock := spinlock_release (wq_lock q)\<rparr>"
  by (simp add: release_wq_def)

lemma wq_step_ok:
  assumes q: "wq_ok q" and pc: "critical pc \<Longrightarrow> pc_ok q pc" "critical pc \<Longrightarrow> \<not> free_lock (wq_lock q)"
  shows "\<exists>pc' q'. wq_step pc q = Inr (pc', q') \<and> step_ok pc q pc' q'"
proof (cases pc)
  case (SubmitFn it n)
  then show ?thesis using pc q wq_list_store [OF q]
    by (auto simp: rd_item wr_item step_ok_def wq_ok_def)
next
  case (SubmitArg it n)
  let ?x = "(items q ! unat (tail q))\<lparr>arg := arg it\<rparr>"
  have "?x = it" using SubmitArg pc by (cases it; cases "items q ! unat (tail q)") auto
  then show ?thesis using SubmitArg pc q wq_list_store [OF q]
    by (auto simp: rd_item wr_item step_ok_def wq_ok_def)
next
  case (SubmitTail it n)
  with pc have "n = wq_next (tail q)" "wq_next (tail q) \<noteq> head q" "items q ! unat (tail q) = it" by auto
  then show ?thesis using SubmitTail pc wq_list_publish [OF q] by (auto simp: step_ok_def)
next
  case (RunHead it)
  with pc have "head q \<noteq> tail q" "it = items q ! unat (head q)" by auto
  then show ?thesis using RunHead pc wq_list_pop [OF q] by (auto simp: step_ok_def)
next
  case RunTake
  then show ?thesis using pc q by (auto simp: rd_item step_ok_def wq_ok_def)
qed (use pc q spin_ok [OF q] in \<open>auto simp: step_ok_def release_wq_lock intro!: exI [of _ "wq_lock q"]\<close>)

lemma wq_good_step:
  assumes g: "wq_good s" and st: "wq_step (pcs s c) (queue s) = Inr (pc, q)"
  shows "wq_good \<lparr>queue = q, pcs = (pcs s)(c := pc),
    submitted = submitted s @ note_submit (pcs s c), taken = taken s @ note_take (pcs s c)\<rparr>" (is "wq_good ?s")
proof -
  let ?pc = "pcs s c" and ?q = "queue s"
  have uniq: "critical (pcs s d) \<Longrightarrow> critical (pcs s e) \<Longrightarrow> d = e" for d e
    using g unfolding wq_good_def by blast
  have free: "free_lock (wq_lock ?q) \<longleftrightarrow> (\<forall>d. \<not> critical (pcs s d))" using g by (simp add: wq_good_def)
  have ok: "wq_ok ?q" "critical ?pc \<Longrightarrow> pc_ok ?q ?pc" "critical ?pc \<Longrightarrow> \<not> free_lock (wq_lock ?q)"
    using g free by (auto simp: wq_good_def)
  have st_ok: "step_ok ?pc ?q pc q" using wq_step_ok [OF ok] st by auto
  have q: "wq_ok q" and pc: "critical pc \<Longrightarrow> pc_ok q pc"
    and hist: "note_take ?pc @ wq_list q = wq_list ?q @ note_submit ?pc" using st_ok by (auto simp: step_ok_def)
  have h: "submitted ?s = taken ?s @ wq_list q"
    using g hist by (simp add: wq_good_def)
  show ?thesis
  proof (cases "critical ?pc")
    case True
    then have others: "\<not> critical (pcs s d)" if "d \<noteq> c" for d using uniq that by blast
    have "free_lock (wq_lock q) \<longleftrightarrow> \<not> critical pc" using st_ok True by (simp add: step_ok_def)
    with q pc h others show ?thesis by (auto simp: wq_good_def)
  next
    case False
    then obtain l where l: "q = ?q\<lparr>wq_lock := l\<rparr>" "free_lock (wq_lock ?q) \<Longrightarrow> free_lock l \<longleftrightarrow> \<not> critical pc"
        "\<not> free_lock (wq_lock ?q) \<Longrightarrow> \<not> free_lock l \<and> \<not> critical pc"
      using st_ok by (auto simp: step_ok_def)
    have okd: "critical (pcs s d) \<Longrightarrow> pc_ok q (pcs s d)" for d using g l(1) by (simp add: wq_good_def)
    show ?thesis
    proof (cases "free_lock (wq_lock ?q)")
      case True
      with free l q pc h show ?thesis by (auto simp: wq_good_def)
    next
      case f: False
      then have "\<exists>d. d \<noteq> c \<and> critical (pcs s d)" using free False by metis
      with f free l(1,3) q pc h okd uniq show ?thesis by (auto simp: wq_good_def)
    qed
  qed
qed

lemma entry_not_critical: "entry pc \<Longrightarrow> \<not> critical pc"
  by (cases pc) auto

lemma wq_good_call:
  assumes "wq_good s" "pcs s c = Idle" "entry pc"
  shows "wq_good (s\<lparr>pcs := (pcs s)(c := pc)\<rparr>)"
proof -
  have e: "critical (((pcs s)(c := pc)) d) \<longleftrightarrow> critical (pcs s d)" for d
    using assms(2) entry_not_critical [OF assms(3)] by simp
  have "((pcs s)(c := pc)) d = pcs s d" if "critical (pcs s d)" for d
    using assms(2) that by auto
  with assms(1) show ?thesis unfolding wq_good_def by (simp add: e del: fun_upd_apply)
qed

lemma wq_good_move: "wq_move s t \<Longrightarrow> wq_good s \<Longrightarrow> wq_good t"
  by (induction rule: wq_move.induct) (auto intro: wq_good_call wq_good_step)

lemma wq_good_reach: "wq_move\<^sup>*\<^sup>* s t \<Longrightarrow> wq_start s \<Longrightarrow> wq_good t"
proof (induction rule: rtranclp_induct)
  case base
  then show ?case by (auto simp: wq_start_def wq_good_def)
next
  case (step t u)
  then show ?case using wq_good_move by blast
qed

text \<open>Every step of a good state succeeds: no CPU accesses the ring outside its 256 slots.\<close>

lemma wq_good_total: "wq_good s \<Longrightarrow> \<exists>pc q. wq_step (pcs s c) (queue s) = Inr (pc, q)"
  using wq_step_ok [of "queue s" "pcs s c"] unfolding wq_good_def by blast

subsection \<open>A CPU alone\<close>

text \<open>Steps of one CPU with no other running.\<close>

fun solo :: "nat \<Rightarrow> wq_pc \<Rightarrow> cpu_work_queue \<Rightarrow> (wq_pc \<times> cpu_work_queue) res" where
  "solo 0 pc q = Inr (pc, q)"
| "solo (Suc n) pc q = bindR (wq_step pc q) (\<lambda>(pc, q). solo n pc q)"

text \<open>C17. Alone, the steps of a call compose to the function: submitting takes six steps and taking five
  when the lock is free, with the queue and the item that \<open>wq_submit\<close> and the loop of \<open>wq_run\<close> give;
  when the lock is taken the steps spin and the functions do not return.\<close>

theorem solo_steps:
  assumes "unat i < length (cpu_wqs w)" "i < cpu_count w" "wq_ok (wq_at i w)" "f \<noteq> 0"
  shows "if free_lock (wq_lock (wq_at i w)) then
      (if length (wq_list (wq_at i w)) = 255 then solo 3 (SubmitSpin \<lparr>fn = f, arg = a\<rparr>) (wq_at i w) = Inr (Idle, wq_at i w) \<and> wq_submit i f a w = Inr (- 1, w)
       else \<exists>q. solo 6 (SubmitSpin \<lparr>fn = f, arg = a\<rparr>) (wq_at i w) = Inr (Idle, q) \<and> wq_submit i f a w = Inr (0, put_wq i q w)) \<and>
      (case wq_list (wq_at i w) of
         [] \<Rightarrow> solo 3 RunSpin (wq_at i w) = Inr (Idle, wq_at i w) \<and> wq_take i w = Inr (None, w)
       | it # _ \<Rightarrow> \<exists>q. solo 5 RunSpin (wq_at i w) = Inr (RunCall it, q) \<and> wq_take i w = Inr (Some it, put_wq i q w))
    else solo n (SubmitSpin \<lparr>fn = f, arg = a\<rparr>) (wq_at i w) = Inr (SubmitSpin \<lparr>fn = f, arg = a\<rparr>, wq_at i w) \<and> wq_submit i f a w = Inl Diverges \<and>
      solo n RunSpin (wq_at i w) = Inr (RunSpin, wq_at i w) \<and> wq_take i w = Inl Diverges"
proof -
  let ?q = "wq_at i w" and ?it = "\<lparr>fn = f, arg = a\<rparr>"
  have r: "rd (cpu_wqs w) (uint i) = Inr ?q" using assms(1) by (metis rd_nat uint_nat wq_at_def)
  have c: "\<not> cpu_count w \<le> i" using assms(2) by auto
  show ?thesis
  proof (cases "free_lock (wq_lock ?q)")
    case False
    have acq: "acquire_wq ?q = Inl Diverges" using False by (simp add: acquire_wq_def acquire_taken)
    have sp: "spin again got ?q = Inr (again, ?q)" for again got
      using False by (simp add: spin_def cmpxchg_def)
    have "solo n (SubmitSpin ?it) ?q = Inr (SubmitSpin ?it, ?q)" "solo n RunSpin ?q = Inr (RunSpin, ?q)"
      by (induction n) (simp_all add: sp)
    with False r c acq assms(4) show ?thesis by (simp add: wq_submit_def wq_take_def)
  next
    case True
    then have inv: "wq_inv i w" using assms by (simp add: wq_inv_def)
    obtain its h t l where q: "?q = \<lparr>items = its, head = h, tail = t, wq_lock = l\<rparr>" by (cases ?q) auto
    have ok: "length its = 256" "unat h < 256" "unat t < 256" "free_lock l" using assms(3) True by (simp_all add: q wq_ok_def)
    have acc: "rd its (uint t) = Inr (its ! unat t)" "rd its (uint h) = Inr (its ! unat h)"
       "wr its (uint t) v = Inr (its[unat t := v])" "rd (its[unat t := v]) (uint t) = Inr v"
       "wr (its[unat t := v]) (uint t) u = Inr (its[unat t := u])" for u v
      using ok(1-3) by (metis rd_nat uint_nat, metis rd_nat uint_nat, metis wr_nat uint_nat,
        metis rd_nat uint_nat length_list_update nth_list_update_eq, metis wr_nat uint_nat length_list_update list_update_overwrite)
    have rel: "spinlock_release (l\<lparr>lock := v\<rparr>) = l" for v using ok(4) by (rule release_acquired)
    have full: "wq_next t = h \<longleftrightarrow> length (wq_list ?q) = 255" and empty: "wq_list ?q = [] \<longleftrightarrow> h = t"
      using wq_list_full [OF assms(3)] wq_list_empty [OF assms(3)] by (simp_all add: q)
    have hd: "h \<noteq> t \<Longrightarrow> \<exists>r. wq_list ?q = its ! unat h # r" using wq_list_pop(1) [OF assms(3)] by (auto simp: q)
    have sub: "if length (wq_list ?q) = 255 then solo 3 (SubmitSpin ?it) ?q = Inr (Idle, ?q) \<and> wq_submit i f a w = Inr (- 1, w)
       else \<exists>q. solo 6 (SubmitSpin ?it) ?q = Inr (Idle, q) \<and> wq_submit i f a w = Inr (0, put_wq i q w)"
      unfolding wq_submit_eq [OF inv assms(4)]
      using ok(4) full by (auto simp: q numeral_eq_Suc spin_def cmpxchg_def release_wq_def rel acc)
    moreover have "case wq_list ?q of
         [] \<Rightarrow> solo 3 RunSpin ?q = Inr (Idle, ?q) \<and> wq_take i w = Inr (None, w)
       | it # _ \<Rightarrow> \<exists>q. solo 5 RunSpin ?q = Inr (RunCall it, q) \<and> wq_take i w = Inr (Some it, put_wq i q w)"
    proof (cases "h = t")
      case True
      with empty have "wq_list ?q = []" by simp
      with wq_take_eq [OF inv] True ok(4) show ?thesis
        by (simp add: q numeral_eq_Suc spin_def cmpxchg_def release_wq_def rel)
    next
      case False
      with hd obtain r where "wq_list ?q = its ! unat h # r" by blast
      with wq_take_eq [OF inv] False ok(4) show ?thesis
        by (simp add: q numeral_eq_Suc spin_def cmpxchg_def release_wq_def rel acc)
    qed
    ultimately show ?thesis using True by simp
  qed
qed

theorem solo_steps_witness:
  "solo 6 (SubmitSpin \<lparr>fn = 7, arg = 70\<rparr>) (demo_wq []) = Inr (Idle, (demo_wq [])\<lparr>items := (items (demo_wq []))[0 := \<lparr>fn = 7, arg = 70\<rparr>], tail := 1\<rparr>)"
proof -
  let ?w = "demo_wq_world [[]] :: (u64 \<times> u64) list wq_world"
  have at: "wq_at 0 ?w = demo_wq []" by (simp add: demo_wq_world_def wq_at_def)
  have h: "unat (0 :: u32) < length (cpu_wqs ?w)" "0 < cpu_count ?w" "wq_ok (wq_at 0 ?w)" "(7 :: u64) \<noteq> 0"
    unfolding at by (simp_all add: demo_wq_world_def demo_wq_def wq_ok_def)
  have l: "free_lock (wq_lock (demo_wq []))" "wq_list (demo_wq []) = []" by (simp_all add: demo_wq_def wq_list_def ring_def)
  have n: "wq_next 0 = 1" by (simp add: wq_next_def WQ_MAX_ITEMS_def)
  obtain q where q: "solo 6 (SubmitSpin \<lparr>fn = 7, arg = 70\<rparr>) (demo_wq []) = Inr (Idle, q)"
      "wq_submit 0 7 70 ?w = Inr (0, put_wq 0 q ?w)"
    using solo_steps [OF h, of 70 0] unfolding at by (auto simp: l)
  have inv: "wq_inv 0 ?w" using h l(1) at by (simp add: wq_inv_def)
  let ?d = "demo_wq []"
  have "wq_submit 0 7 70 ?w = Inr (0, put_wq 0 (?d\<lparr>items := (items ?d)[unat (tail ?d) := (items ?d ! unat (tail ?d))\<lparr>fn := 7, arg := 70\<rparr>], tail := wq_next (tail ?d)\<rparr>) ?w)"
    using wq_submit_eq [OF inv h(4), of 70] unfolding at l by (simp only: list.size Let_def if_False) simp
  moreover have "?d\<lparr>items := (items ?d)[unat (tail ?d) := (items ?d ! unat (tail ?d))\<lparr>fn := 7, arg := 70\<rparr>], tail := wq_next (tail ?d)\<rparr>
      = ?d\<lparr>items := (items ?d)[0 := \<lparr>fn = 7, arg = 70\<rparr>], tail := 1\<rparr>"
    by (simp add: demo_wq_def n)
  ultimately have "put_wq 0 q ?w = put_wq 0 (?d\<lparr>items := (items ?d)[0 := \<lparr>fn = 7, arg = 70\<rparr>], tail := 1\<rparr>) ?w"
    using q(2) by (metis Inr_inject prod.inject)
  then have "q = ?d\<lparr>items := (items ?d)[0 := \<lparr>fn = 7, arg = 70\<rparr>], tail := 1\<rparr>" by (metis wq_at_put h(1))
  with q(1) show ?thesis by simp
qed

subsection \<open>Interleaved use\<close>

text \<open>C16. However the steps of the CPUs interleave, at most one of them is between acquiring and releasing the
  lock, the items taken are the first items submitted and the rest is the content of the ring, which never
  exceeds 255, and no step leaves the ring.\<close>

theorem wq_interleaved:
  assumes "wq_start s" "wq_move\<^sup>*\<^sup>* s t"
  shows "(\<forall>c d. critical (pcs t c) \<and> critical (pcs t d) \<longrightarrow> c = d) \<and>
    submitted t = taken t @ wq_list (queue t) \<and> length (wq_list (queue t)) \<le> 255 \<and>
    (\<forall>c. \<exists>pc q. wq_step (pcs t c) (queue t) = Inr (pc, q))"
proof -
  have g: "wq_good t" using wq_good_reach [OF assms(2,1)] .
  then have "length (wq_list (queue t)) \<le> 255" by (simp add: wq_good_def wq_list_bound)
  with g wq_good_total [OF g] show ?thesis unfolding wq_good_def by blast
qed

theorem wq_interleaved_witness:
  "\<exists>s t. wq_start s \<and> wq_move\<^sup>*\<^sup>* s t \<and> pcs t 0 = SubmitCheck \<lparr>fn = 7, arg = 70\<rparr> \<and> pcs t 1 = RunSpin \<and>
     {d. critical (pcs t d)} = {0} \<and> submitted t = []"
proof -
  let ?s = "\<lparr>queue = demo_wq [], pcs = \<lambda>_. Idle, submitted = [], taken = []\<rparr>"
  let ?p1 = "(\<lambda>_. Idle)(1 := RunSpin)" and ?it = "\<lparr>fn = 7, arg = 70\<rparr>"
  let ?p2 = "?p1(0 := SubmitSpin ?it)"
  let ?q = "(demo_wq [])\<lparr>wq_lock := \<lparr>lock = 1\<rparr>\<rparr>"
  let ?t = "\<lparr>queue = ?q, pcs = ?p2(0 := SubmitCheck ?it), submitted = [], taken = []\<rparr>"
  have s: "wq_start ?s" by (simp add: wq_start_def demo_wq_def wq_ok_def wq_list_def ring_def)
  have m1: "wq_move ?s (?s\<lparr>pcs := ?p1\<rparr>)" using wq_move.call [of ?s 1 RunSpin] by simp
  have m2: "wq_move (?s\<lparr>pcs := ?p1\<rparr>) (?s\<lparr>pcs := ?p2\<rparr>)" using wq_move.call [of "?s\<lparr>pcs := ?p1\<rparr>" 0 "SubmitSpin ?it"] by simp
  have "wq_step (pcs (?s\<lparr>pcs := ?p2\<rparr>) 0) (queue (?s\<lparr>pcs := ?p2\<rparr>)) = Inr (SubmitCheck ?it, ?q)"
    by (simp add: spin_def cmpxchg_def demo_wq_def)
  from wq_move.step [OF this] have m3: "wq_move (?s\<lparr>pcs := ?p2\<rparr>) ?t" by simp
  have m: "wq_move\<^sup>*\<^sup>* ?s ?t" using m1 m2 m3 by (rule converse_rtranclp_into_rtranclp [OF _ converse_rtranclp_into_rtranclp [OF _ converse_rtranclp_into_rtranclp [OF _ rtranclp.rtrancl_refl]]])
  have "critical (pcs ?t 0)" by simp
  then have "{d. critical (pcs ?t d)} = {0}" using wq_interleaved [OF s m, THEN conjunct1] by blast
  moreover have "pcs ?t 0 = SubmitCheck ?it" "pcs ?t 1 = RunSpin" "submitted ?t = []" by simp_all
  ultimately show ?thesis using s m by (intro exI [of _ ?s] exI [of _ ?t] conjI)
qed

end
