(* ===== verification/Kstd.thy ===== *)
theory Kstd
  imports Prelude
begin

text \<open>
  The kernel's string and memory functions (\<open>core/kernel/kstd.c\<close>).  A buffer that is written is a
  list of bytes with the offset of the pointer into it; a string that is only read is the list of
  the bytes from the pointer to the end of its object.  Running past the end of an object
  is \<open>OutOfBounds\<close>, so a string without terminator faults instead of being read for ever.
  The source and destination of \<open>strcpy\<close>, \<open>strcat\<close> and \<open>memcpy\<close> are different
  objects, as C requires; \<open>memmove\<close> works inside one object.
\<close>

subsection \<open>Strings\<close>

function reverse_loop :: "u8 list \<Rightarrow> int \<Rightarrow> int \<Rightarrow> u8 list res" where
  "reverse_loop str start e =
     (if start < e then
        bindR (rd str start) (\<lambda>temp. bindR (rd str e) (\<lambda>c.
        bindR (wr str start c) (\<lambda>str. bindR (wr str e temp) (\<lambda>str. reverse_loop str (start + 1) (e - 1)))))
      else Inr str)"
  by pat_completeness auto
termination
  by (relation "measure (\<lambda>(str, start, e). nat (e - start))") auto

declare reverse_loop.simps [simp del]

definition reverse_str :: "u8 list \<Rightarrow> nat \<Rightarrow> u8 list res" where
  "reverse_str str len = reverse_loop str 0 (int len - 1)"

text \<open>The index of the terminator from offset \<open>i\<close> on.\<close>

function strlen_from :: "u8 list \<Rightarrow> nat \<Rightarrow> nat res" where
  "strlen_from str i = bindR (rd str (int i)) (\<lambda>c. if c \<noteq> 0 then strlen_from str (Suc i) else Inr i)"
  by pat_completeness auto
termination
  by (relation "measure (\<lambda>(str, i). length str - i)") (auto simp: rd_Inr_iff)

declare strlen_from.simps [simp del]

definition strlen :: "u8 list \<Rightarrow> nat res" where
  "strlen str = strlen_from str 0"

text \<open>Copying a string to offset \<open>d\<close>, with the bound on the index that the safe variants use.\<close>

function copy_str :: "u8 list \<Rightarrow> nat \<Rightarrow> u8 list \<Rightarrow> nat \<Rightarrow> (nat \<Rightarrow> bool) \<Rightarrow> u8 list res" where
  "copy_str dest d src i more =
     (if more i then
        bindR (rd src (int i)) (\<lambda>c.
        if c \<noteq> 0 then bindR (wr dest (int (d + i)) c) (\<lambda>dest. copy_str dest d src (Suc i) more)
        else wr dest (int (d + i)) 0)
      else wr dest (int (d + i)) 0)"
  by pat_completeness auto
termination
  by (relation "measure (\<lambda>(dest, d, src, i, more). length src - i)") (auto simp: rd_Inr_iff)

declare copy_str.simps [simp del]

definition strcpy :: "u8 list \<Rightarrow> u8 list \<Rightarrow> u8 list res" where
  "strcpy dest src = copy_str dest 0 src 0 (\<lambda>i. True)"

definition strcpy_safe :: "u8 list \<Rightarrow> u8 list \<Rightarrow> u64 \<Rightarrow> u8 list res" where
  "strcpy_safe dest src max_len = copy_str dest 0 src 0 (\<lambda>i. i < unat (max_len - 1))"

definition strcat :: "u8 list \<Rightarrow> u8 list \<Rightarrow> u8 list res" where
  "strcat dest src = bindR (strlen_from dest 0) (\<lambda>e. copy_str dest e src 0 (\<lambda>i. True))"

definition strcat_safe :: "u8 list \<Rightarrow> u8 list \<Rightarrow> u64 \<Rightarrow> u8 list res" where
  "strcat_safe dest src max_len =
     bindR (strlen dest) (\<lambda>dest_len. copy_str dest dest_len src 0 (\<lambda>i. dest_len + i < unat (max_len - 1)))"

text \<open>
  Comparison: the loop stops at the end of the first string, at a difference, or after \<open>n\<close>
  characters; the result is the difference of the characters it stopped at.
\<close>

definition char_diff :: "u8 \<Rightarrow> u8 \<Rightarrow> i32" where
  "char_diff a b = ucast a - ucast b"

function strncmp_from :: "u8 list \<Rightarrow> u8 list \<Rightarrow> nat \<Rightarrow> nat \<Rightarrow> i32 res" where
  "strncmp_from s1 s2 i n =
     (if n = 0 then Inr 0
      else bindR (rd s1 (int i)) (\<lambda>a. bindR (rd s2 (int i)) (\<lambda>b.
        if a \<noteq> 0 \<and> a = b then strncmp_from s1 s2 (Suc i) (n - 1) else Inr (char_diff a b))))"
  by pat_completeness auto
termination
  by (relation "measure (\<lambda>(s1, s2, i, n). n)") auto

declare strncmp_from.simps [simp del]

definition strncmp :: "u8 list \<Rightarrow> u8 list \<Rightarrow> u64 \<Rightarrow> i32 res" where
  "strncmp s1 s2 n = strncmp_from s1 s2 0 (unat n)"

function strcmp_from :: "u8 list \<Rightarrow> u8 list \<Rightarrow> nat \<Rightarrow> i32 res" where
  "strcmp_from s1 s2 i =
     bindR (rd s1 (int i)) (\<lambda>a. bindR (rd s2 (int i)) (\<lambda>b.
     if a \<noteq> 0 \<and> a = b then strcmp_from s1 s2 (Suc i) else Inr (char_diff a b)))"
  by pat_completeness auto
termination
  by (relation "measure (\<lambda>(s1, s2, i). length s1 - i)") (auto simp: rd_Inr_iff)

declare strcmp_from.simps [simp del]

definition strcmp :: "u8 list \<Rightarrow> u8 list \<Rightarrow> i32 res" where
  "strcmp str1 str2 = strcmp_from str1 str2 0"

text \<open>Searches return the offset of what they find.\<close>

function strchr_from :: "u8 list \<Rightarrow> u8 \<Rightarrow> nat \<Rightarrow> nat option res" where
  "strchr_from str c i =
     bindR (rd str (int i)) (\<lambda>a.
     if a \<noteq> 0 then (if a = c then Inr (Some i) else strchr_from str c (Suc i)) else Inr None)"
  by pat_completeness auto
termination
  by (relation "measure (\<lambda>(str, c, i). length str - i)") (auto simp: rd_Inr_iff)

declare strchr_from.simps [simp del]

definition strchr :: "u8 list \<Rightarrow> i32 \<Rightarrow> nat option res" where
  "strchr str c = strchr_from str (ucast c) 0"

text \<open>The inner loop of \<open>strstr\<close>: does \<open>needle\<close> match at offset \<open>h\<close>, from its character \<open>n\<close> on?\<close>

function match_at :: "u8 list \<Rightarrow> u8 list \<Rightarrow> nat \<Rightarrow> nat \<Rightarrow> bool res" where
  "match_at haystack needle h n =
     bindR (rd haystack (int h)) (\<lambda>a. bindR (rd needle (int n)) (\<lambda>b.
     if a \<noteq> 0 \<and> b \<noteq> 0 \<and> a = b then match_at haystack needle (Suc h) (Suc n) else Inr (b = 0)))"
  by pat_completeness auto
termination
  by (relation "measure (\<lambda>(haystack, needle, h, n). length haystack - h)") (auto simp: rd_Inr_iff)

declare match_at.simps [simp del]

function strstr_from :: "u8 list \<Rightarrow> u8 list \<Rightarrow> nat \<Rightarrow> nat option res" where
  "strstr_from haystack needle i =
     bindR (rd haystack (int i)) (\<lambda>a.
     if a \<noteq> 0 then
       bindR (match_at haystack needle i 0) (\<lambda>m. if m then Inr (Some i) else strstr_from haystack needle (Suc i))
     else Inr None)"
  by pat_completeness auto
termination
  by (relation "measure (\<lambda>(haystack, needle, i). length haystack - i)") (auto simp: rd_Inr_iff)

declare strstr_from.simps [simp del]

definition strstr :: "u8 list \<Rightarrow> u8 list \<Rightarrow> nat option res" where
  "strstr haystack needle =
     bindR (rd needle 0) (\<lambda>c. if c = 0 then Inr (Some 0) else strstr_from haystack needle 0)"

subsection \<open>Numbers\<close>

text \<open>The digit loop; the division traps for base 0 and for the one quotient that does not fit.\<close>

function itoa_loop :: "i32 \<Rightarrow> i32 \<Rightarrow> u8 list \<Rightarrow> nat \<Rightarrow> (u8 list \<times> nat) res" where
  "itoa_loop num base str i =
     (if num \<noteq> 0 then
        if base = 0 \<or> sint num = - (2 ^ 31) \<and> sint base = - 1 then Inl DivideError
        else
          (let r = sint num smod sint base in
           bindR (wr str (int i) (word_of_int (if r > 9 then (r - 10) + 97 else r + 48))) (\<lambda>str.
           itoa_loop (word_of_int (sint num sdiv sint base)) base str (Suc i)))
      else Inr (str, i))"
  by pat_completeness auto
termination
  by (relation "measure (\<lambda>(num, base, str, i). length str - i)") (auto simp: wr_Inr_iff)

declare itoa_loop.simps [simp del]

definition itoa :: "i32 \<Rightarrow> u8 list \<Rightarrow> i32 \<Rightarrow> u8 list res" where
  "itoa num str base =
     (if num = 0 then bindR (wr str 0 48) (\<lambda>str. wr str 1 0)
      else
        let is_negative = sint num < 0 \<and> base = 10;
            num = if is_negative then - num else num in
        bindR (itoa_loop num base str 0) (\<lambda>(str, i).
        bindR (if is_negative then wr str (int i) 45 else Inr str) (\<lambda>str.
        let i = if is_negative then Suc i else i in
        bindR (wr str (int i) 0) (\<lambda>str. reverse_str str i))))"

subsection \<open>Memory\<close>

function copy_at :: "u8 list \<Rightarrow> nat \<Rightarrow> u8 list \<Rightarrow> nat \<Rightarrow> nat \<Rightarrow> u8 list res" where
  "copy_at dest d src i n =
     (if i < n then
        bindR (rd src (int i)) (\<lambda>c. bindR (wr dest (int (d + i)) c) (\<lambda>dest. copy_at dest d src (Suc i) n))
      else Inr dest)"
  by pat_completeness auto
termination
  by (relation "measure (\<lambda>(dest, d, src, i, n). n - i)") auto

declare copy_at.simps [simp del]

definition memcpy :: "u8 list \<Rightarrow> nat \<Rightarrow> u8 list \<Rightarrow> nat \<Rightarrow> u8 list res" where
  "memcpy dest d src n = copy_at dest d src 0 n"

function set_at :: "u8 list \<Rightarrow> nat \<Rightarrow> u8 \<Rightarrow> nat \<Rightarrow> nat \<Rightarrow> u8 list res" where
  "set_at s p c i n = (if i < n then bindR (wr s (int (p + i)) c) (\<lambda>s. set_at s p c (Suc i) n) else Inr s)"
  by pat_completeness auto
termination
  by (relation "measure (\<lambda>(s, p, c, i, n). n - i)") auto

declare set_at.simps [simp del]

definition memset :: "u8 list \<Rightarrow> nat \<Rightarrow> i32 \<Rightarrow> nat \<Rightarrow> u8 list res" where
  "memset s p c n = set_at s p (ucast c) 0 n"

function memcmp_from :: "u8 list \<Rightarrow> u8 list \<Rightarrow> nat \<Rightarrow> nat \<Rightarrow> i32 res" where
  "memcmp_from p1 p2 i n =
     (if i < n then
        bindR (rd p1 (int i)) (\<lambda>a. bindR (rd p2 (int i)) (\<lambda>b.
        if a \<noteq> b then Inr (char_diff a b) else memcmp_from p1 p2 (Suc i) n))
      else Inr 0)"
  by pat_completeness auto
termination
  by (relation "measure (\<lambda>(p1, p2, i, n). n - i)") auto

declare memcmp_from.simps [simp del]

definition memcmp :: "u8 list \<Rightarrow> u8 list \<Rightarrow> nat \<Rightarrow> i32 res" where
  "memcmp s1 s2 n = memcmp_from s1 s2 0 n"

text \<open>
  \<open>memmove\<close> copies eight bytes at a time: the word at \<open>s\<close> is read before the word at
  \<open>d\<close> is written.  All its pointers are offsets into the memory \<open>m\<close>.
\<close>

definition move_word :: "u8 list \<Rightarrow> int \<Rightarrow> int \<Rightarrow> u8 list res" where
  "move_word m d s =
     (if 0 \<le> s \<and> s + 8 \<le> int (length m) \<and> 0 \<le> d \<and> d + 8 \<le> int (length m)
      then Inr (take (nat d) m @ take 8 (drop (nat s) m) @ drop (nat d + 8) m)
      else Inl OutOfBounds)"

definition move_byte :: "u8 list \<Rightarrow> int \<Rightarrow> int \<Rightarrow> u8 list res" where
  "move_byte m d s = bindR (rd m s) (\<lambda>c. wr m d c)"

function moves :: "(u8 list \<Rightarrow> int \<Rightarrow> int \<Rightarrow> u8 list res) \<Rightarrow> (nat \<Rightarrow> int) \<Rightarrow> u8 list \<Rightarrow> int \<Rightarrow> int \<Rightarrow> nat \<Rightarrow> nat \<Rightarrow> u8 list res" where
  "moves mv off m d s i n =
     (if i < n then bindR (mv m (d + off i) (s + off i)) (\<lambda>m. moves mv off m d s (Suc i) n) else Inr m)"
  by pat_completeness auto
termination
  by (relation "measure (\<lambda>(mv, off, m, d, s, i, n). n - i)") auto

declare moves.simps [simp del]

definition memmove :: "u8 list \<Rightarrow> nat \<Rightarrow> nat \<Rightarrow> nat \<Rightarrow> u8 list res" where
  "memmove m d s n =
     (if d = s \<or> n = 0 then Inr m
      else if d < s \<or> s + n \<le> d then
        bindR (if 8 \<le> n then moves move_word (\<lambda>i. 8 * int i) m (int d) (int s) 0 (n div 8) else Inr m) (\<lambda>m.
        let k = if 8 \<le> n then n div 8 * 8 else 0; n = if 8 \<le> n then n mod 8 else n in
        moves move_byte (\<lambda>i. int i) m (int (d + k)) (int (s + k)) 0 n)
      else
        let d = int (d + n); s = int (s + n) in
        bindR (if 8 \<le> n then moves move_word (\<lambda>i. - 8 * int i) m (d - 8) (s - 8) 0 (n div 8) else Inr m) (\<lambda>m.
        let n = if 8 \<le> n then n mod 8 else n in
        moves move_byte (\<lambda>i. - int i - 1) m d s 0 n))"

subsection \<open>Console\<close>

text \<open>
  \<open>kprint\<close> builds the colour sequence in a buffer of 16 bytes and hands three strings to the
  terminal; the model returns the strings.
\<close>

definition put :: "u8 list \<times> nat \<Rightarrow> u8 \<Rightarrow> (u8 list \<times> nat) res" where
  "put b c = bindR (wr (fst b) (int (snd b)) c) (\<lambda>buf. Inr (buf, Suc (snd b)))"

fun puts :: "u8 list \<times> nat \<Rightarrow> u8 list \<Rightarrow> (u8 list \<times> nat) res" where
  "puts b [] = Inr b"
| "puts b (c # cs) = bindR (put b c) (\<lambda>b. puts b cs)"

definition kprint :: "u8 list \<Rightarrow> i32 \<Rightarrow> u8 list list res" where
  "kprint str color =
     (let fg = color AND 0x0F;
          bg = signed_drop_bit 4 color AND 0x0F in
      bindR (puts (replicate 16 0, 0) [27, 91]) (\<lambda>b.
      bindR (puts b (if sint fg < 8 then [51, 48 + ucast fg] else [57, 48 + ucast (fg - 8)])) (\<lambda>b.
      bindR (puts b [59]) (\<lambda>b.
      bindR (puts b (if sint bg < 8 then [52, 48 + ucast bg] else [49, 48, 48 + ucast (bg - 8)])) (\<lambda>b.
      bindR (puts b [109]) (\<lambda>b.
      bindR (wr (fst b) (int (snd b)) 0) (\<lambda>esc_buf.
      Inr [esc_buf, str, [27, 91, 48, 109, 0]])))))))"

subsection \<open>Endianness conversion (\<open>kstd.h\<close>)\<close>

definition be16_to_cpu :: "u16 \<Rightarrow> u16" where
  "be16_to_cpu v = drop_bit 8 (v AND 0xFF00) OR push_bit 8 (v AND 0x00FF)"

definition be32_to_cpu :: "u32 \<Rightarrow> u32" where
  "be32_to_cpu v = drop_bit 24 (v AND 0xFF000000) OR drop_bit 8 (v AND 0x00FF0000) OR
     push_bit 8 (v AND 0x0000FF00) OR push_bit 24 (v AND 0x000000FF)"

definition be64_to_cpu :: "u64 \<Rightarrow> u64" where
  "be64_to_cpu v =
     drop_bit 56 (v AND 0xFF00000000000000) OR drop_bit 40 (v AND 0x00FF000000000000) OR
     drop_bit 24 (v AND 0x0000FF0000000000) OR drop_bit 8 (v AND 0x000000FF00000000) OR
     push_bit 8 (v AND 0x00000000FF000000) OR push_bit 24 (v AND 0x0000000000FF0000) OR
     push_bit 40 (v AND 0x000000000000FF00) OR push_bit 56 (v AND 0x00000000000000FF)"

subsection \<open>Strings as lists of characters\<close>

text \<open>The characters of a string, and that it has a terminator.\<close>

definition cstr :: "u8 list \<Rightarrow> u8 list" where
  "cstr bs = takeWhile (\<lambda>c. c \<noteq> 0) bs"

definition terminated :: "u8 list \<Rightarrow> bool" where
  "terminated bs \<longleftrightarrow> 0 \<in> set bs"

lemma cstr_Cons: "cstr (c # cs) = (if c = 0 then [] else c # cstr cs)"
  by (simp add: cstr_def)

lemma terminated_Cons: "terminated (c # cs) \<longleftrightarrow> c = 0 \<or> terminated cs"
  by (auto simp: terminated_def)

lemma not_terminated_Nil [simp]: "\<not> terminated []"
  by (simp add: terminated_def)

lemma cstr_append_zero: "0 \<notin> set cs \<Longrightarrow> cstr (cs @ 0 # rest) = cs" "terminated (cs @ 0 # rest)"
  by (induction cs) (auto simp: cstr_def terminated_def)

lemma cstr_no_zero: "0 \<notin> set (cstr bs)"
  by (metis (mono_tags, lifting) cstr_def set_takeWhileD)

lemma cstr_length: "terminated bs \<Longrightarrow> length (cstr bs) < length bs"
  by (induction bs) (auto simp: cstr_Cons terminated_Cons)

lemma cstr_nth: "i < length (cstr bs) \<Longrightarrow> cstr bs ! i = bs ! i"
  by (simp add: cstr_def takeWhile_nth)

lemma cstr_nonzero: "i < length (cstr bs) \<Longrightarrow> bs ! i \<noteq> 0"
  using nth_mem [of i "cstr bs"] cstr_no_zero [of bs] cstr_nth [of i bs] by auto

lemma cstr_end: "terminated bs \<Longrightarrow> bs ! length (cstr bs) = 0"
  by (induction bs) (auto simp: cstr_Cons terminated_Cons)

lemma cstr_take: "cstr bs = take (length (cstr bs)) bs"
  unfolding cstr_def by (metis takeWhile_eq_take)

lemma cstr_of_take: "terminated (take n bs) \<Longrightarrow> cstr (take n bs) = cstr bs"
proof (induction bs arbitrary: n)
  case (Cons c cs)
  then show ?case by (cases n) (auto simp: cstr_Cons terminated_Cons)
qed simp

text \<open>A read inside an object, seen on the suffix that starts there.\<close>

lemma rd_drop: "rd xs (int i) = (case drop i xs of [] \<Rightarrow> Inl OutOfBounds | x # _ \<Rightarrow> Inr x)"
proof (cases "i < length xs")
  case True
  then show ?thesis by (simp add: rd_nat Cons_nth_drop_Suc [symmetric])
qed (simp add: rd_def)

lemma drop_Suc_Cons: "drop i xs = y # ys \<Longrightarrow> drop (Suc i) xs = ys"
  by (metis drop_Suc list.sel(3) tl_drop)

lemma strlen_from_eq: "terminated (drop i str) \<Longrightarrow> strlen_from str i = Inr (i + length (cstr (drop i str)))"
proof (induction str i rule: strlen_from.induct)
  case (1 str i)
  then obtain c cs where c: "drop i str = c # cs" by (cases "drop i str") auto
  note n = drop_Suc_Cons [OF c]
  show ?case
  proof (cases "c = 0")
    case True
    then show ?thesis by (simp add: strlen_from.simps [of str i] rd_drop c cstr_Cons)
  next
    case False
    with "1.IH" [of c] "1.prems" c n show ?thesis
      by (simp add: strlen_from.simps [of str i] rd_drop terminated_Cons cstr_Cons)
  qed
qed

lemma strlen_eq: "terminated str \<Longrightarrow> strlen str = Inr (length (cstr str))"
  using strlen_from_eq [of 0 str] by (simp add: strlen_def)

lemma copy_str_eq:
  assumes "\<forall>j < k. more (i + j) \<and> i + j < length src \<and> src ! (i + j) \<noteq> 0"
    and "\<not> more (i + k) \<or> i + k < length src \<and> src ! (i + k) = 0" "d + i + k < length dest"
  shows "copy_str dest d src i more = Inr (take (d + i) dest @ take k (drop i src) @ 0 # drop (Suc (d + i + k)) dest)"
  using assms
proof (induction k arbitrary: dest i)
  case 0
  then have "copy_str dest d src i more = wr dest (int (d + i)) 0"
    by (auto simp: copy_str.simps [of dest d src i more] rd_nat)
  with "0.prems"(3) show ?case by (simp add: wr_nat upd_conv_take_nth_drop del: of_nat_add)
next
  case (Suc k)
  from Suc.prems(1) have i: "more i" "i < length src" "src ! i \<noteq> 0" by force+
  let ?dest = "dest[d + i := src ! i]"
  have "copy_str dest d src i more = copy_str ?dest d src (Suc i) more"
    using i Suc.prems(3) by (simp add: copy_str.simps [of dest d src i more] rd_nat wr_nat del: of_nat_add)
  also have "\<dots> = Inr (take (d + Suc i) ?dest @ take k (drop (Suc i) src) @ 0 # drop (Suc (d + Suc i + k)) ?dest)"
  proof (rule Suc.IH)
    show "\<forall>j < k. more (Suc i + j) \<and> Suc i + j < length src \<and> src ! (Suc i + j) \<noteq> 0"
      using Suc.prems(1) by (metis Suc_less_eq add_Suc_right add_Suc)
  qed (use Suc.prems in simp_all)
  also have "take (d + Suc i) ?dest = take (d + i) dest @ [src ! i]"
    using Suc.prems(3) by (simp add: take_Suc_conv_app_nth)
  also have "drop (Suc (d + Suc i + k)) ?dest = drop (Suc (d + i + Suc k)) dest"
    by simp
  finally show ?case using i(2) by (simp add: take_Suc_conv_app_nth Cons_nth_drop_Suc [symmetric])
qed

text \<open>What a bounded copy takes of a string: at most \<open>n\<close> characters.\<close>

lemma copy_bounded:
  assumes "terminated src" "d + min n (length (cstr src)) < length dest" "\<forall>i. more i \<longleftrightarrow> i < n"
  shows "copy_str dest d src 0 more = Inr (take d dest @ take n (cstr src) @ 0 # drop (Suc (d + min n (length (cstr src)))) dest)"
proof -
  let ?k = "min n (length (cstr src))"
  have "copy_str dest d src 0 more = Inr (take (d + 0) dest @ take ?k (drop 0 src) @ 0 # drop (Suc (d + 0 + ?k)) dest)"
  proof (rule copy_str_eq)
    show "\<forall>j < ?k. more (0 + j) \<and> 0 + j < length src \<and> src ! (0 + j) \<noteq> 0"
      using assms(3) cstr_length [OF assms(1)] cstr_nonzero by auto
    show "\<not> more (0 + ?k) \<or> 0 + ?k < length src \<and> src ! (0 + ?k) = 0"
      using assms(3) cstr_length [OF assms(1)] cstr_end [OF assms(1)] by (auto simp: min_def)
  qed (use assms(2) in simp)
  moreover have "take ?k src = take n (cstr src)" by (metis cstr_take take_take)
  ultimately show ?thesis by simp
qed

lemma copy_unbounded:
  assumes "terminated src" "d + length (cstr src) < length dest"
  shows "copy_str dest d src 0 (\<lambda>i. True) = Inr (take d dest @ cstr src @ 0 # drop (Suc (d + length (cstr src))) dest)"
proof -
  have "copy_str dest d src 0 (\<lambda>i. True) = Inr (take (d + 0) dest @ take (length (cstr src)) (drop 0 src) @ 0 # drop (Suc (d + 0 + length (cstr src))) dest)"
    by (rule copy_str_eq) (use assms cstr_length [OF assms(1)] cstr_nonzero cstr_end in auto)
  then show ?thesis using cstr_take [of src] by simp
qed

lemma unat_pred: "max_len \<noteq> 0 \<Longrightarrow> unat (max_len - 1 :: u64) = unat max_len - 1"
  by (metis unat_minus_one)

subsection \<open>Comparison and search\<close>

lemma sint_char_diff: "sint (char_diff a b) = uint a - uint b"
proof -
  have u: "uint a < 256" "uint b < 256" using uint_lt2p [of a] uint_lt2p [of b] by simp_all
  then have "- 2147483648 \<le> uint a - uint b" "uint a - uint b < 2147483648"
    using uint_ge_0 [of a] uint_ge_0 [of b] by linarith+
  note sint_of_int_small [OF this]
  moreover have "char_diff a b = word_of_int (uint a - uint b)" by (simp add: char_diff_def)
  ultimately show ?thesis by simp
qed

lemma char_diff_iff: "char_diff a b = 0 \<longleftrightarrow> a = b"
proof
  assume "char_diff a b = 0"
  then have "uint a = uint b" using sint_char_diff [of a b] by simp
  then show "a = b" by (rule word_uint_eqI)
qed (simp add: char_diff_def)

text \<open>Strings are ordered by their first difference, characters being unsigned and the end first.\<close>

fun str_less :: "u8 list \<Rightarrow> u8 list \<Rightarrow> bool" where
  "str_less as [] \<longleftrightarrow> False"
| "str_less [] (b # bs) \<longleftrightarrow> True"
| "str_less (a # as) (b # bs) \<longleftrightarrow> a < b \<or> a = b \<and> str_less as bs"

lemma strcmp_from_eq:
  assumes "terminated (drop i s1)" "terminated (drop i s2)"
  shows "\<exists>r. strcmp_from s1 s2 i = Inr r \<and> (r = 0 \<longleftrightarrow> cstr (drop i s1) = cstr (drop i s2)) \<and>
    (sint r < 0 \<longleftrightarrow> str_less (cstr (drop i s1)) (cstr (drop i s2)))"
  using assms
proof (induction s1 s2 i rule: strcmp_from.induct)
  case (1 s1 s2 i)
  obtain a as where a: "drop i s1 = a # as" using "1.prems"(1) by (cases "drop i s1") auto
  obtain b bs where b: "drop i s2 = b # bs" using "1.prems"(2) by (cases "drop i s2") auto
  note n = drop_Suc_Cons [OF a] drop_Suc_Cons [OF b]
  have r: "rd s1 (int i) = Inr a" "rd s2 (int i) = Inr b" by (simp_all add: rd_drop a b)
  show ?case
  proof (cases "a \<noteq> 0 \<and> a = b")
    case True
    with "1.IH" [OF r] "1.prems" a b n show ?thesis
      by (auto simp: strcmp_from.simps [of s1 s2 i] r terminated_Cons cstr_Cons)
  next
    case False
    moreover have "a < b \<longleftrightarrow> uint a < uint b" by (simp add: word_less_def)
    moreover have "a = 0 \<Longrightarrow> b \<noteq> 0 \<Longrightarrow> a < b" by (simp add: word_gt_0)
    moreover have "b = 0 \<Longrightarrow> \<not> a < b" by simp
    ultimately show ?thesis
      by (auto simp: strcmp_from.simps [of s1 s2 i] r a b cstr_Cons char_diff_iff sint_char_diff)
  qed
qed

lemma strncmp_from_eq:
  assumes "terminated (drop i s1)" "terminated (drop i s2)"
  shows "\<exists>r. strncmp_from s1 s2 i n = Inr r \<and> (r = 0 \<longleftrightarrow> take n (cstr (drop i s1)) = take n (cstr (drop i s2)))"
  using assms
proof (induction s1 s2 i n rule: strncmp_from.induct)
  case (1 s1 s2 i n)
  obtain a as where a: "drop i s1 = a # as" using "1.prems"(1) by (cases "drop i s1") auto
  obtain b bs where b: "drop i s2 = b # bs" using "1.prems"(2) by (cases "drop i s2") auto
  note nx = drop_Suc_Cons [OF a] drop_Suc_Cons [OF b]
  have r: "rd s1 (int i) = Inr a" "rd s2 (int i) = Inr b" by (simp_all add: rd_drop a b)
  show ?case
  proof (cases n)
    case 0
    then show ?thesis by (simp add: strncmp_from.simps [of s1 s2 i 0])
  next
    case (Suc m)
    show ?thesis
    proof (cases "a \<noteq> 0 \<and> a = b")
      case True
      with "1.IH" [OF _ r] "1.prems" a b nx Suc show ?thesis
        by (auto simp: strncmp_from.simps [of s1 s2 i "Suc m"] r terminated_Cons cstr_Cons)
    next
      case False
      then show ?thesis
        by (auto simp: Suc strncmp_from.simps [of s1 s2 i "Suc m"] r a b cstr_Cons char_diff_iff)
    qed
  qed
qed

lemma match_at_eq:
  assumes "terminated (drop h haystack)" "terminated (drop n needle)"
  shows "match_at haystack needle h n =
    Inr (take (length (cstr (drop n needle))) (cstr (drop h haystack)) = cstr (drop n needle))"
  using assms
proof (induction haystack needle h n rule: match_at.induct)
  case (1 haystack needle h n)
  obtain a as where a: "drop h haystack = a # as" using "1.prems"(1) by (cases "drop h haystack") auto
  obtain b bs where b: "drop n needle = b # bs" using "1.prems"(2) by (cases "drop n needle") auto
  note nx = drop_Suc_Cons [OF a] drop_Suc_Cons [OF b]
  have r: "rd haystack (int h) = Inr a" "rd needle (int n) = Inr b" by (simp_all add: rd_drop a b)
  show ?case
  proof (cases "a \<noteq> 0 \<and> b \<noteq> 0 \<and> a = b")
    case True
    with "1.IH" [OF r True] "1.prems" a b nx show ?thesis
      by (auto simp: match_at.simps [of haystack needle h n] r terminated_Cons cstr_Cons)
  next
    case False
    then show ?thesis by (auto simp: match_at.simps [of haystack needle h n] r a b cstr_Cons)
  qed
qed

definition occurs_at :: "u8 list \<Rightarrow> u8 list \<Rightarrow> nat \<Rightarrow> bool" where
  "occurs_at needle haystack i \<longleftrightarrow> take (length (cstr needle)) (drop i (cstr haystack)) = cstr needle"

lemma cstr_drop: "i \<le> length (cstr bs) \<Longrightarrow> cstr (drop i bs) = drop i (cstr bs)"
proof (induction bs arbitrary: i)
  case (Cons c cs)
  then show ?case by (cases i) (auto simp: cstr_Cons split: if_splits)
qed (simp add: cstr_def)

lemma terminated_drop: "terminated bs \<Longrightarrow> i \<le> length (cstr bs) \<Longrightarrow> terminated (drop i bs)"
proof (induction bs arbitrary: i)
  case (Cons c cs)
  then show ?case by (cases i) (auto simp: cstr_Cons terminated_Cons split: if_splits)
qed simp

lemma strstr_from_eq:
  assumes "terminated haystack" "terminated needle" "i \<le> length (cstr haystack)" "cstr needle \<noteq> []"
  shows "(\<exists>j \<ge> i. strstr_from haystack needle i = Inr (Some j) \<and> occurs_at needle haystack j \<and>
      (\<forall>k. i \<le> k \<and> k < j \<longrightarrow> \<not> occurs_at needle haystack k)) \<or>
    strstr_from haystack needle i = Inr None \<and> (\<forall>k \<ge> i. \<not> occurs_at needle haystack k)"
  using assms
proof (induction haystack needle i rule: strstr_from.induct)
  case (1 haystack needle i)
  note step = strstr_from.simps [of haystack needle i]
  have t: "terminated (drop i haystack)" using "1.prems" terminated_drop by blast
  have m: "match_at haystack needle i 0 = Inr (occurs_at needle haystack i)"
    using match_at_eq [of i haystack 0 needle] "1.prems" t by (simp add: occurs_at_def cstr_drop)
  obtain a as where a: "drop i haystack = a # as" using t by (cases "drop i haystack") auto
  then have r: "rd haystack (int i) = Inr a" by (simp add: rd_drop)
  show ?case
  proof (cases "a = 0")
    case True
    then have "drop i (cstr haystack) = []" using a "1.prems"(3) cstr_drop [of i haystack] by (simp add: cstr_Cons)
    then have "drop k (cstr haystack) = []" if "i \<le> k" for k using that by simp
    then have "\<not> occurs_at needle haystack k" if "i \<le> k" for k using that "1.prems"(4) by (auto simp: occurs_at_def)
    with True r show ?thesis by (simp add: step)
  next
    case False
    then have "Suc i \<le> length (cstr haystack)"
      using a "1.prems"(3) cstr_drop [of i haystack] by (auto simp: cstr_Cons Suc_le_eq intro: le_neq_implies_less)
    note IH = "1.IH" [OF r False m _ "1.prems"(1,2) this "1.prems"(4)]
    show ?thesis
    proof (cases "occurs_at needle haystack i")
      case True
      with r False m show ?thesis by (auto simp: step)
    next
      case no: False
      with r False m have e: "strstr_from haystack needle i = strstr_from haystack needle (Suc i)" by (simp add: step)
      have later: "Suc i \<le> k" if "i \<le> k" "occurs_at needle haystack k" for k
        using that no by (metis Suc_leI le_neq_implies_less)
      from IH [OF no] show ?thesis unfolding e using later by (meson Suc_leD)
    qed
  qed
qed

lemma strchr_from_eq:
  assumes "terminated (drop i str)"
  shows "strchr_from str c i = Inr (let cs = cstr (drop i str) in if c \<in> set cs then Some (i + length (takeWhile (\<lambda>x. x \<noteq> c) cs)) else None)"
  using assms
proof (induction str c i rule: strchr_from.induct)
  case (1 str c i)
  obtain a as where a: "drop i str = a # as" using "1.prems" by (cases "drop i str") auto
  note n = drop_Suc_Cons [OF a]
  have r: "rd str (int i) = Inr a" by (simp add: rd_drop a)
  show ?case
    using "1.IH" [OF r] "1.prems" a n
    by (auto simp: strchr_from.simps [of str c i] r terminated_Cons cstr_Cons Let_def)
qed

subsection \<open>Blocks of memory\<close>

lemma copy_at_eq:
  "i \<le> n \<Longrightarrow> n \<le> length src \<Longrightarrow> d + n \<le> length dest \<Longrightarrow>
   copy_at dest d src i n = Inr (take (d + i) dest @ take (n - i) (drop i src) @ drop (d + n) dest)"
proof (induction dest d src i n rule: copy_at.induct)
  case (1 dest d src i n)
  show ?case
  proof (cases "i < n")
    case False
    with "1.prems" show ?thesis by (simp add: copy_at.simps [of dest d src n n])
  next
    case True
    then have r: "rd src (int i) = Inr (src ! i)" "wr dest (int (d + i)) (src ! i) = Inr (dest[d + i := src ! i])"
      using "1.prems" by (simp_all add: rd_nat wr_nat del: of_nat_add)
    have "n - i = Suc (n - Suc i)" using True by simp
    with True r "1.prems" "1.IH" [OF True r] show ?thesis
      by (simp add: copy_at.simps [of dest d src i n] take_Suc_conv_app_nth Cons_nth_drop_Suc [symmetric] del: of_nat_add)
  qed
qed

lemma memcpy_eq:
  "n \<le> length src \<Longrightarrow> d + n \<le> length dest \<Longrightarrow> memcpy dest d src n = Inr (take d dest @ take n src @ drop (d + n) dest)"
  using copy_at_eq [of 0 n src d dest] by (simp add: memcpy_def)

lemma set_at_eq:
  "i \<le> n \<Longrightarrow> p + n \<le> length s \<Longrightarrow> set_at s p c i n = Inr (take (p + i) s @ replicate (n - i) c @ drop (p + n) s)"
proof (induction s p c i n rule: set_at.induct)
  case (1 s p c i n)
  show ?case
  proof (cases "i < n")
    case False
    with "1.prems" show ?thesis by (simp add: set_at.simps [of s p c n n])
  next
    case True
    then have w: "wr s (int (p + i)) c = Inr (s[p + i := c])"
      using "1.prems" by (simp add: wr_nat del: of_nat_add)
    have "n - i = Suc (n - Suc i)" using True by simp
    with True w "1.prems" "1.IH" [OF True w] show ?thesis
      by (simp add: set_at.simps [of s p c i n] take_Suc_conv_app_nth del: of_nat_add)
  qed
qed

lemma memset_eq:
  "p + n \<le> length s \<Longrightarrow> memset s p c n = Inr (take p s @ replicate n (ucast c) @ drop (p + n) s)"
  using set_at_eq [of 0 n p s "ucast c"] by (simp add: memset_def)

lemma memcmp_from_eq:
  "i \<le> n \<Longrightarrow> n \<le> length p1 \<Longrightarrow> n \<le> length p2 \<Longrightarrow>
   \<exists>r. memcmp_from p1 p2 i n = Inr r \<and> (r = 0 \<longleftrightarrow> (\<forall>k. i \<le> k \<and> k < n \<longrightarrow> p1 ! k = p2 ! k))"
proof (induction p1 p2 i n rule: memcmp_from.induct)
  case (1 p1 p2 i n)
  show ?case
  proof (cases "i < n")
    case False
    then show ?thesis by (auto simp: memcmp_from.simps [of p1 p2 i n])
  next
    case True
    then have r: "rd p1 (int i) = Inr (p1 ! i)" "rd p2 (int i) = Inr (p2 ! i)" using "1.prems" by (simp_all add: rd_nat)
    show ?thesis
    proof (cases "p1 ! i = p2 ! i")
      case False
      with True r show ?thesis by (auto simp: memcmp_from.simps [of p1 p2 i n] char_diff_iff)
    next
      case eq: True
      have "(\<forall>k. i \<le> k \<and> k < n \<longrightarrow> p1 ! k = p2 ! k) \<longleftrightarrow> (\<forall>k. Suc i \<le> k \<and> k < n \<longrightarrow> p1 ! k = p2 ! k)"
        using eq by (metis Suc_leD le_eq_less_or_eq Suc_leI)
      with True eq r "1.IH" [OF True r] "1.prems" show ?thesis by (simp add: memcmp_from.simps [of p1 p2 i n])
    qed
  qed
qed

lemma memcmp_eq:
  assumes "n \<le> length p1" "n \<le> length p2"
  shows "\<exists>r. memcmp p1 p2 n = Inr r \<and> (r = 0 \<longleftrightarrow> take n p1 = take n p2)"
proof -
  have "take n p1 = take n p2 \<longleftrightarrow> (\<forall>k < n. p1 ! k = p2 ! k)"
    using assms by (auto simp: list_eq_iff_nth_eq)
  with memcmp_from_eq [of 0 n p1 p2] assms show ?thesis by (simp add: memcmp_def)
qed

text \<open>What moving a block does: bytes \<open>d .. d + n\<close> take the old values of \<open>s .. s + n\<close>.\<close>

definition block :: "u8 list \<Rightarrow> nat \<Rightarrow> nat \<Rightarrow> nat \<Rightarrow> u8 list" where
  "block m d s n = take d m @ take n (drop s m) @ drop (d + n) m"

lemma block_nth:
  assumes "d + n \<le> length m" "s + n \<le> length m" "k < length m"
  shows "block m d s n ! k = (if d \<le> k \<and> k < d + n then m ! (s + (k - d)) else m ! k)"
proof -
  have "length (take d m) = d" "length (take n (drop s m)) = n" using assms by auto
  then show ?thesis using assms by (auto simp: block_def nth_append simp del: length_take length_drop)
qed

lemma block_length: "d + n \<le> length m \<Longrightarrow> s + n \<le> length m \<Longrightarrow> length (block m d s n) = length m"
  by (simp add: block_def)

lemma block_0 [simp]: "block m d s 0 = m"
  by (simp add: block_def)

lemma block_up:
  assumes "d + k + w \<le> length m" "s + k + w \<le> length m" "d < s \<or> s + k + w \<le> d"
  shows "block (block m d s k) (d + k) (s + k) w = block m d s (k + w)"
  using assms by (intro nth_equalityI) (auto simp: block_length block_nth)

lemma block_down:
  assumes "d + w + k \<le> length m" "s + w + k \<le> length m" "s < d"
  shows "block (block m (d + w) (s + w) k) d s w = block m d s (w + k)"
  using assms by (intro nth_equalityI) (auto simp: block_length block_nth)

lemma move_word_eq:
  "d + 8 \<le> length m \<Longrightarrow> s + 8 \<le> length m \<Longrightarrow> move_word m (int d) (int s) = Inr (block m d s 8)"
  by (simp add: move_word_def block_def)

lemma move_byte_eq:
  "d < length m \<Longrightarrow> s < length m \<Longrightarrow> move_byte m (int d) (int s) = Inr (block m d s 1)"
  by (simp add: move_byte_def rd_nat wr_nat block_def upd_conv_take_nth_drop take_Suc_conv_app_nth
    hd_drop_conv_nth take_Suc Cons_nth_drop_Suc [symmetric])

text \<open>A loop that moves chunks of \<open>w\<close> bytes upwards, and one that moves them downwards.\<close>

lemma moves_up:
  assumes mv: "\<And>m d s. d + w \<le> length m \<Longrightarrow> s + w \<le> length m \<Longrightarrow> mv m (int d) (int s) = Inr (block m d s w)"
    and off: "\<And>i. off i = int (w * i)"
    and b: "d + w * n \<le> length m" "s + w * n \<le> length m" "d < s \<or> s + w * n \<le> d" "i \<le> n"
  shows "moves mv off (block m d s (w * i)) (int d) (int s) i n = Inr (block m d s (w * n))"
  using b
proof (induction "n - i" arbitrary: i)
  case 0
  then have "n = i" by simp
  then show ?case by (simp add: moves.simps)
next
  case (Suc x)
  then have i: "i < n" by simp
  then have wi: "w * i + w \<le> w * n" by (metis Suc_leI mult_Suc_right mult_le_mono2 add.commute)
  let ?m = "block m d s (w * i)"
  have l: "length ?m = length m" using Suc.prems wi by (intro block_length) auto
  have "mv ?m (int d + off i) (int s + off i) = mv ?m (int (d + w * i)) (int (s + w * i))" by (simp add: off)
  also have "\<dots> = Inr (block ?m (d + w * i) (s + w * i) w)" using Suc.prems wi l by (intro mv) auto
  also have "block ?m (d + w * i) (s + w * i) w = block m d s (w * i + w)"
    using Suc.prems wi by (intro block_up) auto
  finally have "mv ?m (int d + off i) (int s + off i) = Inr (block m d s (w * Suc i))" by (simp add: add.commute)
  moreover have "moves mv off (block m d s (w * Suc i)) (int d) (int s) (Suc i) n = Inr (block m d s (w * n))"
    using Suc by (intro Suc.hyps(1)) auto
  ultimately show ?case using i by (simp add: moves.simps [of mv off ?m] del: mult_Suc_right)
qed

lemma moves_down:
  assumes mv: "\<And>m d s. d + w \<le> length m \<Longrightarrow> s + w \<le> length m \<Longrightarrow> mv m (int d) (int s) = Inr (block m d s w)"
    and off: "\<And>i. off i = - int (w * i)"
    and b: "d \<le> length m" "w * n \<le> s" "s < d" "i \<le> n"
  shows "moves mv off (block m (d - w * i) (s - w * i) (w * i)) (int d - int w) (int s - int w) i n
    = Inr (block m (d - w * n) (s - w * n) (w * n))"
  using b
proof (induction "n - i" arbitrary: i)
  case 0
  then have "n = i" by simp
  then show ?case by (simp add: moves.simps)
next
  case (Suc x)
  then have i: "i < n" by simp
  then have wi: "w * i + w \<le> w * n" by (metis Suc_leI mult_Suc_right mult_le_mono2 add.commute)
  let ?m = "block m (d - w * i) (s - w * i) (w * i)" and ?d = "d - w * Suc i" and ?s = "s - w * Suc i"
  have e: "d - w * i = ?d + w" "s - w * i = ?s + w" using Suc.prems wi by auto
  have l: "length ?m = length m" using Suc.prems wi by (intro block_length) auto
  have "mv ?m (int d - int w + off i) (int s - int w + off i) = mv ?m (int ?d) (int ?s)"
    using Suc.prems wi by (simp add: off of_nat_diff algebra_simps)
  also have "\<dots> = Inr (block ?m ?d ?s w)" using Suc.prems wi l by (intro mv) auto
  also have "block ?m ?d ?s w = block m ?d ?s (w + w * i)"
    unfolding e using Suc.prems wi by (intro block_down) auto
  finally have "mv ?m (int d - int w + off i) (int s - int w + off i) = Inr (block m ?d ?s (w * Suc i))" by simp
  moreover have "moves mv off (block m ?d ?s (w * Suc i)) (int d - int w) (int s - int w) (Suc i) n = Inr (block m (d - w * n) (s - w * n) (w * n))"
    using Suc by (intro Suc.hyps(1)) auto
  ultimately show ?case using i by (simp add: moves.simps [of mv off ?m] del: mult_Suc_right)
qed

lemma moves_shift:
  "(\<And>i. off i = off' i + c) \<Longrightarrow> moves mv off m d s i n = moves mv off' m (d + c) (s + c) i n"
proof (induction mv off m d s i n rule: moves.induct)
  case (1 mv off m d s i n)
  have e: "mv m (d + off i) (s + off i) = mv m (d + c + off' i) (s + c + off' i)"
    by (simp add: "1.prems" algebra_simps)
  show ?case
  proof (cases "i < n")
    case True
    show ?thesis
    proof (cases "mv m (d + off i) (s + off i)")
      case (Inl e')
      then show ?thesis using True e by (simp add: moves.simps [of mv off] moves.simps [of mv off'])
    next
      case (Inr m')
      then show ?thesis using True e "1.IH" [OF True Inr "1.prems"]
        by (simp add: moves.simps [of mv off m] moves.simps [of mv off' m])
    qed
  qed (simp add: moves.simps [of mv off m] moves.simps [of mv off' m])
qed

lemma block_same: "s + n \<le> length m \<Longrightarrow> block m s s n = m"
  by (intro nth_equalityI) (auto simp: block_length block_nth)

lemma memmove_up:
  assumes "d + n \<le> length m" "s + n \<le> length m" "d < s \<or> s + n \<le> d" "n \<noteq> 0"
  shows "memmove m d s n = Inr (block m d s n)"
proof -
  let ?k = "n div 8 * 8"
  have k: "?k + n mod 8 = n" "?k \<le> n" by simp_all
  have "(if 8 \<le> n then moves move_word (\<lambda>i. 8 * int i) m (int d) (int s) 0 (n div 8) else Inr m) = Inr (block m d s ?k)"
  proof (cases "8 \<le> n")
    case True
    have "moves move_word (\<lambda>i. 8 * int i) (block m d s (8 * 0)) (int d) (int s) 0 (n div 8) = Inr (block m d s (8 * (n div 8)))"
      using assms k(2) by (intro moves_up) (auto simp: move_word_eq)
    with True show ?thesis by (simp add: mult.commute)
  qed simp
  moreover have "(if 8 \<le> n then ?k else 0) = ?k" "(if 8 \<le> n then n mod 8 else n) = n mod 8" by simp_all
  moreover have "moves move_byte (\<lambda>i. int i) (block m d s ?k) (int (d + ?k)) (int (s + ?k)) 0 (n mod 8) = Inr (block m d s n)"
  proof -
    let ?m = "block m d s ?k"
    have l: "length ?m = length m" using assms k(2) by (intro block_length) auto
    have "moves move_byte (\<lambda>i. int i) (block ?m (d + ?k) (s + ?k) (1 * 0)) (int (d + ?k)) (int (s + ?k)) 0 (n mod 8) =
        Inr (block ?m (d + ?k) (s + ?k) (1 * (n mod 8)))"
      by (rule moves_up) (use assms k l in \<open>auto simp: move_byte_eq\<close>)
    moreover have "block ?m (d + ?k) (s + ?k) (n mod 8) = block m d s (?k + n mod 8)"
      using assms k by (intro block_up) auto
    ultimately show ?thesis by (simp add: k(1))
  qed
  moreover have "d \<noteq> s" using assms(3,4) by auto
  ultimately show ?thesis using assms(3,4) by (simp add: memmove_def Let_def)
qed

lemma memmove_down:
  assumes "d + n \<le> length m" "s + n \<le> length m" "s < d" "d < s + n" "n < 8 \<or> n mod 8 = 0"
  shows "memmove m d s n = Inr (block m d s n)"
proof (cases "n < 8")
  case True
  have "moves move_byte (\<lambda>i. - int i - 1) m (int (d + n)) (int (s + n)) 0 n
      = moves move_byte (\<lambda>i. - int (1 * i)) m (int (d + n) + - 1) (int (s + n) + - 1) 0 n"
    by (rule moves_shift) simp
  also have "\<dots> = moves move_byte (\<lambda>i. - int (1 * i)) (block m (d + n - 1 * 0) (s + n - 1 * 0) (1 * 0)) (int (d + n) - int 1) (int (s + n) - int 1) 0 n"
    by simp
  also have "\<dots> = Inr (block m (d + n - 1 * n) (s + n - 1 * n) (1 * n))"
    by (rule moves_down) (use assms in \<open>auto simp: move_byte_eq\<close>)
  finally show ?thesis using True assms by (simp add: memmove_def Let_def)
next
  case False
  then have k: "8 * (n div 8) = n" using assms(5) by auto
  have "moves move_word (\<lambda>i. - 8 * int i) m (int (d + n) - 8) (int (s + n) - 8) 0 (n div 8)
      = moves move_word (\<lambda>i. - 8 * int i) (block m (d + n - 8 * 0) (s + n - 8 * 0) (8 * 0)) (int (d + n) - int 8) (int (s + n) - int 8) 0 (n div 8)"
    by simp
  also have "\<dots> = Inr (block m (d + n - 8 * (n div 8)) (s + n - 8 * (n div 8)) (8 * (n div 8)))"
    by (rule moves_down) (use assms k in \<open>auto simp: move_word_eq\<close>)
  finally have "moves move_word (\<lambda>i. - 8 * int i) m (int (d + n) - 8) (int (s + n) - 8) 0 (n div 8) = Inr (block m d s n)"
    unfolding k by simp
  with False assms show ?thesis by (simp add: memmove_def Let_def moves.simps)
qed

text \<open>C20. \<open>memmove\<close> with its word-wise loops moves the block it is given, overlapping or not, upwards
  always and downwards when the length is less than eight or a multiple of eight.\<close>

theorem memmove_block:
  assumes "d + n \<le> length m" "s + n \<le> length m" "d \<le> s \<or> s + n \<le> d \<or> n < 8 \<or> n mod 8 = 0"
  shows "memmove m d s n = Inr (block m d s n)"
proof -
  consider "d = s \<or> n = 0" | "n \<noteq> 0" "d < s \<or> s + n \<le> d" | "s < d" "d < s + n" "n < 8 \<or> n mod 8 = 0"
    using assms(3) by linarith
  then show ?thesis
  proof cases
    case 1
    then show ?thesis using assms(1,2) by (auto simp: memmove_def block_same)
  next
    case 2
    then show ?thesis using assms memmove_up by blast
  next
    case 3
    then show ?thesis by (rule memmove_down [OF assms(1,2)])
  qed
qed

theorem memmove_block_witness: "memmove [0, 1, 2, 3, 4, 5, 6, 7, 8, 9] 2 0 8 = Inr [0, 1, 0, 1, 2, 3, 4, 5, 6, 7]"
  by (subst memmove_block) (simp_all add: block_def)

text \<open>
  Moving nine bytes down by one leaves the first byte where it was and stores the last one twice: after the
  words, the byte loop starts again at the end of the block.
\<close>

lemma memmove_tail: "memmove [0, 1, 2, 3, 4, 5, 6, 7, 8, 9] 1 0 9 = Inr [0, 1, 1, 2, 3, 4, 5, 6, 7, 7]"
  by (simp add: memmove_def Let_def moves.simps move_word_def move_byte_def rd_def wr_def)

subsection \<open>Decimal and other notations\<close>

lemma reverse_loop_eq:
  "reverse_loop (pre @ seg @ post) (int (length pre)) (int (length pre) + int (length seg) - 1) = Inr (pre @ rev seg @ post)"
proof (induction "length seg" arbitrary: pre seg post rule: less_induct)
  case less
  show ?case
  proof (cases "length seg < 2")
    case True
    then have "rev seg = seg" by (cases seg) auto
    with True show ?thesis by (simp add: reverse_loop.simps)
  next
    case False
    then obtain x r where "seg = x # r" "r \<noteq> []" by (cases seg) auto
    then have "seg = x # butlast r @ [last r]" by simp
    then obtain mid y where seg: "seg = x # mid @ [y]" by blast
    let ?a = "int (length pre)" and ?s = "pre @ seg @ post"
    have acc: "rd ?s ?a = Inr x" "rd ?s (?a + 1 + int (length mid)) = Inr y"
        "wr ?s ?a y = Inr (pre @ y # mid @ y # post)"
        "wr (pre @ y # mid @ y # post) (?a + 1 + int (length mid)) x = Inr (pre @ y # mid @ x # post)"
      by (simp_all add: seg rd_def wr_def nat_add_distrib nth_append list_update_append)
    let ?e = "?a + 1 + int (length mid)"
    have e: "?a + int (length seg) - 1 = ?e" by (simp add: seg)
    have "reverse_loop ?s ?a ?e = reverse_loop (pre @ y # mid @ x # post) (?a + 1) (?e - 1)"
      by (subst reverse_loop.simps) (simp only: acc bindR.simps, simp)
    also have "\<dots> = Inr (pre @ rev seg @ post)"
      using less [of mid "pre @ [y]" "x # post"] by (simp add: seg add.commute)
    finally have "reverse_loop ?s ?a ?e = Inr (pre @ rev seg @ post)" .
    then show ?thesis by (simp only: e)
  qed
qed

lemma reverse_str_eq: "n \<le> length str \<Longrightarrow> reverse_str str n = Inr (rev (take n str) @ drop n str)"
  using reverse_loop_eq [of "[]" "take n str" "drop n str"] by (simp add: reverse_str_def)

text \<open>The digits of a number in base \<open>b\<close>, least significant first, and the characters that stand for them.\<close>

fun digits :: "nat \<Rightarrow> nat \<Rightarrow> nat list" where
  "digits b n = (if n = 0 \<or> b < 2 then [] else n mod b # digits b (n div b))"

declare digits.simps [simp del]

definition digit_char :: "nat \<Rightarrow> u8" where
  "digit_char d = of_nat (if 9 < d then d - 10 + 97 else d + 48)"

definition char_digit :: "u8 \<Rightarrow> nat" where
  "char_digit c = (if 97 \<le> unat c then unat c - 87 else unat c - 48)"

text \<open>Reading a number back.\<close>

definition magnitude :: "nat \<Rightarrow> u8 list \<Rightarrow> nat" where
  "magnitude b cs = foldl (\<lambda>n c. n * b + char_digit c) 0 cs"

fun number :: "nat \<Rightarrow> u8 list \<Rightarrow> int" where
  "number b [] = 0"
| "number b (c # cs) = (if c = 45 then - int (magnitude b cs) else int (magnitude b (c # cs)))"

lemma char_of_digit: "d < 36 \<Longrightarrow> char_digit (digit_char d) = d" "d < 36 \<Longrightarrow> digit_char d \<noteq> 0" "d < 36 \<Longrightarrow> digit_char d \<noteq> 45"
proof -
  assume d: "d < 36"
  then have "unat (digit_char d) = (if 9 < d then d - 10 + 97 else d + 48)"
    by (simp add: digit_char_def unat_of_nat take_bit_nat_eq_self del: of_nat_add of_nat_diff)
  then show "char_digit (digit_char d) = d" "digit_char d \<noteq> 0" "digit_char d \<noteq> 45"
    using d by (auto simp: char_digit_def split: if_splits)
qed

lemma digits_less: "d \<in> set (digits b n) \<Longrightarrow> 2 \<le> b \<Longrightarrow> d < b"
proof (induction b n rule: digits.induct)
  case (1 b n)
  then show ?case by (auto simp: digits.simps [of b n] split: if_splits)
qed

lemma magnitude_digits: "2 \<le> b \<Longrightarrow> b \<le> 36 \<Longrightarrow> magnitude b (rev (map digit_char (digits b n))) = n"
proof (induction b n rule: digits.induct)
  case (1 b n)
  show ?case
  proof (cases "n = 0")
    case False
    have "n mod b < 36" using "1.prems" mod_less_divisor [of b n] by linarith
    with False "1" show ?thesis
      by (simp add: digits.simps [of b n] magnitude_def char_of_digit(1))
  qed (simp add: digits.simps [of b 0] magnitude_def)
qed

lemma digits_length: "2 \<le> b \<Longrightarrow> n < b ^ k \<Longrightarrow> length (digits b n) \<le> k"
proof (induction b n arbitrary: k rule: digits.induct)
  case (1 b n)
  show ?case
  proof (cases "n = 0")
    case False
    with "1.prems" obtain j where k: "k = Suc j" by (cases k) auto
    have "n div b < b ^ j" using "1.prems" k by (simp add: div_less_iff_less_mult mult.commute)
    with "1.IH" [of j] "1.prems" False k show ?thesis by (simp add: digits.simps [of b n])
  qed (simp add: digits.simps [of b 0])
qed

text \<open>The digit loop on a positive number.\<close>

lemma itoa_step:
  assumes "sint num = int n" "0 < n" "sint base = int b" "2 \<le> b" "b \<le> 36"
  shows "itoa_loop num base str i = bindR (wr str (int i) (digit_char (n mod b))) (\<lambda>str. itoa_loop (of_nat (n div b)) base str (Suc i))"
    and "sint (of_nat (n div b) :: i32) = int (n div b)"
proof -
  have "num \<noteq> 0" "base \<noteq> 0" using assms by auto
  moreover have "\<not> (sint num = - (2 ^ 31) \<and> sint base = - 1)" using assms by auto
  moreover have m: "int n smod int b = int (n mod b)" "int n sdiv int b = int (n div b)"
    by (simp_all add: signed_modulo_int_def signed_divide_int_def sgn_if zmod_int zdiv_int)
  moreover have "(word_of_int (if int (n mod b) > 9 then (int (n mod b) - 10) + 97 else int (n mod b) + 48) :: u8) = digit_char (n mod b)"
    by (auto simp: digit_char_def)
  moreover have "(word_of_int (int (n div b)) :: i32) = of_nat (n div b)" by (rule of_int_of_nat_eq)
  ultimately show "itoa_loop num base str i = bindR (wr str (int i) (digit_char (n mod b))) (\<lambda>str. itoa_loop (of_nat (n div b)) base str (Suc i))"
    unfolding itoa_loop.simps [of num base str i] using assms(1,3) by (simp add: Let_def)
  have "n < 2147483648" using sint_lt [of num] assms(1) by simp
  then have "n div b < 2147483648" by (meson div_le_dividend le_less_trans)
  then show "sint (of_nat (n div b) :: i32) = int (n div b)"
    using sint_of_int_small [of "int (n div b)"] by simp
qed

lemma itoa_loop_eq:
  assumes "sint num = int n" "sint base = int b" "2 \<le> b" "b \<le> 36" "i + length (digits b n) \<le> length str"
  shows "itoa_loop num base str i =
    Inr (take i str @ map digit_char (digits b n) @ drop (i + length (digits b n)) str, i + length (digits b n))"
  using assms
proof (induction b n arbitrary: num str i rule: digits.induct)
  case (1 b n)
  show ?case
  proof (cases "n = 0")
    case True
    with "1.prems"(1) have "sint num = sint (0 :: i32)" by simp
    then have "num = 0" by (rule signed_word_eqI)
    with True show ?thesis by (simp add: itoa_loop.simps [of 0] digits.simps [of b 0])
  next
    case False
    let ?str = "str[i := digit_char (n mod b)]"
    have d: "digits b n = n mod b # digits b (n div b)" using False "1.prems"(3) by (subst digits.simps) simp
    have st: "itoa_loop num base str i = itoa_loop (of_nat (n div b)) base ?str (Suc i)"
      using itoa_step(1) [OF "1.prems"(1) _ "1.prems"(2-4)] False "1.prems"(5) d by (simp add: wr_nat)
    have "itoa_loop (of_nat (n div b)) base ?str (Suc i) =
        Inr (take (Suc i) ?str @ map digit_char (digits b (n div b)) @ drop (Suc i + length (digits b (n div b))) ?str,
          Suc i + length (digits b (n div b)))"
      using False "1.prems" d itoa_step(2) [OF "1.prems"(1) _ "1.prems"(2-4)] by (intro "1.IH") auto
    then show ?thesis using st d "1.prems"(5) by (simp add: take_Suc_conv_app_nth)
  qed
qed

text \<open>The whole conversion: a zero, a positive number, a negative number in base ten.\<close>

lemma itoa_positive:
  assumes "sint num = int n" "0 < n" "sint base = int b" "2 \<le> b" "b \<le> 36" "length (digits b n) < length str"
  shows "itoa num str base = Inr (rev (map digit_char (digits b n)) @ 0 # drop (Suc (length (digits b n))) str)"
proof -
  let ?ds = "map digit_char (digits b n)"
  have nz: "num \<noteq> 0" and nn: "\<not> sint num < 0" using assms(1,2) by auto
  have "itoa_loop num base str 0 = Inr (?ds @ drop (length ?ds) str, length ?ds)"
    using itoa_loop_eq [OF assms(1,3-5), of 0 str] assms(6) by simp
  moreover have "wr (?ds @ drop (length ?ds) str) (int (length ?ds)) 0 = Inr (?ds @ 0 # drop (Suc (length ?ds)) str)"
    using assms(6) by (simp add: wr_nat list_update_append Cons_nth_drop_Suc [symmetric])
  moreover have "reverse_str (?ds @ 0 # drop (Suc (length ?ds)) str) (length ?ds) = Inr (rev ?ds @ 0 # drop (Suc (length ?ds)) str)"
    by (subst reverse_str_eq) simp_all
  ultimately show ?thesis using nz nn by (simp add: itoa_def)
qed

lemma itoa_negative:
  assumes "sint num = - int n" "0 < n" "n < 2 ^ 31" "Suc (length (digits 10 n)) < length str"
  shows "itoa num str 10 = Inr (45 # rev (map digit_char (digits 10 n)) @ 0 # drop (Suc (Suc (length (digits 10 n)))) str)"
proof -
  let ?ds = "map digit_char (digits 10 n)"
  have neg: "num \<noteq> 0" "sint num < 0" using assms(1,2) by auto
  have "num = word_of_int (sint num)" by simp
  then have "num = word_of_int (- int n)" unfolding assms(1) .
  then have "sint (- num) = int n" using sint_of_int_small [of "int n"] assms(3) by simp
  then have "itoa_loop (- num) 10 str 0 = Inr (?ds @ drop (length ?ds) str, length ?ds)"
    using itoa_loop_eq [of "- num" n 10 10 0 str] assms(4) by simp
  moreover have "wr (?ds @ drop (length ?ds) str) (int (length ?ds)) 45 = Inr (?ds @ 45 # drop (Suc (length ?ds)) str)"
    using assms(4) by (simp add: wr_nat list_update_append Cons_nth_drop_Suc [symmetric])
  moreover have "wr (?ds @ 45 # drop (Suc (length ?ds)) str) (int (Suc (length ?ds))) 0 = Inr (?ds @ 45 # 0 # drop (Suc (Suc (length ?ds))) str)"
    using assms(4) by (subst wr_nat) (simp_all add: list_update_append Cons_nth_drop_Suc [symmetric])
  moreover have "reverse_str (?ds @ 45 # 0 # drop (Suc (Suc (length ?ds))) str) (Suc (length ?ds))
      = Inr (45 # rev ?ds @ 0 # drop (Suc (Suc (length ?ds))) str)"
    by (subst reverse_str_eq) simp_all
  ultimately show ?thesis using neg by (simp add: itoa_def)
qed

lemma digit_string:
  assumes "2 \<le> b" "b \<le> 36"
  shows "0 \<notin> set (rev (map digit_char (digits b n)))" "45 \<notin> set (rev (map digit_char (digits b n)))"
  using digits_less [of _ b n] assms char_of_digit by (fastforce, fastforce)

text \<open>C21. Converting a number to text and reading it back gives the number, in every base from 2 to 36 for numbers that are
  not negative and in base ten for all numbers but the least, given a buffer of 33 bytes.\<close>

theorem itoa_round_trip:
  assumes "2 \<le> sint base" "sint base \<le> 36" "0 \<le> sint num \<or> base = 10 \<and> sint num \<noteq> - (2 ^ 31)" "33 \<le> length str"
  shows "\<exists>str'. itoa num str base = Inr str' \<and> terminated str' \<and> length str' = length str \<and>
    number (nat (sint base)) (cstr str') = sint num"
proof -
  let ?b = "nat (sint base)" and ?n = "nat \<bar>sint num\<bar>"
  have b: "sint base = int ?b" "2 \<le> ?b" "?b \<le> 36" using assms(1,2) by auto
  note ds = digit_string [OF b(2,3), of ?n]
  have "sint num < 2 ^ 31" "- (2 ^ 31) \<le> sint num" using sint_lt [of num] sint_ge [of num] by simp_all
  then have n: "?n < 2 ^ 32" "sint num \<noteq> - (2 ^ 31) \<Longrightarrow> ?n < 2 ^ 31" by auto
  have "(2::nat) ^ 32 \<le> ?b ^ 32" by (rule power_mono) (use b in simp_all)
  with n(1) have "?n < ?b ^ 32" by linarith
  with digits_length [OF b(2)] have l: "length (digits ?b ?n) \<le> 32" by blast
  consider (zero) "sint num = 0" | (pos) "0 < sint num" | (neg) "sint num < 0" "base = 10" "sint num \<noteq> - (2 ^ 31)"
    using assms(3) by linarith
  then show ?thesis
  proof cases
    case zero
    then have "num = 0" by (metis signed_0 signed_word_eqI)
    moreover obtain a c r where str: "str = a # c # r" using assms(4) by (cases str; cases "tl str") auto
    ultimately have "itoa num str base = Inr (48 # 0 # r)" by (simp add: itoa_def wr_def)
    then show ?thesis using zero
      by (simp add: str terminated_def cstr_def magnitude_def char_digit_def)
  next
    case pos
    let ?s = "rev (map digit_char (digits ?b ?n))"
    have "itoa num str base = Inr (?s @ 0 # drop (Suc (length (digits ?b ?n))) str)"
      using itoa_positive [of num ?n base ?b str] pos b l assms(4) by simp
    moreover have "number ?b ?s = int ?n"
      using ds(2) magnitude_digits [OF b(2,3), of ?n] by (cases ?s) (auto simp: magnitude_def)
    ultimately show ?thesis using pos ds(1) l assms(4) by (auto simp: cstr_append_zero)
  next
    case neg
    let ?s = "rev (map digit_char (digits 10 ?n))"
    have b10: "?b = 10" using neg(2) by simp
    have l10: "length (digits 10 ?n) \<le> 10" using digits_length [of 10 ?n 10] n(1) by simp
    let ?r = "(45 # ?s) @ 0 # drop (Suc (Suc (length (digits 10 ?n)))) str"
    have i: "itoa num str base = Inr ?r"
      using itoa_negative [of num ?n str] neg n(2) l10 assms(4) by simp
    have "0 \<notin> set (45 # ?s)" using ds(1) b10 by simp
    note c = cstr_append_zero(1) [OF this] cstr_append_zero(2) [of "45 # ?s"]
    have "number 10 (45 # ?s) = sint num" using neg magnitude_digits [of 10 ?n] by simp
    with i assms(4) l10 show ?thesis unfolding b10
      by (intro exI [of _ ?r] conjI) (simp_all only: c, simp)
  qed
qed

theorem itoa_round_trip_witness:
  "\<exists>str'. itoa (- 120) (replicate 40 7) 10 = Inr str' \<and> number 10 (cstr str') = - 120"
proof -
  have s: "sint (10 :: i32) = 10" "sint (- 120 :: i32) = - 120" by (simp_all add: sint_uint)
  have "2 \<le> sint (10 :: i32)" "sint (10 :: i32) \<le> 36" "0 \<le> sint (- 120 :: i32) \<or> (10 :: i32) = 10 \<and> sint (- 120 :: i32) \<noteq> - (2 ^ 31)"
    "33 \<le> length (replicate 40 (7 :: u8))" by (simp_all add: s)
  from itoa_round_trip [OF this] show ?thesis by (auto simp: s)
qed

lemma take_past: "length s = j \<Longrightarrow> j < n \<Longrightarrow> take n (s @ c # r) = s @ c # take (n - Suc j) r"
  by (simp add: take_Cons')

lemma drop_past: "length s = j \<Longrightarrow> j < n \<Longrightarrow> drop n (s @ c # drop (Suc j) m) = drop n m"
  by (simp add: drop_Cons')

text \<open>C22. The bounded copies keep to their bound: a copy into a buffer of at least \<open>max_len > 0\<close> bytes leaves
  a terminated string, the source or the concatenation cut to \<open>max_len - 1\<close> characters, and does not touch the
  bytes from \<open>max_len\<close> on.\<close>

theorem safe_copies:
  assumes "terminated src" "max_len \<noteq> 0" "unat max_len \<le> length dest" "terminated (take (unat max_len) dest)"
  shows "(\<exists>dest'. strcpy_safe dest src max_len = Inr dest' \<and> terminated (take (unat max_len) dest') \<and>
      cstr dest' = take (unat max_len - 1) (cstr src) \<and> drop (unat max_len) dest' = drop (unat max_len) dest) \<and>
    (\<exists>dest'. strcat_safe dest src max_len = Inr dest' \<and> terminated (take (unat max_len) dest') \<and>
      cstr dest' = take (unat max_len - 1) (cstr dest @ cstr src) \<and> drop (unat max_len) dest' = drop (unat max_len) dest)"
proof -
  let ?n = "unat max_len"
  have n: "0 < ?n" "unat (max_len - 1) = ?n - 1" using assms(2) by (simp_all add: unat_pred unat_gt_0)
  have td: "terminated dest" using assms(4) by (auto simp: terminated_def dest: in_set_takeD)
  have len: "length (cstr dest) < ?n" using cstr_length [OF assms(4)] cstr_of_take [OF assms(4)] by simp
  have copy: "\<exists>dest'. copy_str dest d src 0 more = Inr dest' \<and> terminated (take ?n dest') \<and>
      cstr dest' = take d dest @ take (?n - 1 - d) (cstr src) \<and> drop ?n dest' = drop ?n dest"
    if d: "d < ?n" "0 \<notin> set (take d dest)" and more: "\<And>i. more i \<longleftrightarrow> i < ?n - 1 - d" for d more
  proof -
    let ?k = "min (?n - 1 - d) (length (cstr src))"
    let ?s = "take d dest @ take (?n - 1 - d) (cstr src)"
    have k: "d + ?k < ?n" using d(1) by auto
    have "copy_str dest d src 0 more = Inr (?s @ 0 # drop (Suc (d + ?k)) dest)"
      using copy_bounded [OF assms(1), of d "?n - 1 - d" dest more] k assms(3) more by auto
    moreover have z: "0 \<notin> set ?s" using d(2) cstr_no_zero [of src] by (auto dest: in_set_takeD)
    moreover have ls: "length ?s = d + ?k" using d(1) assms(3) by auto
    moreover have "take ?n (?s @ 0 # drop (Suc (d + ?k)) dest) = ?s @ 0 # take (?n - Suc (d + ?k)) (drop (Suc (d + ?k)) dest)"
      using take_past [OF ls k] .
    moreover have "drop ?n (?s @ 0 # drop (Suc (d + ?k)) dest) = drop ?n dest"
      using drop_past [OF ls k] .
    ultimately show ?thesis using cstr_append_zero(1) [OF z]
      by (intro exI [of _ "?s @ 0 # drop (Suc (d + ?k)) dest"] conjI) (simp_all only: cstr_append_zero(2))
  qed
  have "take (?n - 1) (cstr dest @ cstr src) = take (length (cstr dest)) dest @ take (?n - 1 - length (cstr dest)) (cstr src)"
    using len cstr_take [of dest] by simp
  moreover have "0 \<notin> set (take (length (cstr dest)) dest)" using cstr_no_zero [of dest] cstr_take [of dest] by simp
  ultimately show ?thesis
    using copy [of 0 "\<lambda>i. i < unat (max_len - 1)"] n len
      copy [of "length (cstr dest)" "\<lambda>i. length (cstr dest) + i < unat (max_len - 1)"]
    unfolding strcpy_safe_def strcat_safe_def strlen_eq [OF td] by (simp add: less_diff_conv add.commute)
qed

theorem safe_copies_witness:
  "\<exists>dest'. strcat_safe [65, 66, 0, 9, 9, 9] [67, 68, 69, 0] 5 = Inr dest' \<and> cstr dest' = [65, 66, 67, 68] \<and> drop 5 dest' = [9]"
proof -
  let ?dest = "[65, 66, 0, 9, 9, 9] :: u8 list" and ?src = "[67, 68, 69, 0] :: u8 list"
  have h: "terminated ?src" "(5 :: u64) \<noteq> 0" "unat (5 :: u64) \<le> length ?dest" "terminated (take (unat (5 :: u64)) ?dest)"
    by (simp_all add: terminated_def)
  show ?thesis using safe_copies [OF h] by (auto simp: cstr_def)
qed

text \<open>C23. Comparison and search agree with the strings as lists of characters: \<open>strcmp\<close> is zero for equal
  strings and negative for a smaller first one, \<open>strncmp\<close> compares prefixes, \<open>strstr\<close> finds the first occurrence and
  \<open>strchr\<close> the first character.\<close>

theorem string_search:
  assumes "terminated s1" "terminated s2"
  shows "(\<exists>r. strcmp s1 s2 = Inr r \<and> (r = 0 \<longleftrightarrow> cstr s1 = cstr s2) \<and> (sint r < 0 \<longleftrightarrow> str_less (cstr s1) (cstr s2))) \<and>
    (\<exists>r. strncmp s1 s2 n = Inr r \<and> (r = 0 \<longleftrightarrow> take (unat n) (cstr s1) = take (unat n) (cstr s2))) \<and>
    (\<exists>r. strstr s1 s2 = Inr r \<and>
      (case r of None \<Rightarrow> \<forall>k. \<not> occurs_at s2 s1 k | Some j \<Rightarrow> occurs_at s2 s1 j \<and> (\<forall>k < j. \<not> occurs_at s2 s1 k))) \<and>
    (\<exists>r. strchr s1 c = Inr r \<and>
      (case r of None \<Rightarrow> ucast c \<notin> set (cstr s1)
       | Some j \<Rightarrow> j < length (cstr s1) \<and> cstr s1 ! j = ucast c \<and> (\<forall>k < j. cstr s1 ! k \<noteq> ucast c)))"
proof (intro conjI)
  show "\<exists>r. strcmp s1 s2 = Inr r \<and> (r = 0 \<longleftrightarrow> cstr s1 = cstr s2) \<and> (sint r < 0 \<longleftrightarrow> str_less (cstr s1) (cstr s2))"
    using strcmp_from_eq [of 0 s1 s2] assms by (simp add: strcmp_def)
  show "\<exists>r. strncmp s1 s2 n = Inr r \<and> (r = 0 \<longleftrightarrow> take (unat n) (cstr s1) = take (unat n) (cstr s2))"
    using strncmp_from_eq [of 0 s1 s2 "unat n"] assms by (simp add: strncmp_def)
  obtain b bs where b: "s2 = b # bs" using assms(2) by (cases s2) auto
  show "\<exists>r. strstr s1 s2 = Inr r \<and>
      (case r of None \<Rightarrow> \<forall>k. \<not> occurs_at s2 s1 k | Some j \<Rightarrow> occurs_at s2 s1 j \<and> (\<forall>k < j. \<not> occurs_at s2 s1 k))"
  proof (cases "b = 0")
    case True
    then show ?thesis by (simp add: strstr_def rd_def b occurs_at_def cstr_Cons)
  next
    case False
    then have "cstr s2 \<noteq> []" by (simp add: b cstr_Cons)
    from strstr_from_eq [OF assms, of 0, OF _ this] False show ?thesis
      by (auto simp: strstr_def rd_def b)
  qed
  have first: "length (takeWhile (\<lambda>x. x \<noteq> y) cs) < length cs \<and> cs ! length (takeWhile (\<lambda>x. x \<noteq> y) cs) = y \<and>
      (\<forall>k < length (takeWhile (\<lambda>x. x \<noteq> y) cs). cs ! k \<noteq> y)" if "y \<in> set cs" for y and cs :: "u8 list"
    using that by (induction cs) (auto simp: less_Suc_eq_0_disj)
  show "\<exists>r. strchr s1 c = Inr r \<and>
      (case r of None \<Rightarrow> ucast c \<notin> set (cstr s1)
       | Some j \<Rightarrow> j < length (cstr s1) \<and> cstr s1 ! j = ucast c \<and> (\<forall>k < j. cstr s1 ! k \<noteq> ucast c))"
    using strchr_from_eq [of 0 s1 "ucast c"] assms(1) first [of "ucast c" "cstr s1"] by (simp add: strchr_def Let_def)
qed

theorem string_search_witness: "strstr [65, 66, 67, 66, 67, 0] [66, 67, 0] = Inr (Some 1)"
proof -
  let ?h = "[65, 66, 67, 66, 67, 0] :: u8 list" and ?n = "[66, 67, 0] :: u8 list"
  have o: "occurs_at ?n ?h 1" "\<not> occurs_at ?n ?h 0" by (simp_all add: occurs_at_def cstr_def)
  have "terminated ?h" "terminated ?n" by (simp_all add: terminated_def)
  from string_search [OF this, THEN conjunct2, THEN conjunct2, THEN conjunct1]
  obtain r where r: "strstr ?h ?n = Inr r"
    "case r of None \<Rightarrow> \<forall>k. \<not> occurs_at ?n ?h k | Some j \<Rightarrow> occurs_at ?n ?h j \<and> (\<forall>k < j. \<not> occurs_at ?n ?h k)"
    by blast
  show ?thesis
  proof (cases r)
    case None
    with r(2) have "\<not> occurs_at ?n ?h 1" by (simp only: option.case) blast
    with o show ?thesis by blast
  next
    case (Some j)
    have "occurs_at ?n ?h j \<and> (\<forall>k < j. \<not> occurs_at ?n ?h k)" using r(2) unfolding Some option.case .
    then have j: "occurs_at ?n ?h j" "\<forall>k < j. \<not> occurs_at ?n ?h k" by blast+
    have "j \<noteq> 0" using j(1) o(2) by (cases j) auto
    moreover have "\<not> 1 < j" using j(2) o(1) by blast
    ultimately have "j = 1" by simp
    with r(1) Some show ?thesis by simp
  qed
qed

text \<open>The colour sequence always fits its buffer of 16 bytes.\<close>

lemma kprint_total: "\<exists>esc_buf. kprint str color = Inr [esc_buf, str, [27, 91, 48, 109, 0]] \<and> length esc_buf = 16 \<and> terminated esc_buf"
  by (auto simp: kprint_def Let_def put_def wr_def terminated_def numeral_eq_Suc)

text \<open>The least number has no positive counterpart; its digits come out as characters below zero.\<close>

lemma itoa_least: "itoa 0x80000000 (replicate 12 0) 10 = Inr [45, 46, 47, 44, 41, 44, 40, 45, 42, 44, 40, 0]"
  by code_simp

lemma be16_involution: "be16_to_cpu (be16_to_cpu v) = v"
proof (rule bit_word_eqI)
  have m: "(0xFF00::u16) = push_bit 8 (mask 8)" "(0xFF::u16) = mask 8" by (simp_all add: mask_eq_exp_minus_1)
  fix n assume "n < LENGTH(16)"
  then consider "n < 8" | "8 \<le> n \<and> n < 16" by fastforce
  then show "bit (be16_to_cpu (be16_to_cpu v)) n = bit v n"
    by cases (auto simp: be16_to_cpu_def m bit_simps)
qed

lemma be32_involution: "be32_to_cpu (be32_to_cpu v) = v"
proof (rule bit_word_eqI)
  have m: "(0xFF000000::u32) = push_bit 24 (mask 8)" "(0x00FF0000::u32) = push_bit 16 (mask 8)"
    "(0x0000FF00::u32) = push_bit 8 (mask 8)" "(0xFF::u32) = mask 8" by (simp_all add: mask_eq_exp_minus_1)
  fix n assume "n < LENGTH(32)"
  then consider "n < 8" | "8 \<le> n \<and> n < 16" | "16 \<le> n \<and> n < 24" | "24 \<le> n \<and> n < 32" by fastforce
  then show "bit (be32_to_cpu (be32_to_cpu v)) n = bit v n"
    by cases (auto simp: be32_to_cpu_def m bit_simps)
qed

end
