(* ===== verification/Inode.thy ===== *)
theory Inode
  imports Prelude
begin

text \<open>
  The inode cache (\<open>core/fs/inode.c\<close>): a table of 128 slots with reference counts.  A pointer to a slot
  is its index.
\<close>

subsection \<open>State and operations\<close>

definition MAX_CACHED_INODES :: nat where "MAX_CACHED_INODES = 128"

record inode =
  ino :: u32
  mode :: u32
  uid :: u32
  gid :: u32
  isize :: u64
  atime :: u64
  mtime :: u64
  ctime :: u64
  nlink :: u32
  blocks :: u32
  fs_private :: u64
  dirty :: bool
  used :: bool
  ref_count :: u32

definition zero_inode :: inode where
  "zero_inode = \<lparr>ino = 0, mode = 0, uid = 0, gid = 0, isize = 0, atime = 0, mtime = 0, ctime = 0, nlink = 0, blocks = 0,
     fs_private = 0, dirty = False, used = False, ref_count = 0\<rparr>"

definition inode_cache_init :: "inode list \<Rightarrow> inode list" where
  "inode_cache_init cache = map (\<lambda>x. x\<lparr>used := False, dirty := False, ref_count := 0, fs_private := 0\<rparr>) cache"

definition inode_cache_get :: "u32 \<Rightarrow> inode list \<Rightarrow> (nat option \<times> inode list) res" where
  "inode_cache_get n cache =
     bindR (search (\<lambda>x. used x \<and> ino x = n) cache 0 MAX_CACHED_INODES) (\<lambda>r.
     case r of None \<Rightarrow> Inr (None, cache)
     | Some i \<Rightarrow> Inr (Some i, cache[i := (cache ! i)\<lparr>ref_count := ref_count (cache ! i) + 1\<rparr>]))"

definition claimed :: "u32 \<Rightarrow> inode" where
  "claimed n = zero_inode\<lparr>ino := n, used := True, ref_count := 1, dirty := False\<rparr>"

definition inode_cache_alloc :: "u32 \<Rightarrow> inode list \<Rightarrow> (nat option \<times> inode list) res" where
  "inode_cache_alloc n cache =
     bindR (inode_cache_get n cache) (\<lambda>(existing, cache).
     case existing of Some i \<Rightarrow> Inr (Some i, cache)
     | None \<Rightarrow>
         bindR (search (\<lambda>x. \<not> used x) cache 0 MAX_CACHED_INODES) (\<lambda>r.
         case r of Some i \<Rightarrow> Inr (Some i, cache[i := claimed n])
         | None \<Rightarrow>
             bindR (search (\<lambda>x. ref_count x = 0) cache 0 MAX_CACHED_INODES) (\<lambda>r.
             case r of Some i \<Rightarrow> Inr (Some i, cache[i := claimed n]) | None \<Rightarrow> Inr (None, cache))))"

definition inode_cache_put :: "nat option \<Rightarrow> inode list \<Rightarrow> inode list res" where
  "inode_cache_put inode cache = (case inode of None \<Rightarrow> Inr cache
     | Some i \<Rightarrow> bindR (rd cache (int i)) (\<lambda>x.
         if ref_count x > 0 then wr cache (int i) (x\<lparr>ref_count := ref_count x - 1\<rparr>) else Inr cache))"

definition inode_cache_sync :: "inode list \<Rightarrow> inode list" where
  "inode_cache_sync cache = map (\<lambda>x. if used x \<and> dirty x then x\<lparr>dirty := False\<rparr> else x) cache"

definition inode_cache_evict :: "u32 \<Rightarrow> inode list \<Rightarrow> (i32 \<times> inode list) res" where
  "inode_cache_evict n cache =
     bindR (search (\<lambda>x. used x \<and> ino x = n) cache 0 MAX_CACHED_INODES) (\<lambda>r.
     case r of None \<Rightarrow> Inr (- 1, cache)
     | Some i \<Rightarrow>
         if ref_count (cache ! i) > 0 then Inr (- 1, cache)
         else Inr (0, cache[i := (cache ! i)\<lparr>used := False, fs_private := 0\<rparr>]))"

subsection \<open>Lookups\<close>

text \<open>The cache holds an inode number at most once.\<close>

definition cache_ok :: "inode list \<Rightarrow> bool" where
  "cache_ok c \<longleftrightarrow> length c = MAX_CACHED_INODES \<and>
     (\<forall>i j. i < MAX_CACHED_INODES \<and> j < MAX_CACHED_INODES \<and> used (c ! i) \<and> used (c ! j) \<and> ino (c ! i) = ino (c ! j) \<longrightarrow> i = j)"

definition holds :: "inode list \<Rightarrow> nat \<Rightarrow> u32 \<Rightarrow> bool" where
  "holds c i n \<longleftrightarrow> i < MAX_CACHED_INODES \<and> used (c ! i) \<and> ino (c ! i) = n"

lemma cache_search:
  assumes "length c = MAX_CACHED_INODES"
  obtains (found) i where "search P c 0 MAX_CACHED_INODES = Inr (Some i)" "i < MAX_CACHED_INODES" "P (c ! i)"
  | (none) "search P c 0 MAX_CACHED_INODES = Inr None" "\<And>i. i < MAX_CACHED_INODES \<Longrightarrow> \<not> P (c ! i)"
proof -
  obtain r where r: "search P c 0 MAX_CACHED_INODES = Inr r" using search_total [of MAX_CACHED_INODES c P 0] assms by auto
  show thesis
  proof (cases r)
    case None
    with r show thesis using search_None [of P c 0 MAX_CACHED_INODES] by (intro none) auto
  next
    case (Some i)
    with r show thesis using search_Some [of P c 0 MAX_CACHED_INODES i] by (intro found) auto
  qed
qed

lemma cache_ok_update:
  assumes "cache_ok c" "i < MAX_CACHED_INODES" "used x \<Longrightarrow> used (c ! i) \<and> ino x = ino (c ! i) \<or> (\<forall>j. \<not> holds c j (ino x))"
  shows "cache_ok (c[i := x])"
proof -
  have "j = k" if "j < MAX_CACHED_INODES" "k < MAX_CACHED_INODES" "used (c[i := x] ! j)" "used (c[i := x] ! k)" "ino (c[i := x] ! j) = ino (c[i := x] ! k)" for j k
    using that assms unfolding cache_ok_def holds_def by (cases "j = i"; cases "k = i") (auto simp: nth_list_update)
  moreover have "length (c[i := x]) = MAX_CACHED_INODES" using assms(1) by (simp add: cache_ok_def)
  ultimately show ?thesis unfolding cache_ok_def by blast
qed

lemma get_cases:
  assumes "cache_ok c"
  obtains (hit) i where "inode_cache_get n c = Inr (Some i, c[i := (c ! i)\<lparr>ref_count := ref_count (c ! i) + 1\<rparr>])" "holds c i n"
  | (miss) "inode_cache_get n c = Inr (None, c)" "\<And>i. \<not> holds c i n"
proof -
  have l: "length c = MAX_CACHED_INODES" using assms by (simp add: cache_ok_def)
  show thesis
  proof (rule cache_search [OF l, of "\<lambda>x. used x \<and> ino x = n"])
    fix i assume "search (\<lambda>x. used x \<and> ino x = n) c 0 MAX_CACHED_INODES = Inr (Some i)" "i < MAX_CACHED_INODES" "used (c ! i) \<and> ino (c ! i) = n"
    then show thesis by (intro hit [of i]) (simp_all add: inode_cache_get_def holds_def)
  next
    assume "search (\<lambda>x. used x \<and> ino x = n) c 0 MAX_CACHED_INODES = Inr None" "\<And>i. i < MAX_CACHED_INODES \<Longrightarrow> \<not> (used (c ! i) \<and> ino (c ! i) = n)"
    then show thesis by (intro miss) (auto simp: inode_cache_get_def holds_def)
  qed
qed

lemma alloc_cases:
  assumes "cache_ok c"
  obtains (hit) i where "inode_cache_alloc n c = Inr (Some i, c[i := (c ! i)\<lparr>ref_count := ref_count (c ! i) + 1\<rparr>])" "holds c i n"
  | (fresh) i where "inode_cache_alloc n c = Inr (Some i, c[i := claimed n])" "\<And>j. \<not> holds c j n" "i < MAX_CACHED_INODES" "\<not> used (c ! i)"
  | (evicted) i where "inode_cache_alloc n c = Inr (Some i, c[i := claimed n])" "\<And>j. \<not> holds c j n" "i < MAX_CACHED_INODES" "ref_count (c ! i) = 0"
      "\<And>j. j < MAX_CACHED_INODES \<Longrightarrow> used (c ! j)"
  | (full) "inode_cache_alloc n c = Inr (None, c)" "\<And>j. \<not> holds c j n" "\<And>j. j < MAX_CACHED_INODES \<Longrightarrow> used (c ! j) \<and> ref_count (c ! j) \<noteq> 0"
proof -
  have l: "length c = MAX_CACHED_INODES" using assms by (simp add: cache_ok_def)
  show thesis
  proof (rule get_cases [OF assms, of n])
    fix i assume "inode_cache_get n c = Inr (Some i, c[i := (c ! i)\<lparr>ref_count := ref_count (c ! i) + 1\<rparr>])" "holds c i n"
    then show thesis by (intro hit) (simp_all add: inode_cache_alloc_def)
  next
    assume m: "inode_cache_get n c = Inr (None, c)" "\<And>i. \<not> holds c i n"
    show thesis
    proof (rule cache_search [OF l, of "\<lambda>x. \<not> used x"])
      fix i assume "search (\<lambda>x. \<not> used x) c 0 MAX_CACHED_INODES = Inr (Some i)" "i < MAX_CACHED_INODES" "\<not> used (c ! i)"
      with m show thesis by (intro fresh) (simp_all add: inode_cache_alloc_def)
    next
      assume u: "search (\<lambda>x. \<not> used x) c 0 MAX_CACHED_INODES = Inr None" "\<And>i. i < MAX_CACHED_INODES \<Longrightarrow> \<not> \<not> used (c ! i)"
      show thesis
      proof (rule cache_search [OF l, of "\<lambda>x. ref_count x = 0"])
        fix i assume "search (\<lambda>x. ref_count x = 0) c 0 MAX_CACHED_INODES = Inr (Some i)" "i < MAX_CACHED_INODES" "ref_count (c ! i) = 0"
        with m u show thesis by (intro evicted) (simp_all add: inode_cache_alloc_def)
      next
        assume "search (\<lambda>x. ref_count x = 0) c 0 MAX_CACHED_INODES = Inr None" "\<And>i. i < MAX_CACHED_INODES \<Longrightarrow> ref_count (c ! i) \<noteq> 0"
        with m u show thesis by (intro full) (simp_all add: inode_cache_alloc_def)
      qed
    qed
  qed
qed

lemma evict_cases:
  assumes "cache_ok c"
  obtains (absent) "inode_cache_evict n c = Inr (- 1, c)" "\<And>i. \<not> holds c i n"
  | (busy) i where "inode_cache_evict n c = Inr (- 1, c)" "holds c i n" "ref_count (c ! i) \<noteq> 0"
  | (gone) i where "inode_cache_evict n c = Inr (0, c[i := (c ! i)\<lparr>used := False, fs_private := 0\<rparr>])" "holds c i n" "ref_count (c ! i) = 0"
proof -
  have l: "length c = MAX_CACHED_INODES" using assms by (simp add: cache_ok_def)
  show thesis
  proof (rule cache_search [OF l, of "\<lambda>x. used x \<and> ino x = n"])
    fix i assume "search (\<lambda>x. used x \<and> ino x = n) c 0 MAX_CACHED_INODES = Inr (Some i)" "i < MAX_CACHED_INODES" "used (c ! i) \<and> ino (c ! i) = n"
    then show thesis
      by (cases "ref_count (c ! i) = 0") (auto simp: inode_cache_evict_def holds_def word_gt_0 intro: busy gone)
  next
    assume "search (\<lambda>x. used x \<and> ino x = n) c 0 MAX_CACHED_INODES = Inr None" "\<And>i. i < MAX_CACHED_INODES \<Longrightarrow> \<not> (used (c ! i) \<and> ino (c ! i) = n)"
    then show thesis by (intro absent) (auto simp: inode_cache_evict_def holds_def)
  qed
qed

subsection \<open>References\<close>

text \<open>
  The uses of the cache, with the number of references outstanding for every slot: a lookup or
  an allocation that returns a slot takes a reference, and only a holder of one gives it back.
\<close>

inductive cache_use :: "inode list \<times> (nat \<Rightarrow> nat) \<Rightarrow> inode list \<times> (nat \<Rightarrow> nat) \<Rightarrow> bool" where
  get: "inode_cache_get n c = Inr (Some i, c') \<Longrightarrow> h i + 1 < 2 ^ 32 \<Longrightarrow> cache_use (c, h) (c', h(i := h i + 1))"
| get_none: "inode_cache_get n c = Inr (None, c') \<Longrightarrow> cache_use (c, h) (c', h)"
| alloc: "inode_cache_alloc n c = Inr (Some i, c') \<Longrightarrow> h i + 1 < 2 ^ 32 \<Longrightarrow> cache_use (c, h) (c', h(i := h i + 1))"
| alloc_none: "inode_cache_alloc n c = Inr (None, c') \<Longrightarrow> cache_use (c, h) (c', h)"
| put: "0 < h i \<Longrightarrow> inode_cache_put (Some i) c = Inr c' \<Longrightarrow> cache_use (c, h) (c', h(i := h i - 1))"
| sync: "cache_use (c, h) (inode_cache_sync c, h)"
| evict: "inode_cache_evict n c = Inr (r, c') \<Longrightarrow> cache_use (c, h) (c', h)"

inductive_cases cache_useE: "cache_use (c, h) (c', h')"

definition counted :: "inode list \<times> (nat \<Rightarrow> nat) \<Rightarrow> bool" where
  "counted s \<longleftrightarrow> cache_ok (fst s) \<and>
     (\<forall>i < MAX_CACHED_INODES. unat (ref_count (fst s ! i)) = snd s i \<and> (0 < snd s i \<longrightarrow> used (fst s ! i)))"

text \<open>The slots somebody holds before and after a step keep their inode.\<close>

definition keeps :: "inode list \<times> (nat \<Rightarrow> nat) \<Rightarrow> inode list \<times> (nat \<Rightarrow> nat) \<Rightarrow> bool" where
  "keeps s t \<longleftrightarrow> (\<forall>i < MAX_CACHED_INODES. 0 < snd s i \<and> 0 < snd t i \<longrightarrow> used (fst t ! i) \<and> ino (fst t ! i) = ino (fst s ! i))"

lemma counted_update:
  assumes "counted (c, h)" "i < MAX_CACHED_INODES" "used x \<Longrightarrow> used (c ! i) \<and> ino x = ino (c ! i) \<or> (\<forall>j. \<not> holds c j (ino x))"
    and "unat (ref_count x) = k" "0 < k \<Longrightarrow> used x" "0 < h i \<and> 0 < k \<Longrightarrow> ino x = ino (c ! i)"
  shows "counted (c[i := x], h(i := k)) \<and> keeps (c, h) (c[i := x], h(i := k))"
proof -
  have ok: "cache_ok (c[i := x])" using assms(1-3) by (intro cache_ok_update) (simp_all add: counted_def)
  have l: "length c = MAX_CACHED_INODES" using assms(1) by (simp add: counted_def cache_ok_def)
  have old: "unat (ref_count (c ! j)) = h j \<and> (0 < h j \<longrightarrow> used (c ! j))" if "j < MAX_CACHED_INODES" for j
    using assms(1) that by (simp add: counted_def)
  have "unat (ref_count (c[i := x] ! j)) = (h(i := k)) j \<and> (0 < (h(i := k)) j \<longrightarrow> used (c[i := x] ! j))" if "j < MAX_CACHED_INODES" for j
    using old [OF that] that l assms(4,5) by (cases "j = i") simp_all
  moreover have "used (c[i := x] ! j) \<and> ino (c[i := x] ! j) = ino (c ! j)" if "j < MAX_CACHED_INODES" "0 < h j" "0 < (h(i := k)) j" for j
    using old [OF that(1)] that l assms(5,6) by (cases "j = i") simp_all
  ultimately show ?thesis using ok by (simp add: counted_def keeps_def)
qed

lemma unat_inc: "unat (w :: u32) + 1 < 2 ^ 32 \<Longrightarrow> unat (w + 1) = unat w + 1"
  by (simp add: unat_word_ariths)

lemma counted_hit:
  assumes "counted (c, h)" "holds c i n" "h i + 1 < 2 ^ 32"
  shows "counted (c[i := (c ! i)\<lparr>ref_count := ref_count (c ! i) + 1\<rparr>], h(i := h i + 1)) \<and>
    keeps (c, h) (c[i := (c ! i)\<lparr>ref_count := ref_count (c ! i) + 1\<rparr>], h(i := h i + 1))"
  using assms by (intro counted_update) (auto simp: holds_def counted_def unat_inc)

lemma counted_claim:
  assumes "counted (c, h)" "i < MAX_CACHED_INODES" "\<And>j. \<not> holds c j n" "h i = 0"
  shows "counted (c[i := claimed n], h(i := h i + 1)) \<and> keeps (c, h) (c[i := claimed n], h(i := h i + 1))"
  using assms by (intro counted_update) (auto simp: claimed_def)

lemma counted_refs: "counted (c, h) \<Longrightarrow> i < MAX_CACHED_INODES \<Longrightarrow> ref_count (c ! i) = 0 \<longleftrightarrow> h i = 0"
  by (metis counted_def fst_conv snd_conv unat_eq_0)

lemma counted_same: "counted (c, h) \<Longrightarrow> counted (c, h) \<and> keeps (c, h) (c, h)"
  by (auto simp: counted_def keeps_def)

lemma sync_nth:
  "length (inode_cache_sync c) = length c"
  "i < length c \<Longrightarrow> used (inode_cache_sync c ! i) = used (c ! i)"
  "i < length c \<Longrightarrow> ino (inode_cache_sync c ! i) = ino (c ! i)"
  "i < length c \<Longrightarrow> ref_count (inode_cache_sync c ! i) = ref_count (c ! i)"
  by (simp_all add: inode_cache_sync_def)

lemma counted_sync: "counted (c, h) \<Longrightarrow> counted (inode_cache_sync c, h) \<and> keeps (c, h) (inode_cache_sync c, h)"
  unfolding counted_def keeps_def cache_ok_def fst_conv snd_conv by (metis sync_nth)

lemma cache_use_counted:
  assumes "cache_use s t" "counted s"
  shows "counted t \<and> keeps s t"
  using assms
proof (induction rule: cache_use.induct)
  case (get n c i c' h)
  then have ok: "cache_ok c" by (simp add: counted_def)
  then show ?case using get counted_hit by (cases rule: get_cases [of c n]) auto
next
  case (get_none n c c' h)
  then have ok: "cache_ok c" by (simp add: counted_def)
  then show ?case using get_none counted_same by (cases rule: get_cases [of c n]) auto
next
  case (alloc n c i c' h)
  then have ok: "cache_ok c" by (simp add: counted_def)
  then show ?case using alloc counted_hit [OF alloc.prems] counted_claim [OF alloc.prems] counted_refs [OF alloc.prems]
    by (cases rule: alloc_cases [of c n]) (auto simp: counted_def)
next
  case (alloc_none n c c' h)
  then have ok: "cache_ok c" by (simp add: counted_def)
  then show ?case using alloc_none counted_same by (cases rule: alloc_cases [of c n]) auto
next
  case (put h i c c')
  then have l: "length c = MAX_CACHED_INODES" by (simp add: counted_def cache_ok_def)
  then have i: "i < MAX_CACHED_INODES" using put.hyps(2) by (auto simp: inode_cache_put_def rd_def split: if_splits)
  then have r: "unat (ref_count (c ! i)) = h i" "used (c ! i)" using put.prems put.hyps(1) by (auto simp: counted_def)
  then have "ref_count (c ! i) \<noteq> 0" using put.hyps(1) by auto
  moreover from this have "c' = c[i := (c ! i)\<lparr>ref_count := ref_count (c ! i) - 1\<rparr>]"
    using put.hyps(2) i l by (simp add: inode_cache_put_def rd_nat wr_nat word_gt_0)
  moreover have "unat (ref_count (c ! i) - 1) = h i - 1" using r(1) calculation(1) by (metis unat_minus_one)
  ultimately show ?case using counted_update [OF put.prems i, of "(c ! i)\<lparr>ref_count := ref_count (c ! i) - 1\<rparr>"] r by simp
next
  case (sync c h)
  then show ?case by (rule counted_sync)
next
  case (evict n c r c' h)
  then have ok: "cache_ok c" by (simp add: counted_def)
  then show ?case
  proof (cases rule: evict_cases [of c n])
    case (gone i)
    then have "i < MAX_CACHED_INODES" "h i = 0" "unat (ref_count (c ! i)) = h i"
      using counted_refs [OF evict.prems, of i] by (auto simp: holds_def)
    with gone evict.hyps counted_update [OF evict.prems, of i "(c ! i)\<lparr>used := False, fs_private := 0\<rparr>" "h i"]
    have "counted (c[i := (c ! i)\<lparr>used := False, fs_private := 0\<rparr>], h) \<and> keeps (c, h) (c[i := (c ! i)\<lparr>used := False, fs_private := 0\<rparr>], h)"
      by (simp add: fun_upd_idem)
    with gone evict.hyps show ?thesis by simp
  qed (use evict counted_same in auto)
qed

lemma counted_init: "length c = MAX_CACHED_INODES \<Longrightarrow> counted (inode_cache_init c, \<lambda>_. 0)"
  by (auto simp: counted_def cache_ok_def inode_cache_init_def)

lemma counted_reach: "cache_use\<^sup>*\<^sup>* s t \<Longrightarrow> counted s \<Longrightarrow> counted t"
  by (induction rule: rtranclp_induct) (auto dest: cache_use_counted)

text \<open>C25. However the cache is used, it holds an inode number in one slot at most, the reference count of a slot is the number
  of references outstanding, a slot somebody holds keeps its inode through every operation, and an allocation gives a slot with
  the inode asked for unless every slot is referenced.\<close>

theorem inode_references:
  assumes "length c = MAX_CACHED_INODES" "cache_use\<^sup>*\<^sup>* (inode_cache_init c, \<lambda>_. 0) s"
  shows "cache_ok (fst s) \<and> (\<forall>i < MAX_CACHED_INODES. unat (ref_count (fst s ! i)) = snd s i) \<and>
    (\<forall>t. cache_use s t \<longrightarrow> keeps s t) \<and>
    (\<forall>n. \<exists>r c'. inode_cache_alloc n (fst s) = Inr (r, c') \<and>
      (case r of None \<Rightarrow> \<forall>i < MAX_CACHED_INODES. 0 < snd s i | Some i \<Rightarrow> holds c' i n))"
proof -
  have s: "counted s" using counted_reach [OF assms(2) counted_init [OF assms(1)]] .
  then have ok: "cache_ok (fst s)" by (simp add: counted_def)
  then have l: "length (fst s) = MAX_CACHED_INODES" by (simp add: cache_ok_def)
  have refs: "ref_count (fst s ! i) = 0 \<longleftrightarrow> snd s i = 0" if "i < MAX_CACHED_INODES" for i
    using counted_refs [of "fst s" "snd s" i] s that by simp
  have "\<exists>r c'. inode_cache_alloc n (fst s) = Inr (r, c') \<and>
      (case r of None \<Rightarrow> \<forall>i < MAX_CACHED_INODES. 0 < snd s i | Some i \<Rightarrow> holds c' i n)" for n
    using ok by (cases rule: alloc_cases [of "fst s" n]) (use l refs in \<open>auto simp: holds_def claimed_def\<close>)
  moreover have "\<forall>t. cache_use s t \<longrightarrow> keeps s t" using cache_use_counted s by blast
  ultimately show ?thesis using s ok by (simp add: counted_def)
qed

theorem inode_references_witness:
  "\<exists>c h. cache_use (inode_cache_init (replicate 128 zero_inode), \<lambda>_. 0) (c, h) \<and> h 0 = 1 \<and> unat (ref_count (c ! 0)) = 1"
proof -
  let ?z = "replicate 128 zero_inode"
  let ?c = "inode_cache_init ?z"
  have z: "?c = ?z" by (simp add: inode_cache_init_def zero_inode_def)
  have "search (\<lambda>x. used x \<and> ino x = 5) ?z 0 128 = Inr None"
    by (subst search_None_iff) (auto simp: zero_inode_def)
  moreover have "search (\<lambda>x. \<not> used x) ?z 0 128 = Inr (Some 0)"
    by (simp add: search.simps rd_def zero_inode_def)
  ultimately have a: "inode_cache_alloc 5 ?c = Inr (Some 0, ?z[0 := claimed 5])"
    by (simp add: z inode_cache_alloc_def inode_cache_get_def MAX_CACHED_INODES_def)
  let ?s = "(?z[0 := claimed 5], (\<lambda>_. 0)(0 := 1) :: nat \<Rightarrow> nat)"
  have u: "cache_use (?c, \<lambda>_. 0) ?s" using cache_use.alloc [OF a, of "\<lambda>_. 0"] by simp
  then have r: "cache_use\<^sup>*\<^sup>* (?c, \<lambda>_. 0) ?s" by blast
  have l: "length ?z = MAX_CACHED_INODES" by (simp add: MAX_CACHED_INODES_def)
  have p: "0 < MAX_CACHED_INODES" by (simp add: MAX_CACHED_INODES_def)
  have "unat (ref_count (fst ?s ! 0)) = snd ?s 0"
    by (rule inode_references [OF l r, THEN conjunct2, THEN conjunct1, THEN spec, THEN mp, OF p])
  with u show ?thesis by (intro exI [of _ "fst ?s"] exI [of _ "snd ?s"]) simp
qed

end
