(* ===== verification/Dirent.thy ===== *)
theory Dirent
  imports Kstd
begin

text \<open>
  Directory entries as the file systems share them (\<open>core/fs/dirent.c\<close>).  A pointer that may be null is an option.
\<close>

subsection \<open>Operations\<close>

definition MAX_DIRENT_NAME :: nat where "MAX_DIRENT_NAME = 255"

record fs_dirent =
  d_ino :: u32
  d_type :: u8
  d_name_len :: u16
  d_name :: "u8 list"

definition dirent_init :: "fs_dirent option \<Rightarrow> u32 \<Rightarrow> u8 \<Rightarrow> u8 list option \<Rightarrow> (i32 \<times> fs_dirent option) res" where
  "dirent_init dent n ty name = (case (dent, name) of
       (Some d, Some nm) \<Rightarrow>
         bindR (strlen nm) (\<lambda>name_len.
         if name_len = 0 \<or> MAX_DIRENT_NAME < name_len then Inr (- 1, dent)
         else bindR (strcpy_safe (d_name d) nm 256) (\<lambda>s.
           Inr (0, Some (d\<lparr>d_ino := n, d_type := ty, d_name_len := of_nat name_len, d_name := s\<rparr>))))
     | _ \<Rightarrow> Inr (- 1, dent))"

text \<open>The character loop of \<open>dirent_name_valid\<close>: \<open>Some\<close> verdict, or \<open>None\<close> after the last character.\<close>

function valid_loop :: "u8 list \<Rightarrow> nat \<Rightarrow> nat \<Rightarrow> i32 option res" where
  "valid_loop name i len =
     (if i < len then
        bindR (rd name (int i)) (\<lambda>c.
        if c = 0 then Inr (Some (if i = len - 1 then 1 else 0))
        else if c = 47 \<or> c = 92 then Inr (Some 0)
        else valid_loop name (Suc i) len)
      else Inr None)"
  by pat_completeness auto
termination
  by (relation "measure (\<lambda>(name, i, len). len - i)") auto

declare valid_loop.simps [simp del]

definition dirent_name_valid :: "u8 list option \<Rightarrow> nat \<Rightarrow> i32 res" where
  "dirent_name_valid name len = (case name of
       None \<Rightarrow> Inr 0
     | Some nm \<Rightarrow>
         if len = 0 \<or> MAX_DIRENT_NAME < len then Inr 0
         else bindR (valid_loop nm 0 len) (\<lambda>v. case v of Some r \<Rightarrow> Inr r
           | None \<Rightarrow>
               bindR (strcmp nm [46, 0]) (\<lambda>r.
               if r = 0 then Inr 1
               else bindR (strcmp nm [46, 46, 0]) (\<lambda>r. if r = 0 then Inr 1 else Inr 1))))"

definition dirent_compare :: "fs_dirent option \<Rightarrow> fs_dirent option \<Rightarrow> i32 res" where
  "dirent_compare a b = (case (a, b) of (Some x, Some y) \<Rightarrow> strcmp (d_name x) (d_name y) | _ \<Rightarrow> Inr 0)"

text \<open>The copy loop of \<open>dirent_parse_name\<close>; it returns the buffer and the number of characters copied.\<close>

function parse_loop :: "u8 list \<Rightarrow> u64 \<Rightarrow> u8 list \<Rightarrow> u64 \<Rightarrow> nat \<Rightarrow> (u8 list \<times> nat) res" where
  "parse_loop buf max_len out sz len =
     (if len < unat max_len \<and> len < unat (sz - 1) then
        bindR (rd buf (int len)) (\<lambda>c.
        if c \<noteq> 0 then bindR (wr out (int len) c) (\<lambda>out. parse_loop buf max_len out sz (Suc len))
        else Inr (out, len))
      else Inr (out, len))"
  by pat_completeness auto
termination
  by (relation "measure (\<lambda>(buf, max_len, out, sz, len). unat max_len - len)") auto

declare parse_loop.simps [simp del]

definition dirent_parse_name :: "u8 list option \<Rightarrow> u64 \<Rightarrow> u8 list option \<Rightarrow> u64 \<Rightarrow> (i32 \<times> u8 list option) res" where
  "dirent_parse_name buf max_len name_out name_out_size = (case (buf, name_out) of
       (Some b, Some out) \<Rightarrow>
         if name_out_size = 0 then Inr (- 1, name_out)
         else bindR (parse_loop b max_len out name_out_size 0) (\<lambda>(out, len).
           bindR (wr out (int len) 0) (\<lambda>out. Inr (of_nat len, Some out)))
     | _ \<Rightarrow> Inr (- 1, name_out))"

definition dirent_aligned_size :: "u64 \<Rightarrow> u64 \<Rightarrow> u64" where
  "dirent_aligned_size name_len alignment =
     (let alignment = if alignment = 0 then 1 else alignment;
          base_size = 4 + 1 + 2;
          total_size = base_size + name_len + 1;
          remainder = total_size mod alignment in
      if remainder \<noteq> 0 then total_size + (alignment - remainder) else total_size)"

subsection \<open>Names\<close>

text \<open>The verdict on a name, as a function of its characters.\<close>

fun verdict :: "u8 list \<Rightarrow> i32 option" where
  "verdict [] = None"
| "verdict (c # cs) = (if c = 0 then Some (if cs = [] then 1 else 0) else if c = 47 \<or> c = 92 then Some 0 else verdict cs)"

lemma valid_loop_eq: "i \<le> len \<Longrightarrow> len \<le> length name \<Longrightarrow> valid_loop name i len = Inr (verdict (drop i (take len name)))"
proof (induction name i len rule: valid_loop.induct)
  case (1 name i len)
  show ?case
  proof (cases "i < len")
    case False
    then show ?thesis by (simp add: valid_loop.simps [of name i len])
  next
    case True
    then have r: "rd name (int i) = Inr (name ! i)" using "1.prems" by (simp add: rd_nat)
    have d: "drop i (take len name) = name ! i # drop (Suc i) (take len name)"
      using True "1.prems" by (simp add: Cons_nth_drop_Suc [symmetric])
    have e: "drop (Suc i) (take len name) = [] \<longleftrightarrow> i = len - 1" using True "1.prems" by auto
    show ?thesis
      using True r "1.IH" [OF True r] "1.prems" e unfolding d by (simp add: valid_loop.simps [of name i len])
  qed
qed

text \<open>A valid name: no separator, and no terminator before the last character.\<close>

definition valid_chars :: "u8 list \<Rightarrow> bool" where
  "valid_chars cs \<longleftrightarrow> 47 \<notin> set cs \<and> 92 \<notin> set cs \<and> 0 \<notin> set (butlast cs)"

lemma verdict_cases:
  "verdict cs = None \<Longrightarrow> valid_chars cs \<and> 0 \<notin> set cs"
  "verdict cs = Some r \<Longrightarrow> r = (if valid_chars cs then 1 else 0) \<or> r = 0 \<and> \<not> valid_chars cs"
  by (induction cs) (auto simp: valid_chars_def split: if_splits)

lemma strcmp_total: "terminated s1 \<Longrightarrow> terminated s2 \<Longrightarrow> \<exists>r. strcmp s1 s2 = Inr r"
  using strcmp_from_eq [of 0 s1 s2] by (auto simp: strcmp_def)

lemma parse_loop_eq:
  assumes "len \<le> n" "n = min (unat max_len) (min (unat (sz - 1)) (length (cstr buf)))" "terminated buf" "n < length out"
  shows "parse_loop buf max_len out sz len = Inr (take len out @ take (n - len) (drop len buf) @ drop n out, n)"
  using assms
proof (induction buf max_len out sz len rule: parse_loop.induct)
  case (1 buf max_len out sz len)
  note step = parse_loop.simps [of buf max_len out sz len]
  have b: "length (cstr buf) < length buf" using cstr_length "1.prems"(3) by blast
  show ?case
  proof (cases "len = n")
    case True
    have "\<not> (n < unat max_len \<and> n < unat (sz - 1)) \<or> buf ! n = 0"
      using "1.prems"(2) cstr_end [OF "1.prems"(3)] by (auto simp: min_def split: if_splits)
    moreover have "n < length buf" using b "1.prems"(2) by linarith
    ultimately have "parse_loop buf max_len out sz n = Inr (out, n)" by (subst parse_loop.simps) (auto simp: rd_nat)
    with True show ?thesis by simp
  next
    case False
    then have l: "len < unat max_len \<and> len < unat (sz - 1)" "len < length (cstr buf)" "len < n" using "1.prems"(1,2) by auto
    have r: "rd buf (int len) = Inr (buf ! len)" "buf ! len \<noteq> 0" "wr out (int len) (buf ! len) = Inr (out[len := buf ! len])"
      using l(2,3) b cstr_nonzero "1.prems"(4) by (simp_all add: rd_nat wr_nat)
    have "n - len = Suc (n - Suc len)" using l(3) by simp
    with l r "1.IH" [OF l(1) r] "1.prems" b show ?thesis
      by (simp add: step take_Suc_conv_app_nth Cons_nth_drop_Suc [symmetric])
  qed
qed

lemma take_cstr: "k \<le> length (cstr bs) \<Longrightarrow> take k bs = take k (cstr bs)"
  by (subst cstr_take) (simp add: min_absorb1)

lemma wr_joint: "length xs = n \<Longrightarrow> n < length ys \<Longrightarrow> wr (xs @ drop n ys) (int n) c = Inr (xs @ c # drop (Suc n) ys)"
  by (simp add: wr_nat list_update_append Cons_nth_drop_Suc [symmetric])

text \<open>C27. Directory entry names: a valid name of 1 to 255 characters stored in an entry is the one read back and entries
  compare equal exactly when their names are equal, the check accepts exactly the names without separators and early terminators, and parsing
  a name returns its length and leaves the name cut to the size of the buffer.\<close>

theorem dirent_names:
  assumes "terminated name" "length (d_name d) = 256" "terminated buf" "sz \<noteq> 0" "unat sz \<le> length out"
    and "0 < len" "len \<le> 255" "len < length chars" "terminated (drop len chars)"
  shows "(if cstr name = [] \<or> 255 < length (cstr name) then dirent_init (Some d) n ty (Some name) = Inr (- 1, Some d)
      else \<exists>d'. dirent_init (Some d) n ty (Some name) = Inr (0, Some d') \<and> cstr (d_name d') = cstr name \<and>
        unat (d_name_len d') = length (cstr name) \<and> d_ino d' = n \<and> d_type d' = ty \<and> length (d_name d') = 256 \<and>
        dirent_compare (Some d') (Some d') = Inr 0 \<and>
        (\<forall>e. terminated (d_name e) \<longrightarrow> (\<exists>r. dirent_compare (Some d') (Some e) = Inr r \<and> (r = 0 \<longleftrightarrow> cstr name = cstr (d_name e))))) \<and>
    dirent_name_valid (Some chars) len = Inr (if valid_chars (take len chars) then 1 else 0) \<and>
    (\<exists>out'. dirent_parse_name (Some buf) max_len (Some out) sz =
        Inr (of_nat (length (cstr out')), Some out') \<and>
      cstr out' = take (min (unat max_len) (unat sz - 1)) (cstr buf) \<and> length out' = length out)"
proof (intro conjI)
  show "if cstr name = [] \<or> 255 < length (cstr name) then dirent_init (Some d) n ty (Some name) = Inr (- 1, Some d)
      else \<exists>d'. dirent_init (Some d) n ty (Some name) = Inr (0, Some d') \<and> cstr (d_name d') = cstr name \<and>
        unat (d_name_len d') = length (cstr name) \<and> d_ino d' = n \<and> d_type d' = ty \<and> length (d_name d') = 256 \<and>
        dirent_compare (Some d') (Some d') = Inr 0 \<and>
        (\<forall>e. terminated (d_name e) \<longrightarrow> (\<exists>r. dirent_compare (Some d') (Some e) = Inr r \<and> (r = 0 \<longleftrightarrow> cstr name = cstr (d_name e))))"
  proof (cases "cstr name = [] \<or> 255 < length (cstr name)")
    case True
    then show ?thesis using assms(1) by (auto simp: dirent_init_def strlen_eq MAX_DIRENT_NAME_def)
  next
    case False
    let ?s = "cstr name @ 0 # drop (Suc (length (cstr name))) (d_name d)"
    have m: "unat ((256 :: u64) - 1) = 255" by (subst unat_pred) simp_all
    have s: "strcpy_safe (d_name d) name 256 = Inr ?s"
      using copy_bounded [OF assms(1), of 0 255 "d_name d"] False assms(2) unfolding strcpy_safe_def m by simp
    have c: "cstr ?s = cstr name" "terminated ?s" using cstr_append_zero(1) [OF cstr_no_zero] cstr_append_zero(2) by blast+
    have l: "unat (of_nat (length (cstr name)) :: u16) = length (cstr name)"
      using False by (simp add: unat_of_nat take_bit_nat_eq_self)
    have "strcmp ?s ?s = Inr 0" using strcmp_from_eq [of 0 ?s ?s] c(2) by (auto simp: strcmp_def)
    moreover have "\<exists>r. strcmp ?s (d_name e) = Inr r \<and> (r = 0 \<longleftrightarrow> cstr name = cstr (d_name e))" if "terminated (d_name e)" for e
      using strcmp_from_eq [of 0 ?s "d_name e"] c that by (auto simp: strcmp_def)
    ultimately show ?thesis using False s c l assms(1,2)
      by (auto simp: dirent_init_def strlen_eq MAX_DIRENT_NAME_def dirent_compare_def)
  qed
  have v: "valid_loop chars 0 len = Inr (verdict (take len chars))" using valid_loop_eq [of 0 len chars] assms(8) by simp
  have "terminated chars" using assms(9) by (auto simp: terminated_def dest: in_set_dropD)
  then obtain r1 r2 where "strcmp chars [46, 0] = Inr r1" "strcmp chars [46, 46, 0] = Inr r2"
    using strcmp_total by (metis cstr_append_zero(2) append_Cons append_Nil)
  then show "dirent_name_valid (Some chars) len = Inr (if valid_chars (take len chars) then 1 else 0)"
    using v assms(6,7) verdict_cases [of "take len chars"]
    by (cases "verdict (take len chars)") (auto simp: dirent_name_valid_def MAX_DIRENT_NAME_def)
  define k where "k = min (unat max_len) (min (unat (sz - 1)) (length (cstr buf)))"
  have sz: "unat (sz - 1) = unat sz - 1" "0 < unat sz" using assms(4) by (simp_all add: unat_pred unat_gt_0)
  have no: "k < length out" "k \<le> length (cstr buf)" "length (take k buf) = k"
    using sz assms(5) cstr_length [OF assms(3)] unfolding k_def by auto
  let ?o = "take k buf @ 0 # drop (Suc k) out"
  have "parse_loop buf max_len out sz 0 = Inr (take k buf @ drop k out, k)"
    using parse_loop_eq [OF _ k_def assms(3) no(1), of 0] by simp
  moreover have "wr (take k buf @ drop k out) (int k) 0 = Inr ?o" using wr_joint [OF no(3,1)] .
  moreover have c: "cstr ?o = take k (cstr buf)"
    unfolding take_cstr [OF no(2)] by (rule cstr_append_zero(1)) (use cstr_no_zero [of buf] in \<open>auto dest: in_set_takeD\<close>)
  moreover have "take k (cstr buf) = take (min (unat max_len) (unat sz - 1)) (cstr buf)"
    unfolding k_def sz(1) min.assoc [symmetric] by (simp add: min_def)
  moreover have "length (cstr ?o) = k" using no(2) by (simp add: c)
  moreover have "length ?o = length out" using no by simp
  ultimately show "\<exists>out'. dirent_parse_name (Some buf) max_len (Some out) sz =
        Inr (of_nat (length (cstr out')), Some out') \<and>
      cstr out' = take (min (unat max_len) (unat sz - 1)) (cstr buf) \<and> length out' = length out"
    using assms(4) by (intro exI [of _ ?o]) (simp add: dirent_parse_name_def)
qed

theorem dirent_names_witness:
  "dirent_name_valid (Some [97, 47, 98, 0]) 3 = Inr 0 \<and>
   (\<exists>out'. dirent_parse_name (Some [97, 98, 99, 0]) 10 (Some [0, 0, 0]) 3 = Inr (of_nat (length (cstr out')), Some out') \<and> cstr out' = [97, 98])"
proof -
  let ?d = "\<lparr>d_ino = 0, d_type = 0, d_name_len = 0, d_name = replicate 256 0\<rparr>"
  have "terminated ([97, 0] :: u8 list)" "length (d_name ?d) = 256" "terminated ([97, 98, 99, 0] :: u8 list)" "(3 :: u64) \<noteq> 0"
    "unat (3 :: u64) \<le> length ([0, 0, 0] :: u8 list)" "(0::nat) < 3" "(3::nat) \<le> 255" "3 < length ([97, 47, 98, 0] :: u8 list)"
    "terminated (drop 3 ([97, 47, 98, 0] :: u8 list))"
    by (simp_all add: terminated_def)
  note t = dirent_names [OF this, THEN conjunct2, of 10]
  have "\<not> valid_chars (take 3 [97, 47, 98, 0])" by (simp add: valid_chars_def)
  then have "dirent_name_valid (Some [97, 47, 98, 0]) 3 = Inr 0" using t [THEN conjunct1] by simp
  moreover have "take (min (unat (10 :: u64)) (unat (3 :: u64) - 1)) (cstr [97, 98, 99, 0]) = [97, 98]" by (simp add: cstr_def)
  ultimately show ?thesis using t [THEN conjunct2] by auto
qed

lemma round_up:
  assumes "0 < (a::nat)" "s = (if t mod a \<noteq> 0 then t + (a - t mod a) else t)"
  shows "s mod a = 0 \<and> t \<le> s \<and> s < t + a"
proof (cases "t mod a = 0")
  case False
  have "t = t div a * a + t mod a" "t mod a < a" "s = t + (a - t mod a)" using assms False by simp_all
  then have "s = t div a * a + a" "t \<le> s" "s < t + a" using False by linarith+
  then show ?thesis by simp
qed (use assms in simp)

text \<open>C28. The size of an entry on a block-aligned file system: it holds the seven bytes of the header, the name and its terminator, is a
  multiple of the alignment and wastes less than one alignment unit.\<close>

theorem dirent_aligned:
  assumes "unat name_len + 8 + unat alignment < 2 ^ 64"
  shows "(alignment \<noteq> 0 \<longrightarrow> unat (dirent_aligned_size name_len alignment) mod unat alignment = 0) \<and>
    unat name_len + 8 \<le> unat (dirent_aligned_size name_len alignment) \<and>
    unat (dirent_aligned_size name_len alignment) < unat name_len + 8 + max 1 (unat alignment)"
proof -
  define a where "a = (if alignment = 0 then 1 else alignment)"
  define t where "t = 4 + 1 + 2 + name_len + 1"
  let ?A = "unat a" and ?T = "unat name_len + 8"
  have A: "0 < ?A" "?A = max 1 (unat alignment)" "alignment \<noteq> 0 \<Longrightarrow> ?A = unat alignment"
    by (auto simp: a_def unat_gt_0 Suc_le_eq max_def)
  have b: "?T + ?A < 2 ^ 64 + 1" using assms A(2) by (cases "unat alignment = 0") (auto simp: max_def)
  have T: "unat t = ?T" using assms by (simp add: t_def unat_word_ariths)
  have r: "unat (t mod a) = ?T mod ?A" by (simp add: unat_mod_distrib T)
  have e: "dirent_aligned_size name_len alignment = (if t mod a \<noteq> 0 then t + (a - t mod a) else t)"
    by (simp add: dirent_aligned_size_def Let_def a_def t_def)
  have "unat (dirent_aligned_size name_len alignment) = (if ?T mod ?A \<noteq> 0 then ?T + (?A - ?T mod ?A) else ?T)"
  proof (cases "?T mod ?A = 0")
    case True
    with r have "t mod a = 0" by (simp add: unat_eq_0)
    with True T show ?thesis by (simp add: e)
  next
    case False
    have nz: "t mod a \<noteq> 0"
    proof
      assume "t mod a = 0"
      then have "unat (t mod a) = 0" by simp
      with False r show False by simp
    qed
    have "?T mod ?A < ?A" using A(1) by simp
    then have "unat (a - t mod a) = ?A - ?T mod ?A" using r by (simp add: unat_sub word_le_nat_alt)
    moreover have "?T + (?A - ?T mod ?A) < 2 ^ 64" using b False \<open>?T mod ?A < ?A\<close> by linarith
    ultimately have "unat (t + (a - t mod a)) = ?T + (?A - ?T mod ?A)" using T by (subst unat_plus_simple [THEN iffD1]) (simp_all add: no_olen_add_nat)
    with False nz show ?thesis unfolding e by (simp only: if_True not_False_eq_True)
  qed
  from round_up [OF A(1) this] show ?thesis unfolding A(2) [symmetric] using A(3) by metis
qed

theorem dirent_aligned_witness: "unat (dirent_aligned_size 5 4) mod 4 = 0 \<and> unat (dirent_aligned_size 5 4) < 17"
proof -
  have "unat (5 :: u64) + 8 + unat (4 :: u64) < 2 ^ 64" by simp
  from dirent_aligned [OF this] show ?thesis by simp
qed

end
