(* ===== verification/Block.thy ===== *)
theory Block
  imports Kstd
begin

text \<open>
  Block devices: the registry (\<open>core/fs/block.c\<close>), the two drivers that serve memory images
  (\<open>core/drivers/ramdisk.c\<close>, \<open>core/drivers/cdrom.c\<close>) and the layer that reads a device as a file
  (\<open>core/fs/block_dev_vfs.c\<close>).  A driver operation gets the private pointer of its device, the only
  field of the device the drivers use; the allocator is an argument.
\<close>

subsection \<open>The registry\<close>

definition MAX_BLOCK_DEVICES :: nat where "MAX_BLOCK_DEVICES = 16"

definition ENODEV :: i32 where "ENODEV = 19"
definition ENOMEM :: i32 where "ENOMEM = 12"
definition EINVAL :: i32 where "EINVAL = 22"
definition EROFS :: i32 where "EROFS = 30"

record 's block_device_ops =
  read_blocks :: "u64 \<Rightarrow> u64 \<Rightarrow> u64 \<Rightarrow> u8 list \<Rightarrow> 's \<Rightarrow> (i32 \<times> u8 list \<times> 's) res"
  write_blocks :: "u64 \<Rightarrow> u64 \<Rightarrow> u64 \<Rightarrow> u8 list \<Rightarrow> 's \<Rightarrow> (i32 \<times> 's) res"

record 's block_device =
  bname :: "u8 list"
  block_size :: u32
  total_blocks :: u64
  ops :: "'s block_device_ops"
  private_data :: u64
  bused :: bool

definition zero_device :: "'s block_device" where
  "zero_device = \<lparr>bname = replicate 32 0, block_size = 0, total_blocks = 0,
     ops = \<lparr>read_blocks = \<lambda>_ _ _ _ _. Inl NullPointer, write_blocks = \<lambda>_ _ _ _ _. Inl NullPointer\<rparr>,
     private_data = 0, bused = False\<rparr>"

definition block_init :: "'s block_device list" where
  "block_init = replicate MAX_BLOCK_DEVICES zero_device"

definition register_block_device ::
    "u8 list \<Rightarrow> u32 \<Rightarrow> u64 \<Rightarrow> 's block_device_ops \<Rightarrow> u64 \<Rightarrow> 's block_device list \<Rightarrow> (i32 \<times> 's block_device list) res" where
  "register_block_device name bs tb ops' priv devs =
     bindR (search (\<lambda>d. \<not> bused d) devs 0 MAX_BLOCK_DEVICES) (\<lambda>r.
     case r of None \<Rightarrow> Inr (- ENOMEM, devs)
     | Some i \<Rightarrow>
         bindR (strcpy_safe (bname (devs ! i)) name 32) (\<lambda>nm.
         Inr (0, devs[i := (devs ! i)\<lparr>bname := nm, block_size := bs, total_blocks := tb, ops := ops', private_data := priv, bused := True\<rparr>])))"

text \<open>The lookup compares names with \<open>strcmp\<close>, which can run past the end of a name.\<close>

function find_from :: "u8 list \<Rightarrow> 's block_device list \<Rightarrow> nat \<Rightarrow> nat option res" where
  "find_from name devs i =
     (if i < MAX_BLOCK_DEVICES then
        bindR (rd devs (int i)) (\<lambda>d.
        if bused d then bindR (strcmp (bname d) name) (\<lambda>r. if r = 0 then Inr (Some i) else find_from name devs (Suc i))
        else find_from name devs (Suc i))
      else Inr None)"
  by pat_completeness auto
termination
  by (relation "measure (\<lambda>(name, devs, i). MAX_BLOCK_DEVICES - i)") auto

declare find_from.simps [simp del]

definition find_block_device :: "u8 list \<Rightarrow> 's block_device list \<Rightarrow> nat option res" where
  "find_block_device name devs = find_from name devs 0"

subsection \<open>Memory images\<close>

text \<open>The state of the two drivers: the RAM disks by their private pointer, and the ISO image.\<close>

record ramdisk =
  image :: "u8 list"
  rsize :: u64

record 's images =
  ramdisks :: "u64 \<Rightarrow> ramdisk option"
  iso_memory :: "u8 list option"
  iso_size :: u64
  other :: 's

definition RAMDISK_BLOCK_SIZE :: u64 where "RAMDISK_BLOCK_SIZE = 512"

definition CDROM_BLOCK_SIZE :: u64 where "CDROM_BLOCK_SIZE = 2048"

definition ramdisk_read_blocks :: "u64 \<Rightarrow> u64 \<Rightarrow> u64 \<Rightarrow> u8 list \<Rightarrow> 's images \<Rightarrow> (i32 \<times> u8 list \<times> 's images) res" where
  "ramdisk_read_blocks priv lba count buf s = (case ramdisks s priv of
       None \<Rightarrow> Inl NullPointer
     | Some d \<Rightarrow>
         let offset = lba * RAMDISK_BLOCK_SIZE; bytes = count * RAMDISK_BLOCK_SIZE in
         if offset + bytes > rsize d then Inr (- EINVAL, buf, s)
         else bindR (memcpy buf 0 (drop (unat offset) (image d)) (unat bytes)) (\<lambda>buf. Inr (0, buf, s)))"

definition ramdisk_write_blocks :: "u64 \<Rightarrow> u64 \<Rightarrow> u64 \<Rightarrow> u8 list \<Rightarrow> 's images \<Rightarrow> (i32 \<times> 's images) res" where
  "ramdisk_write_blocks priv lba count buf s = (case ramdisks s priv of
       None \<Rightarrow> Inl NullPointer
     | Some d \<Rightarrow>
         let offset = lba * RAMDISK_BLOCK_SIZE; bytes = count * RAMDISK_BLOCK_SIZE in
         if offset + bytes > rsize d then Inr (- EINVAL, s)
         else bindR (memcpy (image d) (unat offset) buf (unat bytes)) (\<lambda>img.
           Inr (0, s\<lparr>ramdisks := (ramdisks s)(priv := Some (d\<lparr>image := img\<rparr>))\<rparr>)))"

definition ramdisk_ops :: "'s images block_device_ops" where
  "ramdisk_ops = \<lparr>read_blocks = ramdisk_read_blocks, write_blocks = ramdisk_write_blocks\<rparr>"

text \<open>Registration; \<open>rd\<close> is the pointer \<open>kmalloc\<close> returned for the descriptor.\<close>

definition ramdisk_register ::
    "u64 \<Rightarrow> u8 list \<Rightarrow> u8 list \<Rightarrow> u64 \<Rightarrow> 's images block_device list \<Rightarrow> 's images \<Rightarrow> ('s images block_device list \<times> 's images) res" where
  "ramdisk_register p name img sz devs s =
     (if p = 0 then Inr (devs, s)
      else
        let s = s\<lparr>ramdisks := (ramdisks s)(p := Some \<lparr>image = img, rsize = sz\<rparr>)\<rparr> in
        bindR (register_block_device name (ucast RAMDISK_BLOCK_SIZE) (sz div RAMDISK_BLOCK_SIZE) ramdisk_ops p devs) (\<lambda>(_, devs).
        Inr (devs, s)))"

definition cdrom_read_blocks_impl :: "u64 \<Rightarrow> u64 \<Rightarrow> u64 \<Rightarrow> u8 list \<Rightarrow> 's images \<Rightarrow> (i32 \<times> u8 list \<times> 's images) res" where
  "cdrom_read_blocks_impl priv lba count buf s = (case iso_memory s of
       None \<Rightarrow> Inr (- ENODEV, buf, s)
     | Some img \<Rightarrow>
         let offset = lba * CDROM_BLOCK_SIZE; bytes_to_read = count * CDROM_BLOCK_SIZE in
         if offset + bytes_to_read > iso_size s then Inr (- EINVAL, buf, s)
         else bindR (memcpy buf 0 (drop (unat offset) img) (unat bytes_to_read)) (\<lambda>buf. Inr (0, buf, s)))"

definition cdrom_write_blocks_impl :: "u64 \<Rightarrow> u64 \<Rightarrow> u64 \<Rightarrow> u8 list \<Rightarrow> 's images \<Rightarrow> (i32 \<times> 's images) res" where
  "cdrom_write_blocks_impl priv lba count buf s = Inr (- EROFS, s)"

definition cdrom_ops :: "'s images block_device_ops" where
  "cdrom_ops = \<lparr>read_blocks = cdrom_read_blocks_impl, write_blocks = cdrom_write_blocks_impl\<rparr>"

definition cdrom_set_iso_data :: "u8 list option \<Rightarrow> u64 \<Rightarrow> 's images \<Rightarrow> 's images" where
  "cdrom_set_iso_data dat sz s = s\<lparr>iso_memory := dat, iso_size := sz\<rparr>"

definition cdrom0 :: "u8 list" where
  "cdrom0 = [99, 100, 114, 111, 109, 48, 0]"

definition cdrom_init :: "'s images block_device list \<Rightarrow> 's images \<Rightarrow> (bool \<times> 's images block_device list) res" where
  "cdrom_init devs s =
     (if iso_memory s \<noteq> None \<and> iso_size s > 0 then
        bindR (register_block_device cdrom0 (ucast CDROM_BLOCK_SIZE) (iso_size s div CDROM_BLOCK_SIZE) cdrom_ops 0 devs) (\<lambda>(_, devs).
        Inr (True, devs))
      else Inr (True, devs))"

subsection \<open>Devices as files\<close>

text \<open>The allocator a device file uses: a buffer or a failure, and releasing a buffer.\<close>

record 's allocator =
  al_kmalloc :: "u64 \<Rightarrow> 's \<Rightarrow> buf option \<times> 's"
  al_kfree :: "u64 \<Rightarrow> 's \<Rightarrow> 's"

text \<open>
  The copy loop.  The position is a signed 64-bit number and the device size an unsigned product; the
  result is the value returned, the caller's buffer, the new position and the state.
\<close>

partial_function (option) bdev_read_loop ::
    "'s allocator \<Rightarrow> 's block_device \<Rightarrow> u64 \<Rightarrow> u8 list \<Rightarrow> u64 \<Rightarrow> u64 \<Rightarrow> u64 \<Rightarrow> 's \<Rightarrow> (u64 \<times> u8 list \<times> u64 \<times> 's) res option" where
  "bdev_read_loop al dev pos0 out count pos nread s =
     (if count = 0 then Some (Inr (nread, out, pos, s))
      else if block_size dev = 0 then Some (Inl DivideError)
      else
        let lba = word_of_int (sint pos sdiv uint (block_size dev));
            offset_in_block = word_of_int (sint pos smod uint (block_size dev));
            dev_size = total_blocks dev * ucast (block_size dev) in
        if total_blocks dev \<le> lba then Some (Inr (nread, out, pos, s))
        else case al_kmalloc al (ucast (block_size dev)) s of
          (None, s) \<Rightarrow> Some (Inr (scast (- ENOMEM), out, pos0, s))
        | (Some b, s) \<Rightarrow>
            (case read_blocks (ops dev) (private_data dev) lba 1 (snd b) s of
               Inl e \<Rightarrow> Some (Inl e)
             | Inr (result, block_buf, s) \<Rightarrow>
                 if result \<noteq> 0 then
                   (let s = al_kfree al (fst b) s in
                    if nread > 0 then Some (Inr (nread, out, pos, s)) else Some (Inr (scast result, out, pos0, s)))
                 else
                   let n = ucast (block_size dev) - offset_in_block;
                       n = if n > count then count else n;
                       n = if pos + n > dev_size then dev_size - pos else n in
                   case memcpy out (unat nread) (drop (unat offset_in_block) block_buf) (unat n) of
                     Inl e \<Rightarrow> Some (Inl e)
                   | Inr out \<Rightarrow>
                       let s = al_kfree al (fst b) s in
                       if n = 0 \<and> count - n > 0 then Some (Inr (nread + n, out, pos + n, s))
                       else bdev_read_loop al dev pos0 out (count - n) (pos + n) (nread + n) s))"

definition bdev_read ::
    "'s allocator \<Rightarrow> 's block_device option \<Rightarrow> u8 list option \<Rightarrow> u64 \<Rightarrow> u64 \<Rightarrow> 's \<Rightarrow> (u64 \<times> u8 list option \<times> u64 \<times> 's) res" where
  "bdev_read al dev_data buf count pos s = (case (dev_data, buf) of
       (Some dev, Some out) \<Rightarrow>
         if sint pos \<ge> sint (total_blocks dev * ucast (block_size dev)) then Inr (0, buf, pos, s)
         else (case bdev_read_loop al dev pos out count pos 0 s of
             None \<Rightarrow> Inl Diverges
           | Some r \<Rightarrow> bindR r (\<lambda>(ret, out, pos, s). Inr (ret, Some out, pos, s)))
     | _ \<Rightarrow> Inr (scast (- EINVAL), buf, pos, s))"

definition bdev_write :: "'s block_device option \<Rightarrow> u8 list \<Rightarrow> u64 \<Rightarrow> 's \<Rightarrow> (u64 \<times> 's) res" where
  "bdev_write dev_data buf count s = (case dev_data of
       None \<Rightarrow> Inr (scast (- EINVAL), s)
     | Some dev \<Rightarrow> bindR (write_blocks (ops dev) (private_data dev) 0 0 [] s) (\<lambda>(r, s). Inr (scast r, s)))"

text \<open>Every device in use is registered under \<open>/dev\<close>, with the two registration functions as arguments.\<close>

definition dev_prefix :: "u8 list" where
  "dev_prefix = [47, 100, 101, 118, 47, 0]"

fun vfs_init_loop :: "(u8 list \<Rightarrow> nat \<Rightarrow> 'k \<Rightarrow> 'k) \<Rightarrow> (u8 list \<Rightarrow> nat \<Rightarrow> 'k \<Rightarrow> 'k) \<Rightarrow> 's block_device list \<Rightarrow> nat \<Rightarrow> 'k \<Rightarrow> 'k res" where
  "vfs_init_loop pseudo_register devfs_register [] i k = Inr k"
| "vfs_init_loop pseudo_register devfs_register (d # devs) i k =
     (if bused d then
        bindR (strcpy (replicate 256 0) dev_prefix) (\<lambda>dev_path.
        bindR (strcat dev_path (bname d)) (\<lambda>dev_path.
        vfs_init_loop pseudo_register devfs_register devs (Suc i) (devfs_register (bname d) i (pseudo_register dev_path i k))))
      else vfs_init_loop pseudo_register devfs_register devs (Suc i) k)"

definition block_dev_vfs_init ::
    "(u8 list \<Rightarrow> nat \<Rightarrow> 'k \<Rightarrow> 'k) \<Rightarrow> (u8 list \<Rightarrow> nat \<Rightarrow> 'k \<Rightarrow> 'k) \<Rightarrow> 's block_device list \<Rightarrow> 'k \<Rightarrow> 'k res" where
  "block_dev_vfs_init pseudo_register devfs_register devs k = vfs_init_loop pseudo_register devfs_register devs 0 k"

subsection \<open>Reading a device\<close>

text \<open>Overwriting part of a buffer.\<close>

definition blit :: "u8 list \<Rightarrow> nat \<Rightarrow> u8 list \<Rightarrow> u8 list" where
  "blit out t xs = take t out @ xs @ drop (t + length xs) out"

lemma blit_length: "t + length xs \<le> length out \<Longrightarrow> length (blit out t xs) = length out"
  by (simp add: blit_def)

lemma blit_Nil [simp]: "blit out t [] = out"
  by (simp add: blit_def)

lemma blit_blit:
  "t + length xs \<le> length out \<Longrightarrow> blit (blit out t xs) (t + length xs) ys = blit out t (xs @ ys)"
  by (simp add: blit_def add.commute add.left_commute)

lemma memcpy_blit: "n \<le> length src \<Longrightarrow> t + n \<le> length out \<Longrightarrow> memcpy out t src n = Inr (blit out t (take n src))"
  by (simp add: memcpy_eq blit_def)

lemma sdiv_nat: "int a sdiv int b = int (a div b)"
  by (simp add: signed_divide_int_def sgn_if zdiv_int)

lemma smod_nat: "int a smod int b = int (a mod b)"
  by (simp add: signed_modulo_int_def signed_divide_int_def sgn_if zmod_int)

text \<open>
  What a device file asks of the allocator: it may fail, but a buffer it does return has the size
  requested, and neither allocating nor freeing touches the device.
\<close>

definition alloc_safe :: "('s \<Rightarrow> u8 list) \<Rightarrow> ('s \<Rightarrow> bool) \<Rightarrow> 's allocator \<Rightarrow> bool" where
  "alloc_safe content good al \<longleftrightarrow>
     (\<forall>n s b s'. good s \<and> al_kmalloc al n s = (b, s') \<longrightarrow> good s' \<and> content s' = content s \<and> (\<forall>x. b = Some x \<longrightarrow> length (snd x) = unat n)) \<and>
     (\<forall>p s. good s \<longrightarrow> good (al_kfree al p s) \<and> content (al_kfree al p s) = content s)"

text \<open>In no state a request of \<open>n\<close> bytes fails.\<close>

definition alloc_serves :: "('s \<Rightarrow> bool) \<Rightarrow> 's allocator \<Rightarrow> u64 \<Rightarrow> bool" where
  "alloc_serves good al n \<longleftrightarrow> (\<forall>s. good s \<longrightarrow> fst (al_kmalloc al n s) \<noteq> None)"

text \<open>What a driver promises: reading one block of a device delivers that block of its content.\<close>

locale block_driver =
  fixes content :: "'s \<Rightarrow> u8 list" and good :: "'s \<Rightarrow> bool" and bs :: nat
    and rdb :: "u64 \<Rightarrow> u64 \<Rightarrow> u8 list \<Rightarrow> 's \<Rightarrow> (i32 \<times> u8 list \<times> 's) res"
  assumes bs_pos: "0 < bs"
    and read_one: "good s \<Longrightarrow> (unat lba + 1) * bs \<le> length (content s) \<Longrightarrow> length buf = bs \<Longrightarrow>
      rdb lba 1 buf s = Inr (0, take bs (drop (unat lba * bs) (content s)), s)"
    and content_size: "good s \<Longrightarrow> length (content s) < 2 ^ 63"
begin

definition device :: "'s block_device \<Rightarrow> 's \<Rightarrow> bool" where
  "device dev s \<longleftrightarrow> good s \<and> read_blocks (ops dev) (private_data dev) = rdb \<and>
     unat (block_size dev) = bs \<and> unat (total_blocks dev) * bs = length (content s)"

lemma position_block:
  assumes "unat (pos :: u64) < 2 ^ 63" "unat (block_size dev) = bs"
  shows "unat (word_of_int (sint pos sdiv uint (block_size dev)) :: u64) = unat pos div bs"
    and "unat (word_of_int (sint pos smod uint (block_size dev)) :: u64) = unat pos mod bs"
proof -
  have p: "sint pos = int (unat pos)" using sint_small_eq_uint [of pos] assms(1) by (simp add: unat_less_uint)
  have b: "uint (block_size dev) = int bs" using assms(2) by auto
  have d: "int (unat pos) sdiv int bs = int (unat pos div bs)" "int (unat pos) smod int bs = int (unat pos mod bs)"
    by (rule sdiv_nat, rule smod_nat)
  have "unat pos < 2 ^ 64" using assms(1) by simp
  then have "unat pos div bs < 2 ^ 64" "unat pos mod bs < 2 ^ 64"
    by (rule le_less_trans [OF div_le_dividend], rule le_less_trans [OF mod_less_eq_dividend])
  then show "unat (word_of_int (sint pos sdiv uint (block_size dev)) :: u64) = unat pos div bs"
    and "unat (word_of_int (sint pos smod uint (block_size dev)) :: u64) = unat pos mod bs"
    unfolding p b d by (simp_all add: unat_of_nat take_bit_nat_eq_self del: of_nat_div of_nat_mod)
qed

lemma round_fits:
  assumes "device dev s" "unat pos < length (content s)"
  shows "unat pos + (bs - unat pos mod bs) = (unat pos div bs + 1) * bs" "(unat pos div bs + 1) * bs \<le> length (content s)"
    "unat pos div bs < unat (total_blocks dev)" "unat pos + (bs - unat pos mod bs) \<le> length (content s)"
proof -
  let ?q = "unat pos div bs" and ?r = "unat pos mod bs"
  have tb: "unat (total_blocks dev) * bs = length (content s)" using assms(1) by (simp add: device_def)
  have dm: "?q * bs + ?r = unat pos" by simp
  with assms(2) tb show q: "?q < unat (total_blocks dev)" by (metis mult_le_mono1 not_le add_leD1 le_less_trans less_irrefl)
  then show b: "(?q + 1) * bs \<le> length (content s)" using tb by (metis Suc_eq_plus1 Suc_leI mult_le_mono1)
  have "?r < bs" using bs_pos by simp
  then show e: "unat pos + (bs - ?r) = (?q + 1) * bs" unfolding add_mult_distrib using dm by linarith
  show "unat pos + (bs - ?r) \<le> length (content s)" unfolding e by (rule b)
qed

text \<open>One round of the loop in the middle of the device.\<close>

lemma read_round:
  assumes "device dev s" "alloc_safe content good al" "unat pos < length (content s)" "count \<noteq> 0" "unat nread + unat count \<le> length out"
    and "al_kmalloc al (ucast (block_size dev)) s = (Some b1, s1)"
  defines "n \<equiv> min (bs - unat pos mod bs) (unat count)"
  shows "\<exists>s'. device dev s' \<and> content s' = content s \<and>
    bdev_read_loop al dev pos0 out count pos nread s =
      bdev_read_loop al dev pos0 (blit out (unat nread) (take n (drop (unat pos) (content s)))) (count - of_nat n) (pos + of_nat n) (nread + of_nat n) s'"
proof -
  let ?C = "content s" and ?q = "unat pos div bs" and ?r = "unat pos mod bs"
  from assms(1) have g: "good s" and ops: "read_blocks (ops dev) (private_data dev) = rdb"
    and bsz: "unat (block_size dev) = bs" and tb: "unat (total_blocks dev) * bs = length ?C" by (auto simp: device_def)
  have L: "length ?C < 2 ^ 63" using content_size [OF g] .
  let ?lba = "word_of_int (sint pos sdiv uint (block_size dev)) :: u64" and ?off = "word_of_int (sint pos smod uint (block_size dev)) :: u64"
  have pos: "unat ?lba = ?q" "unat ?off = ?r" using position_block [of pos dev] assms(3) L bsz by auto
  have dm: "?q * bs + ?r = unat pos" by simp
  note e = round_fits(1) [OF assms(1,3)] and b = round_fits(2) [OF assms(1,3)] and q = round_fits(3) [OF assms(1,3)]
  have r: "?r < bs" using bs_pos by simp
  have ub: "unat (ucast (block_size dev) :: u64) = bs" using bsz by (simp add: unat_ucast_up)
  have s1: "al_kmalloc al (ucast (block_size dev)) s = (Some b1, s1)" "length (snd b1) = bs" "good s1" "content s1 = ?C"
    using assms(2,6) g ub unfolding alloc_safe_def by metis+
  let ?blk = "take bs (drop (?q * bs) ?C)"
  have rd: "read_blocks (ops dev) (private_data dev) ?lba 1 (snd b1) s1 = Inr (0, ?blk, s1)"
    unfolding ops using read_one [OF s1(3), of ?lba "snd b1"] s1(2,4) b pos(1) by simp
  let ?s2 = "al_kfree al (fst b1) s1"
  have s2: "good ?s2" "content ?s2 = ?C" using assms(2) s1(3,4) by (auto simp: alloc_safe_def)
  have n: "n \<le> bs - ?r" "n \<le> unat count" "0 < n" using r assms(4) by (auto simp: n_def unat_gt_0)
  have "take n (drop ?r ?blk) = take n (drop (unat pos) ?C)"
    using n(1) dm by (simp add: drop_take min_absorb1 add.commute)
  moreover have "n \<le> length (drop ?r ?blk)" using n(1) b by simp
  ultimately have cp: "memcpy out (unat nread) (drop ?r ?blk) n = Inr (blit out (unat nread) (take n (drop (unat pos) ?C)))"
    using memcpy_blit [of n "drop ?r ?blk" "unat nread" out] n(2) assms(5) by simp
  let ?N = "of_nat n :: u64" and ?size = "total_blocks dev * ucast (block_size dev) :: u64"
  have N: "unat ?N = n" using n(2) by (metis le_unat_uoi)
  have off: "unat (ucast (block_size dev) - ?off) = bs - ?r" using ub pos(2) r by (simp add: unat_sub word_le_nat_alt)
  have size: "unat ?size = length ?C" using tb ub L by (simp add: unat_word_ariths)
  have "unat pos + n \<le> length ?C" using e b n(1) by linarith
  moreover from this L have "unat (pos + ?N) = unat pos + n" using N by (simp add: unat_word_ariths)
  ultimately have fits: "\<not> pos + ?N > ?size" using size by (simp add: word_less_nat_alt)
  have min: "(if ucast (block_size dev) - ?off > count then count else ucast (block_size dev) - ?off) = ?N"
    using off N unfolding word_unat_eq_iff word_less_nat_alt n_def by (simp add: min_def)
  have conds: "block_size dev \<noteq> 0" "\<not> total_blocks dev \<le> ?lba" "?N \<noteq> 0"
    using bsz bs_pos q pos(1) n(3) N by (auto simp: word_le_nat_alt)
  have "bdev_read_loop al dev pos0 out count pos nread s =
      bdev_read_loop al dev pos0 (blit out (unat nread) (take n (drop (unat pos) ?C))) (count - ?N) (pos + ?N) (nread + ?N) ?s2"
    using assms(4) conds fits
    by (subst bdev_read_loop.simps) (simp add: Let_def s1(1) rd min pos(2) N cp del: of_int_of_nat_eq)
  moreover have "device dev ?s2" using assms(1) s2 by (simp add: device_def)
  ultimately show ?thesis using s2(2) by blast
qed

lemma read_end:
  assumes "device dev s" "unat pos = length (content s)" "count \<noteq> 0"
  shows "bdev_read_loop al dev pos0 out count pos nread s = Some (Inr (nread, out, pos, s))"
proof -
  from assms(1) have g: "good s" and bsz: "unat (block_size dev) = bs"
    and tb: "unat (total_blocks dev) * bs = length (content s)" by (auto simp: device_def)
  have "unat (word_of_int (sint pos sdiv uint (block_size dev)) :: u64) = unat pos div bs"
    using position_block(1) [of pos dev] content_size [OF g] assms(2) bsz by auto
  also have "\<dots> = unat (total_blocks dev)" using assms(2) tb bs_pos by (metis nonzero_mult_div_cancel_right less_numeral_extra(3))
  finally have "total_blocks dev \<le> word_of_int (sint pos sdiv uint (block_size dev))" by (simp add: word_le_nat_alt)
  moreover have "block_size dev \<noteq> 0" using bsz bs_pos by auto
  ultimately show ?thesis using assms(3) by (subst bdev_read_loop.simps) simp
qed

text \<open>An allocation that fails ends the loop, with the position reset to where the call began.\<close>

lemma read_nomem:
  assumes "device dev s" "alloc_safe content good al" "unat pos < length (content s)" "count \<noteq> 0"
    and "al_kmalloc al (ucast (block_size dev)) s = (None, s0)"
  shows "bdev_read_loop al dev pos0 out count pos nread s = Some (Inr (scast (- ENOMEM), out, pos0, s0))"
    and "device dev s0" "content s0 = content s" "\<not> alloc_serves good al (ucast (block_size dev))"
proof -
  from assms(1) have g: "good s" by (simp add: device_def)
  show c: "content s0 = content s" and "device dev s0"
    using assms(1,2,5) g unfolding alloc_safe_def device_def by metis+
  show "\<not> alloc_serves good al (ucast (block_size dev))" using assms(5) g unfolding alloc_serves_def by (metis fst_conv)
  have p: "unat (word_of_int (sint pos sdiv uint (block_size dev)) :: u64) = unat pos div bs" "block_size dev \<noteq> 0"
    using position_block(1) [of pos dev] assms(1,3) content_size [OF g] bs_pos by (auto simp: device_def)
  then have "\<not> total_blocks dev \<le> word_of_int (sint pos sdiv uint (block_size dev))"
    using round_fits(3) [OF assms(1,3)] by (simp add: word_le_nat_alt)
  then show "bdev_read_loop al dev pos0 out count pos nread s = Some (Inr (scast (- ENOMEM), out, pos0, s0))"
    using assms(4,5) p(2) by (subst bdev_read_loop.simps) (simp add: Let_def)
qed

text \<open>
  The outcome of the loop: all the bytes there are, or an error after some of them when an
  allocation fails.
\<close>

lemma read_loop:
  assumes "alloc_safe content good al"
  shows "device dev s \<Longrightarrow> unat pos \<le> length (content s) \<Longrightarrow> unat nread + unat count \<le> length out \<Longrightarrow> length out < 2 ^ 64 \<Longrightarrow>
    \<exists>s'. device dev s' \<and> content s' = content s \<and>
      (let n = min (unat count) (length (content s) - unat pos) in
       bdev_read_loop al dev pos0 out count pos nread s =
         Some (Inr (nread + of_nat n, blit out (unat nread) (take n (drop (unat pos) (content s))), pos + of_nat n, s')) \<or>
       \<not> alloc_serves good al (ucast (block_size dev)) \<and> (\<exists>m < n. bdev_read_loop al dev pos0 out count pos nread s =
         Some (Inr (scast (- ENOMEM), blit out (unat nread) (take m (drop (unat pos) (content s))), pos0, s'))))"
proof (induction "unat count" arbitrary: out count pos nread s rule: less_induct)
  case less
  let ?C = "content s"
  consider (fin) "count = 0" | (eof) "count \<noteq> 0" "unat pos = length ?C"
    | (nomem) s0 where "count \<noteq> 0" "unat pos < length ?C" "al_kmalloc al (ucast (block_size dev)) s = (None, s0)"
    | (more) b0 s0 where "count \<noteq> 0" "unat pos < length ?C" "al_kmalloc al (ucast (block_size dev)) s = (Some b0, s0)"
    using less.prems(2) by (metis le_neq_implies_less option.exhaust surj_pair)
  then show ?case
  proof cases
    case fin
    then show ?thesis using less.prems(1) by (auto simp: bdev_read_loop.simps Let_def)
  next
    case eof
    then show ?thesis using less.prems(1) read_end [OF less.prems(1) eof(2,1)] by (auto simp: Let_def)
  next
    case nomem
    note r = read_nomem [OF less.prems(1) assms nomem(2,1,3)]
    have "0 < min (unat count) (length ?C - unat pos)" using nomem(1,2) by (simp add: unat_gt_0)
    with r show ?thesis by (intro exI [of _ s0]) (auto simp: Let_def)
  next
    case more
    define n where "n = min (bs - unat pos mod bs) (unat count)"
    let ?N = "of_nat n :: u64" and ?out = "blit out (unat nread) (take n (drop (unat pos) ?C))"
    obtain s1 where s1: "device dev s1" "content s1 = ?C"
      "bdev_read_loop al dev pos0 out count pos nread s = bdev_read_loop al dev pos0 ?out (count - ?N) (pos + ?N) (nread + ?N) s1"
      using read_round [OF less.prems(1) assms more(2,1) less.prems(3) more(3), of pos0] unfolding n_def by blast
    have n: "0 < n" "n \<le> unat count" using more(1) bs_pos by (auto simp: n_def unat_gt_0)
    have N: "unat ?N = n" using n(2) by (metis le_unat_uoi)
    have nC: "unat pos + n \<le> length ?C" using round_fits [OF less.prems(1) more(2)] by (simp add: n_def)
    have L: "length ?C < 2 ^ 63" using content_size less.prems(1) by (simp add: device_def)
    have "unat pos + n < 2 ^ 64" "unat nread + n < 2 ^ 64" using nC L less.prems(3,4) n(2) by simp_all
    then have p: "unat (pos + ?N) = unat pos + n" "unat (count - ?N) = unat count - n" "unat (nread + ?N) = unat nread + n"
      using N n(2) by (simp_all add: unat_word_ariths unat_sub word_le_nat_alt)
    have lt: "length (take n (drop (unat pos) ?C)) = n" using nC by simp
    then have lo: "length ?out = length out" using less.prems(3) n(2) by (subst blit_length) simp_all
    let ?m = "min (unat count - n) (length ?C - (unat pos + n))"
    have m: "n + ?m = min (unat count) (length ?C - unat pos)" using n nC by auto
    have e: "take n (drop (unat pos) ?C) @ take k (drop (unat pos + n) ?C) = take (n + k) (drop (unat pos) ?C)" for k
      using take_add [of n k "drop (unat pos) ?C"] by (simp add: add.commute [of n "unat pos"])
    have j: "blit ?out (unat nread + n) (take k (drop (unat pos + n) ?C)) = blit out (unat nread) (take (n + k) (drop (unat pos) ?C))" for k
      using blit_blit [of "unat nread" "take n (drop (unat pos) ?C)" out "take k (drop (unat pos + n) ?C)"] lt less.prems(3) n(2)
      unfolding e by simp
    let ?R = "bdev_read_loop al dev pos0 ?out (count - ?N) (pos + ?N) (nread + ?N) s1"
    obtain s2 where s2: "device dev s2" "content s2 = ?C"
      "?R = Some (Inr (nread + ?N + of_nat ?m, blit ?out (unat nread + n) (take ?m (drop (unat pos + n) ?C)), pos + ?N + of_nat ?m, s2)) \<or>
       \<not> alloc_serves good al (ucast (block_size dev)) \<and>
       (\<exists>k < ?m. ?R = Some (Inr (scast (- ENOMEM), blit ?out (unat nread + n) (take k (drop (unat pos + n) ?C)), pos0, s2)))"
      using less.hyps [of "count - ?N" s1 "pos + ?N" "nread + ?N" ?out] s1(1,2) p n less.prems nC lo by (auto simp: Let_def)
    have nm: "x + ?N + of_nat ?m = x + of_nat (n + ?m)" for x :: u64 by simp
    have lt: "n + k < n + ?m" if "k < ?m" for k using that by linarith
    from s2(3) have "?R = Some (Inr (nread + of_nat (n + ?m), blit out (unat nread) (take (n + ?m) (drop (unat pos) ?C)), pos + of_nat (n + ?m), s2)) \<or>
       \<not> alloc_serves good al (ucast (block_size dev)) \<and>
       (\<exists>k < n + ?m. ?R = Some (Inr (scast (- ENOMEM), blit out (unat nread) (take k (drop (unat pos) ?C)), pos0, s2)))"
      unfolding j nm using lt by blast
    then show ?thesis using s2(1,2) unfolding s1(3) Let_def m by blast
  qed
qed

lemma at_end:
  assumes "device dev s" "unat (pos :: u64) < 2 ^ 63"
  shows "sint (total_blocks dev * ucast (block_size dev) :: u64) \<le> sint pos \<longleftrightarrow> length (content s) \<le> unat pos"
proof -
  let ?C = "content s" and ?size = "total_blocks dev * ucast (block_size dev) :: u64"
  from assms(1) have g: "good s" and bsz: "unat (block_size dev) = bs"
    and tb: "unat (total_blocks dev) * bs = length ?C" by (auto simp: device_def)
  have L: "length ?C < 2 ^ 63" using content_size [OF g] .
  then have size: "unat ?size = length ?C" using tb bsz by (simp add: unat_word_ariths unat_ucast_up)
  then have "uint ?size = int (length ?C)" by (metis uint_nat)
  then have s: "sint ?size = int (length ?C)" "sint pos = int (unat pos)"
    using L assms(2) sint_small_eq_uint [of ?size] sint_small_eq_uint [of pos] by (simp_all add: unat_less_uint)
  show ?thesis unfolding s by (rule of_nat_le_iff)
qed

text \<open>Reading a device as a file delivers its bytes from the position on, as many as fit the request and the device.\<close>

lemma read_file:
  assumes "alloc_safe content good al" "device dev s" "unat pos < 2 ^ 63" "unat count \<le> length out" "length out < 2 ^ 64"
  shows "\<exists>s'. device dev s' \<and> content s' = content s \<and>
    (let n = min (unat count) (length (content s) - unat pos) in
     bdev_read al (Some dev) (Some out) count pos s =
       Inr (of_nat n, Some (blit out 0 (take n (drop (unat pos) (content s)))), pos + of_nat n, s') \<or>
     \<not> alloc_serves good al (ucast (block_size dev)) \<and> (\<exists>m < n. bdev_read al (Some dev) (Some out) count pos s =
       Inr (scast (- ENOMEM), Some (blit out 0 (take m (drop (unat pos) (content s)))), pos, s')))"
proof -
  let ?C = "content s"
  note c = at_end [OF assms(2,3)]
  show ?thesis
  proof (cases "length ?C \<le> unat pos")
    case True
    then show ?thesis using c assms(2) by (auto simp: bdev_read_def Let_def)
  next
    case False
    then have "\<not> sint (total_blocks dev * ucast (block_size dev) :: u64) \<le> sint pos" using c by simp
    moreover obtain s' where s': "device dev s'" "content s' = ?C"
      "let n = min (unat count) (length ?C - unat pos) in
       bdev_read_loop al dev pos out count pos 0 s =
         Some (Inr (0 + of_nat n, blit out (unat (0 :: u64)) (take n (drop (unat pos) ?C)), pos + of_nat n, s')) \<or>
       \<not> alloc_serves good al (ucast (block_size dev)) \<and> (\<exists>m < n. bdev_read_loop al dev pos out count pos 0 s =
         Some (Inr (scast (- ENOMEM), blit out (unat (0 :: u64)) (take m (drop (unat pos) ?C)), pos, s')))"
      using read_loop [OF assms(1,2), of pos 0 count out pos] False assms(4,5) by (elim exE conjE meta_impE) auto
    ultimately show ?thesis
      by (intro exI [of _ s']) (auto simp: bdev_read_def Let_def)
  qed
qed

end

subsection \<open>The drivers\<close>

definition ramdisk_content :: "ramdisk \<Rightarrow> 's images \<Rightarrow> u8 list" where
  "ramdisk_content d s = take (unat (rsize d) div 512 * 512) (image d)"

definition ramdisk_good :: "u64 \<Rightarrow> ramdisk \<Rightarrow> 's images \<Rightarrow> bool" where
  "ramdisk_good p d s \<longleftrightarrow> ramdisks s p = Some d \<and> unat (rsize d) \<le> length (image d) \<and> unat (rsize d) < 2 ^ 63"

definition iso_content :: "u8 list \<Rightarrow> u64 \<Rightarrow> 's images \<Rightarrow> u8 list" where
  "iso_content img sz s = take (unat sz div 2048 * 2048) img"

definition iso_good :: "u8 list \<Rightarrow> u64 \<Rightarrow> 's images \<Rightarrow> bool" where
  "iso_good img sz s \<longleftrightarrow> iso_memory s = Some img \<and> iso_size s = sz \<and> unat sz \<le> length img \<and> unat sz < 2 ^ 63"

text \<open>The bounds check of the drivers, for a block inside the image.\<close>

lemma block_inside:
  fixes lba bs sz :: u64
  assumes "(unat lba + 1) * unat bs \<le> unat sz div unat bs * unat bs" "unat sz < 2 ^ 63"
  shows "\<not> lba * bs + 1 * bs > sz" "unat (lba * bs) = unat lba * unat bs" "unat lba * unat bs + unat bs \<le> unat sz"
proof -
  have le: "unat lba * unat bs + unat bs \<le> unat sz"
    using order_trans [OF assms(1) div_times_less_eq_dividend] by (simp only: add_mult_distrib mult_1)
  then show "unat lba * unat bs + unat bs \<le> unat sz" .
  then have "unat lba * unat bs + unat bs < 2 ^ 64" using assms(2) by simp
  then show e: "unat (lba * bs) = unat lba * unat bs" by (simp add: unat_word_ariths)
  have "unat (lba * bs + bs) = unat lba * unat bs + unat bs" using \<open>_ < 2 ^ 64\<close> e by (simp add: unat_word_ariths)
  with le show "\<not> lba * bs + 1 * bs > sz" by (simp add: word_less_nat_alt)
qed

lemma image_block:
  assumes "(k + 1) * b \<le> n" "n \<le> length img" "length buf = b"
  shows "memcpy buf 0 (drop (k * b) img) b = Inr (take b (drop (k * b) (take n img)))"
proof -
  have "k * b + b \<le> n" using assms(1) by (simp only: add_mult_distrib mult_1)
  then show ?thesis using assms(2,3) by (simp add: memcpy_eq drop_take min_absorb1)
qed

interpretation rdk: block_driver "ramdisk_content d" "ramdisk_good p d" 512 "ramdisk_read_blocks p" for p d
proof
  fix s :: "'a images" and lba :: u64 and buf :: "u8 list"
  assume g: "ramdisk_good p d s"
  then have d: "ramdisks s p = Some d" "unat (rsize d) \<le> length (image d)" "unat (rsize d) < 2 ^ 63" by (auto simp: ramdisk_good_def)
  have l: "length (ramdisk_content d s) = unat (rsize d) div 512 * 512"
    using d(2) div_times_less_eq_dividend [of "unat (rsize d)" 512] by (simp add: ramdisk_content_def)
  show "length (ramdisk_content d s) < 2 ^ 63" using l d(3) div_times_less_eq_dividend [of "unat (rsize d)" 512] by linarith
  assume b: "(unat lba + 1) * 512 \<le> length (ramdisk_content d s)" "length buf = 512"
  have i: "\<not> lba * 512 + 1 * 512 > rsize d" "unat (lba * 512) = unat lba * 512"
    using block_inside [of lba 512 "rsize d"] b(1) d(3) l by simp_all
  show "ramdisk_read_blocks p lba 1 buf s = Inr (0, take 512 (drop (unat lba * 512) (ramdisk_content d s)), s)"
    using i image_block [of "unat lba" 512 "unat (rsize d) div 512 * 512" "image d" buf] b l d(2)
      div_times_less_eq_dividend [of "unat (rsize d)" 512]
    by (simp add: ramdisk_read_blocks_def d(1) RAMDISK_BLOCK_SIZE_def Let_def ramdisk_content_def)
qed simp

interpretation iso: block_driver "iso_content img sz" "iso_good img sz" 2048 "cdrom_read_blocks_impl p" for p img sz
proof
  fix s :: "'a images" and lba :: u64 and buf :: "u8 list"
  assume g: "iso_good img sz s"
  then have d: "iso_memory s = Some img" "iso_size s = sz" "unat sz \<le> length img" "unat sz < 2 ^ 63" by (auto simp: iso_good_def)
  have l: "length (iso_content img sz s) = unat sz div 2048 * 2048"
    using d(3) div_times_less_eq_dividend [of "unat sz" 2048] by (simp add: iso_content_def)
  show "length (iso_content img sz s) < 2 ^ 63" using l d(4) div_times_less_eq_dividend [of "unat sz" 2048] by linarith
  assume b: "(unat lba + 1) * 2048 \<le> length (iso_content img sz s)" "length buf = 2048"
  have i: "\<not> lba * 2048 + 1 * 2048 > sz" "unat (lba * 2048) = unat lba * 2048"
    using block_inside [of lba 2048 sz] b(1) d(4) l by simp_all
  show "cdrom_read_blocks_impl p lba 1 buf s = Inr (0, take 2048 (drop (unat lba * 2048) (iso_content img sz s)), s)"
    using i image_block [of "unat lba" 2048 "unat sz div 2048 * 2048" img buf] b l d(3)
      div_times_less_eq_dividend [of "unat sz" 2048]
    by (simp add: cdrom_read_blocks_impl_def d(1,2) CDROM_BLOCK_SIZE_def Let_def iso_content_def)
qed simp

subsection \<open>Registered devices\<close>

definition registry_ok :: "'s block_device list \<Rightarrow> bool" where
  "registry_ok devs \<longleftrightarrow> length devs = MAX_BLOCK_DEVICES \<and>
     (\<forall>d \<in> set devs. length (bname d) = 32 \<and> (bused d \<longrightarrow> terminated (bname d)))"

definition named :: "u8 list \<Rightarrow> 's block_device \<Rightarrow> bool" where
  "named name d \<longleftrightarrow> bused d \<and> cstr (bname d) = cstr name"

lemma find_from_search:
  assumes "registry_ok devs" "terminated name"
  shows "find_from name devs i = search (named name) devs i MAX_BLOCK_DEVICES"
  using assms
proof (induction name devs i rule: find_from.induct)
  case (1 name devs i)
  show ?case
  proof (cases "i < MAX_BLOCK_DEVICES")
    case False
    then show ?thesis by (simp add: find_from.simps [of name devs i] search.simps [of _ devs i])
  next
    case True
    then have l: "i < length devs" using "1.prems"(1) by (simp add: registry_ok_def)
    then have r: "rd devs (int i) = Inr (devs ! i)" by (rule rd_nat)
    have t: "bused (devs ! i) \<Longrightarrow> terminated (bname (devs ! i))" using "1.prems"(1) l by (simp add: registry_ok_def)
    show ?thesis
    proof (cases "bused (devs ! i)")
      case False
      with True r "1.IH"(2) [OF True r False] "1.prems" show ?thesis
        by (simp add: find_from.simps [of name devs i] search.simps [of _ devs i] named_def)
    next
      case u: True
      obtain c where c: "strcmp (bname (devs ! i)) name = Inr c" "c = 0 \<longleftrightarrow> cstr (bname (devs ! i)) = cstr name"
        using strcmp_from_eq [of 0 "bname (devs ! i)" name] t [OF u] "1.prems"(2) by (auto simp: strcmp_def)
      with True r u "1.IH"(1) [OF True r u c(1)] "1.prems" show ?thesis
        by (auto simp: find_from.simps [of name devs i] search.simps [of _ devs i] named_def)
    qed
  qed
qed

lemma register_found:
  assumes "registry_ok devs" "terminated name" "length (cstr name) \<le> 31" "\<exists>d \<in> set devs. \<not> bused d" "\<forall>d \<in> set devs. \<not> named name d"
  shows "\<exists>i devs'. register_block_device name bs tb ops' priv devs = Inr (0, devs') \<and> registry_ok devs' \<and>
    find_block_device name devs' = Inr (Some i) \<and> i < length devs' \<and>
    block_size (devs' ! i) = bs \<and> total_blocks (devs' ! i) = tb \<and> ops (devs' ! i) = ops' \<and> private_data (devs' ! i) = priv"
proof -
  have l: "length devs = MAX_BLOCK_DEVICES" and wf: "\<And>d. d \<in> set devs \<Longrightarrow> length (bname d) = 32" using assms(1) by (auto simp: registry_ok_def)
  obtain i where i: "search (\<lambda>d. \<not> bused d) devs 0 MAX_BLOCK_DEVICES = Inr (Some i)"
    using search_found_iff [of MAX_BLOCK_DEVICES devs "\<lambda>d. \<not> bused d"] assms(4) l by auto
  then have il: "i < length devs" using search_Some by blast
  let ?nm = "cstr name @ 0 # drop (Suc (length (cstr name))) (bname (devs ! i))"
  have m: "unat ((32 :: u64) - 1) = 31" by (subst unat_pred) simp_all
  have s: "strcpy_safe (bname (devs ! i)) name 32 = Inr ?nm"
    using copy_bounded [OF assms(2), of 0 31 "bname (devs ! i)"] assms(3) wf [of "devs ! i"] il unfolding strcpy_safe_def m by simp
  have nm: "cstr ?nm = cstr name" "terminated ?nm" "length ?nm = 32"
    using cstr_append_zero(1) [OF cstr_no_zero] cstr_append_zero(2) wf [of "devs ! i"] il assms(3) by auto
  let ?d = "(devs ! i)\<lparr>bname := ?nm, block_size := bs, total_blocks := tb, ops := ops', private_data := priv, bused := True\<rparr>"
  let ?devs = "devs[i := ?d]"
  have reg: "register_block_device name bs tb ops' priv devs = Inr (0, ?devs)"
    by (simp add: register_block_device_def i s)
  have "length (bname d) = 32 \<and> (bused d \<longrightarrow> terminated (bname d))" if "d \<in> set ?devs" for d
  proof -
    from that have "d = ?d \<or> d \<in> set devs" using set_update_subset_insert [of devs i ?d] by blast
    then show ?thesis
    proof
      assume d: "d = ?d"
      then have "bname d = ?nm" by simp
      with nm(2,3) show ?thesis by metis
    qed (use assms(1) in \<open>auto simp: registry_ok_def\<close>)
  qed
  then have ok: "registry_ok ?devs" using l by (simp add: registry_ok_def)
  have only: "named name (?devs ! j) \<longleftrightarrow> j = i" if "j < length devs" for j
    using that il nm(1) assms(5) by (cases "j = i") (auto simp: named_def)
  obtain k where k: "search (named name) ?devs 0 MAX_BLOCK_DEVICES = Inr (Some k)"
    using search_found_iff [of MAX_BLOCK_DEVICES ?devs "named name"] only [OF il] il l by (metis length_list_update nth_mem order_refl take_all_iff)
  then have "k = i" using search_Some [OF k] only [of k] by auto
  with k have "find_block_device name ?devs = Inr (Some i)" using find_from_search [OF ok assms(2)] by (simp add: find_block_device_def)
  with reg ok il show ?thesis by (intro exI [of _ i] exI [of _ ?devs]) simp
qed

text \<open>C24. A RAM disk registered under a new name is found under it, and reading it as a file from any position returns, and stores in
  the caller's buffer, the bytes of the image from there on: as many as requested or as the whole blocks of the image hold, with the
  position advanced by as much.  The one exception is an allocation of a block buffer that fails: then the call returns \<open>-ENOMEM\<close>
  with the position unchanged and a proper prefix of those bytes in the buffer.  Of the allocator it is assumed that a buffer it
  returns has the size requested and that it leaves the image alone, and nothing about when it fails.\<close>

theorem ramdisk_file:
  assumes "p \<noteq> 0" "unat sz \<le> length img" "unat sz < 2 ^ 63"
    and "registry_ok devs" "terminated name" "length (cstr name) \<le> 31" "\<exists>d \<in> set devs. \<not> bused d" "\<forall>d \<in> set devs. \<not> named name d"
    and "alloc_safe (ramdisk_content \<lparr>image = img, rsize = sz\<rparr>) (ramdisk_good p \<lparr>image = img, rsize = sz\<rparr>) al"
    and "unat pos < 2 ^ 63" "unat count \<le> length out" "length out < 2 ^ 64"
  shows "\<exists>devs' s1 i s2. ramdisk_register p name img sz devs s = Inr (devs', s1) \<and> registry_ok devs' \<and>
    find_block_device name devs' = Inr (Some i) \<and>
    (let n = min (unat count) (unat sz div 512 * 512 - unat pos) in
     bdev_read al (Some (devs' ! i)) (Some out) count pos s1 =
       Inr (of_nat n, Some (blit out 0 (take n (drop (unat pos) img))), pos + of_nat n, s2) \<or>
     \<not> alloc_serves (ramdisk_good p \<lparr>image = img, rsize = sz\<rparr>) al 512 \<and>
       (\<exists>m < n. bdev_read al (Some (devs' ! i)) (Some out) count pos s1 =
         Inr (scast (- ENOMEM), Some (blit out 0 (take m (drop (unat pos) img))), pos, s2)))"
proof -
  let ?d = "\<lparr>image = img, rsize = sz\<rparr>" and ?s = "s\<lparr>ramdisks := (ramdisks s)(p := Some \<lparr>image = img, rsize = sz\<rparr>)\<rparr>"
  obtain i devs' where r: "register_block_device name (ucast RAMDISK_BLOCK_SIZE) (sz div RAMDISK_BLOCK_SIZE) ramdisk_ops p devs = Inr (0, devs')"
      "registry_ok devs'" "find_block_device name devs' = Inr (Some i)"
      "block_size (devs' ! i) = ucast RAMDISK_BLOCK_SIZE" "total_blocks (devs' ! i) = sz div RAMDISK_BLOCK_SIZE"
      "ops (devs' ! i) = ramdisk_ops" "private_data (devs' ! i) = p"
    using register_found [OF assms(4-8)] by blast
  have c: "ramdisk_content ?d ?s = take (unat sz div 512 * 512) img" by (simp add: ramdisk_content_def)
  have l: "unat sz div 512 * 512 \<le> length img" using assms(2) div_times_less_eq_dividend [of "unat sz" 512] by linarith
  have dev: "rdk.device ?d p (devs' ! i) ?s"
    using r(4-7) l assms(2,3) by (simp add: rdk.device_def ramdisk_good_def ramdisk_ops_def c RAMDISK_BLOCK_SIZE_def unat_div_distrib)
  have k: "take n (drop (unat pos) (take k img)) = take n (drop (unat pos) img)" if "n \<le> k - unat pos" for n k
    using that by (simp add: drop_take min_absorb1)
  let ?n = "min (unat count) (unat sz div 512 * 512 - unat pos)" and ?R = "bdev_read al (Some (devs' ! i)) (Some out) count pos ?s"
  have n: "min (unat count) (length (ramdisk_content ?d ?s) - unat pos) = ?n" using l by (simp add: c)
  obtain s2 where "?R = Inr (of_nat ?n, Some (blit out 0 (take ?n (drop (unat pos) (ramdisk_content ?d ?s)))), pos + of_nat ?n, s2) \<or>
      \<not> alloc_serves (ramdisk_good p ?d) al 512 \<and>
      (\<exists>m < ?n. ?R = Inr (scast (- ENOMEM), Some (blit out 0 (take m (drop (unat pos) (ramdisk_content ?d ?s)))), pos, s2))"
    using rdk.read_file [OF assms(9) dev assms(10-12)] unfolding Let_def n r(4) RAMDISK_BLOCK_SIZE_def by auto
  moreover have "take m (drop (unat pos) (ramdisk_content ?d ?s)) = take m (drop (unat pos) img)" if "m \<le> ?n" for m
    unfolding c using that by (intro k) simp
  ultimately have "?R = Inr (of_nat ?n, Some (blit out 0 (take ?n (drop (unat pos) img))), pos + of_nat ?n, s2) \<or>
      \<not> alloc_serves (ramdisk_good p ?d) al 512 \<and> (\<exists>m < ?n. ?R = Inr (scast (- ENOMEM), Some (blit out 0 (take m (drop (unat pos) img))), pos, s2))"
    by (metis less_imp_le order_refl)
  moreover have "ramdisk_register p name img sz devs s = Inr (devs', ?s)" using r(1) assms(1) by (simp add: ramdisk_register_def Let_def)
  ultimately show ?thesis using r(2,3) unfolding Let_def by blast
qed

theorem ramdisk_file_witness:
  "\<exists>devs' s1 i s2. ramdisk_register 4096 [104, 100, 97, 0] (replicate 512 7) 512 block_init \<lparr>ramdisks = Map.empty, iso_memory = None, iso_size = 0, other = ()\<rparr> = Inr (devs', s1) \<and>
     find_block_device [104, 100, 97, 0] devs' = Inr (Some i) \<and>
     bdev_read \<lparr>al_kmalloc = \<lambda>n s. (if 0 < n \<and> n \<le> 4096 then Some (8192, replicate (unat n) 0) else None, s), al_kfree = \<lambda>p s. s\<rparr>
         (Some (devs' ! i)) (Some [1, 2, 3, 4, 5]) 5 510 s1
       = Inr (2, Some [7, 7, 3, 4, 5], 512, s2)"
proof -
  let ?d = "\<lparr>image = replicate 512 7, rsize = 512\<rparr>" and ?devs = "block_init :: unit images block_device list"
  let ?al = "\<lparr>al_kmalloc = \<lambda>n s. (if 0 < n \<and> n \<le> 4096 then Some (8192, replicate (unat n) 0) else None, s), al_kfree = \<lambda>p s. s\<rparr> :: unit images allocator"
  let ?s = "\<lparr>ramdisks = Map.empty, iso_memory = None, iso_size = 0, other = ()\<rparr>"
  have al: "alloc_safe (ramdisk_content ?d) (ramdisk_good 4096 ?d) ?al" "alloc_serves (ramdisk_good 4096 ?d) ?al 512"
    by (auto simp: alloc_safe_def alloc_serves_def split: if_splits)
  have devs: "registry_ok ?devs" "\<exists>d \<in> set ?devs. \<not> bused d" "\<forall>d \<in> set ?devs. \<not> named [104, 100, 97, 0] d"
    by (auto simp: registry_ok_def block_init_def MAX_BLOCK_DEVICES_def zero_device_def named_def)
  have nm: "terminated [104, 100, 97, 0]" "length (cstr [104, 100, 97, 0]) \<le> 31" by (simp_all add: terminated_def cstr_def)
  have n: "(4096 :: u64) \<noteq> 0" "unat (512 :: u64) \<le> length (replicate 512 (7 :: u8))" "unat (512 :: u64) < 2 ^ 63" "unat (510 :: u64) < 2 ^ 63"
    "unat (5 :: u64) \<le> length [1, 2, 3, 4, 5 :: u8]" "length [1, 2, 3, 4, 5 :: u8] < 2 ^ 64" by simp_all
  have k: "min (unat (5 :: u64)) (unat (512 :: u64) div 512 * 512 - unat (510 :: u64)) = 2" by simp
  have "take 2 (drop (unat (510 :: u64)) (replicate 512 7)) = replicate 2 (7 :: u8)" by simp
  also have "\<dots> = [7, 7]" by (simp add: numeral_2_eq_2)
  finally have "take 2 (drop (unat (510 :: u64)) (replicate 512 7)) = [7, 7 :: u8]" .
  then have b: "blit [1, 2, 3, 4, 5] 0 (take 2 (drop (unat (510 :: u64)) (replicate 512 7))) = [7, 7, 3, 4, 5]"
    by (simp add: blit_def)
  show ?thesis
    using ramdisk_file [OF n(1-3) devs(1) nm devs(2,3) al(1) n(4-6), of ?s] al(2) unfolding k Let_def b by auto
qed

text \<open>Reading the boot image the same way.\<close>

lemma cdrom_file:
  assumes "alloc_safe (iso_content img sz) (iso_good img sz) al" "iso_good img sz s"
    and "ops dev = cdrom_ops" "block_size dev = 2048" "total_blocks dev = sz div 2048"
    and "unat pos < 2 ^ 63" "unat count \<le> length out" "length out < 2 ^ 64"
  shows "\<exists>s'. let n = min (unat count) (unat sz div 2048 * 2048 - unat pos) in
     bdev_read al (Some dev) (Some out) count pos s =
       Inr (of_nat n, Some (blit out 0 (take n (drop (unat pos) (iso_content img sz s)))), pos + of_nat n, s') \<or>
     \<not> alloc_serves (iso_good img sz) al 2048 \<and> (\<exists>m < n. bdev_read al (Some dev) (Some out) count pos s =
       Inr (scast (- ENOMEM), Some (blit out 0 (take m (drop (unat pos) (iso_content img sz s)))), pos, s'))"
proof -
  have l: "length (iso_content img sz s) = unat sz div 2048 * 2048"
    using assms(2) order_trans [OF div_times_less_eq_dividend [of "unat sz" 2048], of "length img"]
    by (simp add: iso_content_def iso_good_def min_absorb2)
  then have "iso.device img sz (private_data dev) dev s"
    using assms(2-5) by (simp add: iso.device_def cdrom_ops_def unat_div_distrib)
  from iso.read_file [OF assms(1) this assms(6-8)] show ?thesis
    unfolding l assms(4) Let_def by auto
qed

text \<open>Writing to the file of a RAM disk reports no error and stores nothing: the driver is asked for no blocks.\<close>

lemma ramdisk_write_ignored:
  assumes "ops dev = ramdisk_ops" "ramdisks s (private_data dev) = Some d"
  shows "bdev_write (Some dev) buf count s = Inr (0, s)"
proof -
  have "(ramdisks s)(private_data dev := Some (d\<lparr>image := image d\<rparr>)) = ramdisks s" using assms(2) by auto
  then show ?thesis
    using assms by (simp add: bdev_write_def ramdisk_ops_def ramdisk_write_blocks_def memcpy_def copy_at.simps RAMDISK_BLOCK_SIZE_def)
qed

text \<open>The path of a device fits its buffer, so that every device in use gets its two nodes.\<close>

definition dev_path :: "u8 list \<Rightarrow> u8 list" where
  "dev_path nm = [47, 100, 101, 118, 47] @ cstr nm @ 0 # replicate (250 - length (cstr nm)) 0"

lemma dev_path_built:
  assumes "terminated nm" "length nm = 32"
  shows "strcpy (replicate 256 0) dev_prefix = Inr (dev_prefix @ replicate 250 0)"
    and "strcat (dev_prefix @ replicate 250 0) nm = Inr (dev_path nm)"
proof -
  have c: "cstr dev_prefix = [47, 100, 101, 118, 47]" "terminated dev_prefix" by (simp_all add: dev_prefix_def cstr_def terminated_def)
  show "strcpy (replicate 256 0) dev_prefix = Inr (dev_prefix @ replicate 250 0)"
    using copy_unbounded [OF c(2), of 0 "replicate 256 0"] by (simp add: strcpy_def c(1)) (simp add: dev_prefix_def)
  let ?p = "dev_prefix @ replicate 250 0"
  have p: "terminated (drop 0 ?p)" "cstr ?p = [47, 100, 101, 118, 47]" by (simp_all add: dev_prefix_def cstr_def terminated_def)
  have "length (cstr nm) < 32" using cstr_length [OF assms(1)] assms(2) by simp
  then show "strcat ?p nm = Inr (dev_path nm)"
    using strlen_from_eq [OF p(1)] copy_unbounded [OF assms(1), of 5 ?p] p(2)
    by (simp add: strcat_def dev_path_def) (simp add: dev_prefix_def eval_nat_numeral)
qed

lemma vfs_init_all:
  "(\<And>d. d \<in> set devs \<Longrightarrow> bused d \<Longrightarrow> terminated (bname d) \<and> length (bname d) = 32) \<Longrightarrow>
   vfs_init_loop pr dr devs i k = Inr (fold (\<lambda>(d, j). if bused d then \<lambda>k. dr (bname d) j (pr (dev_path (bname d)) j k) else id)
     (zip devs [i..<i + length devs]) k)"
proof (induction devs arbitrary: i k)
  case (Cons d devs)
  have u: "[i..<i + length (d # devs)] = i # [Suc i..<Suc i + length devs]" by (simp add: upt_conv_Cons del: upt_Suc)
  show ?case
  proof (cases "bused d")
    case True
    with Cons.prems [of d] dev_path_built [of "bname d"] Cons.IH [of "Suc i"] Cons.prems show ?thesis unfolding u by simp
  next
    case False
    with Cons.IH [of "Suc i"] Cons.prems show ?thesis unfolding u by simp
  qed
qed simp

end
