(* ===== verification/Buddy.thy ===== *)
theory Buddy
  imports Bitmap Spinlock
begin

text \<open>
  The buddy allocator (\<open>core/kernel/mem/buddy.c\<close>).  Pointers and byte counts are 64-bit words, orders and block
  indices natural numbers: an index is an offset divided by at least \<open>2 ^ 12\<close>, so doubling it cannot
  wrap.  A bitmap is its address and its words; a clear bit is a free block.  A kernel panic in the
  initialisation is \<open>None\<close>.
\<close>

subsection \<open>State and helpers\<close>

definition BUDDY_MAX_ORDER :: nat where "BUDDY_MAX_ORDER = 20"

definition BUDDY_MIN_ORDER :: nat where "BUDDY_MIN_ORDER = 12"

definition BUDDY_BLOCK_SIZE :: "nat \<Rightarrow> u64" where
  "BUDDY_BLOCK_SIZE order = push_bit order 1"

type_synonym bitmap = "u64 \<times> u32 list"

record buddy_allocator =
  pool_start :: u64
  pool_size :: u64
  hhdm_offset :: u64
  free_area_bitmap :: "bitmap list"
  free_area_size :: "u64 list"
  max_blocks :: "nat list"
  buddy_lock :: spinlock

function order_loop :: "nat \<Rightarrow> u64 \<Rightarrow> u64 \<Rightarrow> nat \<times> u64" where
  "order_loop order block_size sz =
     (if block_size < sz \<and> order < BUDDY_MAX_ORDER then order_loop (Suc order) (push_bit 1 block_size) sz
      else (order, block_size))"
  by pat_completeness auto
termination
  by (relation "measure (\<lambda>(order, block_size, sz). BUDDY_MAX_ORDER - order)") auto

declare order_loop.simps [simp del]

definition get_minimum_order :: "u64 \<Rightarrow> nat" where
  "get_minimum_order sz = fst (order_loop BUDDY_MIN_ORDER (BUDDY_BLOCK_SIZE BUDDY_MIN_ORDER) sz)"

definition get_buddy_address :: "u64 \<Rightarrow> nat \<Rightarrow> u64 \<Rightarrow> u64" where
  "get_buddy_address block order pool =
     (let offset = block - pool; buddy_offset = offset XOR BUDDY_BLOCK_SIZE order in pool + buddy_offset)"

definition is_valid_block :: "buddy_allocator \<Rightarrow> u64 \<Rightarrow> nat \<Rightarrow> bool" where
  "is_valid_block a ptr order \<longleftrightarrow>
     ptr \<noteq> 0 \<and>
     (let pool_end = pool_start a + pool_size a in
      \<not> (ptr < pool_start a \<or> pool_end \<le> ptr) \<and> (ptr - pool_start a) mod BUDDY_BLOCK_SIZE order = 0)"

definition get_block_index :: "u64 \<Rightarrow> u64 \<Rightarrow> nat \<Rightarrow> nat" where
  "get_block_index ptr pool order = unat ((ptr - pool) div BUDDY_BLOCK_SIZE order)"

definition is_valid_bitmap_index :: "bitmap \<Rightarrow> nat \<Rightarrow> nat \<Rightarrow> bool" where
  "is_valid_bitmap_index bitmap mx index \<longleftrightarrow> fst bitmap \<noteq> 0 \<and> index < mx"

definition buddy_set_bit :: "bitmap \<Rightarrow> nat \<Rightarrow> nat \<Rightarrow> bitmap res" where
  "buddy_set_bit bitmap index mx =
     (if is_valid_bitmap_index bitmap mx index then
        bindR (rd (snd bitmap) (int (index div 32))) (\<lambda>w.
        bindR (wr (snd bitmap) (int (index div 32)) (w OR push_bit (index mod 32) 1)) (\<lambda>ws. Inr (fst bitmap, ws)))
      else Inr bitmap)"

definition buddy_clear_bit :: "bitmap \<Rightarrow> nat \<Rightarrow> nat \<Rightarrow> bitmap res" where
  "buddy_clear_bit bitmap index mx =
     (if is_valid_bitmap_index bitmap mx index then
        bindR (rd (snd bitmap) (int (index div 32))) (\<lambda>w.
        bindR (wr (snd bitmap) (int (index div 32)) (w AND NOT (push_bit (index mod 32) 1))) (\<lambda>ws. Inr (fst bitmap, ws)))
      else Inr bitmap)"

definition buddy_test_bit :: "bitmap \<Rightarrow> nat \<Rightarrow> nat \<Rightarrow> bool res" where
  "buddy_test_bit bitmap index mx =
     (if is_valid_bitmap_index bitmap mx index then
        bindR (rd (snd bitmap) (int (index div 32))) (\<lambda>w. Inr (w AND push_bit (index mod 32) 1 \<noteq> 0))
      else Inr False)"

function find_first_free_bit :: "bitmap \<Rightarrow> nat \<Rightarrow> nat \<Rightarrow> nat option res" where
  "find_first_free_bit bitmap mx i =
     (if i < mx then
        bindR (buddy_test_bit bitmap i mx) (\<lambda>t. if \<not> t then Inr (Some i) else find_first_free_bit bitmap mx (Suc i))
      else Inr None)"
  by pat_completeness auto
termination
  by (relation "measure (\<lambda>(bitmap, mx, i). mx - i)") auto

declare find_first_free_bit.simps [simp del]

definition get_block_address :: "buddy_allocator \<Rightarrow> nat \<Rightarrow> nat \<Rightarrow> u64" where
  "get_block_address a order index = pool_start a + of_nat index * BUDDY_BLOCK_SIZE order"

text \<open>The bit operation \<open>f\<close> on the bitmap of an order, with the number of blocks of that order, and a change of its count.\<close>

definition on_bitmap :: "(bitmap \<Rightarrow> nat \<Rightarrow> nat \<Rightarrow> bitmap res) \<Rightarrow> nat \<Rightarrow> nat \<Rightarrow> buddy_allocator \<Rightarrow> buddy_allocator res" where
  "on_bitmap f order index a =
     bindR (rd (free_area_bitmap a) (int order)) (\<lambda>b.
     bindR (rd (max_blocks a) (int order)) (\<lambda>mx.
     bindR (f b index mx) (\<lambda>b. bindR (wr (free_area_bitmap a) (int order) b) (\<lambda>bs. Inr (a\<lparr>free_area_bitmap := bs\<rparr>)))))"

definition add_size :: "nat \<Rightarrow> u64 \<Rightarrow> buddy_allocator \<Rightarrow> buddy_allocator res" where
  "add_size order d a =
     bindR (rd (free_area_size a) (int order)) (\<lambda>n.
     bindR (wr (free_area_size a) (int order) (n + d)) (\<lambda>ns. Inr (a\<lparr>free_area_size := ns\<rparr>)))"

definition test_block :: "nat \<Rightarrow> nat \<Rightarrow> buddy_allocator \<Rightarrow> bool res" where
  "test_block order index a =
     bindR (rd (free_area_bitmap a) (int order)) (\<lambda>b.
     bindR (rd (max_blocks a) (int order)) (\<lambda>mx. buddy_test_bit b index mx))"

subsection \<open>Allocation\<close>

definition split_block :: "nat \<Rightarrow> nat \<Rightarrow> buddy_allocator \<Rightarrow> buddy_allocator res" where
  "split_block order index a =
     (let new_order = order - 1; left_index = index * 2; right_index = index * 2 + 1 in
      bindR (rd (max_blocks a) (int new_order)) (\<lambda>mx.
      if mx \<le> left_index \<or> mx \<le> right_index then Inr a
      else
        bindR (on_bitmap buddy_clear_bit new_order left_index a) (\<lambda>a.
        bindR (on_bitmap buddy_clear_bit new_order right_index a) (\<lambda>a.
        add_size new_order 2 a))))"

definition take_block :: "nat \<Rightarrow> nat \<Rightarrow> buddy_allocator \<Rightarrow> (u64 \<times> buddy_allocator) res" where
  "take_block order index a =
     bindR (on_bitmap buddy_set_bit order index a) (\<lambda>a.
     bindR (add_size order (- 1) a) (\<lambda>a. Inr (get_block_address a order index, a)))"

function alloc_block :: "nat \<Rightarrow> buddy_allocator \<Rightarrow> (u64 \<times> buddy_allocator) res" where
  "alloc_block order a =
     (if BUDDY_MAX_ORDER < order then Inr (0, a)
      else
        bindR (rd (free_area_size a) (int order)) (\<lambda>n.
        if n = 0 then
          bindR (alloc_block (Suc order) a) (\<lambda>(larger_block, a).
          if larger_block = 0 then Inr (0, a)
          else
            let larger_index = get_block_index larger_block (pool_start a) (Suc order) in
            bindR (split_block (Suc order) larger_index a) (\<lambda>a.
            bindR (rd (max_blocks a) (int order)) (\<lambda>mx.
            let left_index = larger_index * 2; right_index = larger_index * 2 + 1 in
            if mx \<le> left_index then
              (if mx \<le> right_index then Inr (larger_block, a) else take_block order right_index a)
            else take_block order left_index a)))
        else
          bindR (rd (free_area_bitmap a) (int order)) (\<lambda>b.
          bindR (rd (max_blocks a) (int order)) (\<lambda>mx.
          bindR (find_first_free_bit b mx 0) (\<lambda>r.
          case r of None \<Rightarrow> Inr (0, a) | Some free_index \<Rightarrow> take_block order free_index a)))))"
  by pat_completeness auto
termination
  by (relation "measure (\<lambda>(order, a). Suc BUDDY_MAX_ORDER - order)") auto

declare alloc_block.simps [simp del]

definition buddy_alloc :: "buddy_allocator \<Rightarrow> u64 \<Rightarrow> (u64 \<times> buddy_allocator) res" where
  "buddy_alloc a sz =
     (if sz = 0 then Inr (0, a)
      else if sz > pool_size a then Inr (0, a)
      else
        bindR (returns (spinlock_acquire (buddy_lock a))) (\<lambda>l.
        bindR (alloc_block (get_minimum_order sz) (a\<lparr>buddy_lock := l\<rparr>)) (\<lambda>(result, a).
        Inr (result, a\<lparr>buddy_lock := spinlock_release (buddy_lock a)\<rparr>))))"

subsection \<open>Release\<close>

function merge_loop :: "u64 \<Rightarrow> nat \<Rightarrow> nat \<Rightarrow> buddy_allocator \<Rightarrow> buddy_allocator res" where
  "merge_loop current_block current_order index a =
     (if current_order < BUDDY_MAX_ORDER then
        let buddy = get_buddy_address current_block current_order (pool_start a) in
        if \<not> is_valid_block a buddy current_order then Inr a
        else
          let buddy_index = get_block_index buddy (pool_start a) current_order in
          bindR (test_block current_order buddy_index a) (\<lambda>t.
          if t then Inr a
          else
            bindR (test_block current_order index a) (\<lambda>t1.
            bindR (test_block current_order buddy_index a) (\<lambda>t2.
            if t1 \<or> t2 then Inr a
            else
              bindR (on_bitmap buddy_set_bit current_order index a) (\<lambda>a.
              bindR (on_bitmap buddy_set_bit current_order buddy_index a) (\<lambda>a.
              bindR (add_size current_order (- 2) a) (\<lambda>a.
              let merged_block = if current_block < buddy then current_block else buddy;
                  merged_index = get_block_index merged_block (pool_start a) (Suc current_order) in
              bindR (rd (max_blocks a) (int (Suc current_order))) (\<lambda>mx.
              if mx \<le> merged_index then Inr a
              else
                bindR (on_bitmap buddy_clear_bit (Suc current_order) merged_index a) (\<lambda>a.
                bindR (add_size (Suc current_order) 1 a) (\<lambda>a.
                merge_loop merged_block (Suc current_order) merged_index a)))))))))
      else Inr a)"
  by pat_completeness auto
termination
  by (relation "measure (\<lambda>(current_block, current_order, index, a). BUDDY_MAX_ORDER - current_order)") auto

declare merge_loop.simps [simp del]

definition free_block :: "u64 \<Rightarrow> nat \<Rightarrow> buddy_allocator \<Rightarrow> buddy_allocator res" where
  "free_block ptr order a =
     (if \<not> is_valid_block a ptr order then Inr a
      else
        let index = get_block_index ptr (pool_start a) order in
        bindR (on_bitmap buddy_clear_bit order index a) (\<lambda>a.
        bindR (add_size order 1 a) (\<lambda>a. merge_loop ptr order index a)))"

definition buddy_free :: "buddy_allocator \<Rightarrow> u64 \<Rightarrow> nat \<Rightarrow> buddy_allocator res" where
  "buddy_free a ptr order =
     (if ptr = 0 then Inr a
      else if order < BUDDY_MIN_ORDER \<or> BUDDY_MAX_ORDER < order then Inr a
      else if \<not> is_valid_block a ptr order then Inr a
      else
        bindR (returns (spinlock_acquire (buddy_lock a))) (\<lambda>l.
        bindR (free_block ptr order (a\<lparr>buddy_lock := l\<rparr>)) (\<lambda>a.
        Inr (a\<lparr>buddy_lock := spinlock_release (buddy_lock a)\<rparr>))))"

fun sum_free :: "nat list \<Rightarrow> buddy_allocator \<Rightarrow> u64 \<Rightarrow> u64 res" where
  "sum_free [] a acc = Inr acc"
| "sum_free (order # orders) a acc =
     bindR (rd (free_area_size a) (int order)) (\<lambda>n. sum_free orders a (acc + n * BUDDY_BLOCK_SIZE order))"

definition buddy_get_free_memory :: "buddy_allocator \<Rightarrow> (u64 \<times> buddy_allocator) res" where
  "buddy_get_free_memory a =
     bindR (returns (spinlock_acquire (buddy_lock a))) (\<lambda>l.
     bindR (sum_free [BUDDY_MIN_ORDER..<Suc BUDDY_MAX_ORDER] (a\<lparr>buddy_lock := l\<rparr>) 0) (\<lambda>free_memory.
     Inr (free_memory, a\<lparr>buddy_lock := spinlock_release l\<rparr>)))"

definition buddy_get_total_memory :: "buddy_allocator \<Rightarrow> u64" where
  "buddy_get_total_memory a = pool_size a"

subsection \<open>Initialisation\<close>

definition bitmap_words :: "nat \<Rightarrow> nat" where
  "bitmap_words n = (n + 31) div 32"

definition preliminary_max_blocks :: "u64 \<Rightarrow> nat \<Rightarrow> nat" where
  "preliminary_max_blocks sz order = unat (sz div BUDDY_BLOCK_SIZE order)"

definition total_bitmap_size :: "u64 \<Rightarrow> u64" where
  "total_bitmap_size sz =
     fold (\<lambda>order acc. acc + of_nat (bitmap_words (preliminary_max_blocks sz order) * 4)) [BUDDY_MIN_ORDER..<Suc BUDDY_MAX_ORDER] 0"

fun set_max_blocks :: "nat list \<Rightarrow> buddy_allocator \<Rightarrow> buddy_allocator res" where
  "set_max_blocks [] a = Inr a"
| "set_max_blocks (order # orders) a =
     bindR (wr (max_blocks a) (int order) (unat (pool_size a div BUDDY_BLOCK_SIZE order))) (\<lambda>ms.
     set_max_blocks orders (a\<lparr>max_blocks := ms\<rparr>))"

fun place_bitmaps :: "nat list \<Rightarrow> u64 \<Rightarrow> buddy_allocator \<Rightarrow> (u64 \<times> buddy_allocator) res" where
  "place_bitmaps [] bitmap_start a = Inr (bitmap_start, a)"
| "place_bitmaps (order # orders) bitmap_start a =
     bindR (rd (max_blocks a) (int order)) (\<lambda>mx.
     let start = bitmap_start - of_nat (bitmap_words mx * 4) in
     bindR (wr (free_area_bitmap a) (int order) (start, replicate (bitmap_words mx) 0xFFFFFFFF)) (\<lambda>bs.
     bindR (wr (free_area_size a) (int order) 0) (\<lambda>ns.
     place_bitmaps orders start (a\<lparr>free_area_bitmap := bs, free_area_size := ns\<rparr>))))"

fun top_order :: "nat \<Rightarrow> buddy_allocator \<Rightarrow> nat res" where
  "top_order 0 a = Inr 0"
| "top_order (Suc order) a =
     (if BUDDY_MIN_ORDER < Suc order then
        bindR (rd (max_blocks a) (int (Suc order))) (\<lambda>mx. if mx = 0 then top_order order a else Inr (Suc order))
      else Inr (Suc order))"

definition buddy_init :: "buddy_allocator \<Rightarrow> u64 \<Rightarrow> u64 \<Rightarrow> u64 \<Rightarrow> buddy_allocator option res" where
  "buddy_init a start sz hhdm =
     (if start = 0 \<or> sz = 0 \<or> sz < BUDDY_BLOCK_SIZE BUDDY_MIN_ORDER then Inr None
      else
        bindR (returns (spinlock_acquire (spinlock_init (buddy_lock a)))) (\<lambda>l.
        let sz = if sz mod BUDDY_BLOCK_SIZE BUDDY_MIN_ORDER \<noteq> 0 then sz - sz mod BUDDY_BLOCK_SIZE BUDDY_MIN_ORDER else sz;
            total = total_bitmap_size sz in
        if \<not> sz > total then Inr None
        else
          let a = a\<lparr>pool_start := start, pool_size := sz - total, hhdm_offset := hhdm, buddy_lock := l\<rparr> in
          bindR (set_max_blocks [BUDDY_MIN_ORDER..<Suc BUDDY_MAX_ORDER] a) (\<lambda>a.
          bindR (place_bitmaps (rev [BUDDY_MIN_ORDER..<Suc BUDDY_MAX_ORDER]) (pool_start a + pool_size a) a) (\<lambda>(bitmap_start, a).
          if bitmap_start < pool_start a then Inr None
          else
            bindR (top_order BUDDY_MAX_ORDER a) (\<lambda>max_order.
            bindR (rd (max_blocks a) (int max_order)) (\<lambda>mx.
            if max_order < BUDDY_MIN_ORDER \<or> mx = 0 then Inr None
            else
              let block_size = BUDDY_BLOCK_SIZE max_order in
              bindR (if pool_size a mod block_size \<noteq> 0 then
                       bindR (wr (max_blocks a) (int max_order) (unat (pool_size a div block_size * block_size div block_size))) (\<lambda>ms.
                       Inr (a\<lparr>pool_size := pool_size a div block_size * block_size, max_blocks := ms\<rparr>))
                     else Inr a) (\<lambda>a.
              bindR (rd (max_blocks a) (int max_order)) (\<lambda>mx.
              bindR (if mx > 0 then
                       bindR (on_bitmap buddy_clear_bit max_order 0 a) (\<lambda>a.
                       bindR (wr (free_area_size a) (int max_order) 1) (\<lambda>ns. Inr (a\<lparr>free_area_size := ns\<rparr>)))
                     else Inr a) (\<lambda>a.
              Inr (Some (a\<lparr>buddy_lock := spinlock_release (buddy_lock a)\<rparr>)))))))))))"

subsection \<open>Bitmaps\<close>

interpretation buddy_bits: bit_array "\<lambda>b :: bitmap. word_view (snd b)" "\<lambda>b. if fst b = 0 then 0 else min mx (word_cap (snd b))"
  "\<lambda>b i. buddy_test_bit b i mx" "\<lambda>b i. buddy_set_bit b i mx" "\<lambda>b i. buddy_clear_bit b i mx" for mx
proof
  fix i and b :: bitmap assume "i < (if fst b = 0 then 0 else min mx (word_cap (snd b)))"
  then have v: "is_valid_bitmap_index b mx i" and i: "i div 32 < length (snd b)"
    by (auto simp: is_valid_bitmap_index_def word_cap_def div_less_iff_less_mult split: if_splits)
  show "buddy_test_bit b i mx = Inr (word_view (snd b) i)"
    using v i by (simp add: buddy_test_bit_def rd_nat word_view_def and_exp_eq_0_iff_not_bit del: of_nat_div)
  show "\<exists>b'. buddy_set_bit b i mx = Inr b' \<and>
      (if fst b' = 0 then 0 else min mx (word_cap (snd b'))) = (if fst b = 0 then 0 else min mx (word_cap (snd b))) \<and>
      (\<forall>j. word_view (snd b') j = (j = i \<or> word_view (snd b) j))"
    using v i word_view_set [of i "snd b"] by (simp add: buddy_set_bit_def rd_nat wr_nat word_cap_def del: of_nat_div)
  show "\<exists>b'. buddy_clear_bit b i mx = Inr b' \<and>
      (if fst b' = 0 then 0 else min mx (word_cap (snd b'))) = (if fst b = 0 then 0 else min mx (word_cap (snd b))) \<and>
      (\<forall>j. word_view (snd b') j = (j \<noteq> i \<and> word_view (snd b) j))"
    using v i word_view_clear [of i "snd b"] by (simp add: buddy_clear_bit_def rd_nat wr_nat word_cap_def del: of_nat_div)
qed

text \<open>
  A pool of \<open>K\<close> blocks of order \<open>M\<close>: its shape, which no operation changes, and the number of
  blocks of an order that lie inside it.
\<close>

definition limit :: "nat \<Rightarrow> nat \<Rightarrow> nat \<Rightarrow> nat" where
  "limit K M order = (if order \<le> M then K * 2 ^ (M - order) else 0)"

abbreviation order_ok :: "nat \<Rightarrow> bool" where
  "order_ok order \<equiv> 12 \<le> order \<and> order \<le> 20"

definition bits_ok :: "nat \<Rightarrow> bitmap \<Rightarrow> bool" where
  "bits_ok mx b \<longleftrightarrow> fst b \<noteq> 0 \<and> mx \<le> word_cap (snd b)"

definition geo :: "nat \<Rightarrow> nat \<Rightarrow> buddy_allocator \<Rightarrow> bool" where
  "geo K M a \<longleftrightarrow> order_ok M \<and> 0 < K \<and> (M < 20 \<longrightarrow> K = 1) \<and>
     unat (pool_size a) = K * 2 ^ M \<and> pool_start a \<noteq> 0 \<and> unat (pool_start a) + K * 2 ^ M < 2 ^ 64 \<and>
     length (free_area_bitmap a) = 21 \<and> length (free_area_size a) = 21 \<and> length (max_blocks a) = 21 \<and>
     (\<forall>order. order_ok order \<longrightarrow> limit K M order \<le> max_blocks a ! order \<and> max_blocks a ! order \<le> 2 ^ 52 \<and>
        bits_ok (max_blocks a ! order) (free_area_bitmap a ! order))"

definition free_set :: "buddy_allocator \<Rightarrow> (nat \<times> nat) set" where
  "free_set a = {(order, i). order_ok order \<and> i < max_blocks a ! order \<and> \<not> word_view (snd (free_area_bitmap a ! order)) i}"

definition slice :: "(nat \<times> nat) set \<Rightarrow> nat \<Rightarrow> nat set" where
  "slice F order = {i. (order, i) \<in> F}"

definition counts :: "buddy_allocator \<Rightarrow> (nat \<times> nat) set \<Rightarrow> bool" where
  "counts a F \<longleftrightarrow> (\<forall>order. order_ok order \<longrightarrow> unat (free_area_size a ! order) = card (slice F order))"

definition shape :: "bitmap \<Rightarrow> u64 \<times> nat" where
  "shape b = (fst b, length (snd b))"

definition same_pool :: "buddy_allocator \<Rightarrow> buddy_allocator \<Rightarrow> bool" where
  "same_pool a b \<longleftrightarrow> pool_start b = pool_start a \<and> pool_size b = pool_size a \<and> hhdm_offset b = hhdm_offset a \<and>
     max_blocks b = max_blocks a \<and> buddy_lock b = buddy_lock a \<and>
     map shape (free_area_bitmap b) = map shape (free_area_bitmap a)"

lemma bit_shape: "buddy_set_bit b i mx = Inr b' \<Longrightarrow> shape b' = shape b" "buddy_clear_bit b i mx = Inr b' \<Longrightarrow> shape b' = shape b"
  by (auto simp: buddy_set_bit_def buddy_clear_bit_def shape_def bindR_Inr_iff wr_Inr_iff split: if_splits)

lemma same_pool_trans: "same_pool a b \<Longrightarrow> same_pool b c \<Longrightarrow> same_pool a c"
  by (simp add: same_pool_def)

lemma same_pool_refl [simp]: "same_pool a a"
  by (simp add: same_pool_def)

lemma geoD:
  assumes "geo K M a" "order_ok order"
  shows "order < length (free_area_bitmap a)" "order < length (free_area_size a)" "order < length (max_blocks a)"
    "bits_ok (max_blocks a ! order) (free_area_bitmap a ! order)" "limit K M order \<le> max_blocks a ! order" "max_blocks a ! order \<le> 2 ^ 52"
  using assms by (auto simp: geo_def)

lemma slice_finite: "finite (slice (free_set a) order)"
  by (rule finite_subset [of _ "{..<max_blocks a ! order}"]) (auto simp: slice_def free_set_def)

lemma slice_small: "geo K M a \<Longrightarrow> order_ok order \<Longrightarrow> card (slice (free_set a) order) \<le> 2 ^ 52"
proof -
  assume "geo K M a" "order_ok order"
  then have "max_blocks a ! order \<le> 2 ^ 52" by (rule geoD(6))
  moreover have "card (slice (free_set a) order) \<le> card {..<max_blocks a ! order}"
    by (rule card_mono) (auto simp: slice_def free_set_def)
  ultimately show ?thesis by simp
qed

lemma on_bitmap_change:
  assumes g: "geo K M a" and o: "order_ok order" and i: "i < max_blocks a ! order"
    and f: "\<exists>b'. f (free_area_bitmap a ! order) i (max_blocks a ! order) = Inr b' \<and> bits_ok (max_blocks a ! order) b' \<and>
      (\<forall>j. word_view (snd b') j = (if j = i then v else word_view (snd (free_area_bitmap a ! order)) j))"
    and sh: "\<And>b i mx b'. f b i mx = Inr b' \<Longrightarrow> shape b' = shape b"
  shows "\<exists>a'. on_bitmap f order i a = Inr a' \<and> geo K M a' \<and> same_pool a a' \<and> free_area_size a' = free_area_size a \<and>
    free_set a' = (if v then free_set a - {(order, i)} else insert (order, i) (free_set a))"
proof -
  obtain b' where b': "f (free_area_bitmap a ! order) i (max_blocks a ! order) = Inr b'" "bits_ok (max_blocks a ! order) b'"
    "\<forall>j. word_view (snd b') j = (if j = i then v else word_view (snd (free_area_bitmap a ! order)) j)" using f by blast
  let ?a = "a\<lparr>free_area_bitmap := (free_area_bitmap a)[order := b']\<rparr>"
  note d = geoD [OF g o]
  have "on_bitmap f order i a = Inr ?a" using d(1,3) b'(1) by (simp add: on_bitmap_def rd_nat wr_nat)
  moreover have "bits_ok (max_blocks a ! x) ((free_area_bitmap a)[order := b'] ! x)" if "order_ok x" for x
    using that b'(2) d(1) geoD(4) [OF g that] by (cases "x = order") auto
  then have "geo K M ?a" using g by (simp add: geo_def)
  moreover have "free_set ?a = (if v then free_set a - {(order, i)} else insert (order, i) (free_set a))"
  proof (rule set_eqI)
    fix p :: "nat \<times> nat"
    obtain x j where p: "p = (x, j)" by (cases p)
    show "p \<in> free_set ?a \<longleftrightarrow> p \<in> (if v then free_set a - {(order, i)} else insert (order, i) (free_set a))"
      using o i b'(3) d(1) unfolding p free_set_def by (cases "x = order") simp_all
  qed
  moreover have "map shape ((free_area_bitmap a)[order := b']) = map shape (free_area_bitmap a)"
    using sh [OF b'(1)] d(1) by (metis list_update_id map_update)
  ultimately show ?thesis by (auto simp: same_pool_def)
qed

lemma clear_free:
  assumes "geo K M a" "order_ok order" "i < max_blocks a ! order"
  shows "\<exists>a'. on_bitmap buddy_clear_bit order i a = Inr a' \<and> geo K M a' \<and> same_pool a a' \<and> free_area_size a' = free_area_size a \<and>
    free_set a' = insert (order, i) (free_set a)"
proof -
  have b: "bits_ok (max_blocks a ! order) (free_area_bitmap a ! order)" using geoD(4) [OF assms(1,2)] .
  then have "i < (if fst (free_area_bitmap a ! order) = 0 then 0 else min (max_blocks a ! order) (word_cap (snd (free_area_bitmap a ! order))))"
    using assms(3) by (simp add: bits_ok_def)
  from buddy_bits.clear_view [OF this] show ?thesis
    using on_bitmap_change [OF assms, of buddy_clear_bit False] bit_shape b assms(3) by (auto simp: bits_ok_def split: if_splits)
qed

lemma set_taken:
  assumes "geo K M a" "order_ok order" "i < max_blocks a ! order"
  shows "\<exists>a'. on_bitmap buddy_set_bit order i a = Inr a' \<and> geo K M a' \<and> same_pool a a' \<and> free_area_size a' = free_area_size a \<and>
    free_set a' = free_set a - {(order, i)}"
proof -
  have b: "bits_ok (max_blocks a ! order) (free_area_bitmap a ! order)" using geoD(4) [OF assms(1,2)] .
  then have "i < (if fst (free_area_bitmap a ! order) = 0 then 0 else min (max_blocks a ! order) (word_cap (snd (free_area_bitmap a ! order))))"
    using assms(3) by (simp add: bits_ok_def)
  from buddy_bits.set_view [OF this] show ?thesis
    using on_bitmap_change [OF assms, of buddy_set_bit True] bit_shape b assms(3) by (auto simp: bits_ok_def split: if_splits)
qed

lemma test_block_eq:
  assumes "geo K M a" "order_ok order" "i < max_blocks a ! order"
  shows "test_block order i a = Inr ((order, i) \<notin> free_set a)"
proof -
  note d = geoD [OF assms(1,2)]
  have "i < (if fst (free_area_bitmap a ! order) = 0 then 0 else min (max_blocks a ! order) (word_cap (snd (free_area_bitmap a ! order))))"
    using assms(3) d(4) by (simp add: bits_ok_def)
  from buddy_bits.test_view [OF this] show ?thesis using d assms(2,3) by (simp add: test_block_def rd_nat free_set_def)
qed

text \<open>A change of the count that matches a change of the free set.\<close>

lemma add_size_counts:
  assumes "geo K M a" "order_ok order" "counts a F" "\<And>x. x \<noteq> order \<Longrightarrow> slice F' x = slice F x"
    and "unat (free_area_size a ! order + d) = card (slice F' order)"
  shows "\<exists>a'. add_size order d a = Inr a' \<and> geo K M a' \<and> same_pool a a' \<and> free_set a' = free_set a \<and> counts a' F'"
proof -
  let ?a = "a\<lparr>free_area_size := (free_area_size a)[order := free_area_size a ! order + d]\<rparr>"
  note l = geoD(2) [OF assms(1,2)]
  have "add_size order d a = Inr ?a" using l by (simp add: add_size_def rd_nat wr_nat)
  moreover have "geo K M ?a" using assms(1) by (simp add: geo_def)
  moreover have "counts ?a F'" using assms(3-5) l unfolding counts_def by (auto simp: nth_list_update)
  ultimately show ?thesis by (auto simp: same_pool_def free_set_def)
qed

subsection \<open>Blocks and addresses\<close>

definition span :: "nat \<times> nat \<Rightarrow> nat set" where
  "span = (\<lambda>(order, i). {x. x div 2 ^ order = i})"

definition cover :: "(nat \<times> nat) set \<Rightarrow> nat set" where
  "cover F = (\<Union>b \<in> F. span b)"

definition apart :: "(nat \<times> nat) set \<Rightarrow> bool" where
  "apart F \<longleftrightarrow> (\<forall>b \<in> F. \<forall>c \<in> F. b \<noteq> c \<longrightarrow> span b \<inter> span c = {})"

definition sibling :: "nat \<Rightarrow> nat" where
  "sibling i = (if even i then Suc i else i - 1)"

lemma span_iff [simp]: "x \<in> span (order, i) \<longleftrightarrow> x div 2 ^ order = i"
  by (simp add: span_def)

lemma span_start: "i * 2 ^ order \<in> span (order, i)"
  by simp

lemma div_Suc_power: "x div 2 ^ Suc order = x div 2 ^ order div (2 :: nat)"
  by (simp only: power_Suc mult.commute [of 2] div_mult2_eq)

lemma half_iff: "n div 2 = i \<longleftrightarrow> n = 2 * i \<or> n = Suc (2 * i)" for n :: nat
  by presburger

lemma span_halves: "span (Suc order, i) = span (order, 2 * i) \<union> span (order, Suc (2 * i))"
  by (rule set_eqI) (simp only: span_iff Un_iff div_Suc_power half_iff)

lemma span_same: "i \<noteq> j \<Longrightarrow> span (order, i) \<inter> span (order, j) = {}"
  by (auto simp: span_def)

lemma span_nest:
  assumes "order \<le> order'" "x \<in> span (order, i)" "x \<in> span (order', j)"
  shows "span (order, i) \<subseteq> span (order', j)"
proof
  fix y assume y: "y \<in> span (order, i)"
  have p: "(2 :: nat) ^ order' = 2 ^ order * 2 ^ (order' - order)" using assms(1) by (simp flip: power_add)
  have "y div 2 ^ order' = y div 2 ^ order div 2 ^ (order' - order)" "x div 2 ^ order' = x div 2 ^ order div 2 ^ (order' - order)"
    by (simp_all add: p div_mult2_eq)
  then show "y \<in> span (order', j)" using y assms(2,3) by simp
qed

lemma sibling_half: "sibling i div 2 = i div 2" "sibling i \<noteq> i" "sibling (sibling i) = i"
  by (cases "even i"; auto simp: sibling_def elim!: evenE oddE)+

lemma span_pair: "span (order, i) \<union> span (order, sibling i) = span (Suc order, i div 2)"
  unfolding span_halves by (cases "even i") (auto simp: sibling_def elim!: evenE oddE)

lemma sibling_limit: "order < M \<Longrightarrow> i < limit K M order \<Longrightarrow> sibling i < limit K M order"
proof -
  assume "order < M" "i < limit K M order"
  moreover from this have "even (limit K M order)" by (auto simp: limit_def)
  ultimately show ?thesis by (auto simp: sibling_def elim!: evenE)
qed

lemma limit_half: "order < M \<Longrightarrow> i < limit K M order \<longleftrightarrow> i div 2 < limit K M (Suc order)"
proof -
  assume "order < M"
  then have "limit K M order = 2 * limit K M (Suc order)"
    by (simp add: limit_def Suc_diff_Suc flip: power_Suc)
  then show ?thesis by (simp only: ) linarith
qed

lemma limit_power: "order \<le> M \<Longrightarrow> limit K M order * 2 ^ order = K * 2 ^ M"
  by (simp add: limit_def flip: power_add)

lemma xor_sibling: "i XOR 1 = sibling i" for i :: nat
  unfolding xor_one_eq by (auto simp: sibling_def)

lemma block_size_nat: "order < 64 \<Longrightarrow> unat (BUDDY_BLOCK_SIZE order) = 2 ^ order"
proof -
  assume "order < 64"
  then have "(2 :: nat) ^ order < 2 ^ 64" by (intro power_strict_increasing) simp_all
  then have "unat (of_nat (2 ^ order) :: u64) = 2 ^ order" by (intro unat_of_nat_eq) simp
  then show ?thesis by (simp add: BUDDY_BLOCK_SIZE_def push_bit_eq_mult)
qed

text \<open>The block \<open>(order, i)\<close> as a pointer.\<close>

abbreviation addr :: "buddy_allocator \<Rightarrow> nat \<Rightarrow> nat \<Rightarrow> u64" where
  "addr a order i \<equiv> get_block_address a order i"

lemma addr_unat:
  assumes "order < 64" "unat (pool_start a) + i * 2 ^ order < 2 ^ 64"
  shows "unat (addr a order i) = unat (pool_start a) + i * 2 ^ order" "unat (addr a order i - pool_start a) = i * 2 ^ order"
proof -
  have w: "of_nat i * BUDDY_BLOCK_SIZE order = (of_nat (i * 2 ^ order) :: u64)"
    by (simp add: BUDDY_BLOCK_SIZE_def push_bit_eq_mult)
  have "i * 2 ^ order < 2 ^ 64" using assms(2) by linarith
  then have u: "unat (of_nat (i * 2 ^ order) :: u64) = i * 2 ^ order" by (intro unat_of_nat_eq) simp
  show "unat (addr a order i - pool_start a) = i * 2 ^ order" unfolding get_block_address_def w using u by simp
  show "unat (addr a order i) = unat (pool_start a) + i * 2 ^ order"
    unfolding get_block_address_def w using u assms(2) by (subst unat_plus_if') simp
qed

lemma addr_same: "same_pool a b \<Longrightarrow> addr b order i = addr a order i"
  by (simp add: same_pool_def get_block_address_def)

lemma index_addr:
  assumes "order < 64" "unat (pool_start a) + i * 2 ^ order < 2 ^ 64"
  shows "get_block_index (addr a order i) (pool_start a) order = i"
  unfolding get_block_index_def unat_div addr_unat(2) [OF assms] block_size_nat [OF assms(1)] by simp

lemma index_addr_up:
  assumes "Suc order < 64" "unat (pool_start a) + i * 2 ^ order < 2 ^ 64"
  shows "get_block_index (addr a order i) (pool_start a) (Suc order) = i div 2"
proof -
  have "i * 2 ^ order div 2 ^ Suc order = i div 2" unfolding div_Suc_power by simp
  moreover have "order < 64" using assms(1) by simp
  ultimately show ?thesis
    unfolding get_block_index_def unat_div block_size_nat [OF assms(1)] using addr_unat(2) [of order a i] assms(2) by simp
qed

lemma valid_addr:
  assumes g: "geo K M a" and o: "order < 64" and w: "unat (pool_start a) + i * 2 ^ order < 2 ^ 64"
  shows "is_valid_block a (addr a order i) order \<longleftrightarrow> i * 2 ^ order < K * 2 ^ M"
proof -
  note u = addr_unat [OF o w]
  have "0 < unat (pool_start a)" using g by (simp add: geo_def unat_gt_0)
  then have n: "addr a order i \<noteq> 0" using u(1) by (metis add_is_0 less_numeral_extra(3) unat_0)
  have e: "unat (pool_start a + pool_size a) = unat (pool_start a) + K * 2 ^ M"
    using g by (subst unat_plus_if') (simp add: geo_def)
  have "(addr a order i - pool_start a) mod BUDDY_BLOCK_SIZE order = 0"
    unfolding unat_eq_0 [symmetric] unat_mod u(2) block_size_nat [OF o] by simp
  then show ?thesis using n by (simp add: is_valid_block_def word_less_nat_alt word_le_nat_alt u(1) e not_less not_le)
qed

lemma buddy_addr:
  assumes o: "order < 64" and w: "unat (pool_start a) + i * 2 ^ order < 2 ^ 64"
    "unat (pool_start a) + sibling i * 2 ^ order < 2 ^ 64"
  shows "get_buddy_address (addr a order i) order (pool_start a) = addr a order (sibling i)"
proof -
  have "unat ((addr a order i - pool_start a) XOR BUDDY_BLOCK_SIZE order) = (i * 2 ^ order) XOR (1 * 2 ^ order)"
    using addr_unat(2) [OF o w(1)] block_size_nat [OF o] by (simp add: unsigned_xor_eq)
  also have "\<dots> = (i XOR 1) * 2 ^ order" by (simp only: push_bit_xor flip: push_bit_eq_mult)
  also have "\<dots> = unat (addr a order (sibling i) - pool_start a)" unfolding xor_sibling using addr_unat(2) [OF o w(2)] by simp
  finally have "(addr a order i - pool_start a) XOR BUDDY_BLOCK_SIZE order = addr a order (sibling i) - pool_start a"
    by (simp only: word_unat_eq_iff)
  then show ?thesis by (simp add: get_buddy_address_def)
qed

lemma addr_double: "addr a order (2 * i) = addr a (Suc order) i"
  by (simp add: get_block_address_def BUDDY_BLOCK_SIZE_def push_bit_eq_mult)

lemma merged_addr:
  assumes o: "order < 64" and w: "unat (pool_start a) + i * 2 ^ order < 2 ^ 64"
    "unat (pool_start a) + sibling i * 2 ^ order < 2 ^ 64"
  shows "(if addr a order i < addr a order (sibling i) then addr a order i else addr a order (sibling i)) = addr a (Suc order) (i div 2)"
  using addr_unat(1) [OF o w(1)] addr_unat(1) [OF o w(2)]
  by (cases "even i") (auto simp: word_less_nat_alt sibling_def addr_double elim!: evenE oddE)

text \<open>Every block of an order up to the top lies inside the pool.\<close>

lemma limit_fits:
  assumes g: "geo K M a" and i: "i < limit K M order"
  shows "order \<le> M" "i * 2 ^ order < K * 2 ^ M" "unat (pool_start a) + i * 2 ^ order < 2 ^ 64"
proof -
  show o: "order \<le> M" using i by (simp add: limit_def split: if_splits)
  have "i * 2 ^ order < limit K M order * 2 ^ order" using i by simp
  then show b: "i * 2 ^ order < K * 2 ^ M" by (simp add: limit_power [OF o])
  then show "unat (pool_start a) + i * 2 ^ order < 2 ^ 64" using g by (simp add: geo_def)
qed

lemma addr_nonzero: "geo K M a \<Longrightarrow> order < 64 \<Longrightarrow> i < limit K M order \<Longrightarrow> addr a order i \<noteq> 0"
  using addr_unat(1) [of order a i] limit_fits(3) [of K M a i order] by (auto simp: geo_def unat_eq_0)

subsection \<open>The invariant and its steps\<close>

definition inside :: "nat \<Rightarrow> nat \<Rightarrow> (nat \<times> nat) set \<Rightarrow> bool" where
  "inside K M F \<longleftrightarrow> (\<forall>order i. (order, i) \<in> F \<longrightarrow> i < limit K M order)"

definition merged :: "nat \<Rightarrow> (nat \<times> nat) set \<Rightarrow> bool" where
  "merged M F \<longleftrightarrow> (\<forall>order i. (order, i) \<in> F \<and> order < M \<longrightarrow> (order, sibling i) \<notin> F)"

definition core :: "nat \<Rightarrow> nat \<Rightarrow> buddy_allocator \<Rightarrow> bool" where
  "core K M a \<longleftrightarrow> geo K M a \<and> counts a (free_set a) \<and> inside K M (free_set a) \<and> apart (free_set a)"

text \<open>A step keeps the shape of the pool and leaves exact counts for a new free set.\<close>

definition retags :: "nat \<Rightarrow> nat \<Rightarrow> buddy_allocator \<Rightarrow> (nat \<times> nat) set \<Rightarrow> buddy_allocator \<Rightarrow> bool" where
  "retags K M a F a' \<longleftrightarrow> geo K M a' \<and> same_pool a a' \<and> free_set a' = F \<and> counts a' F"

lemma slice_insert [simp]: "slice (insert (x, i) F) order = (if order = x then insert i (slice F order) else slice F order)"
  by (auto simp: slice_def)

lemma slice_remove [simp]: "slice (F - {(x, i)}) order = (if order = x then slice F order - {i} else slice F order)"
  by (auto simp: slice_def)

lemma slice_mem [simp]: "i \<in> slice F order \<longleftrightarrow> (order, i) \<in> F"
  by (simp add: slice_def)

lemma free_setD: "(order, i) \<in> free_set a \<Longrightarrow> order_ok order \<and> i < max_blocks a ! order"
  by (simp add: free_set_def)

lemma counts_cong: "free_area_size a' = free_area_size a \<Longrightarrow> counts a' F = counts a F"
  by (simp add: counts_def)

lemma count_small:
  assumes "geo K M a" "counts a (free_set a)" "order_ok order"
  shows "unat (free_area_size a ! order) = card (slice (free_set a) order)" "unat (free_area_size a ! order) \<le> 2 ^ 52"
  using assms slice_small [OF assms(1,3)] by (auto simp: counts_def)

lemma unat_add_small: "unat w \<le> 2 ^ 52 \<Longrightarrow> unat (w + 1) = Suc (unat w)" "unat w \<le> 2 ^ 52 \<Longrightarrow> unat (w + 2) = Suc (Suc (unat w))"
  for w :: u64
  by (subst unat_plus_if'; simp)+

lemma unat_sub_small: "1 \<le> unat w \<Longrightarrow> unat (w + - 1) = unat w - 1" "2 \<le> unat w \<Longrightarrow> unat (w + - 2) = unat w - 2"
  for w :: u64
  using unat_sub [of 1 w] unat_sub [of 2 w] by (simp_all add: word_le_nat_alt)

lemma grow_free:
  assumes g: "geo K M a" and c: "counts a (free_set a)" and o: "order_ok order" and i: "i < max_blocks a ! order" and n: "(order, i) \<notin> free_set a"
  shows "\<exists>a'. bindR (on_bitmap buddy_clear_bit order i a) (\<lambda>a. add_size order 1 a) = Inr a' \<and> retags K M a (insert (order, i) (free_set a)) a'"
proof -
  obtain b where b: "on_bitmap buddy_clear_bit order i a = Inr b" "geo K M b" "same_pool a b" "free_area_size b = free_area_size a"
    "free_set b = insert (order, i) (free_set a)" using clear_free [OF g o i] by blast
  have "unat (free_area_size b ! order + 1) = card (slice (free_set b) order)"
    using count_small [OF g c o] n slice_finite [of a order] by (simp add: b unat_add_small)
  with add_size_counts [OF b(2) o, of "free_set a" "free_set b" 1] obtain a' where
    "add_size order 1 b = Inr a'" "geo K M a'" "same_pool b a'" "free_set a' = free_set b" "counts a' (free_set b)"
    using c counts_cong [OF b(4)] by (auto simp: b(5))
  then show ?thesis using b same_pool_trans by (auto simp: retags_def)
qed

lemma take_free:
  assumes g: "geo K M a" and c: "counts a (free_set a)" and n: "(order, i) \<in> free_set a"
  shows "\<exists>a'. take_block order i a = Inr (addr a order i, a') \<and> retags K M a (free_set a - {(order, i)}) a'"
proof -
  note o = free_setD [OF n, THEN conjunct1] and i = free_setD [OF n, THEN conjunct2]
  obtain b where b: "on_bitmap buddy_set_bit order i a = Inr b" "geo K M b" "same_pool a b" "free_area_size b = free_area_size a"
    "free_set b = free_set a - {(order, i)}" using set_taken [OF g o i] by blast
  have "1 \<le> card (slice (free_set a) order)" using n slice_finite [of a order] by (auto simp: Suc_le_eq card_gt_0_iff)
  then have "unat (free_area_size b ! order + - 1) = card (slice (free_set b) order)"
    using count_small [OF g c o] n slice_finite [of a order] unat_sub_small(1) [of "free_area_size a ! order"]
    by (simp add: b card_Diff_singleton)
  with add_size_counts [OF b(2) o, of "free_set a" "free_set b" "- 1"] obtain a' where
    a': "add_size order (- 1) b = Inr a'" "geo K M a'" "same_pool b a'" "free_set a' = free_set b" "counts a' (free_set b)"
    using c counts_cong [OF b(4)] by (auto simp: b(5))
  have sp: "same_pool a a'" using b(3) a'(3) by (rule same_pool_trans)
  then have "take_block order i a = Inr (addr a order i, a')" using b(1) a'(1) addr_same [OF sp] by (simp add: take_block_def)
  moreover have "retags K M a (free_set a - {(order, i)}) a'" using sp a' b(5) by (simp add: retags_def)
  ultimately show ?thesis by blast
qed

lemma split_free:
  assumes g: "geo K M a" and c: "counts a (free_set a)" and o: "order_ok order" and i: "Suc (2 * i) < max_blocks a ! order"
    and n: "(order, 2 * i) \<notin> free_set a" "(order, Suc (2 * i)) \<notin> free_set a"
  shows "\<exists>a'. split_block (Suc order) i a = Inr a' \<and> retags K M a (insert (order, 2 * i) (insert (order, Suc (2 * i)) (free_set a))) a'"
proof -
  have l: "2 * i < max_blocks a ! order" using i by simp
  obtain b where b: "on_bitmap buddy_clear_bit order (2 * i) a = Inr b" "geo K M b" "same_pool a b" "free_area_size b = free_area_size a"
    "free_set b = insert (order, 2 * i) (free_set a)" using clear_free [OF g o l] by blast
  have i': "Suc (2 * i) < max_blocks b ! order" using i b(3) by (simp add: same_pool_def)
  obtain d where d: "on_bitmap buddy_clear_bit order (Suc (2 * i)) b = Inr d" "geo K M d" "same_pool b d" "free_area_size d = free_area_size b"
    "free_set d = insert (order, Suc (2 * i)) (free_set b)" using clear_free [OF b(2) o i'] by blast
  have f: "free_set d = insert (order, 2 * i) (insert (order, Suc (2 * i)) (free_set a))" using b(5) d(5) by auto
  have "unat (free_area_size d ! order + 2) = card (slice (free_set d) order)"
    using count_small [OF g c o] n slice_finite [of a order] by (simp add: f b d(4) unat_add_small)
  with add_size_counts [OF d(2) o, of "free_set a" "free_set d" 2] obtain a' where
    a': "add_size order 2 d = Inr a'" "geo K M a'" "same_pool d a'" "free_set a' = free_set d" "counts a' (free_set d)"
    using c counts_cong [of d a] b(4) d(4) by (auto simp: f)
  have "same_pool a a'" using b(3) d(3) a'(3) same_pool_trans by blast
  then have "retags K M a (insert (order, 2 * i) (insert (order, Suc (2 * i)) (free_set a))) a'" using a' f by (simp add: retags_def)
  moreover have "rd (max_blocks a) (int order) = Inr (max_blocks a ! order)" using geoD(3) [OF g o] by (rule rd_nat)
  then have "split_block (Suc order) i a = Inr a'" using b(1) d(1) a'(1) i by (simp add: split_block_def mult.commute [of i])
  ultimately show ?thesis by blast
qed

lemma join_free:
  assumes g: "geo K M a" and c: "counts a (free_set a)" and n: "(order, i) \<in> free_set a" "(order, j) \<in> free_set a" "i \<noteq> j"
  shows "\<exists>a'. bindR (on_bitmap buddy_set_bit order i a) (\<lambda>a. bindR (on_bitmap buddy_set_bit order j a) (\<lambda>a. add_size order (- 2) a)) = Inr a' \<and>
    retags K M a (free_set a - {(order, i)} - {(order, j)}) a'"
proof -
  note o = free_setD [OF n(1), THEN conjunct1] and i = free_setD [OF n(1), THEN conjunct2]
  obtain b where b: "on_bitmap buddy_set_bit order i a = Inr b" "geo K M b" "same_pool a b" "free_area_size b = free_area_size a"
    "free_set b = free_set a - {(order, i)}" using set_taken [OF g o i] by blast
  have j: "j < max_blocks b ! order" using free_setD [OF n(2)] b(3) by (simp add: same_pool_def)
  obtain d where d: "on_bitmap buddy_set_bit order j b = Inr d" "geo K M d" "same_pool b d" "free_area_size d = free_area_size b"
    "free_set d = free_set b - {(order, j)}" using set_taken [OF b(2) o j] by blast
  have "card {i, j} \<le> card (slice (free_set a) order)" using n by (intro card_mono slice_finite) auto
  then have "2 \<le> card (slice (free_set a) order)" using n(3) by simp
  then have "unat (free_area_size d ! order + - 2) = card (slice (free_set d) order)"
    using count_small [OF g c o] n slice_finite [of a order] unat_sub_small(2) [of "free_area_size a ! order"]
    by (simp add: b d card_Diff_singleton)
  with add_size_counts [OF d(2) o, of "free_set a" "free_set d" "- 2"] obtain a' where
    a': "add_size order (- 2) d = Inr a'" "geo K M a'" "same_pool d a'" "free_set a' = free_set d" "counts a' (free_set d)"
    using c counts_cong [of d a] b(4) d(4) by (auto simp: b(5) d(5))
  have "same_pool a a'" using b(3) d(3) a'(3) same_pool_trans by blast
  then have "retags K M a (free_set a - {(order, i)} - {(order, j)}) a'" using a' b(5) d(5) by (simp add: retags_def)
  then show ?thesis using b(1) d(1) a'(1) by simp
qed

subsection \<open>Allocation takes one block out of the free space\<close>

lemma cover_insert [simp]: "cover (insert b F) = span b \<union> cover F"
  by (simp add: cover_def)

lemma cover_mem: "b \<in> F \<Longrightarrow> span b \<subseteq> cover F"
  by (auto simp: cover_def)

lemma span_ne: "span b \<noteq> {}"
  using span_start by (cases b) (metis empty_iff)

lemma cover_notin: "cover F \<inter> X = {} \<Longrightarrow> span b \<subseteq> X \<Longrightarrow> b \<notin> F"
  using cover_mem [of b F] span_ne [of b] by blast

lemma apart_remove:
  assumes "apart F" "b \<in> F"
  shows "apart (F - {b})" "cover F = cover (F - {b}) \<union> span b" "cover (F - {b}) \<inter> span b = {}"
proof -
  show "apart (F - {b})" using assms by (simp add: apart_def)
  have "cover F = cover (insert b (F - {b}))" using assms(2) by (simp add: insert_absorb)
  also have "\<dots> = cover (F - {b}) \<union> span b" unfolding cover_insert by (rule Un_commute)
  finally show "cover F = cover (F - {b}) \<union> span b" .
  show "cover (F - {b}) \<inter> span b = {}" using assms by (auto simp: apart_def cover_def)
qed

lemma apart_insert: "apart F \<Longrightarrow> cover F \<inter> span b = {} \<Longrightarrow> apart (insert b F)"
proof -
  assume a: "apart F" "cover F \<inter> span b = {}"
  then have "span c \<inter> span b = {}" if "c \<in> F" for c using cover_mem [OF that] by blast
  then show ?thesis using a(1) unfolding apart_def by (metis Int_commute insert_iff)
qed

definition grabs :: "nat \<Rightarrow> nat \<Rightarrow> buddy_allocator \<Rightarrow> nat \<times> nat \<Rightarrow> buddy_allocator \<Rightarrow> bool" where
  "grabs K M a b a' \<longleftrightarrow> core K M a' \<and> merged M (free_set a') \<and> same_pool a a' \<and> snd b < limit K M (fst b) \<and>
     cover (free_set a) = cover (free_set a') \<union> span b \<and> cover (free_set a') \<inter> span b = {}"

lemma grabs_take:
  assumes c: "core K M a" "merged M (free_set a)" and b: "(order, i) \<in> free_set a"
  shows "\<exists>a'. take_block order i a = Inr (addr a order i, a') \<and> grabs K M a (order, i) a'"
proof -
  obtain a' where a': "take_block order i a = Inr (addr a order i, a')" "retags K M a (free_set a - {(order, i)}) a'"
    using take_free [of K M a order i] c(1) b by (auto simp: core_def)
  have "apart (free_set a)" using c(1) by (simp add: core_def)
  from apart_remove [OF this b] have "grabs K M a (order, i) a'"
    using a'(2) c b by (auto simp: grabs_def retags_def core_def inside_def merged_def)
  then show ?thesis using a'(1) by blast
qed

lemma grabs_split:
  assumes g: "grabs K M a (Suc order, j) b" and o: "order_ok order" "Suc order \<le> M"
  shows "\<exists>c d. split_block (Suc order) j b = Inr c \<and> max_blocks c = max_blocks b \<and> 2 * j < max_blocks c ! order \<and>
    take_block order (2 * j) c = Inr (addr a order (2 * j), d) \<and> grabs K M a (order, 2 * j) d"
proof -
  have b: "core K M b" "merged M (free_set b)" "same_pool a b" "j < limit K M (Suc order)" and
    cov: "cover (free_set a) = cover (free_set b) \<union> span (Suc order, j)" "cover (free_set b) \<inter> span (Suc order, j) = {}"
    using g by (auto simp: grabs_def)
  have gb: "geo K M b" "counts b (free_set b)" "apart (free_set b)" "inside K M (free_set b)" using b(1) by (auto simp: core_def)
  have l: "2 * j < limit K M order" "Suc (2 * j) < limit K M order" using limit_half [of order M _ K] o b(4) by auto
  have n: "(order, 2 * j) \<notin> free_set b" "(order, Suc (2 * j)) \<notin> free_set b"
    by (rule cover_notin [OF cov(2)]; simp add: span_halves)+
  have mx: "Suc (2 * j) < max_blocks b ! order" using geoD(5) [OF gb(1) o(1)] l(2) by simp
  obtain c where c: "split_block (Suc order) j b = Inr c" "retags K M b (insert (order, 2 * j) (insert (order, Suc (2 * j)) (free_set b))) c"
    using split_free [OF gb(1,2) o(1) mx n] by blast
  then have mc: "geo K M c" "counts c (free_set c)" "(order, 2 * j) \<in> free_set c" "same_pool b c" by (auto simp: retags_def)
  obtain d where d: "take_block order (2 * j) c = Inr (addr c order (2 * j), d)" "retags K M c (free_set c - {(order, 2 * j)}) d"
    using take_free [OF mc(1-3)] by blast
  have fd: "free_set d = insert (order, Suc (2 * j)) (free_set b)" using c(2) d(2) n(1) by (auto simp: retags_def)
  have s: "span (order, 2 * j) \<inter> span (order, Suc (2 * j)) = {}" by (rule span_same) simp
  have "apart (free_set d)" unfolding fd using gb(3) cov(2) by (intro apart_insert) (auto simp: span_halves)
  moreover have "inside K M (free_set d)" unfolding fd using gb(4) l(2) by (auto simp: inside_def)
  moreover have "sibling (Suc (2 * j)) = 2 * j" "\<And>i. sibling i = Suc (2 * j) \<Longrightarrow> i = 2 * j"
  proof -
    show e: "sibling (Suc (2 * j)) = 2 * j" by (simp add: sibling_def)
    show "i = 2 * j" if "sibling i = Suc (2 * j)" for i using that e sibling_half(3) [of i] by simp
  qed
  then have "merged M (free_set d)" unfolding fd using b(2) n by (auto simp: merged_def sibling_half(2))
  moreover have "cover (free_set a) = cover (free_set d) \<union> span (order, 2 * j)" "cover (free_set d) \<inter> span (order, 2 * j) = {}"
    unfolding fd using cov s by (auto simp: span_halves)
  moreover have p: "same_pool a d" using b(3) mc(4) d(2) same_pool_trans by (auto simp: retags_def)
  ultimately have "grabs K M a (order, 2 * j) d" using d(2) l(1) by (auto simp: grabs_def core_def retags_def)
  moreover have "addr c order (2 * j) = addr a order (2 * j)" using b(3) mc(4) same_pool_trans addr_same by blast
  ultimately show ?thesis using c(1) d(1) mc(4) mx by (intro exI [of _ c] exI [of _ d]) (simp add: same_pool_def)
qed

lemma find_first_free_bit_spec:
  assumes g: "geo K M a" and o: "order_ok order"
  shows "\<exists>r. find_first_free_bit (free_area_bitmap a ! order) (max_blocks a ! order) i = Inr r \<and>
    (case r of None \<Rightarrow> \<forall>k. i \<le> k \<longrightarrow> (order, k) \<notin> free_set a | Some j \<Rightarrow> (order, j) \<in> free_set a)"
proof (induction "max_blocks a ! order - i" arbitrary: i)
  case 0
  then show ?case by (subst find_first_free_bit.simps) (auto simp: free_set_def)
next
  case (Suc n)
  then have i: "i < max_blocks a ! order" and n: "n = max_blocks a ! order - Suc i" by auto
  note t = test_block_eq [OF g o i]
  then have t: "buddy_test_bit (free_area_bitmap a ! order) i (max_blocks a ! order) = Inr ((order, i) \<notin> free_set a)"
    using geoD(1,3) [OF g o] by (simp add: test_block_def rd_nat)
  show ?case
  proof (cases "(order, i) \<in> free_set a")
    case True
    then show ?thesis using i t by (subst find_first_free_bit.simps) simp
  next
    case False
    obtain r where r: "find_first_free_bit (free_area_bitmap a ! order) (max_blocks a ! order) (Suc i) = Inr r"
      "case r of None \<Rightarrow> \<forall>k. Suc i \<le> k \<longrightarrow> (order, k) \<notin> free_set a | Some j \<Rightarrow> (order, j) \<in> free_set a"
      using Suc(1) [OF n] by blast
    have "find_first_free_bit (free_area_bitmap a ! order) (max_blocks a ! order) i = Inr r"
      using False i t r(1) by (subst find_first_free_bit.simps) simp
    moreover have "(order, k) \<notin> free_set a" if "r = None" "i \<le> k" for k using that r(2) False by (cases "k = i") auto
    ultimately show ?thesis using r(2) by (auto split: option.splits)
  qed
qed

lemma alloc_block_spec:
  assumes "core K M a" "merged M (free_set a)" "12 \<le> order" "order \<le> 21"
  shows "alloc_block order a = Inr (0, a) \<and> (\<forall>x i. order \<le> x \<longrightarrow> (x, i) \<notin> free_set a) \<or>
    (\<exists>i a'. alloc_block order a = Inr (addr a order i, a') \<and> grabs K M a (order, i) a' \<and> (\<exists>x j. order \<le> x \<and> (x, j) \<in> free_set a))"
  using assms(3,4)
proof (induction "21 - order" arbitrary: order)
  case 0
  then show ?case by (subst (1 2) alloc_block.simps) (auto simp: BUDDY_MAX_ORDER_def dest: free_setD)
next
  case (Suc n)
  then have o: "order_ok order" and n: "n = 21 - Suc order" "12 \<le> Suc order" "Suc order \<le> 21" by auto
  have c: "geo K M a" "counts a (free_set a)" using assms(1) by (auto simp: core_def)
  note d = geoD [OF c(1) o] and k = count_small(1) [OF c o]
  show ?case
  proof (cases "free_area_size a ! order = 0")
    case True
    then have e: "(order, i) \<notin> free_set a" for i using k slice_finite [of a order] by auto
    from Suc(1) [OF n] show ?thesis
    proof
      assume "alloc_block (Suc order) a = Inr (0, a) \<and> (\<forall>x i. Suc order \<le> x \<longrightarrow> (x, i) \<notin> free_set a)"
      moreover from this have "alloc_block order a = Inr (0, a)"
        using True o d(2) by (subst alloc_block.simps) (simp add: BUDDY_MAX_ORDER_def rd_nat)
      moreover have "(x, i) \<notin> free_set a" if "order \<le> x" for x i using calculation e that by (cases "x = order") auto
      ultimately show ?thesis by blast
    next
      assume "\<exists>i a'. alloc_block (Suc order) a = Inr (addr a (Suc order) i, a') \<and> grabs K M a (Suc order, i) a' \<and> (\<exists>x j. Suc order \<le> x \<and> (x, j) \<in> free_set a)"
      then obtain j b where b: "alloc_block (Suc order) a = Inr (addr a (Suc order) j, b)" "grabs K M a (Suc order, j) b"
        and above: "\<exists>x j. order \<le> x \<and> (x, j) \<in> free_set a" by (meson Suc_leD)
      have j: "j < limit K M (Suc order)" "pool_start b = pool_start a" using b(2) by (auto simp: grabs_def same_pool_def)
      note f = limit_fits [OF c(1) j(1)]
      have s: "Suc order < 64" using o by simp
      have nz: "addr a (Suc order) j \<noteq> 0" by (rule addr_nonzero [OF c(1) s j(1)])
      obtain p q where pq: "split_block (Suc order) j b = Inr p" "2 * j < max_blocks p ! order"
        "take_block order (2 * j) p = Inr (addr a order (2 * j), q)" "grabs K M a (order, 2 * j) q" "max_blocks p = max_blocks b"
        using grabs_split [OF b(2) o f(1)] by blast
      have m: "rd (max_blocks p) (int order) = Inr (max_blocks p ! order)"
        using b(2) d(3) pq(5) by (simp add: rd_nat grabs_def same_pool_def)
      have "alloc_block order a = Inr (addr a order (2 * j), q)"
        using True o d(2) b(1) nz index_addr [OF s f(3)] pq(1-3) m j(2)
        by (subst alloc_block.simps) (simp add: BUDDY_MAX_ORDER_def rd_nat mult.commute [of j] not_le)
      then show ?thesis using pq(4) above by blast
    qed
  next
    case False
    obtain r where r: "find_first_free_bit (free_area_bitmap a ! order) (max_blocks a ! order) 0 = Inr r"
      "case r of None \<Rightarrow> \<forall>k. 0 \<le> k \<longrightarrow> (order, k) \<notin> free_set a | Some j \<Rightarrow> (order, j) \<in> free_set a"
      using find_first_free_bit_spec [OF c(1) o, of 0] by blast
    have "slice (free_set a) order \<noteq> {}" using False k by (auto simp: unat_eq_0)
    then obtain i where i: "r = Some i" "(order, i) \<in> free_set a" using r(2) by (cases r) auto
    obtain a' where "take_block order i a = Inr (addr a order i, a')" "grabs K M a (order, i) a'"
      using grabs_take [OF assms(1,2) i(2)] by blast
    moreover from this have "alloc_block order a = Inr (addr a order i, a')"
      using False o d r(1) i(1) by (subst alloc_block.simps) (simp add: BUDDY_MAX_ORDER_def rd_nat)
    ultimately show ?thesis using i(2) by blast
  qed
qed

subsection \<open>Release puts it back and joins free siblings\<close>

definition merged_but :: "nat \<Rightarrow> nat \<times> nat \<Rightarrow> (nat \<times> nat) set \<Rightarrow> bool" where
  "merged_but M b F \<longleftrightarrow> (\<forall>x k. (x, k) \<in> F \<and> x < M \<and> (x, k) \<noteq> b \<and> (x, sibling k) \<noteq> b \<longrightarrow> (x, sibling k) \<notin> F)"

lemma merged_but_end:
  assumes "merged_but M (order, i) F" "order < M \<Longrightarrow> (order, sibling i) \<notin> F"
  shows "merged M F"
  unfolding merged_def
proof (intro allI impI)
  fix x k assume k: "(x, k) \<in> F \<and> x < M"
  show "(x, sibling k) \<notin> F"
  proof (cases "(x, k) = (order, i) \<or> (x, sibling k) = (order, i)")
    case True
    then show ?thesis using k assms(2) sibling_half(3) [of k] by auto
  next
    case False
    then show ?thesis using k assms(1) by (auto simp: merged_but_def)
  qed
qed

definition joins :: "nat \<Rightarrow> nat \<Rightarrow> buddy_allocator \<Rightarrow> nat set \<Rightarrow> buddy_allocator \<Rightarrow> bool" where
  "joins K M a X a' \<longleftrightarrow> core K M a' \<and> merged M (free_set a') \<and> same_pool a a' \<and> cover (free_set a') = X"

text \<open>Two free siblings below the top become their parent.\<close>

lemma merge_step:
  assumes c: "core K M a" and b: "(order, i) \<in> free_set a" "(order, sibling i) \<in> free_set a" "order < M"
    and m: "merged_but M (order, i) (free_set a)"
  shows "\<exists>a'. bindR (on_bitmap buddy_set_bit order i a) (\<lambda>a. bindR (on_bitmap buddy_set_bit order (sibling i) a) (\<lambda>a. add_size order (- 2) a)) = Inr a' \<and>
    i div 2 < max_blocks a' ! Suc order \<and> length (max_blocks a') = 21 \<and> same_pool a a' \<and>
    (\<exists>a''. bindR (on_bitmap buddy_clear_bit (Suc order) (i div 2) a') (\<lambda>a. add_size (Suc order) 1 a) = Inr a'' \<and>
      core K M a'' \<and> same_pool a a'' \<and> (Suc order, i div 2) \<in> free_set a'' \<and> merged_but M (Suc order, i div 2) (free_set a'') \<and>
      cover (free_set a'') = cover (free_set a))"
proof -
  let ?F = "free_set a - {(order, i)} - {(order, sibling i)}"
  have g: "geo K M a" "counts a (free_set a)" "inside K M (free_set a)" "apart (free_set a)" using c by (auto simp: core_def)
  have o: "order_ok (Suc order)" using free_setD [OF b(1)] b(3) g(1) by (auto simp: geo_def)
  obtain a' where a': "bindR (on_bitmap buddy_set_bit order i a) (\<lambda>a. bindR (on_bitmap buddy_set_bit order (sibling i) a) (\<lambda>a. add_size order (- 2) a)) = Inr a'"
    "retags K M a ?F a'" using join_free [OF g(1,2) b(1,2)] sibling_half(2) [of i] by auto
  then have m': "geo K M a'" "counts a' (free_set a')" "free_set a' = ?F" "same_pool a a'" by (auto simp: retags_def)
  have l: "i div 2 < limit K M (Suc order)" using limit_half [OF b(3), of i K] g(3) b(1) by (auto simp: inside_def)
  then have mx: "i div 2 < max_blocks a' ! Suc order" using geoD(5) [OF m'(1) o] by simp
  have b2: "(order, sibling i) \<in> free_set a - {(order, i)}" using b(2) sibling_half(2) [of i] by simp
  note r1 = apart_remove [OF g(4) b(1)] note r2 = apart_remove [OF r1(1) b2]
  have dis: "cover ?F \<inter> span (Suc order, i div 2) = {}" using r1(3) r2(2,3) unfolding span_pair [symmetric] by blast
  have cov: "cover (insert (Suc order, i div 2) ?F) = cover (free_set a)" using r1(2) r2(2) unfolding cover_insert span_pair [symmetric] by blast
  have n: "(Suc order, i div 2) \<notin> free_set a'" unfolding m'(3) by (rule cover_notin [OF dis]) simp
  obtain a'' where a'': "bindR (on_bitmap buddy_clear_bit (Suc order) (i div 2) a') (\<lambda>a. add_size (Suc order) 1 a) = Inr a''"
    "retags K M a' (insert (Suc order, i div 2) ?F) a''" using grow_free [OF m'(1,2) o mx n] m'(3) by auto
  have "apart (insert (Suc order, i div 2) ?F)" by (rule apart_insert [OF r2(1) dis])
  moreover have "inside K M (insert (Suc order, i div 2) ?F)" using g(3) l by (auto simp: inside_def)
  ultimately have co: "core K M a''" using a''(2) by (auto simp: core_def retags_def)
  have fs: "free_set a'' = insert (Suc order, i div 2) ?F" using a''(2) by (simp add: retags_def)
  have mb: "merged_but M (Suc order, i div 2) (free_set a'')" unfolding fs using m by (auto simp: merged_but_def)
  have sp: "same_pool a a''" using m'(4) a''(2) same_pool_trans by (auto simp: retags_def)
  have ml: "length (max_blocks a') = 21" using m'(1) by (simp add: geo_def)
  have mem: "(Suc order, i div 2) \<in> free_set a''" and cv: "cover (free_set a'') = cover (free_set a)" using cov by (simp_all add: fs)
  show ?thesis by (intro exI [of _ a'] conjI exI [of _ a'']) (rule a'(1) mx ml m'(4) a''(1) co sp mem mb cv)+
qed

lemma merge_loop_spec:
  assumes "core K M a" "(order, i) \<in> free_set a" "merged_but M (order, i) (free_set a)"
  shows "\<exists>a'. merge_loop (addr a order i) order i a = Inr a' \<and> joins K M a (cover (free_set a)) a'"
  using assms
proof (induction "20 - order" arbitrary: order i a)
  case 0
  then have g: "geo K M a" and o: "order = 20" using free_setD [OF 0(3)] by (auto simp: core_def)
  have "merged M (free_set a)" by (rule merged_but_end [OF 0(4)]) (use g o in \<open>auto simp: geo_def\<close>)
  then show ?case using 0 o by (subst merge_loop.simps) (simp add: BUDDY_MAX_ORDER_def joins_def)
next
  case (Suc n)
  have g: "geo K M a" "inside K M (free_set a)" using Suc(3) by (auto simp: core_def)
  have o: "order_ok order" "order < 20" "order < 64" and i: "i < limit K M order"
    using free_setD [OF Suc(4)] Suc(2) g(2) Suc(4) by (auto simp: inside_def)
  note f = limit_fits [OF g(1) i]
  show ?case
  proof (cases "order < M")
    case False
    then have M: "order = M" "K = 1" "i = 0" using f(1) o(2) g(1) i by (auto simp: geo_def limit_def)
    then have w: "unat (pool_start a) + sibling i * 2 ^ order < 2 ^ 64" using g(1) by (simp add: geo_def sibling_def)
    have "merged M (free_set a)" by (rule merged_but_end [OF Suc(5)]) (use False in simp)
    moreover have "\<not> is_valid_block a (addr a order (sibling i)) order"
      using valid_addr [OF g(1) o(3) w] M by (simp add: sibling_def)
    ultimately show ?thesis using Suc(3) o(2) buddy_addr [OF o(3) f(3) w]
      by (subst merge_loop.simps) (simp add: BUDDY_MAX_ORDER_def joins_def)
  next
    case True
    note s = sibling_limit [OF True i]
    note f' = limit_fits [OF g(1) s]
    have v: "is_valid_block a (addr a order (sibling i)) order" using valid_addr [OF g(1) o(3) f'(3)] f'(2) by simp
    have mx: "i < max_blocks a ! order" "sibling i < max_blocks a ! order" using geoD(5) [OF g(1) o(1)] i s by auto
    note t = test_block_eq [OF g(1) o(1) mx(1)] test_block_eq [OF g(1) o(1) mx(2)]
    note pre = buddy_addr [OF o(3) f(3) f'(3)] v index_addr [OF o(3) f'(3)] t
    show ?thesis
    proof (cases "(order, sibling i) \<in> free_set a")
      case False
      have "merged M (free_set a)" by (rule merged_but_end [OF Suc(5)]) (use False in simp)
      then show ?thesis using Suc(3) o(2) pre False by (subst merge_loop.simps) (simp add: BUDDY_MAX_ORDER_def joins_def)
    next
      case S: True
      obtain b d where bd: "bindR (on_bitmap buddy_set_bit order i a) (\<lambda>a. bindR (on_bitmap buddy_set_bit order (sibling i) a) (\<lambda>a. add_size order (- 2) a)) = Inr b"
        "i div 2 < max_blocks b ! Suc order" "length (max_blocks b) = 21" "same_pool a b"
        "bindR (on_bitmap buddy_clear_bit (Suc order) (i div 2) b) (\<lambda>a. add_size (Suc order) 1 a) = Inr d"
        and d: "core K M d" "same_pool a d" "(Suc order, i div 2) \<in> free_set d" "merged_but M (Suc order, i div 2) (free_set d)"
        "cover (free_set d) = cover (free_set a)"
        using merge_step [OF Suc(3,4) S True Suc(5)] by blast
      have n: "n = 20 - Suc order" using Suc(2) by simp
      obtain a' where a': "merge_loop (addr d (Suc order) (i div 2)) (Suc order) (i div 2) d = Inr a'" "joins K M d (cover (free_set d)) a'"
        using Suc(1) [OF n d(1,3,4)] by blast
      obtain b1 b2 where b: "on_bitmap buddy_set_bit order i a = Inr b1" "on_bitmap buddy_set_bit order (sibling i) b1 = Inr b2"
        "add_size order (- 2) b2 = Inr b" using bd(1) by (auto simp: bindR_Inr_iff)
      obtain d1 where d1: "on_bitmap buddy_clear_bit (Suc order) (i div 2) b = Inr d1" "add_size (Suc order) 1 d1 = Inr d"
        using bd(5) by (auto simp: bindR_Inr_iff)
      have ps: "pool_start b = pool_start a" "addr d (Suc order) (i div 2) = addr a (Suc order) (i div 2)"
        using bd(4) addr_same [OF d(2)] by (simp_all add: same_pool_def)
      have ix: "get_block_index (addr a (Suc order) (i div 2)) (pool_start a) (Suc order) = i div 2"
        using index_addr [of "Suc order" a "i div 2"] limit_fits(3) [OF g(1), of "i div 2" "Suc order"] limit_half [OF True, of i K] i o(2) by simp
      have "rd (max_blocks b) (int (Suc order)) = Inr (max_blocks b ! Suc order)" using bd(3) o(2) by (intro rd_nat) simp
      then have "merge_loop (addr a order i) order i a = Inr a'"
        using o(2) pre S Suc(4) b d1 ps ix bd(2) a'(1)
        by (subst merge_loop.simps) (simp add: BUDDY_MAX_ORDER_def merged_addr [OF o(3) f(3) f'(3)] Let_def not_le)
      moreover have "joins K M a (cover (free_set a)) a'" using a'(2) d(2,5) same_pool_trans by (auto simp: joins_def)
      ultimately show ?thesis by blast
    qed
  qed
qed

lemma free_block_spec:
  assumes c: "core K M a" "merged M (free_set a)" and o: "order_ok order" "i < limit K M order" and n: "cover (free_set a) \<inter> span (order, i) = {}"
  shows "\<exists>a'. free_block (addr a order i) order a = Inr a' \<and> joins K M a (cover (free_set a) \<union> span (order, i)) a'"
proof -
  have g: "geo K M a" "counts a (free_set a)" "inside K M (free_set a)" "apart (free_set a)" using c by (auto simp: core_def)
  note f = limit_fits [OF g(1) o(2)]
  have o': "order < 64" using o(1) by simp
  have mx: "i < max_blocks a ! order" using geoD(5) [OF g(1) o(1)] o(2) by simp
  have n': "(order, i) \<notin> free_set a" by (rule cover_notin [OF n]) simp
  obtain b where b: "bindR (on_bitmap buddy_clear_bit order i a) (\<lambda>a. add_size order 1 a) = Inr b" "retags K M a (insert (order, i) (free_set a)) b"
    using grow_free [OF g(1,2) o(1) mx n'] by blast
  have fb: "free_set b = insert (order, i) (free_set a)" using b(2) by (simp add: retags_def)
  have "apart (free_set b)" unfolding fb by (rule apart_insert [OF g(4) n])
  moreover have "inside K M (free_set b)" using g(3) o(2) by (auto simp: fb inside_def)
  ultimately have cb: "core K M b" using b(2) by (auto simp: core_def retags_def)
  have "merged_but M (order, i) (free_set b)" using c(2) by (auto simp: fb merged_but_def merged_def)
  then obtain a' where a': "merge_loop (addr b order i) order i b = Inr a'" "joins K M b (cover (free_set b)) a'"
    using merge_loop_spec [OF cb, of order i] fb by auto
  have sp: "same_pool a b" using b(2) by (simp add: retags_def)
  obtain b1 where "on_bitmap buddy_clear_bit order i a = Inr b1" "add_size order 1 b1 = Inr b" using b(1) by (auto simp: bindR_Inr_iff)
  then have "free_block (addr a order i) order a = Inr a'"
    using a'(1) addr_same [OF sp] valid_addr [OF g(1) o' f(3)] f(2) index_addr [OF o' f(3)] by (simp add: free_block_def)
  moreover have "joins K M a (cover (free_set a) \<union> span (order, i)) a'"
    using a'(2) sp same_pool_trans by (auto simp: joins_def fb Un_commute)
  ultimately show ?thesis by blast
qed

subsection \<open>The allocator's calls\<close>

definition buddy_ok :: "nat \<Rightarrow> nat \<Rightarrow> buddy_allocator \<Rightarrow> bool" where
  "buddy_ok K M a \<longleftrightarrow> core K M a \<and> merged M (free_set a) \<and> free_lock (buddy_lock a)"

lemma lock_frame [simp]:
  "free_set (a\<lparr>buddy_lock := l\<rparr>) = free_set a" "core K M (a\<lparr>buddy_lock := l\<rparr>) = core K M a"
  "addr (a\<lparr>buddy_lock := l\<rparr>) order i = addr a order i"
  by (simp_all add: free_set_def core_def geo_def counts_def get_block_address_def)

lemma same_pool_lock: "same_pool (a\<lparr>buddy_lock := l\<rparr>) b \<Longrightarrow> same_pool a (b\<lparr>buddy_lock := buddy_lock a\<rparr>) \<and> buddy_lock b = l"
  by (simp add: same_pool_def)

lemma order_loop_spec:
  assumes "12 \<le> order" "order \<le> 20" "\<And>x. 12 \<le> x \<Longrightarrow> x < order \<Longrightarrow> 2 ^ x < unat sz"
  shows "order_ok (fst (order_loop order (BUDDY_BLOCK_SIZE order) sz)) \<and>
    (unat sz \<le> 2 ^ 20 \<longrightarrow> unat sz \<le> 2 ^ fst (order_loop order (BUDDY_BLOCK_SIZE order) sz)) \<and>
    (\<forall>x. 12 \<le> x \<and> x < fst (order_loop order (BUDDY_BLOCK_SIZE order) sz) \<longrightarrow> 2 ^ x < unat sz)"
  using assms
proof (induction "20 - order" arbitrary: order)
  case 0
  then show ?case by (subst (1 2 3 4) order_loop.simps) (auto simp: BUDDY_MAX_ORDER_def)
next
  case (Suc n)
  have d: "push_bit 1 (BUDDY_BLOCK_SIZE order) = BUDDY_BLOCK_SIZE (Suc order)"
    by (simp add: BUDDY_BLOCK_SIZE_def)
  have b: "BUDDY_BLOCK_SIZE order < sz \<longleftrightarrow> 2 ^ order < unat sz" using Suc(2-4) block_size_nat [of order] by (simp add: word_less_nat_alt)
  show ?case
  proof (cases "2 ^ order < unat sz")
    case True
    have "2 ^ x < unat sz" if "12 \<le> x" "x < Suc order" for x using that True Suc(5) by (cases "x = order") auto
    then show ?thesis using Suc(1) [of "Suc order"] Suc(2-4) True b d
      by (subst (1 2 3 4) order_loop.simps) (simp add: BUDDY_MAX_ORDER_def)
  next
    case False
    then show ?thesis using Suc(2-5) b by (subst (1 2 3 4) order_loop.simps) simp
  qed
qed

lemma get_minimum_order_spec:
  "order_ok (get_minimum_order sz)" "unat sz \<le> 2 ^ 20 \<Longrightarrow> unat sz \<le> 2 ^ get_minimum_order sz"
  "12 \<le> x \<Longrightarrow> x < get_minimum_order sz \<Longrightarrow> 2 ^ x < unat sz"
  using order_loop_spec [of 12 sz] by (auto simp: get_minimum_order_def BUDDY_MIN_ORDER_def)

text \<open>The search for an order stops at the largest one, also for requests that do not fit it.\<close>

lemma order_loop_large:
  assumes "12 \<le> order" "order \<le> 20" "2 ^ 20 < unat sz"
  shows "fst (order_loop order (BUDDY_BLOCK_SIZE order) sz) = 20"
  using assms
proof (induction "20 - order" arbitrary: order)
  case 0
  then show ?case by (subst order_loop.simps) (simp add: BUDDY_MAX_ORDER_def)
next
  case (Suc n)
  have "push_bit 1 (BUDDY_BLOCK_SIZE order) = BUDDY_BLOCK_SIZE (Suc order)" by (simp add: BUDDY_BLOCK_SIZE_def)
  moreover have "(2 :: nat) ^ order \<le> 2 ^ 20" using Suc(4) by (intro power_increasing) simp_all
  then have "BUDDY_BLOCK_SIZE order < sz" using Suc(2-5) block_size_nat [of order] by (simp add: word_less_nat_alt)
  ultimately show ?case using Suc(1) [of "Suc order"] Suc(2-5) by (subst order_loop.simps) (simp add: BUDDY_MAX_ORDER_def)
qed

lemma get_minimum_order_large: "2 ^ 20 < unat sz \<Longrightarrow> get_minimum_order sz = 20"
  using order_loop_large [of 12 sz] by (simp add: get_minimum_order_def BUDDY_MIN_ORDER_def)

lemma buddy_alloc_spec:
  assumes "buddy_ok K M a"
  shows "buddy_alloc a sz = Inr (0, a) \<and> (sz = 0 \<or> sz > pool_size a \<or> (\<forall>x i. get_minimum_order sz \<le> x \<longrightarrow> (x, i) \<notin> free_set a)) \<or>
    (\<exists>i a'. buddy_alloc a sz = Inr (addr a (get_minimum_order sz) i, a') \<and> sz \<noteq> 0 \<and> sz \<le> pool_size a \<and> grabs K M a (get_minimum_order sz, i) a' \<and>
      (\<exists>x j. get_minimum_order sz \<le> x \<and> (x, j) \<in> free_set a))"
proof (cases "sz = 0 \<or> sz > pool_size a")
  case True
  then show ?thesis by (auto simp: buddy_alloc_def)
next
  case False
  have l: "free_lock (buddy_lock a)" using assms by (simp add: buddy_ok_def)
  let ?l = "(buddy_lock a)\<lparr>lock := 1\<rparr>" let ?b = "a\<lparr>buddy_lock := ?l\<rparr>"
  note o = get_minimum_order_spec(1) [of sz]
  have "core K M ?b" "merged M (free_set ?b)" using assms by (auto simp: buddy_ok_def)
  from alloc_block_spec [OF this, of "get_minimum_order sz"] o
  consider "alloc_block (get_minimum_order sz) ?b = Inr (0, ?b)" "\<forall>x i. get_minimum_order sz \<le> x \<longrightarrow> (x, i) \<notin> free_set a"
    | i a' where "alloc_block (get_minimum_order sz) ?b = Inr (addr a (get_minimum_order sz) i, a')" "grabs K M ?b (get_minimum_order sz, i) a'"
      "\<exists>x j. get_minimum_order sz \<le> x \<and> (x, j) \<in> free_set a"
    by auto
  then show ?thesis
  proof cases
    case 1
    then have "buddy_alloc a sz = Inr (0, a)"
      using False acquire_free [OF l] release_acquired [OF l] by (simp add: buddy_alloc_def)
    then show ?thesis using 1(2) by blast
  next
    case (2 i a')
    have s: "same_pool a (a'\<lparr>buddy_lock := buddy_lock a\<rparr>)" "buddy_lock a' = ?l" using same_pool_lock 2(2) by (auto simp: grabs_def)
    then have "buddy_alloc a sz = Inr (addr a (get_minimum_order sz) i, a'\<lparr>buddy_lock := buddy_lock a\<rparr>)"
      using False acquire_free [OF l] release_acquired [OF l] 2(1) by (simp add: buddy_alloc_def)
    moreover have "grabs K M a (get_minimum_order sz, i) (a'\<lparr>buddy_lock := buddy_lock a\<rparr>)" using 2(2) s(1) by (auto simp: grabs_def)
    moreover have "sz \<noteq> 0 \<and> sz \<le> pool_size a" using False by (auto simp: not_less)
    ultimately show ?thesis using 2(3) by blast
  qed
qed

lemma buddy_free_spec:
  assumes "buddy_ok K M a" "order_ok order" "i < limit K M order" "cover (free_set a) \<inter> span (order, i) = {}"
  shows "\<exists>a'. buddy_free a (addr a order i) order = Inr a' \<and> joins K M a (cover (free_set a) \<union> span (order, i)) a'"
proof -
  have l: "free_lock (buddy_lock a)" and g: "geo K M a" using assms by (auto simp: buddy_ok_def core_def)
  let ?l = "(buddy_lock a)\<lparr>lock := 1\<rparr>" let ?b = "a\<lparr>buddy_lock := ?l\<rparr>"
  note f = limit_fits [OF g assms(3)]
  have v: "is_valid_block a (addr a order i) order" using valid_addr [OF g, of order i] f assms(2) by simp
  have "core K M ?b" "merged M (free_set ?b)" using assms(1) by (auto simp: buddy_ok_def)
  from free_block_spec [OF this assms(2,3)] obtain a' where a': "free_block (addr a order i) order ?b = Inr a'"
    "joins K M ?b (cover (free_set a) \<union> span (order, i)) a'" using assms(4) by auto
  have s: "same_pool a (a'\<lparr>buddy_lock := buddy_lock a\<rparr>)" "buddy_lock a' = ?l" using same_pool_lock a'(2) by (auto simp: joins_def)
  have "buddy_free a (addr a order i) order = Inr (a'\<lparr>buddy_lock := buddy_lock a\<rparr>)"
    using v assms(2) acquire_free [OF l] release_acquired [OF l] a'(1) s(2)
    by (simp add: buddy_free_def BUDDY_MIN_ORDER_def BUDDY_MAX_ORDER_def) (simp add: is_valid_block_def)
  moreover have "joins K M a (cover (free_set a) \<union> span (order, i)) (a'\<lparr>buddy_lock := buddy_lock a\<rparr>)"
    using a'(2) s(1) by (auto simp: joins_def)
  ultimately show ?thesis by blast
qed

subsection \<open>Free memory\<close>

lemma span_eq: "span (order, i) = {i * 2 ^ order ..< Suc i * 2 ^ order}"
proof (rule set_eqI)
  fix x :: nat
  have "x div 2 ^ order = i \<longleftrightarrow> i * 2 ^ order \<le> x \<and> x < Suc i * 2 ^ order"
    by (metis div_le_dividend div_less_iff_less_mult div_nat_eqI div_times_less_eq_dividend lessI mult.commute zero_less_numeral zero_less_power)
  then show "x \<in> span (order, i) \<longleftrightarrow> x \<in> {i * 2 ^ order ..< Suc i * 2 ^ order}" by simp
qed

lemma span_card: "card (span b) = 2 ^ fst b" "finite (span b)"
  by (cases b; simp add: span_eq)+

lemma free_set_finite: "finite (free_set a)"
proof (rule finite_subset)
  show "free_set a \<subseteq> Sigma {12..20} (slice (free_set a))" using free_setD by fastforce
  show "finite (Sigma {12..20} (slice (free_set a)))" by (intro finite_SigmaI slice_finite) simp
qed

lemma cover_card: "finite F \<Longrightarrow> apart F \<Longrightarrow> card (cover F) = (\<Sum>b\<in>F. 2 ^ fst b)"
  unfolding cover_def by (subst card_UN_disjoint) (auto simp: span_card apart_def)

lemma free_set_card:
  assumes "apart (free_set a)"
  shows "card (cover (free_set a)) = (\<Sum>order = 12..20. card (slice (free_set a) order) * 2 ^ order)"
proof -
  have "free_set a = Sigma {12..20} (slice (free_set a))" using free_setD by fastforce
  then have "(\<Sum>b\<in>free_set a. 2 ^ fst b :: nat) = (\<Sum>(order, i)\<in>Sigma {12..20} (slice (free_set a)). 2 ^ order)"
    by (metis (no_types, lifting) case_prod_beta sum.cong)
  also have "\<dots> = (\<Sum>order = 12..20. \<Sum>i\<in>slice (free_set a) order. 2 ^ order)"
    by (rule sum.Sigma [symmetric]) (auto simp: slice_finite)
  finally show ?thesis using cover_card [OF free_set_finite assms] by simp
qed

lemma cover_inside:
  assumes "geo K M a" "inside K M F"
  shows "cover F \<subseteq> {..<K * 2 ^ M}"
proof
  fix x assume "x \<in> cover F"
  then obtain order i where b: "(order, i) \<in> F" "x \<in> span (order, i)" by (auto simp: cover_def)
  then have i: "i < limit K M order" using assms(2) by (auto simp: inside_def)
  have "x < Suc i * 2 ^ order" using b(2) unfolding span_eq by simp
  also have "\<dots> \<le> limit K M order * 2 ^ order" using i by (intro mult_le_mono1) simp
  also have "\<dots> = K * 2 ^ M" by (rule limit_power [OF limit_fits(1) [OF assms(1) i]])
  finally show "x \<in> {..<K * 2 ^ M}" by simp
qed

lemma sum_free_eq:
  "(\<And>x. x \<in> set os \<Longrightarrow> x < length (free_area_size a)) \<Longrightarrow>
   sum_free os a acc = Inr (acc + sum_list (map (\<lambda>x. free_area_size a ! x * BUDDY_BLOCK_SIZE x) os))"
  by (induction os arbitrary: acc) (simp_all add: rd_nat add.assoc)

lemma buddy_get_free_memory_spec:
  assumes "buddy_ok K M a"
  shows "\<exists>n. buddy_get_free_memory a = Inr (n, a) \<and> unat n = card (cover (free_set a))"
proof -
  have c: "geo K M a" "counts a (free_set a)" "inside K M (free_set a)" "apart (free_set a)" "free_lock (buddy_lock a)"
    using assms by (auto simp: buddy_ok_def core_def)
  let ?f = "\<lambda>x. free_area_size a ! x * BUDDY_BLOCK_SIZE x" and ?g = "\<lambda>x. card (slice (free_set a) x) * 2 ^ x"
  have f: "?f x = of_nat (?g x)" if "12 \<le> x" "x \<le> 20" for x
  proof -
    have "free_area_size a ! x = of_nat (unat (free_area_size a ! x))" by simp
    also have "\<dots> = of_nat (card (slice (free_set a) x))" using c(2) that by (simp only: counts_def)
    finally show ?thesis by (simp add: BUDDY_BLOCK_SIZE_def push_bit_eq_mult)
  qed
  have "map ?f [12..<21] = map (\<lambda>x. of_nat (?g x)) [12..<21]" by (rule map_cong [OF refl]) (use f in auto)
  then have "sum_list (map ?f [12..<21]) = of_nat (sum_list (map ?g [12..<21]))"
    by (simp add: sum_list_of_nat)
  also have "sum_list (map ?g [12..<21]) = (\<Sum>x\<in>{12..20}. ?g x)"
  proof -
    have "set [12..<21] = {12..20 :: nat}" unfolding set_upt by auto
    then show ?thesis by (simp only: interv_sum_list_conv_sum_set_nat)
  qed
  also have "\<dots> = card (cover (free_set a))" by (rule free_set_card [OF c(4), symmetric])
  finally have s: "sum_list (map ?f [12..<21]) = of_nat (card (cover (free_set a)))" .
  have "card (cover (free_set a)) \<le> card {..<K * 2 ^ M}" by (rule card_mono [OF _ cover_inside [OF c(1,3)]]) simp
  then have "card (cover (free_set a)) < 2 ^ LENGTH(64)" using c(1) by (simp add: geo_def)
  then have u: "unat (of_nat (card (cover (free_set a))) :: u64) = card (cover (free_set a))" by (rule unat_of_nat_eq)
  have "sum_free [12..<21] (a\<lparr>buddy_lock := (buddy_lock a)\<lparr>lock := 1\<rparr>\<rparr>) 0 = Inr (of_nat (card (cover (free_set a))))"
    using c(1) by (subst sum_free_eq) (simp_all add: s geo_def del: upt.simps upt_rec_numeral)
  then have "buddy_get_free_memory a = Inr (of_nat (card (cover (free_set a))), a)"
    using acquire_free [OF c(5)] release_acquired [OF c(5)]
    by (simp add: buddy_get_free_memory_def BUDDY_MIN_ORDER_def BUDDY_MAX_ORDER_def del: upt.simps upt_rec_numeral)
  then show ?thesis using u by blast
qed

end
