(* ===== verification/Buddy_Run.thy ===== *)
theory Buddy_Run
  imports Buddy
begin

text \<open>
  The buddy allocator over its life: what \<open>buddy_init\<close> builds, and what holds after any sequence
  of allocations and of releases of live blocks.
\<close>

subsection \<open>Initialisation\<close>

lemma unat_below: "unat w < 2 ^ 64" for w :: u64
  using uint_bounded [of w] by (simp add: unat_less_uint)

lemma bitmap_words_bounds: "n \<le> 32 * bitmap_words n" "8 * (bitmap_words n * 4) \<le> n + 31"
  by (simp_all add: bitmap_words_def)

definition bitmap_bytes :: "nat \<Rightarrow> nat" where
  "bitmap_bytes n = (\<Sum>order \<leftarrow> [12..<21]. bitmap_words (n div 2 ^ order) * 4)"

text \<open>Nine bitmaps, each a bit per block rounded up to a word.\<close>

lemma nine_bitmaps:
  fixes n :: nat
  assumes "8 * t1 \<le> m1 + 31" "4096 * m1 \<le> n" "8 * t2 \<le> m2 + 31" "8192 * m2 \<le> n" "8 * t3 \<le> m3 + 31" "16384 * m3 \<le> n"
    "8 * t4 \<le> m4 + 31" "32768 * m4 \<le> n" "8 * t5 \<le> m5 + 31" "65536 * m5 \<le> n" "8 * t6 \<le> m6 + 31" "131072 * m6 \<le> n"
    "8 * t7 \<le> m7 + 31" "262144 * m7 \<le> n" "8 * t8 \<le> m8 + 31" "524288 * m8 \<le> n" "8 * t9 \<le> m9 + 31" "1048576 * m9 \<le> n"
  shows "16384 * (t1 + t2 + t3 + t4 + t5 + t6 + t7 + t8 + t9) \<le> n + 589824"
proof -
  have "512 * (2048 * (m1 + m2 + m3 + m4 + m5 + m6 + m7 + m8 + m9)) \<le> 512 * n"
    using assms(2,4,6,8,10,12,14,16,18) by (simp add: algebra_simps)
  then have "2048 * (m1 + m2 + m3 + m4 + m5 + m6 + m7 + m8 + m9) \<le> n" by (simp only: mult_le_cancel1)
  moreover have "8 * (t1 + t2 + t3 + t4 + t5 + t6 + t7 + t8 + t9) \<le> m1 + m2 + m3 + m4 + m5 + m6 + m7 + m8 + m9 + 279"
    using assms(1,3,5,7,9,11,13,15,17) by simp
  then have "2048 * (8 * (t1 + t2 + t3 + t4 + t5 + t6 + t7 + t8 + t9)) \<le> 2048 * (m1 + m2 + m3 + m4 + m5 + m6 + m7 + m8 + m9 + 279)"
    by (rule mult_le_mono2)
  ultimately show ?thesis by simp
qed

lemma bitmap_bytes_le: "16384 * bitmap_bytes n \<le> n + 589824"
proof -
  let ?t = "\<lambda>order. bitmap_words (n div 2 ^ order) * 4"
  have t: "8 * ?t order \<le> n div 2 ^ order + 31" for order by (rule bitmap_words_bounds)
  have m: "k * (n div 2 ^ order) \<le> n" if "k = 2 ^ order" for k order unfolding that by simp
  have "bitmap_bytes n = ?t 12 + ?t 13 + ?t 14 + ?t 15 + ?t 16 + ?t 17 + ?t 18 + ?t 19 + ?t 20"
    by (simp add: bitmap_bytes_def)
  moreover have "16384 * \<dots> \<le> n + 589824" by (rule nine_bitmaps) (rule t | rule m | simp)+
  ultimately show ?thesis by simp
qed

lemma unat_div_block: "order < 64 \<Longrightarrow> unat (sz div BUDDY_BLOCK_SIZE order) = unat sz div 2 ^ order"
  by (simp add: unat_div block_size_nat)

lemma total_bitmap_size_eq: "unat (total_bitmap_size sz) = bitmap_bytes (unat sz)"
proof -
  have f: "fold (\<lambda>order acc. acc + of_nat (f order)) os x = x + (of_nat (\<Sum>order\<leftarrow>os. f order) :: u64)" for f os x
    by (induction os arbitrary: x) (simp_all add: add.assoc)
  have e: "map (\<lambda>order. bitmap_words (preliminary_max_blocks sz order) * 4) [12..<21] = map (\<lambda>order. bitmap_words (unat sz div 2 ^ order) * 4) [12..<21]"
    by (rule map_cong) (auto simp: preliminary_max_blocks_def unat_div_block)
  have "total_bitmap_size sz = of_nat (bitmap_bytes (unat sz))"
    unfolding total_bitmap_size_def f BUDDY_MIN_ORDER_def BUDDY_MAX_ORDER_def bitmap_bytes_def e [symmetric] by (simp del: upt_rec_numeral)
  moreover have "bitmap_bytes (unat sz) < 2 ^ LENGTH(64)" using bitmap_bytes_le [of "unat sz"] unat_below [of sz] by simp
  ultimately show ?thesis by (simp only: unat_of_nat_eq)
qed

definition arrays :: "buddy_allocator \<Rightarrow> bool" where
  "arrays a \<longleftrightarrow> length (free_area_bitmap a) = 21 \<and> length (free_area_size a) = 21 \<and> length (max_blocks a) = 21"

lemma set_max_blocks_eq:
  "(\<And>x. x \<in> set os \<Longrightarrow> x < 21) \<Longrightarrow> length (max_blocks a) = 21 \<Longrightarrow>
   \<exists>ms. set_max_blocks os a = Inr (a\<lparr>max_blocks := ms\<rparr>) \<and> length ms = 21 \<and>
     (\<forall>x < 21. ms ! x = (if x \<in> set os then unat (pool_size a) div 2 ^ x else max_blocks a ! x))"
proof (induction os arbitrary: a)
  case Nil
  then show ?case by (intro exI [of _ "max_blocks a"]) simp
next
  case (Cons y os)
  let ?m = "(max_blocks a)[y := unat (pool_size a div BUDDY_BLOCK_SIZE y)]"
  have y: "y < 21" using Cons(2) by simp
  obtain ms where ms: "set_max_blocks os (a\<lparr>max_blocks := ?m\<rparr>) = Inr (a\<lparr>max_blocks := ms\<rparr>)" "length ms = 21"
    "\<forall>x < 21. ms ! x = (if x \<in> set os then unat (pool_size a) div 2 ^ x else ?m ! x)"
    using Cons(1) [of "a\<lparr>max_blocks := ?m\<rparr>"] Cons(2,3) by auto
  then show ?case using y Cons(3) by (intro exI [of _ ms]) (auto simp: wr_nat nth_update unat_div_block)
qed

text \<open>The bitmaps are laid out downwards, each all ones.\<close>

definition bitmap_region :: "bitmap \<Rightarrow> nat set" where
  "bitmap_region b = {unat (fst b) ..< unat (fst b) + 4 * length (snd b)}"

definition placed :: "nat list \<Rightarrow> u64 \<Rightarrow> buddy_allocator \<Rightarrow> u64 \<Rightarrow> bitmap list \<Rightarrow> u64 list \<Rightarrow> bool" where
  "placed os bs a s bm ns \<longleftrightarrow> length bm = 21 \<and> length ns = 21 \<and>
     unat s = unat bs - (\<Sum>x\<leftarrow>os. bitmap_words (max_blocks a ! x) * 4) \<and>
     (\<forall>x \<in> set os. snd (bm ! x) = replicate (bitmap_words (max_blocks a ! x)) 0xFFFFFFFF \<and> ns ! x = 0 \<and>
        unat s \<le> unat (fst (bm ! x)) \<and> bitmap_region (bm ! x) \<subseteq> {unat s ..< unat bs}) \<and>
     (\<forall>x < 21. x \<notin> set os \<longrightarrow> bm ! x = free_area_bitmap a ! x \<and> ns ! x = free_area_size a ! x) \<and>
     (\<forall>x \<in> set os. \<forall>y \<in> set os. x \<noteq> y \<longrightarrow> bitmap_region (bm ! x) \<inter> bitmap_region (bm ! y) = {})"

lemma place_bitmaps_eq:
  assumes "\<And>x. x \<in> set os \<Longrightarrow> x < 21" "distinct os" "arrays a" "(\<Sum>x\<leftarrow>os. bitmap_words (max_blocks a ! x) * 4) \<le> unat bs"
  shows "\<exists>s bm ns. place_bitmaps os bs a = Inr (s, a\<lparr>free_area_bitmap := bm, free_area_size := ns\<rparr>) \<and> placed os bs a s bm ns"
  using assms
proof (induction os arbitrary: a bs)
  case Nil
  then show ?case by (intro exI [of _ bs] exI [of _ "free_area_bitmap a"] exI [of _ "free_area_size a"]) (simp add: arrays_def placed_def)
next
  case (Cons y os)
  let ?n = "bitmap_words (max_blocks a ! y)"
  define t where "t = bs - of_nat (?n * 4)"
  let ?b = "(t, replicate ?n 0xFFFFFFFF) :: bitmap"
  let ?a = "a\<lparr>free_area_bitmap := (free_area_bitmap a)[y := ?b], free_area_size := (free_area_size a)[y := 0]\<rparr>"
  have y: "y < 21" "y \<notin> set os" using Cons(2,3) by auto
  have w: "?n * 4 \<le> unat bs" using Cons(5) by simp
  then have "unat (of_nat (?n * 4) :: u64) = ?n * 4" using unat_below [of bs] by (intro unat_of_nat_eq) simp
  then have s: "unat t = unat bs - ?n * 4" unfolding t_def using w by (subst unat_sub) (auto simp: word_le_nat_alt)
  have r: "bitmap_region ?b = {unat t ..< unat bs}" using s w by (simp add: bitmap_region_def)
  have "(\<Sum>x\<leftarrow>os. bitmap_words (max_blocks ?a ! x) * 4) \<le> unat t" using Cons(5) s by simp
  moreover have "arrays ?a" "\<And>x. x \<in> set os \<Longrightarrow> x < 21" "distinct os" using Cons(2-4) by (auto simp: arrays_def)
  ultimately obtain s bm ns where
    IH: "place_bitmaps os t ?a = Inr (s, ?a\<lparr>free_area_bitmap := bm, free_area_size := ns\<rparr>)" "placed os t ?a s bm ns"
    using Cons(1) by blast
  note D = IH(2) [unfolded placed_def]
  have len: "length bm = 21" "length ns = 21" and su: "unat s = unat t - (\<Sum>x\<leftarrow>os. bitmap_words (max_blocks a ! x) * 4)" using D by simp_all
  have old: "snd (bm ! x) = replicate (bitmap_words (max_blocks a ! x)) 0xFFFFFFFF \<and> ns ! x = 0 \<and>
      unat s \<le> unat (fst (bm ! x)) \<and> bitmap_region (bm ! x) \<subseteq> {unat s ..< unat t}" if "x \<in> set os" for x
    using D [THEN conjunct2, THEN conjunct2, THEN conjunct2, THEN conjunct1] that by simp
  have dis: "\<forall>x \<in> set os. \<forall>z \<in> set os. x \<noteq> z \<longrightarrow> bitmap_region (bm ! x) \<inter> bitmap_region (bm ! z) = {}"
    using D by (elim conjE)
  have by': "bm ! y = ?b" "ns ! y = 0" using D y Cons(4) by (simp_all add: arrays_def)
  have st: "unat s \<le> unat t" "unat t \<le> unat bs" using su s by simp_all
  have hd: "bitmap_region (bm ! x) \<inter> bitmap_region (bm ! y) = {}" if "x \<in> set os" for x using old [OF that] r unfolding by' by auto
  have "place_bitmaps (y # os) bs a = Inr (s, a\<lparr>free_area_bitmap := bm, free_area_size := ns\<rparr>)"
    using IH(1) y Cons(4) by (simp add: rd_nat wr_nat arrays_def t_def)
  moreover have "placed (y # os) bs a s bm ns"
    unfolding placed_def
  proof (intro conjI ballI allI impI)
    show "unat s = unat bs - (\<Sum>x\<leftarrow>y # os. bitmap_words (max_blocks a ! x) * 4)" using su s by simp
    fix x assume x: "x \<in> set (y # os)"
    show "snd (bm ! x) = replicate (bitmap_words (max_blocks a ! x)) 0xFFFFFFFF" "ns ! x = 0" using x old by' by auto
    show "unat s \<le> unat (fst (bm ! x))" using x old by' su by auto
    show "bitmap_region (bm ! x) \<subseteq> {unat s ..< unat bs}"
    proof (cases "x = y")
      case True
      then show ?thesis using st by (simp add: by' r)
    next
      case False
      then have "bitmap_region (bm ! x) \<subseteq> {unat s ..< unat t}" using x old by simp
      also have "\<dots> \<subseteq> {unat s ..< unat bs}" using st by (intro ivl_subset [THEN iffD2]) simp
      finally show ?thesis .
    qed
    fix z assume "z \<in> set (y # os)" "x \<noteq> z"
    then show "bitmap_region (bm ! x) \<inter> bitmap_region (bm ! z) = {}" using x hd dis
      by (metis Int_commute set_ConsD)
  next
    fix x :: nat assume "x < 21" "x \<notin> set (y # os)"
    then show "bm ! x = free_area_bitmap a ! x" "ns ! x = free_area_size a ! x" using D by simp_all
  qed (rule len)+
  ultimately show ?case by blast
qed

lemma top_order_eq:
  assumes "length (max_blocks a) = 21" "max_blocks a ! 12 \<noteq> 0" "12 \<le> n" "n \<le> 20"
  shows "\<exists>M. top_order n a = Inr M \<and> 12 \<le> M \<and> M \<le> n \<and> max_blocks a ! M \<noteq> 0 \<and> (\<forall>x. M < x \<and> x \<le> n \<longrightarrow> max_blocks a ! x = 0)"
  using assms(3,4)
proof (induction n)
  case (Suc n)
  show ?case
  proof (cases "12 < Suc n \<and> max_blocks a ! Suc n = 0")
    case True
    then obtain M where M: "top_order n a = Inr M" "12 \<le> M" "M \<le> n" "max_blocks a ! M \<noteq> 0" "\<forall>x. M < x \<and> x \<le> n \<longrightarrow> max_blocks a ! x = 0"
      using Suc by auto
    have "max_blocks a ! x = 0" if "M < x" "x \<le> Suc n" for x using that M(5) True by (cases "x = Suc n") auto
    then show ?thesis using M True Suc(3) assms(1) rd_nat [of "Suc n" "max_blocks a"] by (intro exI [of _ M]) (auto simp: BUDDY_MIN_ORDER_def)
  next
    case False
    then have "max_blocks a ! Suc n \<noteq> 0" using Suc(2) assms(2) by (cases "Suc n = 12") auto
    moreover have "top_order (Suc n) a = Inr (Suc n)"
      using False Suc(3) assms(1) rd_nat [of "Suc n" "max_blocks a"] by (auto simp: BUDDY_MIN_ORDER_def)
    ultimately show ?thesis using Suc(2) by auto
  qed
qed simp

lemma layout_arith:
  fixes s :: nat
  assumes "S = 4096 * s" "2 \<le> s" "16384 * T \<le> S + 589824" "0 < T" "E = 4096 * e" "E \<le> 1048576" "E \<le> S - T" "16384 * T' \<le> S - T + 589824"
  shows "E + T' \<le> S - T"
proof -
  have "E < S" using assms(1-4,7) by linarith
  then have "E + 4096 \<le> S" using assms(1,5) by simp
  then show ?thesis using assms(3,6,8) by linarith
qed

lemma all_ones: "i < n \<Longrightarrow> n \<le> 32 * k \<Longrightarrow> word_view (replicate k (0xFFFFFFFF :: u32)) i"
proof -
  assume "i < n" "n \<le> 32 * k"
  then have "i div 32 < k" by (simp add: div_less_iff_less_mult)
  moreover have "bit (0xFFFFFFFF :: u32) j" if "j < 32" for j
  proof -
    have "(0xFFFFFFFF :: u32) = mask 32" by (simp add: mask_eq_exp_minus_1)
    then show ?thesis using that by (simp only: bit_mask_iff) simp
  qed
  ultimately show ?thesis by (simp add: word_view_def)
qed

text \<open>The pool a fresh allocator manages: the state before its first block is marked free.\<close>

lemma fresh_geo:
  assumes "arrays a" "pool_start a \<noteq> 0" "unat (pool_size a) = K * 2 ^ M" "0 < K" "order_ok M" "M < 20 \<longrightarrow> K = 1" "K * 2 ^ M \<le> P"
    "unat (pool_start a) + P < 2 ^ 64" "P < 2 ^ 64" "\<And>x. order_ok x \<Longrightarrow> max_blocks a ! x = P div 2 ^ x"
    "\<And>x. order_ok x \<Longrightarrow> fst (free_area_bitmap a ! x) \<noteq> 0 \<and> snd (free_area_bitmap a ! x) = replicate (bitmap_words (P div 2 ^ x)) 0xFFFFFFFF"
  shows "geo K M a" "free_set a = {}"
proof -
  have "limit K M x \<le> P div 2 ^ x" if "order_ok x" for x
  proof (cases "x \<le> M")
    case True
    have "limit K M x * 2 ^ x \<le> P" unfolding limit_power [OF True] by (rule assms(7))
    then show ?thesis by (simp add: less_eq_div_iff_mult_less_eq)
  qed (simp add: limit_def)
  moreover have "P div 2 ^ x \<le> 2 ^ 52" if "order_ok x" for x
  proof -
    have "(2 :: nat) ^ 12 \<le> 2 ^ x" using that by (intro power_increasing) simp_all
    then have "P div 2 ^ x \<le> P div 2 ^ 12" by (intro div_le_mono2) simp_all
    then show ?thesis using assms(9) by simp
  qed
  moreover have "bits_ok (P div 2 ^ x) (free_area_bitmap a ! x)" if "order_ok x" for x
    using assms(11) [OF that] bitmap_words_bounds(1) [of "P div 2 ^ x"] by (simp add: bits_ok_def word_cap_def mult.commute)
  ultimately show "geo K M a" using assms(1-8,10) unfolding geo_def arrays_def by simp
  have "word_view (snd (free_area_bitmap a ! x)) i" if "order_ok x" "i < max_blocks a ! x" for x i
    using that assms(10,11) all_ones [OF _ bitmap_words_bounds(1), of i "P div 2 ^ x"] by simp
  then show "free_set a = {}" by (auto simp: free_set_def)
qed

text \<open>Marking block 0 of the top order makes it the only free block.\<close>

lemma first_block:
  assumes g: "geo K M a" and e: "free_set a = {}" and n: "\<And>x. order_ok x \<Longrightarrow> free_area_size a ! x = 0"
  shows "\<exists>a'. bindR (on_bitmap buddy_clear_bit M 0 a) (\<lambda>a. bindR (wr (free_area_size a) (int M) 1) (\<lambda>ns. Inr (a\<lparr>free_area_size := ns\<rparr>))) = Inr a' \<and>
    buddy_ok K M (a'\<lparr>buddy_lock := spinlock_release (buddy_lock a')\<rparr>) \<and> free_set a' = {(M, 0)} \<and> pool_start a' = pool_start a \<and> pool_size a' = pool_size a \<and>
    (\<forall>x. order_ok x \<longrightarrow> bitmap_region (free_area_bitmap a' ! x) = bitmap_region (free_area_bitmap a ! x))"
proof -
  have M: "order_ok M" "0 < limit K M M" using g by (auto simp: geo_def limit_def)
  then have mx: "0 < max_blocks a ! M" using geoD(5) [OF g M(1)] by simp
  obtain b where b: "on_bitmap buddy_clear_bit M 0 a = Inr b" "geo K M b" "same_pool a b" "free_area_size b = free_area_size a" "free_set b = {(M, 0)}"
    using clear_free [OF g M(1) mx] e by auto
  let ?b = "b\<lparr>free_area_size := (free_area_size b)[M := 1]\<rparr>"
  note len = geoD(1,2) [OF b(2) M(1)]
  have fs: "free_set ?b = {(M, 0)}" using b(5) by (simp add: free_set_def)
  have "slice {(M, 0)} x = (if x = M then {0} else {})" for x by (auto simp: slice_def)
  then have "counts ?b {(M, 0)}" using n len(2) by (auto simp: counts_def b(4) nth_list_update)
  moreover have "geo K M ?b" using b(2) by (simp add: geo_def)
  moreover have m: "inside K M {(M, 0)}" "apart {(M, 0)}" "merged M {(M, 0)}" using M(2) by (auto simp: inside_def apart_def merged_def)
  ultimately have "core K M ?b" using fs by (simp add: core_def)
  then have ok: "buddy_ok K M (?b\<lparr>buddy_lock := spinlock_release (buddy_lock ?b)\<rparr>)" unfolding buddy_ok_def lock_frame fs using m(3) by simp
  have region: "bitmap_region (free_area_bitmap b ! x) = bitmap_region (free_area_bitmap a ! x)" if "order_ok x" for x
  proof -
    obtain c where c: "buddy_clear_bit (free_area_bitmap a ! M) 0 (max_blocks a ! M) = Inr c" "b = a\<lparr>free_area_bitmap := (free_area_bitmap a)[M := c]\<rparr>"
      using b(1) geoD(1,3) [OF g M(1)] by (auto simp: on_bitmap_def rd_nat wr_nat bindR_Inr_iff)
    then have "fst c = fst (free_area_bitmap a ! M) \<and> length (snd c) = length (snd (free_area_bitmap a ! M))"
      by (auto simp: buddy_clear_bit_def bindR_Inr_iff wr_Inr_iff split: if_splits)
    then show ?thesis using c(2) geoD(1) [OF g M(1)] by (cases "x = M") (auto simp: bitmap_region_def)
  qed
  show ?thesis using b(1,3) len fs ok region by (intro exI [of _ ?b]) (simp add: wr_nat same_pool_def)
qed

lemma buddy_init_panics: "start = 0 \<or> unat sz < 4096 \<Longrightarrow> buddy_init a start sz hhdm = Inr None"
  using block_size_nat [of 12] by (auto simp: buddy_init_def BUDDY_MIN_ORDER_def word_less_nat_alt)

text \<open>What is known of a freshly initialised allocator.\<close>

definition fresh :: "u64 \<Rightarrow> u64 \<Rightarrow> nat \<Rightarrow> nat \<Rightarrow> buddy_allocator \<Rightarrow> bool" where
  "fresh start sz K M a \<longleftrightarrow> buddy_ok K M a \<and> free_set a = {(M, 0)} \<and> pool_start a = start \<and> pool_size a \<le> sz \<and>
     (M = 20 \<or> unat sz < 2 ^ Suc M + 8192) \<and>
     (\<forall>x. order_ok x \<longrightarrow> bitmap_region (free_area_bitmap a ! x) \<subseteq> {unat start + 2 ^ M ..< unat start + unat sz}) \<and>
     (\<forall>x y. order_ok x \<longrightarrow> order_ok y \<longrightarrow> x \<noteq> y \<longrightarrow> bitmap_region (free_area_bitmap a ! x) \<inter> bitmap_region (free_area_bitmap a ! y) = {})"

lemma orders_set: "set [12..<21] = {x. order_ok x}" "set (rev [12..<21]) = {x. order_ok x}"
  unfolding set_rev set_upt by auto

text \<open>The sizes the initialisation works with: the rounded request, the bitmaps and the rest.\<close>

lemma rounded_size:
  assumes "8192 \<le> unat sz"
  defines "r \<equiv> if sz mod BUDDY_BLOCK_SIZE 12 \<noteq> 0 then sz - sz mod BUDDY_BLOCK_SIZE 12 else sz"
  shows "unat r = 4096 * (unat sz div 4096)" "2 \<le> unat sz div 4096" "total_bitmap_size r < r"
    "unat (r - total_bitmap_size r) = unat r - bitmap_bytes (unat r)" "4096 \<le> unat r - bitmap_bytes (unat r)"
    "0 < bitmap_bytes (unat r)"
proof -
  have "sz mod BUDDY_BLOCK_SIZE 12 \<le> sz" by (simp add: word_le_nat_alt unat_mod)
  then have "unat (sz - sz mod BUDDY_BLOCK_SIZE 12) = unat sz - unat sz mod 4096"
    using block_size_nat [of 12] by (simp add: unat_sub unat_mod)
  moreover have "r = sz - sz mod BUDDY_BLOCK_SIZE 12" by (simp add: r_def)
  ultimately show r: "unat r = 4096 * (unat sz div 4096)" by (simp add: minus_mod_eq_mult_div)
  show s: "2 \<le> unat sz div 4096" using assms(1) by (simp add: less_eq_div_iff_mult_less_eq)
  have b: "16384 * bitmap_bytes (unat r) \<le> unat r + 589824" by (rule bitmap_bytes_le)
  have big: "8192 \<le> unat r" using r s by simp
  then show "4096 \<le> unat r - bitmap_bytes (unat r)" using b by simp
  show l: "total_bitmap_size r < r" using b big by (simp add: word_less_nat_alt total_bitmap_size_eq)
  then show "unat (r - total_bitmap_size r) = unat r - bitmap_bytes (unat r)" by (subst unat_sub) (auto simp: total_bitmap_size_eq)
  have "1 \<le> bitmap_words (unat r div 2 ^ 12)" using big by (simp add: bitmap_words_def less_eq_div_iff_mult_less_eq)
  then show "0 < bitmap_bytes (unat r)" by (simp add: bitmap_bytes_def)
qed

lemma buddy_init_spec:
  assumes ar: "arrays a" and st: "start \<noteq> 0" and sz: "8192 \<le> unat sz" and w: "unat start + unat sz < 2 ^ 64"
  shows "\<exists>K M a'. buddy_init a start sz hhdm = Inr (Some a') \<and> fresh start sz K M a'"
proof -
  define r where "r = (if sz mod BUDDY_BLOCK_SIZE 12 \<noteq> 0 then sz - sz mod BUDDY_BLOCK_SIZE 12 else sz)"
  note R = rounded_size [OF sz, folded r_def]
  define P where "P = unat r - bitmap_bytes (unat r)"
  define l where "l = (spinlock_init (buddy_lock a))\<lparr>lock := 1\<rparr>"
  define a1 where "a1 = a\<lparr>pool_start := start, pool_size := r - total_bitmap_size r, hhdm_offset := hhdm, buddy_lock := l\<rparr>"
  have p1: "unat (pool_size a1) = P" "pool_start a1 = start" "arrays a1" using R(4) ar by (simp_all add: a1_def P_def arrays_def)
  have rs: "unat r \<le> unat sz" using R(1) by simp
  have Pb: "4096 \<le> P" "P \<le> unat sz" using R(5) rs by (auto simp: P_def)
  obtain ms where ms: "set_max_blocks [12..<21] a1 = Inr (a1\<lparr>max_blocks := ms\<rparr>)" "length ms = 21" "\<And>x. order_ok x \<Longrightarrow> ms ! x = P div 2 ^ x"
    using set_max_blocks_eq [of "[12..<21]" a1] p1 by (auto simp: arrays_def orders_set simp del: upt_rec_numeral)
  define a2 where "a2 = a1\<lparr>max_blocks := ms\<rparr>"
  have p2: "arrays a2" "max_blocks a2 = ms" "pool_size a2 = pool_size a1" "pool_start a2 = start" using p1 ms(2) by (simp_all add: a2_def arrays_def)
  have e: "unat (start + pool_size a1) = unat start + P" using p1 w Pb by (subst unat_plus_if') simp
  have T': "(\<Sum>x\<leftarrow>rev [12..<21]. bitmap_words (max_blocks a2 ! x) * 4) = bitmap_bytes P"
  proof -
    have "map (\<lambda>x. bitmap_words (ms ! x) * 4) [12..<21] = map (\<lambda>x. bitmap_words (P div 2 ^ x) * 4) [12..<21]"
      by (rule map_cong [OF refl]) (simp only: orders_set mem_Collect_eq ms(3))
    then show ?thesis unfolding bitmap_bytes_def p2 rev_map [symmetric] sum_list_rev by (rule arg_cong)
  qed
  have b': "16384 * bitmap_bytes P \<le> P + 589824" by (rule bitmap_bytes_le)
  obtain s bm ns where pl: "place_bitmaps (rev [12..<21]) (start + pool_size a1) a2 = Inr (s, a2\<lparr>free_area_bitmap := bm, free_area_size := ns\<rparr>)"
    "placed (rev [12..<21]) (start + pool_size a1) a2 s bm ns"
    using place_bitmaps_eq [of "rev [12..<21]" a2 "start + pool_size a1"] p2 T' e b' Pb(1) by (auto simp: orders_set simp del: upt_rec_numeral)
  define a3 where "a3 = a2\<lparr>free_area_bitmap := bm, free_area_size := ns\<rparr>"
  note D = pl(2) [unfolded placed_def orders_set T' e, unfolded p2(2)]
  have p3: "length bm = 21" "length ns = 21" "unat s = unat start + P - bitmap_bytes P" using D by blast+
  have bm: "snd (bm ! x) = replicate (bitmap_words (P div 2 ^ x)) 0xFFFFFFFF" "ns ! x = 0" "unat s \<le> unat (fst (bm ! x))"
    "bitmap_region (bm ! x) \<subseteq> {unat s ..< unat start + P}" if "order_ok x" for x
    using D [THEN conjunct2, THEN conjunct2, THEN conjunct2, THEN conjunct1] that unfolding ms(3) [OF that, symmetric] by blast+
  have dis: "bitmap_region (bm ! x) \<inter> bitmap_region (bm ! y) = {}" if "order_ok x" "order_ok y" "x \<noteq> y" for x y
    using D [THEN conjunct2, THEN conjunct2, THEN conjunct2, THEN conjunct2, THEN conjunct2] that by blast
  have m3: "max_blocks a3 = ms" by (simp add: a3_def p2)
  have "ms ! 12 \<noteq> 0" using ms(3) [of 12] Pb(1) by (simp add: div_eq_0_iff)
  then obtain M where M: "top_order 20 a3 = Inr M" "order_ok M" "ms ! M \<noteq> 0" "\<And>x. M < x \<Longrightarrow> x \<le> 20 \<Longrightarrow> ms ! x = 0"
    using top_order_eq [of a3 20] ms(2) unfolding m3 by auto
  define K where "K = P div 2 ^ M"
  have M64: "M < 64" using M(2) by simp
  have K: "0 < K" "ms ! M = K" "K * 2 ^ M \<le> P" using M(3) ms(3) [OF M(2)] by (auto simp: K_def)
  have top: "P < 2 ^ Suc M" if "M < 20" using ms(3) [of "Suc M"] M(2) M(4) [of "Suc M"] that by (simp add: div_eq_0_iff)
  then have K1: "M < 20 \<longrightarrow> K = 1" using K(1) unfolding K_def by (auto simp: div_nat_eqI dest!: top) (metis One_nat_def div_less_iff_less_mult less_2_cases_iff mult.commute not_gr_zero power_Suc zero_less_numeral zero_less_power)
  define B where "B = BUDDY_BLOCK_SIZE M"
  define a4 where "a4 = a3\<lparr>pool_size := pool_size a3 div B * B\<rparr>"
  have ps: "unat (pool_size a3) = P" "pool_start a3 = start" "buddy_lock a3 = l" using p1 p2 by (simp_all add: a3_def a2_def a1_def)
  have p4: "unat (pool_size a4) = K * 2 ^ M"
  proof -
    have "pool_size a3 mod B \<le> pool_size a3" by (simp add: word_le_nat_alt unat_mod)
    then show ?thesis using ps(1) block_size_nat [OF M64]
      by (simp add: a4_def minus_mod_eq_div_mult [symmetric] unat_sub unat_mod B_def K_def)
  qed
  have d4: "unat (pool_size a3 div B * B div B) = K" using p4 block_size_nat [OF M64] by (simp add: unat_div B_def a4_def)
  have adj: "(if pool_size a3 mod B \<noteq> 0 then bindR (wr (max_blocks a3) (int M) (unat (pool_size a3 div B * B div B)))
      (\<lambda>ms. Inr (a3\<lparr>pool_size := pool_size a3 div B * B, max_blocks := ms\<rparr>)) else Inr a3) = Inr a4"
  proof (cases "pool_size a3 mod B = 0")
    case True
    then have "pool_size a3 div B * B = pool_size a3" by (metis add.right_neutral div_mult_mod_eq)
    then show ?thesis using True by (simp add: a4_def)
  next
    case False
    have "ms[M := K] = ms" using K(2) by (metis list_update_id)
    then show ?thesis using False d4 M(2) ms(2) m3 by (simp add: wr_nat a4_def)
  qed
  have arr4: "arrays a4" using p3 ms(2) by (simp add: arrays_def a4_def a3_def p2)
  have f4: "free_area_bitmap a4 = bm" "max_blocks a4 = ms" "pool_start a4 = start" "free_area_size a4 = ns"
    using ps m3 by (simp_all add: a4_def a3_def p2)
  have nz: "0 < unat start" using st by (simp add: unat_gt_0)
  have E: "(2 :: nat) ^ M = 4096 * 2 ^ (M - 12)" "(2 :: nat) ^ M \<le> 1048576" "2 ^ M \<le> P"
  proof -
    show "(2 :: nat) ^ M = 4096 * 2 ^ (M - 12)" using M(2) power_add [of "2 :: nat" 12 "M - 12"] by simp
    have "(2 :: nat) ^ M \<le> 2 ^ 20" using M(2) by (intro power_increasing) simp_all
    then show "(2 :: nat) ^ M \<le> 1048576" by simp
    have "1 * 2 ^ M \<le> K * 2 ^ M" using K(1) by (intro mult_le_mono1) simp
    also note K(3)
    finally show "2 ^ M \<le> P" by simp
  qed
  have lay: "2 ^ M + bitmap_bytes P \<le> P"
    using layout_arith [OF R(1,2) bitmap_bytes_le R(6) E(1,2)] E(3) b' by (simp add: P_def)
  have sb: "unat start + 2 ^ M \<le> unat s" using p3(3) lay by simp
  have g: "geo K M a4" "free_set a4 = {}"
  proof -
    have "fst (bm ! x) \<noteq> 0" if "order_ok x" for x
    proof -
      have "unat (fst (bm ! x)) \<noteq> 0" using bm(3) [OF that] sb nz by linarith
      then show ?thesis by auto
    qed
    then show "geo K M a4" "free_set a4 = {}"
      using fresh_geo [OF arr4 _ p4 K(1) M(2) K1 K(3)] st w Pb(2) ms(3) bm(1) unfolding f4 by simp_all
  qed
  obtain a5 where a5: "bindR (on_bitmap buddy_clear_bit M 0 a4) (\<lambda>a. bindR (wr (free_area_size a) (int M) 1) (\<lambda>ns. Inr (a\<lparr>free_area_size := ns\<rparr>))) = Inr a5"
    "buddy_ok K M (a5\<lparr>buddy_lock := spinlock_release (buddy_lock a5)\<rparr>)" "free_set a5 = {(M, 0)}" "pool_start a5 = start" "pool_size a5 = pool_size a4"
    "\<And>x. order_ok x \<Longrightarrow> bitmap_region (free_area_bitmap a5 ! x) = bitmap_region (bm ! x)"
    using first_block [OF g] bm(2) unfolding f4 by blast
  let ?a = "a5\<lparr>buddy_lock := spinlock_release (buddy_lock a5)\<rparr>"
  have "M = 20 \<or> unat sz < 2 ^ Suc M + 8192"
  proof (cases "M < 20")
    case True
    have "unat sz < unat r + 4096" using R(1) by simp
    moreover have "unat r < 2 ^ Suc M + bitmap_bytes (unat r)" using top [OF True] R(5) by (simp add: P_def)
    ultimately show ?thesis using bitmap_bytes_le [of "unat r"] E(2) by simp
  qed (use M(2) in simp)
  moreover have "pool_size a4 \<le> sz" using p4 K(3) Pb(2) by (simp add: word_le_nat_alt)
  moreover have "bitmap_region (free_area_bitmap a5 ! x) \<subseteq> {unat start + 2 ^ M ..< unat start + unat sz}" if "order_ok x" for x
    unfolding a5(6) [OF that] using bm(4) [OF that] sb Pb(2) by (meson add_left_mono ivl_subset order.trans)
  ultimately have "fresh start sz K M ?a" using a5 dis by (simp add: fresh_def)
  moreover have "buddy_init a start sz hhdm = Inr (Some ?a)"
  proof -
    have n: "\<not> (start = 0 \<or> sz = 0 \<or> sz < BUDDY_BLOCK_SIZE 12)"
      using st sz block_size_nat [of 12] by (auto simp: word_less_nat_alt)
    have acq: "spinlock_acquire (spinlock_init (buddy_lock a)) = Some l" unfolding l_def by (rule acquire_free) simp
    have rm: "rd (max_blocks a3) (int M) = Inr K" "rd (max_blocks a4) (int M) = Inr K" using M(2) ms(2) K(2) m3 f4(2) by (simp_all add: rd_nat)
    have ns: "\<not> s < start" using sb by (simp add: word_less_nat_alt)
    have S: "Suc 20 = 21" by simp
    show ?thesis
      unfolding buddy_init_def BUDDY_MIN_ORDER_def BUDDY_MAX_ORDER_def S if_not_P [OF n] acq returns_simps bindR.simps Let_def r_def [symmetric]
        a1_def [symmetric] ms(1) a2_def [symmetric]
      using R(3) pl(1) p2 ps ns M(1,2) rm K(1) adj [unfolded B_def] a5(1) p1(2)
      by (simp add: a3_def [symmetric] del: upt_rec_numeral split del: if_split)
  qed
  ultimately show ?thesis by blast
qed

subsection \<open>Runs\<close>

text \<open>A client allocates, and releases blocks it holds; the held blocks are pointers with their orders.\<close>

inductive buddy_run :: "buddy_allocator \<Rightarrow> buddy_allocator \<Rightarrow> (u64 \<times> nat) set \<Rightarrow> bool" for a where
  start: "buddy_run a a {}"
| allocs: "buddy_run a b L \<Longrightarrow> buddy_alloc b sz = Inr (p, b') \<Longrightarrow> buddy_run a b' (if p = 0 then L else insert (p, get_minimum_order sz) L)"
| frees: "buddy_run a b L \<Longrightarrow> (p, order) \<in> L \<Longrightarrow> buddy_free b p order = Inr b' \<Longrightarrow> buddy_run a b' (L - {(p, order)})"

definition bytes :: "u64 \<times> nat \<Rightarrow> nat set" where
  "bytes = (\<lambda>(p, order). {unat p ..< unat p + 2 ^ order})"

definition handle :: "buddy_allocator \<Rightarrow> nat \<times> nat \<Rightarrow> u64 \<times> nat" where
  "handle a = (\<lambda>(order, i). (addr a order i, order))"

text \<open>The held blocks and the free blocks are a partition of the first block of the top order.\<close>

definition owned :: "nat \<Rightarrow> nat \<Rightarrow> buddy_allocator \<Rightarrow> buddy_allocator \<Rightarrow> (nat \<times> nat) set \<Rightarrow> bool" where
  "owned K M a b B \<longleftrightarrow> buddy_ok K M b \<and> same_pool a b \<and> finite B \<and> apart B \<and>
     (\<forall>order i. (order, i) \<in> B \<longrightarrow> order_ok order \<and> i < limit K M order) \<and>
     cover B \<inter> cover (free_set b) = {} \<and> cover B \<union> cover (free_set b) = span (M, 0)"

lemma bytes_handle:
  assumes "geo K M a" "i < limit K M order" "order_ok order"
  shows "bytes (handle a (order, i)) = (\<lambda>x. unat (pool_start a) + x) ` span (order, i)"
proof -
  have "unat (addr a order i) = unat (pool_start a) + i * 2 ^ order"
    by (rule addr_unat) (use limit_fits(3) [OF assms(1,2)] assms(3) in auto)
  then show ?thesis unfolding span_eq bytes_def handle_def by (simp add: image_add_atLeastLessThan add.commute add.left_commute)
qed

lemma handle_inj:
  assumes "geo K M a" "i < limit K M order" "order_ok order" "j < limit K M x" "order_ok x" "handle a (order, i) = handle a (x, j)"
  shows "(order, i) = (x, j)"
proof -
  have e: "x = order" "addr a order i = addr a order j" using assms(6) by (auto simp: handle_def)
  have o: "order < 64" using assms(3) by simp
  have "unat (addr a order i) = unat (pool_start a) + i * 2 ^ order" "unat (addr a order j) = unat (pool_start a) + j * 2 ^ order"
    by (rule addr_unat(1) [OF o], rule limit_fits(3) [OF assms(1)], use assms(2,4) e(1) in simp)+
  then have "i * 2 ^ order = j * 2 ^ order" unfolding e(2) by linarith
  then show ?thesis using e(1) by simp
qed

lemma handle_image_remove:
  assumes "geo K M a" "\<forall>order i. (order, i) \<in> B \<longrightarrow> order_ok order \<and> i < limit K M order" "(order, i) \<in> B"
  shows "handle a ` B - {handle a (order, i)} = handle a ` (B - {(order, i)})"
proof -
  have "c = (order, i)" if "c \<in> B" "handle a c = handle a (order, i)" for c
  proof -
    obtain x j where c: "c = (x, j)" by (cases c)
    then show ?thesis using handle_inj [OF assms(1), of j x i order] that assms(2,3) by simp
  qed
  then show ?thesis by auto
qed

lemma handle_same: "same_pool a b \<Longrightarrow> handle b = handle a"
  using addr_same by (auto simp: handle_def)

lemma owned_alloc:
  assumes o: "owned K M a b B" and al: "buddy_alloc b sz = Inr (p, b')"
  shows "\<exists>B'. owned K M a b' B' \<and> handle a ` B' = (if p = 0 then handle a ` B else insert (p, get_minimum_order sz) (handle a ` B))"
proof -
  have ok: "buddy_ok K M b" "same_pool a b" and g: "geo K M b" using o by (auto simp: owned_def buddy_ok_def core_def)
  consider (none) "buddy_alloc b sz = Inr (0, b)"
    | (some) i c where "buddy_alloc b sz = Inr (addr b (get_minimum_order sz) i, c)" "grabs K M b (get_minimum_order sz, i) c"
    using buddy_alloc_spec [OF ok(1), of sz] by blast
  then show ?thesis
  proof cases
    case none
    then show ?thesis using al o by auto
  next
    case c: (some i c)
    let ?b = "(get_minimum_order sz, i)"
    have e: "c = b'" "p = addr b (get_minimum_order sz) i" using c(1) al by auto
    have i: "i < limit K M (get_minimum_order sz)" using c(2) by (simp add: grabs_def)
    note oo = get_minimum_order_spec(1) [of sz]
    have p: "p \<noteq> 0" unfolding e by (rule addr_nonzero [OF g _ i]) (use oo in simp)
    have h: "handle a ?b = (p, get_minimum_order sz)" using e(2) addr_same [OF ok(2)] by (simp add: handle_def)
    have cv: "cover (free_set b) = cover (free_set b') \<union> span ?b" "cover (free_set b') \<inter> span ?b = {}" using c(2) e by (auto simp: grabs_def)
    have ap: "apart (insert ?b B)" using o cv(1) by (intro apart_insert) (auto simp: owned_def)
    have "buddy_ok K M b'" "same_pool a b'" using c(2) e ok same_pool_trans by (auto simp: grabs_def buddy_ok_def same_pool_def)
    then have "owned K M a b' (insert ?b B)" using o ap cv i oo unfolding owned_def cover_insert by (auto simp del: span_iff)
    then show ?thesis using h p by (intro exI [of _ "insert ?b B"]) simp
  qed
qed

lemma owned_free:
  assumes o: "owned K M a b B" and m: "(p, order) \<in> handle a ` B"
  shows "\<exists>b' B'. buddy_free b p order = Inr b' \<and> owned K M a b' B' \<and> handle a ` B' = handle a ` B - {(p, order)}"
proof -
  obtain i where i: "(order, i) \<in> B" "p = addr a order i" using m by (auto simp: handle_def)
  have ok: "buddy_ok K M b" "same_pool a b" "apart B" and B: "\<forall>order i. (order, i) \<in> B \<longrightarrow> order_ok order \<and> i < limit K M order"
    and cv: "cover B \<inter> cover (free_set b) = {}" "cover B \<union> cover (free_set b) = span (M, 0)"
    using o by (auto simp: owned_def)
  have g: "geo K M b" using ok(1) by (simp add: buddy_ok_def core_def)
  have bi: "order_ok order" "i < limit K M order" using B i(1) by auto
  have "cover (free_set b) \<inter> span (order, i) = {}" using cv(1) cover_mem [OF i(1)] by blast
  from buddy_free_spec [OF ok(1) bi this] obtain b' where b': "buddy_free b (addr b order i) order = Inr b'"
    "joins K M b (cover (free_set b) \<union> span (order, i)) b'" by blast
  note r = apart_remove [OF ok(3) i(1)]
  have "owned K M a b' (B - {(order, i)})"
    using o b'(2) r cv same_pool_trans unfolding owned_def joins_def buddy_ok_def by (auto simp del: span_iff simp: same_pool_def)
  moreover have "handle a ` (B - {(order, i)}) = handle a ` B - {(p, order)}"
    using handle_image_remove [OF g B i(1)] i(2) unfolding handle_same [OF ok(2)] by (simp add: handle_def)
  ultimately show ?thesis using b'(1) addr_same [OF ok(2)] i(2) by auto
qed

lemma owned_run:
  assumes "fresh start sz K M a" "buddy_run a b L"
  shows "\<exists>B. owned K M a b B \<and> L = handle a ` B"
  using assms(2)
proof induction
  case start
  have "owned K M a a {}" using assms(1) by (auto simp: owned_def fresh_def cover_def apart_def)
  then show ?case by blast
next
  case (allocs b L sz p b')
  then show ?case using owned_alloc by metis
next
  case (frees b L p order b')
  then obtain B where B: "owned K M a b B" "L = handle a ` B" by blast
  obtain c B' where "buddy_free b p order = Inr c" "owned K M a c B'" "handle a ` B' = handle a ` B - {(p, order)}"
    using owned_free [OF B(1)] frees(2) unfolding B(2) by blast
  then show ?case using frees(3) B(2) by (intro exI [of _ B']) auto
qed

text \<open>When nothing is held, merging has rebuilt the initial block.\<close>

lemma coalesced:
  assumes c: "core K M b" "merged M (free_set b)" and cv: "cover (free_set b) = span (M, 0)"
  shows "free_set b = {(M, 0)}"
proof -
  let ?F = "free_set b"
  have ap: "apart ?F" and up: "order \<le> M" if "(order, i) \<in> ?F" for order i
    using c that limit_fits(1) [of K M b i order] by (auto simp: core_def inside_def)
  have "?F \<noteq> {}" using cv span_ne [of "(M, 0)"] by (auto simp: cover_def)
  then obtain c where "c \<in> ?F" "\<And>d. d \<in> ?F \<Longrightarrow> fst c \<le> fst d" using ex_has_least_nat [of "\<lambda>c. c \<in> ?F" _ fst] by blast
  then obtain order i where b: "(order, i) \<in> ?F" "\<And>x j. (x, j) \<in> ?F \<Longrightarrow> order \<le> x" by (cases c) fastforce
  have top: "order = M"
  proof (rule ccontr)
    assume "order \<noteq> M"
    then have lt: "order < M" using up [OF b(1)] by simp
    let ?y = "sibling i * 2 ^ order"
    have par: "span (order, i) \<subseteq> span (Suc order, i div 2)" "?y \<in> span (Suc order, i div 2)"
      using span_start [of "sibling i" order] unfolding span_pair [symmetric] by blast+
    have "span (Suc order, i div 2) \<subseteq> span (M, 0)"
      using lt span_start [of i order] par(1) cover_mem [OF b(1)] cv by (intro span_nest [of _ _ "i * 2 ^ order"]) (auto simp del: span_iff)
    then have "?y \<in> cover ?F" using par(2) cv by blast
    then obtain x j where x: "(x, j) \<in> ?F" "?y \<in> span (x, j)" unfolding cover_def by (auto simp del: span_iff)
    show False
    proof (cases "x = order")
      case True
      then have "j = sibling i" using x(2) by simp
      then show False using c(2) b(1) x(1) True lt by (auto simp: merged_def)
    next
      case False
      then have "Suc order \<le> x" using b(2) [OF x(1)] by simp
      then have "span (Suc order, i div 2) \<subseteq> span (x, j)" using par(2) x(2) by (rule span_nest)
      then show False using ap [OF b(1)] x(1) b(1) False par(1) span_ne [of "(order, i)"] unfolding apart_def by blast
    qed
  qed
  have zero: "c = (M, 0)" if "c \<in> ?F" for c
  proof -
    obtain x j where j: "c = (x, j)" by (cases c)
    then have "x = M" using that up b(2) top by fastforce
    moreover have "j * 2 ^ x \<in> span (M, 0)" using span_start [of j x] cover_mem [OF that] cv j by blast
    ultimately show ?thesis using j by simp
  qed
  show ?thesis using zero b(1) by blast
qed

lemma region_same:
  assumes "same_pool a b" "x < length (free_area_bitmap a)"
  shows "bitmap_region (free_area_bitmap b ! x) = bitmap_region (free_area_bitmap a ! x)"
proof -
  have m: "map shape (free_area_bitmap b) = map shape (free_area_bitmap a)" using assms(1) by (simp add: same_pool_def)
  then have "length (free_area_bitmap b) = length (free_area_bitmap a)" by (rule map_eq_imp_length_eq)
  then have "shape (free_area_bitmap b ! x) = shape (free_area_bitmap a ! x)" using assms(2) arg_cong [OF m, of "\<lambda>xs. xs ! x"] by simp
  then show ?thesis by (simp add: bitmap_region_def shape_def)
qed

subsection \<open>Properties\<close>

definition buddy_booted :: "buddy_allocator \<Rightarrow> u64 \<Rightarrow> u64 \<Rightarrow> u64 \<Rightarrow> buddy_allocator \<Rightarrow> bool" where
  "buddy_booted a0 start sz hhdm a \<longleftrightarrow> arrays a0 \<and> 8192 \<le> unat sz \<and> start \<noteq> 0 \<and> unat start + unat sz < 2 ^ 64 \<and>
     buddy_init a0 start sz hhdm = Inr (Some a)"

lemma booted_fresh:
  assumes "buddy_booted a0 start sz hhdm a"
  obtains K M where "fresh start sz K M a" "geo K M a" "2 ^ M \<le> unat sz" "order_ok M"
proof -
  obtain K M where f: "fresh start sz K M a"
    using assms buddy_init_spec [of a0 start sz hhdm] by (auto simp: buddy_booted_def)
  then have g: "geo K M a" by (simp add: fresh_def buddy_ok_def core_def)
  have "1 * 2 ^ M \<le> K * 2 ^ M" using g by (intro mult_le_mono1) (simp add: geo_def)
  also have "\<dots> = unat (pool_size a)" using g by (simp add: geo_def)
  also have "\<dots> \<le> unat sz" using f by (simp add: fresh_def word_le_nat_alt)
  finally show ?thesis using that f g by (simp add: geo_def)
qed

text \<open>Blocks held of an initialised allocator are disjoint, inside its memory, aligned and off the bitmaps.\<close>

definition sound_blocks :: "u64 \<Rightarrow> u64 \<Rightarrow> buddy_allocator \<Rightarrow> (u64 \<times> nat) set \<Rightarrow> bool" where
  "sound_blocks start sz b L \<longleftrightarrow> (\<forall>x \<in> L. \<forall>y \<in> L. x \<noteq> y \<longrightarrow> bytes x \<inter> bytes y = {}) \<and>
     (\<forall>p order. (p, order) \<in> L \<longrightarrow> bytes (p, order) \<subseteq> {unat start ..< unat start + unat sz} \<and> 2 ^ order dvd unat p - unat start \<and>
       (\<forall>x. order_ok x \<longrightarrow> bytes (p, order) \<inter> bitmap_region (free_area_bitmap b ! x) = {}))"

lemma owned_sound:
  assumes f: "fresh start sz K M a" and B: "owned K M a b B" "L = handle a ` B" and M: "2 ^ M \<le> unat sz"
  shows "sound_blocks start sz b L"
proof -
  have ps: "pool_start a = start" and g: "geo K M a" using f by (auto simp: fresh_def buddy_ok_def core_def)
  have blk: "order_ok order" "i < limit K M order" if "(order, i) \<in> B" for order i using B(1) that by (auto simp: owned_def)
  have by': "bytes (handle a c) = (\<lambda>x. unat start + x) ` span c" if "c \<in> B" for c
    using that bytes_handle [OF g] blk ps by (cases c) auto
  have "bytes (handle a c) \<inter> bytes (handle a d) = {}" if "c \<in> B" "d \<in> B" "handle a c \<noteq> handle a d" for c d
  proof -
    have "apart B" "c \<noteq> d" using B(1) that(3) by (auto simp: owned_def)
    then have "span c \<inter> span d = {}" using that(1,2) by (simp add: apart_def)
    then show ?thesis unfolding by' [OF that(1)] by' [OF that(2)] by auto
  qed
  moreover have "bytes (p, order) \<subseteq> {unat start ..< unat start + unat sz} \<and> 2 ^ order dvd unat p - unat start \<and>
      (\<forall>x. order_ok x \<longrightarrow> bytes (p, order) \<inter> bitmap_region (free_area_bitmap b ! x) = {})" if m: "(p, order) \<in> L" for p order
  proof -
    obtain i where i: "(order, i) \<in> B" "p = addr a order i" using m B(2) by (auto simp: handle_def)
    have "span (order, i) \<subseteq> span (M, 0)" using cover_mem [OF i(1)] B(1) by (auto simp: owned_def simp del: span_iff)
    then have sub: "bytes (p, order) \<subseteq> {unat start ..< unat start + 2 ^ M}"
      using by' [OF i(1)] i(2) by (auto simp: handle_def span_eq)
    have "unat p = unat start + i * 2 ^ order"
      unfolding i(2) ps [symmetric] by (rule addr_unat) (use blk [OF i(1)] limit_fits(3) [OF g] in auto)
    moreover have "bitmap_region (free_area_bitmap b ! x) \<subseteq> {unat start + 2 ^ M ..< unat start + unat sz}" if x: "order_ok x" for x
    proof -
      have "same_pool a b" using B(1) by (simp add: owned_def)
      from region_same [OF this geoD(1) [OF g x]] show ?thesis using f x by (simp add: fresh_def)
    qed
    then have "bytes (p, order) \<inter> bitmap_region (free_area_bitmap b ! x) = {}" if "order_ok x" for x
      using sub that by (meson atLeastLessThan_empty_iff disjoint_iff atLeastLessThan_iff in_mono leD)
    ultimately show ?thesis using sub M by auto
  qed
  ultimately show ?thesis unfolding sound_blocks_def using B(2) by auto
qed

text \<open>C29. After any sequence of allocations and releases on an initialised pool, two different held
  blocks share no byte, and each held block lies inside the memory given to the allocator, starts at a
  multiple of its size from the pool's start and overlaps no bitmap.\<close>

theorem buddy_safe:
  assumes "buddy_booted a0 start sz hhdm a" "buddy_run a b L"
  shows "sound_blocks start sz b L"
proof -
  obtain K M where f: "fresh start sz K M a" "2 ^ M \<le> unat sz" using booted_fresh [OF assms(1)] by blast
  obtain B where B: "owned K M a b B" "L = handle a ` B" using owned_run [OF f(1) assms(2)] by blast
  show ?thesis using owned_sound [OF f(1) B f(2)] .
qed

text \<open>The pools in the witnesses: two pages at \<open>0x1000\<close>, of which the first is held after one allocation.\<close>

definition blank_buddy :: buddy_allocator where
  "blank_buddy = \<lparr>pool_start = 0, pool_size = 0, hhdm_offset = 0, free_area_bitmap = replicate 21 (0, []), free_area_size = replicate 21 0,
     max_blocks = replicate 21 0, buddy_lock = \<lparr>lock = 0\<rparr>\<rparr>"

lemma one_held: "\<exists>a b p. buddy_booted blank_buddy 0x1000 8192 0 a \<and> buddy_run a b {(p, 12)} \<and> pool_size b \<le> 8192"
proof -
  have "arrays blank_buddy" by (simp add: arrays_def blank_buddy_def)
  from buddy_init_spec [OF this, of "0x1000" 8192 0] obtain K M a where
    a: "buddy_init blank_buddy 0x1000 8192 0 = Inr (Some a)" "fresh 0x1000 8192 K M a" by auto
  have ok: "buddy_ok K M a" "free_set a = {(M, 0)}" "order_ok M" using a(2) by (auto simp: fresh_def buddy_ok_def core_def geo_def)
  have g: "get_minimum_order 1 = 12" by code_simp
  have pz: "unat (pool_size a) = K * 2 ^ M" "0 < K" using ok(1) by (auto simp: buddy_ok_def core_def geo_def)
  then have "pool_size a \<noteq> 0" by (metis mult_is_0 not_gr_zero power_not_zero unat_0 zero_neq_numeral)
  then have "\<not> 1 > pool_size a" by (simp add: word_less_1)
  then obtain i b where b: "buddy_alloc a 1 = Inr (addr a 12 i, b)" "grabs K M a (12, i) b"
    using buddy_alloc_spec [OF ok(1), of 1] ok(2,3) unfolding g by auto
  have "geo K M a" using ok(1) by (simp add: buddy_ok_def core_def)
  then have "addr a 12 i \<noteq> 0" by (rule addr_nonzero) (use b(2) in \<open>auto simp: grabs_def\<close>)
  then have "buddy_run a b {(addr a 12 i, 12)}" using buddy_run.allocs [OF buddy_run.start b(1)] g by simp
  moreover have "buddy_booted blank_buddy 0x1000 8192 0 a" using a(1) \<open>arrays blank_buddy\<close> by (simp add: buddy_booted_def)
  moreover have "pool_size b \<le> 8192" using a(2) b(2) by (simp add: fresh_def grabs_def same_pool_def)
  ultimately show ?thesis by blast
qed

theorem buddy_safe_witness:
  "\<exists>a b p. buddy_run a b {(p, 12)} \<and> bytes (p, 12) \<subseteq> {unat (0x1000 :: u64) ..< unat (0x1000 :: u64) + unat (8192 :: u64)} \<and>
     2 ^ 12 dvd unat p - unat (0x1000 :: u64) \<and> bytes (p, 12) \<inter> bitmap_region (free_area_bitmap b ! 12) = {}"
proof -
  obtain a b p where r: "buddy_booted blank_buddy 0x1000 8192 0 a" "buddy_run a b {(p, 12)}" using one_held by blast
  show ?thesis using buddy_safe [OF r, unfolded sound_blocks_def, THEN conjunct2, THEN spec, THEN spec, THEN mp, of p 12] r(2)
    by (intro exI [of _ a] exI [of _ b] exI [of _ p]) auto
qed

lemma owned_memory:
  assumes "geo K M a" "owned K M a b B"
  shows "(\<Sum>(p, order) \<in> handle a ` B. 2 ^ order) + card (cover (free_set b)) = 2 ^ M"
proof -
  have B: "finite B" "apart B" "\<forall>order i. (order, i) \<in> B \<longrightarrow> order_ok order \<and> i < limit K M order" "cover B \<inter> cover (free_set b) = {}"
    "cover B \<union> cover (free_set b) = span (M, 0)" using assms(2) by (auto simp: owned_def)
  have inj: "inj_on (handle a) B" using handle_inj [OF assms(1)] B(3) by (auto simp: inj_on_def) blast+
  have "(\<Sum>(p, order) \<in> handle a ` B. 2 ^ order) = (\<Sum>c \<in> B. 2 ^ fst c :: nat)"
    by (subst sum.reindex [OF inj]) (auto simp: handle_def intro!: sum.cong)
  also have "\<dots> = card (cover B)" by (rule cover_card [OF B(1,2), symmetric])
  finally have "(\<Sum>(p, order) \<in> handle a ` B. 2 ^ order) = card (cover B)" .
  moreover have "finite (cover B)" "finite (cover (free_set b))" using span_card(2) [of "(M, 0)"] B(5) by (metis finite_Un)+
  then have "card (cover B \<union> cover (free_set b)) = card (cover B) + card (cover (free_set b))" using B(4) by (rule card_Un_disjoint)
  ultimately show ?thesis using B(5) span_card(1) [of "(M, 0)"] by simp
qed

text \<open>C30. Memory is conserved: at every point of a run the free memory the allocator reports and the sizes
  of the held blocks add up to the free memory it reported after initialisation, which is at most one
  megabyte whatever the pool's size; and once every held block is released the free blocks are those of the
  initialised allocator, so that no fragmentation remains.\<close>

theorem buddy_conserves:
  assumes "buddy_booted a0 start sz hhdm a" "buddy_run a b L"
  shows "\<exists>n m. buddy_get_free_memory b = Inr (n, b) \<and> buddy_get_free_memory a = Inr (m, a) \<and>
    unat n + (\<Sum>(p, order) \<in> L. 2 ^ order) = unat m \<and> unat m \<le> 2 ^ 20 \<and> (L = {} \<longrightarrow> free_set b = free_set a)"
proof -
  obtain K M where f: "fresh start sz K M a" "geo K M a" "order_ok M" using booted_fresh [OF assms(1)] by blast
  obtain B where B: "owned K M a b B" "L = handle a ` B" using owned_run [OF f(1) assms(2)] by blast
  have ok: "buddy_ok K M a" "free_set a = {(M, 0)}" "buddy_ok K M b" using f(1) B(1) by (auto simp: fresh_def owned_def)
  obtain n where n: "buddy_get_free_memory b = Inr (n, b)" "unat n = card (cover (free_set b))"
    using buddy_get_free_memory_spec [OF ok(3)] by blast
  obtain m where m: "buddy_get_free_memory a = Inr (m, a)" "unat m = card (cover (free_set a))"
    using buddy_get_free_memory_spec [OF ok(1)] by blast
  have m': "unat m = 2 ^ M" using m(2) ok(2) span_card(1) [of "(M, 0)"] by (simp add: cover_def)
  have "(2 :: nat) ^ M \<le> 2 ^ 20" using f(3) by (intro power_increasing) auto
  moreover have "free_set b = free_set a" if "L = {}"
  proof -
    have "cover (free_set b) = span (M, 0)" using B that by (auto simp: owned_def cover_def)
    then show ?thesis using coalesced [of K M b] ok(2,3) by (simp add: buddy_ok_def)
  qed
  ultimately show ?thesis using owned_memory [OF f(2) B(1)] n m(1) m' B(2) by auto
qed

theorem buddy_conserves_witness:
  "\<exists>a b p n m. buddy_run a b {(p, 12)} \<and> buddy_get_free_memory b = Inr (n, b) \<and> buddy_get_free_memory a = Inr (m, a) \<and> unat n + 4096 = unat m"
proof -
  obtain a b p where r: "buddy_booted blank_buddy 0x1000 8192 0 a" "buddy_run a b {(p, 12)}" using one_held by blast
  obtain n m where "buddy_get_free_memory b = Inr (n, b)" "buddy_get_free_memory a = Inr (m, a)" "unat n + 4096 = unat m"
    using buddy_conserves [OF r] by auto
  then show ?thesis using r(2) by blast
qed

text \<open>C31. At every point of a run every request is answered and every release of a held block returns.  A
  request fails exactly when it is for no bytes, for more than the pool, or when no block of the request's order
  or above is free, and then nothing changes; otherwise, up to one megabyte, the block returned holds the
  requested bytes and a block of the next smaller order would not.  A request above one megabyte that a pool
  of such a size answers gets a block of one megabyte only.\<close>

theorem buddy_serves:
  assumes "buddy_booted a0 start sz hhdm a" "buddy_run a b L"
  shows "(\<exists>p b'. buddy_alloc b n = Inr (p, b') \<and>
      (p = 0 \<longleftrightarrow> n = 0 \<or> pool_size b < n \<or> (\<forall>x i. get_minimum_order n \<le> x \<longrightarrow> (x, i) \<notin> free_set b)) \<and>
      (p = 0 \<longrightarrow> b' = b) \<and> (p \<noteq> 0 \<and> unat n \<le> 2 ^ 20 \<longrightarrow> unat n \<le> card (bytes (p, get_minimum_order n)))) \<and>
    (12 < get_minimum_order n \<longrightarrow> 2 ^ (get_minimum_order n - 1) < unat n) \<and>
    (2 ^ 20 < unat n \<longrightarrow> card (bytes (p, get_minimum_order n)) = 2 ^ 20) \<and>
    (\<forall>p order. (p, order) \<in> L \<longrightarrow> (\<exists>b'. buddy_free b p order = Inr b'))"
proof -
  obtain K M where f: "fresh start sz K M a" using booted_fresh [OF assms(1)] by blast
  obtain B where B: "owned K M a b B" "L = handle a ` B" using owned_run [OF f assms(2)] by blast
  have ok: "buddy_ok K M b" and g: "geo K M b" using B(1) by (auto simp: owned_def buddy_ok_def core_def)
  note spec = get_minimum_order_spec(2) [of n]
  have "\<exists>p b'. buddy_alloc b n = Inr (p, b') \<and>
      (p = 0 \<longleftrightarrow> n = 0 \<or> pool_size b < n \<or> (\<forall>x i. get_minimum_order n \<le> x \<longrightarrow> (x, i) \<notin> free_set b)) \<and> (p = 0 \<longrightarrow> b' = b)"
    using buddy_alloc_spec [OF ok, of n]
  proof (elim disjE)
    assume "\<exists>i a'. buddy_alloc b n = Inr (addr b (get_minimum_order n) i, a') \<and> n \<noteq> 0 \<and> n \<le> pool_size b \<and>
      grabs K M b (get_minimum_order n, i) a' \<and> (\<exists>x j. get_minimum_order n \<le> x \<and> (x, j) \<in> free_set b)"
    then obtain i c where c: "buddy_alloc b n = Inr (addr b (get_minimum_order n) i, c)" "n \<noteq> 0" "n \<le> pool_size b" "grabs K M b (get_minimum_order n, i) c"
      "\<exists>x j. get_minimum_order n \<le> x \<and> (x, j) \<in> free_set b" by blast
    have nz: "addr b (get_minimum_order n) i \<noteq> 0"
      using get_minimum_order_spec(1) [of n] c(4) by (intro addr_nonzero [OF g]) (auto simp: grabs_def)
    then show ?thesis using c by (intro exI [of _ "addr b (get_minimum_order n) i"] exI [of _ c]) (auto simp: not_less)
  qed blast
  moreover have "unat n \<le> card (bytes (p, get_minimum_order n))" if "unat n \<le> 2 ^ 20" for p using spec that by (simp add: bytes_def)
  moreover have "2 ^ (get_minimum_order n - 1) < unat n" if "12 < get_minimum_order n"
    using get_minimum_order_spec(3) [of "get_minimum_order n - 1" n] that by simp
  moreover have "card (bytes (p, get_minimum_order n)) = 2 ^ 20" if "2 ^ 20 < unat n"
    using get_minimum_order_large [OF that] by (simp add: bytes_def)
  moreover have "\<exists>b'. buddy_free b p order = Inr b'" if "(p, order) \<in> L" for p order using owned_free [OF B(1)] that B(2) by blast
  ultimately show ?thesis by blast
qed

theorem buddy_serves_witness:
  "\<exists>a b p. buddy_run a b {(p, 12)} \<and> buddy_alloc b 9000 = Inr (0, b) \<and> (\<exists>c. buddy_free b p 12 = Inr c)"
proof -
  obtain a b p where r: "buddy_booted blank_buddy 0x1000 8192 0 a" "buddy_run a b {(p, 12)}" and z: "pool_size b \<le> 8192" using one_held by blast
  note s = buddy_serves [OF r, of 9000]
  have "pool_size b < 9000" using z by (simp add: word_less_nat_alt word_le_nat_alt)
  then have "buddy_alloc b 9000 = Inr (0, b)" using s [THEN conjunct1] by blast
  moreover have "\<exists>c. buddy_free b p 12 = Inr c" using s by simp
  ultimately show ?thesis using r(2) by blast
qed

text \<open>C32. Initialisation on at least two pages always succeeds: it panics on a null pool or one under a page, and
  otherwise leaves one free block, of the largest order that fits (20, or the request is below twice the
  block and two pages), with the bitmaps behind that block, inside the given memory and disjoint from each other.\<close>

theorem buddy_starts:
  assumes "arrays a0" "unat start + unat sz < 2 ^ 64"
  shows "(start = 0 \<or> unat sz < 4096 \<longrightarrow> buddy_init a0 start sz hhdm = Inr None) \<and>
    (start \<noteq> 0 \<and> 8192 \<le> unat sz \<longrightarrow> (\<exists>K M a. buddy_init a0 start sz hhdm = Inr (Some a) \<and> fresh start sz K M a))"
  using buddy_init_panics [of start sz a0 hhdm] buddy_init_spec [OF assms(1) _ _ assms(2)] by simp

theorem buddy_starts_witness:
  "buddy_init blank_buddy 0 8192 0 = Inr None \<and> (\<exists>a. buddy_init blank_buddy 0x1000 0x400000 0 = Inr (Some a) \<and> free_set a = {(20, 0)})"
proof -
  have b: "arrays blank_buddy" by (simp add: arrays_def blank_buddy_def)
  obtain K M a where a: "buddy_init blank_buddy 0x1000 0x400000 0 = Inr (Some a)" "fresh 0x1000 0x400000 K M a"
    using buddy_starts [OF b, of "0x1000" "0x400000" 0] by auto
  then have M: "M \<le> 20" "M = 20 \<or> 0x400000 < (2 :: nat) ^ Suc M + 8192" "free_set a = {(M, 0)}"
    by (simp_all add: fresh_def buddy_ok_def core_def geo_def)
  have "(2 :: nat) ^ Suc M \<le> 2 ^ 20" if "M < 20" using that by (intro power_increasing) auto
  then have "M = 20" using M(1,2) by fastforce
  then show ?thesis using a(1) M(3) buddy_starts [OF b, of 0 8192 0] by simp
qed

end
