(* ===== verification/Cpu_Pool.thy ===== *)
theory Cpu_Pool
  imports Buddy_Run
begin

text \<open>
  The per-CPU block pools (\<open>core/kernel/mem/cpu_pool.c\<close>).  Each CPU keeps up to sixteen blocks of the three
  smallest orders in front of the buddy allocator.  The operations of one order pool take the
  block source as an argument; the functions of the file pass the buddy allocator.
\<close>

subsection \<open>The interface of a block source\<close>

text \<open>
  A block source answers every request with a block that overlaps none of those held, or with null,
  and takes back held blocks.
\<close>

locale block_source =
  fixes ok :: "'s \<Rightarrow> (u64 \<times> nat) set \<Rightarrow> bool"
    and alloc :: "'s \<Rightarrow> u64 \<Rightarrow> (u64 \<times> 's) res"
    and free :: "'s \<Rightarrow> u64 \<Rightarrow> nat \<Rightarrow> 's res"
  assumes alloc_law: "ok s H \<Longrightarrow> \<exists>p s'. alloc s n = Inr (p, s') \<and>
      (if p = 0 then s' = s else ok s' (insert (p, get_minimum_order n) H) \<and> (p, get_minimum_order n) \<notin> H)"
    and free_law: "ok s H \<Longrightarrow> (p, order) \<in> H \<Longrightarrow> \<exists>s'. free s p order = Inr s' \<and> ok s' (H - {(p, order)})"
    and nonnull: "ok s H \<Longrightarrow> (0, order) \<notin> H"

definition buddy_holds :: "nat \<Rightarrow> nat \<Rightarrow> buddy_allocator \<Rightarrow> buddy_allocator \<Rightarrow> (u64 \<times> nat) set \<Rightarrow> bool" where
  "buddy_holds K M a b H \<longleftrightarrow> (\<exists>B. owned K M a b B \<and> H = handle a ` B)"

lemma buddy_holds_alloc:
  assumes "buddy_holds K M a b H"
  shows "\<exists>p b'. buddy_alloc b n = Inr (p, b') \<and>
    (if p = 0 then b' = b else buddy_holds K M a b' (insert (p, get_minimum_order n) H) \<and> (p, get_minimum_order n) \<notin> H)"
proof -
  obtain B where B: "owned K M a b B" "H = handle a ` B" using assms by (auto simp: buddy_holds_def)
  have ok: "buddy_ok K M b" "same_pool a b" and g: "geo K M b" using B(1) by (auto simp: owned_def buddy_ok_def core_def)
  consider (none) "buddy_alloc b n = Inr (0, b)"
    | (some) i c where "buddy_alloc b n = Inr (addr b (get_minimum_order n) i, c)" "grabs K M b (get_minimum_order n, i) c"
    using buddy_alloc_spec [OF ok(1), of n] by blast
  then show ?thesis
  proof cases
    case none
    then show ?thesis by auto
  next
    case (some i c)
    let ?o = "get_minimum_order n"
    have i: "i < limit K M ?o" "order_ok ?o" using some(2) get_minimum_order_spec(1) [of n] by (auto simp: grabs_def)
    have nz: "addr b ?o i \<noteq> 0" by (rule addr_nonzero [OF g _ i(1)]) (use i(2) in simp)
    have h: "handle a (?o, i) = (addr b ?o i, ?o)" using addr_same [OF ok(2)] by (simp add: handle_def)
    obtain B' where B': "owned K M a c B'" "handle a ` B' = insert (addr b ?o i, ?o) (handle a ` B)"
      using owned_alloc [OF B(1) some(1)] nz by auto
    have "(?o, i) \<notin> B"
    proof
      assume "(?o, i) \<in> B"
      then have "span (?o, i) \<subseteq> cover B" by (rule cover_mem)
      moreover have "span (?o, i) \<subseteq> cover (free_set b)" using some(2) by (auto simp: grabs_def simp del: span_iff)
      moreover have "cover B \<inter> cover (free_set b) = {}" using B(1) by (simp add: owned_def)
      ultimately show False using span_ne [of "(?o, i)"] by blast
    qed
    moreover have "c = (?o, i)" if "c \<in> B" "handle a c = handle a (?o, i)" for c
    proof -
      obtain x j where c: "c = (x, j)" by (cases c)
      then have "order_ok x" "j < limit K M x" using B(1) that(1) by (auto simp: owned_def)
      then show ?thesis using handle_inj [OF g _ _ i, of j x] that(2) unfolding handle_same [OF ok(2)] c by blast
    qed
    ultimately have "handle a (?o, i) \<notin> handle a ` B" by (metis imageE)
    moreover have "buddy_holds K M a c (insert (addr b ?o i, ?o) H)" unfolding buddy_holds_def B(2) using B' by metis
    ultimately show ?thesis using some(1) B(2) nz h by auto
  qed
qed

lemma buddy_holds_free:
  assumes "buddy_holds K M a b H" "(p, order) \<in> H"
  shows "\<exists>b'. buddy_free b p order = Inr b' \<and> buddy_holds K M a b' (H - {(p, order)})"
proof -
  obtain B where B: "owned K M a b B" "H = handle a ` B" using assms(1) by (auto simp: buddy_holds_def)
  obtain b' B' where "buddy_free b p order = Inr b'" "owned K M a b' B'" "handle a ` B' = H - {(p, order)}"
    using owned_free [OF B(1)] assms(2) unfolding B(2) by blast
  then show ?thesis unfolding buddy_holds_def by metis
qed

lemma buddy_holds_nonnull:
  assumes "buddy_holds K M a b H"
  shows "(0, order) \<notin> H"
proof
  assume "(0, order) \<in> H"
  then obtain B i where B: "owned K M a b B" "(order, i) \<in> B" "addr a order i = 0" using assms by (auto simp: buddy_holds_def handle_def)
  then have g: "geo K M b" "i < limit K M order" "same_pool a b" "order_ok order" by (auto simp: owned_def buddy_ok_def core_def)
  from addr_nonzero [OF g(1) _ g(2)] show False using B(3) addr_same [OF g(3)] g(4) by simp
qed

interpretation buddy_source: block_source "buddy_holds K M a" buddy_alloc buddy_free for K M a
proof
  show "\<exists>p s'. buddy_alloc s n = Inr (p, s') \<and>
      (if p = 0 then s' = s else buddy_holds K M a s' (insert (p, get_minimum_order n) H) \<and> (p, get_minimum_order n) \<notin> H)"
    if "buddy_holds K M a s H" for s H n using that by (rule buddy_holds_alloc)
  show "\<exists>s'. buddy_free s p order = Inr s' \<and> buddy_holds K M a s' (H - {(p, order)})"
    if "buddy_holds K M a s H" "(p, order) \<in> H" for s H p order
    using that by (rule buddy_holds_free)
  show "(0, order) \<notin> H" if "buddy_holds K M a s H" for s H order using that by (rule buddy_holds_nonnull)
qed

subsection \<open>State and operations\<close>

definition CPU_POOL_MAX_CPUS :: nat where "CPU_POOL_MAX_CPUS = 64"

definition CPU_POOL_ORDERS :: nat where "CPU_POOL_ORDERS = 3"

definition CPU_POOL_CACHE_SIZE :: nat where "CPU_POOL_CACHE_SIZE = 16"

lemmas pool_consts = CPU_POOL_MAX_CPUS_def CPU_POOL_ORDERS_def CPU_POOL_CACHE_SIZE_def

record cpu_order_pool =
  pblocks :: "u64 list"
  pcount :: u32

record cpu_pool =
  porders :: "cpu_order_pool list"
  pinitialized :: u8

text \<open>The static array of pools and the allocator behind them.\<close>

record pool_world =
  cpu_pools :: "cpu_pool list"
  buddy :: buddy_allocator

definition pool_orders :: "nat list" where
  "pool_orders = [12, 13, 14]"

definition order_idx :: "nat \<Rightarrow> nat option res" where
  "order_idx order = search (\<lambda>x. x = order) pool_orders 0 CPU_POOL_ORDERS"

definition cpu_pool_init :: "u32 \<Rightarrow> pool_world \<Rightarrow> pool_world res" where
  "cpu_pool_init cpu_id w =
     (if of_nat CPU_POOL_MAX_CPUS \<le> cpu_id then Inr w
      else
        bindR (rd (cpu_pools w) (uint cpu_id)) (\<lambda>p.
        bindR (wr (cpu_pools w) (uint cpu_id) (p\<lparr>porders := map (\<lambda>op. op\<lparr>pcount := 0\<rparr>) (porders p), pinitialized := 1\<rparr>)) (\<lambda>ps.
        Inr (w\<lparr>cpu_pools := ps\<rparr>))))"

definition pop_block :: "cpu_order_pool \<Rightarrow> (u64 \<times> cpu_order_pool) res" where
  "pop_block op = bindR (rd (pblocks op) (uint (pcount op - 1))) (\<lambda>b. Inr (b, op\<lparr>pcount := pcount op - 1\<rparr>))"

definition push_block :: "u64 \<Rightarrow> cpu_order_pool \<Rightarrow> cpu_order_pool res" where
  "push_block b op = bindR (wr (pblocks op) (uint (pcount op)) b) (\<lambda>bs. Inr (op\<lparr>pblocks := bs, pcount := pcount op + 1\<rparr>))"

fun refill_loop :: "('s \<Rightarrow> u64 \<Rightarrow> (u64 \<times> 's) res) \<Rightarrow> u64 \<Rightarrow> nat \<Rightarrow> cpu_order_pool \<Rightarrow> 's \<Rightarrow> (cpu_order_pool \<times> 's) res" where
  "refill_loop alloc bsize 0 op s = Inr (op, s)"
| "refill_loop alloc bsize (Suc n) op s =
     (if pcount op < of_nat CPU_POOL_CACHE_SIZE then
        bindR (alloc s bsize) (\<lambda>(b, s).
        if b = 0 then Inr (op, s) else bindR (push_block b op) (\<lambda>op. refill_loop alloc bsize n op s))
      else Inr (op, s))"

definition order_pool_alloc :: "('s \<Rightarrow> u64 \<Rightarrow> (u64 \<times> 's) res) \<Rightarrow> u64 \<Rightarrow> cpu_order_pool \<Rightarrow> 's \<Rightarrow> (u64 \<times> cpu_order_pool \<times> 's) res" where
  "order_pool_alloc alloc bsize op s =
     (if pcount op > 0 then bindR (pop_block op) (\<lambda>(b, op). Inr (b, op, s))
      else
        bindR (refill_loop alloc bsize (CPU_POOL_CACHE_SIZE div 2) op s) (\<lambda>(op, s).
        if pcount op > 0 then bindR (pop_block op) (\<lambda>(b, op). Inr (b, op, s))
        else bindR (alloc s bsize) (\<lambda>(b, s). Inr (b, op, s))))"

fun flush_loop :: "('s \<Rightarrow> u64 \<Rightarrow> nat \<Rightarrow> 's res) \<Rightarrow> nat \<Rightarrow> nat \<Rightarrow> cpu_order_pool \<Rightarrow> 's \<Rightarrow> (cpu_order_pool \<times> 's) res" where
  "flush_loop free order 0 op s = Inr (op, s)"
| "flush_loop free order (Suc n) op s =
     bindR (pop_block op) (\<lambda>(b, op). bindR (free s b order) (\<lambda>s. flush_loop free order n op s))"

definition order_pool_free :: "('s \<Rightarrow> u64 \<Rightarrow> nat \<Rightarrow> 's res) \<Rightarrow> nat \<Rightarrow> u64 \<Rightarrow> cpu_order_pool \<Rightarrow> 's \<Rightarrow> (cpu_order_pool \<times> 's) res" where
  "order_pool_free free order ptr op s =
     (if pcount op < of_nat CPU_POOL_CACHE_SIZE then bindR (push_block ptr op) (\<lambda>op. Inr (op, s))
      else
        let flush = (let f = of_nat (CPU_POOL_CACHE_SIZE div 2) in if pcount op < f then pcount op else f) in
        bindR (flush_loop free order (unat flush) op s) (\<lambda>(op, s).
        bindR (push_block ptr op) (\<lambda>op. Inr (op, s))))"

definition put_pool :: "u32 \<Rightarrow> nat \<Rightarrow> cpu_order_pool \<Rightarrow> pool_world \<Rightarrow> pool_world res" where
  "put_pool cpu_id idx op w =
     bindR (rd (cpu_pools w) (uint cpu_id)) (\<lambda>p.
     bindR (wr (porders p) (int idx) op) (\<lambda>os.
     bindR (wr (cpu_pools w) (uint cpu_id) (p\<lparr>porders := os\<rparr>)) (\<lambda>ps. Inr (w\<lparr>cpu_pools := ps\<rparr>))))"

definition buddy_direct :: "nat \<Rightarrow> pool_world \<Rightarrow> (u64 \<times> pool_world) res" where
  "buddy_direct order w = bindR (buddy_alloc (buddy w) (push_bit order 1)) (\<lambda>(b, s). Inr (b, w\<lparr>buddy := s\<rparr>))"

definition cpu_pool_alloc :: "u32 \<Rightarrow> nat \<Rightarrow> pool_world \<Rightarrow> (u64 \<times> pool_world) res" where
  "cpu_pool_alloc cpu_id order w =
     (if of_nat CPU_POOL_MAX_CPUS \<le> cpu_id then buddy_direct order w
      else
        bindR (rd (cpu_pools w) (uint cpu_id)) (\<lambda>p.
        if pinitialized p = 0 then buddy_direct order w
        else
          bindR (order_idx order) (\<lambda>r.
          case r of None \<Rightarrow> buddy_direct order w
          | Some idx \<Rightarrow>
              bindR (rd (porders p) (int idx)) (\<lambda>op.
              bindR (order_pool_alloc buddy_alloc (push_bit order 1) op (buddy w)) (\<lambda>(b, op, s).
              bindR (put_pool cpu_id idx op (w\<lparr>buddy := s\<rparr>)) (\<lambda>w. Inr (b, w)))))))"

definition buddy_return :: "u64 \<Rightarrow> nat \<Rightarrow> pool_world \<Rightarrow> pool_world res" where
  "buddy_return ptr order w = bindR (buddy_free (buddy w) ptr order) (\<lambda>s. Inr (w\<lparr>buddy := s\<rparr>))"

definition cpu_pool_free :: "u32 \<Rightarrow> u64 \<Rightarrow> nat \<Rightarrow> pool_world \<Rightarrow> pool_world res" where
  "cpu_pool_free cpu_id ptr order w =
     (if ptr = 0 then Inr w
      else if of_nat CPU_POOL_MAX_CPUS \<le> cpu_id then buddy_return ptr order w
      else
        bindR (rd (cpu_pools w) (uint cpu_id)) (\<lambda>p.
        if pinitialized p = 0 then buddy_return ptr order w
        else
          bindR (order_idx order) (\<lambda>r.
          case r of None \<Rightarrow> buddy_return ptr order w
          | Some idx \<Rightarrow>
              bindR (rd (porders p) (int idx)) (\<lambda>op.
              bindR (order_pool_free buddy_free order ptr op (buddy w)) (\<lambda>(op, s).
              put_pool cpu_id idx op (w\<lparr>buddy := s\<rparr>))))))"

subsection \<open>One order pool is a stack in front of the source\<close>

definition stacked :: "nat \<Rightarrow> cpu_order_pool \<Rightarrow> (u64 \<times> nat) list" where
  "stacked order op = map (\<lambda>p. (p, order)) (take (unat (pcount op)) (pblocks op))"

definition pool_ok :: "cpu_order_pool \<Rightarrow> bool" where
  "pool_ok op \<longleftrightarrow> length (pblocks op) = 16 \<and> unat (pcount op) \<le> 16"

lemma stacked_length: "pool_ok op \<Longrightarrow> length (stacked order op) = unat (pcount op)"
  by (simp add: stacked_def pool_ok_def)

lemma pop_block_eq:
  assumes "pool_ok op" "pcount op \<noteq> 0"
  shows "\<exists>b op'. pop_block op = Inr (b, op') \<and> pool_ok op' \<and> stacked order op = stacked order op' @ [(b, order)] \<and>
    unat (pcount op) = Suc (unat (pcount op'))"
proof -
  have n: "0 < unat (pcount op)" using assms(2) by (simp add: unat_gt_0)
  then have u: "unat (pcount op - 1) = unat (pcount op) - 1" by (subst unat_sub) (auto simp: word_le_nat_alt)
  have l: "unat (pcount op) - 1 < length (pblocks op)" using assms(1) n unfolding pool_ok_def by linarith
  let ?op = "op\<lparr>pcount := pcount op - 1\<rparr>"
  have "rd (pblocks op) (uint (pcount op - 1)) = Inr (pblocks op ! (unat (pcount op) - 1))"
    using rd_nat [OF l] u by (metis uint_nat)
  moreover have "take (unat (pcount op)) (pblocks op) = take (unat (pcount op) - 1) (pblocks op) @ [pblocks op ! (unat (pcount op) - 1)]"
    using take_Suc_conv_app_nth [OF l] n by simp
  ultimately show ?thesis using assms(1) u n
    by (intro exI [of _ "pblocks op ! (unat (pcount op) - 1)"] exI [of _ ?op]) (auto simp: pop_block_def stacked_def pool_ok_def)
qed

lemma push_block_eq:
  assumes "pool_ok op" "unat (pcount op) < 16"
  shows "\<exists>op'. push_block b op = Inr op' \<and> pool_ok op' \<and> stacked order op' = stacked order op @ [(b, order)] \<and>
    unat (pcount op') = Suc (unat (pcount op))"
proof -
  have u: "unat (pcount op + 1) = Suc (unat (pcount op))" using assms(2) by (subst unat_plus_if') simp
  have l: "unat (pcount op) < length (pblocks op)" using assms by (simp add: pool_ok_def)
  let ?op = "op\<lparr>pblocks := (pblocks op)[unat (pcount op) := b], pcount := pcount op + 1\<rparr>"
  have "wr (pblocks op) (uint (pcount op)) b = Inr ((pblocks op)[unat (pcount op) := b])"
    using wr_nat [OF l] by (metis uint_nat)
  then show ?thesis using assms u l
    by (intro exI [of _ ?op]) (simp add: push_block_def stacked_def pool_ok_def take_Suc_conv_app_nth)
qed

context block_source
begin

text \<open>The source holds the given blocks \<open>R\<close> for others and the stacked ones.\<close>

definition backed :: "'s \<Rightarrow> nat \<Rightarrow> (u64 \<times> nat) set \<Rightarrow> cpu_order_pool \<Rightarrow> bool" where
  "backed s order R op \<longleftrightarrow> pool_ok op \<and> distinct (stacked order op) \<and> set (stacked order op) \<inter> R = {} \<and> ok s (R \<union> set (stacked order op))"

lemma pop_backed:
  assumes "backed s order R op" "pcount op \<noteq> 0"
  shows "\<exists>b op'. pop_block op = Inr (b, op') \<and> backed s order (insert (b, order) R) op' \<and> (b, order) \<notin> R"
proof -
  obtain b op' where "pop_block op = Inr (b, op')" "pool_ok op'" "stacked order op = stacked order op' @ [(b, order)]"
    using pop_block_eq [of op order] assms by (auto simp: backed_def)
  moreover from this assms(1) have "backed s order (insert (b, order) R) op'" "(b, order) \<notin> R" by (auto simp: backed_def)
  ultimately show ?thesis by blast
qed

lemma push_backed:
  assumes "backed s order (insert (b, order) R) op" "(b, order) \<notin> R" "unat (pcount op) < 16"
  shows "\<exists>op'. push_block b op = Inr op' \<and> backed s order R op' \<and> unat (pcount op') = Suc (unat (pcount op))"
proof -
  obtain op' where "push_block b op = Inr op'" "pool_ok op'" "stacked order op' = stacked order op @ [(b, order)]"
    "unat (pcount op') = Suc (unat (pcount op))" using push_block_eq [of op b order] assms by (auto simp: backed_def)
  moreover from this assms(1,2) have "backed s order R op'" by (auto simp: backed_def)
  ultimately show ?thesis by blast
qed

lemma alloc_backed:
  assumes "backed s (get_minimum_order n) R op"
  shows "\<exists>p s'. alloc s n = Inr (p, s') \<and>
    (if p = 0 then s' = s else backed s' (get_minimum_order n) (insert (p, get_minimum_order n) R) op \<and> (p, get_minimum_order n) \<notin> R)"
proof -
  let ?H = "R \<union> set (stacked (get_minimum_order n) op)"
  have "ok s ?H" using assms by (simp add: backed_def)
  from alloc_law [OF this, of n] obtain p s' where a: "alloc s n = Inr (p, s')"
    "if p = 0 then s' = s else ok s' (insert (p, get_minimum_order n) ?H) \<and> (p, get_minimum_order n) \<notin> ?H" by blast
  then show ?thesis using assms by (intro exI [of _ p] exI [of _ s']) (auto simp: backed_def split: if_splits)
qed

lemma refill_backed:
  assumes "backed s (get_minimum_order n) R op"
  shows "\<exists>op' s'. refill_loop alloc n k op s = Inr (op', s') \<and> backed s' (get_minimum_order n) R op' \<and> unat (pcount op) \<le> unat (pcount op') \<and>
    (pcount op' = pcount op \<and> 0 < k \<and> unat (pcount op) < 16 \<longrightarrow> op' = op \<and> s' = s \<and> alloc s n = Inr (0, s))"
  using assms
proof (induction k arbitrary: op s)
  case (Suc k)
  let ?o = "get_minimum_order n"
  show ?case
  proof (cases "unat (pcount op) < 16")
    case False
    then have "\<not> pcount op < of_nat CPU_POOL_CACHE_SIZE" by (simp add: pool_consts word_less_nat_alt)
    then show ?thesis using Suc(2) False by auto
  next
    case True
    then have c: "pcount op < of_nat CPU_POOL_CACHE_SIZE" by (simp add: pool_consts word_less_nat_alt)
    obtain p s1 where a: "alloc s n = Inr (p, s1)" "if p = 0 then s1 = s else backed s1 ?o (insert (p, ?o) R) op \<and> (p, ?o) \<notin> R"
      using alloc_backed [OF Suc(2)] by blast
    show ?thesis
    proof (cases "p = 0")
      case True
      then show ?thesis using a c Suc(2) by auto
    next
      case False
      then obtain op1 where op1: "push_block p op = Inr op1" "backed s1 ?o R op1" "unat (pcount op1) = Suc (unat (pcount op))"
        using push_backed [of s1 ?o p R op] a(2) True by auto
      from Suc(1) [OF op1(2)] obtain op' s' where r: "refill_loop alloc n k op1 s1 = Inr (op', s')" "backed s' ?o R op'" "unat (pcount op1) \<le> unat (pcount op')" by blast
      moreover have "refill_loop alloc n (Suc k) op s = Inr (op', s')" using a(1) c False op1(1) r(1) by simp
      moreover have "pcount op' \<noteq> pcount op" using r(3) op1(3) by auto
      ultimately show ?thesis using op1(3) by (intro exI [of _ op'] exI [of _ s']) simp
    qed
  qed
qed auto

text \<open>A request takes a stacked block, or one of the source, or fails and changes nothing.\<close>

definition served :: "u64 \<Rightarrow> nat \<Rightarrow> (u64 \<times> nat) set \<Rightarrow> cpu_order_pool \<Rightarrow> 's \<Rightarrow> cpu_order_pool \<Rightarrow> 's \<Rightarrow> bool" where
  "served b order R op s op' s' \<longleftrightarrow> (if b = 0 then op' = op \<and> s' = s else backed s' order (insert (b, order) R) op' \<and> (b, order) \<notin> R)"

lemma pop_served:
  assumes "backed s order R op" "pcount op \<noteq> 0"
  shows "\<exists>b op'. pop_block op = Inr (b, op') \<and> served b order R op0 s0 op' s"
proof -
  obtain b op' where p: "pop_block op = Inr (b, op')" "backed s order (insert (b, order) R) op'" "(b, order) \<notin> R"
    using pop_backed [OF assms] by blast
  have "b \<noteq> 0" using p(2) nonnull unfolding backed_def by blast
  then show ?thesis using p by (auto simp: served_def)
qed

lemma order_pool_alloc_served:
  assumes "backed s (get_minimum_order n) R op"
  shows "\<exists>b op' s'. order_pool_alloc alloc n op s = Inr (b, op', s') \<and> served b (get_minimum_order n) R op s op' s'"
proof (cases "pcount op = 0")
  case False
  then obtain b op' where "pop_block op = Inr (b, op')" "served b (get_minimum_order n) R op s op' s" using pop_served [OF assms] by blast
  then show ?thesis using False by (simp add: order_pool_alloc_def word_neq_0_conv [symmetric])
next
  case True
  obtain op1 s1 where r: "refill_loop alloc n (CPU_POOL_CACHE_SIZE div 2) op s = Inr (op1, s1)" "backed s1 (get_minimum_order n) R op1"
    "pcount op1 = pcount op \<longrightarrow> op1 = op \<and> s1 = s \<and> alloc s n = Inr (0, s)"
    using refill_backed [OF assms, of "CPU_POOL_CACHE_SIZE div 2"] True by (auto simp: pool_consts)
  show ?thesis
  proof (cases "pcount op1 = 0")
    case False
    then obtain b op' where "pop_block op1 = Inr (b, op')" "served b (get_minimum_order n) R op s op' s1" using pop_served [OF r(2)] by blast
    then show ?thesis using True False r(1) by (simp add: order_pool_alloc_def word_neq_0_conv [symmetric])
  next
    case z: True
    then show ?thesis using True r by (simp add: order_pool_alloc_def served_def)
  qed
qed

lemma flush_backed:
  assumes "backed s order R op" "k \<le> unat (pcount op)"
  shows "\<exists>op' s'. flush_loop free order k op s = Inr (op', s') \<and> backed s' order R op' \<and> unat (pcount op') = unat (pcount op) - k"
  using assms
proof (induction k arbitrary: op s)
  case (Suc k)
  then have "pool_ok op" "pcount op \<noteq> 0" by (auto simp: backed_def)
  then obtain b op1 where p: "pop_block op = Inr (b, op1)" "pool_ok op1" "stacked order op = stacked order op1 @ [(b, order)]" "unat (pcount op) = Suc (unat (pcount op1))"
    using pop_block_eq [of op order] by auto
  let ?H = "R \<union> set (stacked order op)"
  have H: "ok s ?H" "(b, order) \<in> ?H" "?H - {(b, order)} = R \<union> set (stacked order op1)"
    using Suc(2) p(3) by (auto simp: backed_def)
  then obtain s1 where s1: "free s b order = Inr s1" "ok s1 (R \<union> set (stacked order op1))" using free_law [OF H(1,2)] by auto
  then have "backed s1 order R op1" using Suc(2) p(2,3) by (auto simp: backed_def)
  from Suc(1) [OF this] p(4) Suc(3) obtain op' s' where "flush_loop free order k op1 s1 = Inr (op', s')" "backed s' order R op'"
    "unat (pcount op') = unat (pcount op1) - k" by auto
  then show ?case using p(1,4) s1(1) by auto
qed auto

lemma order_pool_free_backed:
  assumes "backed s order (insert (b, order) R) op" "(b, order) \<notin> R"
  shows "\<exists>op' s'. order_pool_free free order b op s = Inr (op', s') \<and> backed s' order R op'"
proof (cases "unat (pcount op) < 16")
  case True
  then have "pcount op < of_nat CPU_POOL_CACHE_SIZE" by (simp add: pool_consts word_less_nat_alt)
  then show ?thesis using push_backed [OF assms True] by (auto simp: order_pool_free_def)
next
  case False
  then have c: "unat (pcount op) = 16" using assms(1) by (simp add: backed_def pool_ok_def)
  then have n: "\<not> pcount op < of_nat CPU_POOL_CACHE_SIZE" "\<not> pcount op < 8" by (simp_all add: pool_consts word_less_nat_alt)
  obtain op1 s1 where f: "flush_loop free order 8 op s = Inr (op1, s1)" "backed s1 order (insert (b, order) R) op1" "unat (pcount op1) = 8"
    using flush_backed [OF assms(1), of 8] c by auto
  obtain op' where "push_block b op1 = Inr op'" "backed s1 order R op'" using push_backed [OF f(2) assms(2)] f(3) by auto
  then show ?thesis using n f(1) by (simp add: order_pool_free_def Let_def pool_consts)
qed

end

subsection \<open>All pools together\<close>

abbreviation the_pool :: "pool_world \<Rightarrow> nat \<Rightarrow> nat \<Rightarrow> cpu_order_pool" where
  "the_pool w c k \<equiv> porders (cpu_pools w ! c) ! k"

definition content :: "pool_world \<Rightarrow> nat \<times> nat \<Rightarrow> (u64 \<times> nat) list" where
  "content w = (\<lambda>(c, k). if c < 64 \<and> k < 3 then stacked (pool_orders ! k) (the_pool w c k) else [])"

definition cached :: "pool_world \<Rightarrow> (u64 \<times> nat) set" where
  "cached w = (\<Union>x. set (content w x))"

definition pools_shape :: "pool_world \<Rightarrow> bool" where
  "pools_shape w \<longleftrightarrow> length (cpu_pools w) = 64 \<and> (\<forall>c < 64. length (porders (cpu_pools w ! c)) = 3 \<and>
     (\<forall>k < 3. pool_ok (the_pool w c k) \<and> (pinitialized (cpu_pools w ! c) = 0 \<longrightarrow> pcount (the_pool w c k) = 0)))"

definition pools_inv :: "nat \<Rightarrow> nat \<Rightarrow> buddy_allocator \<Rightarrow> pool_world \<Rightarrow> (u64 \<times> nat) set \<Rightarrow> bool" where
  "pools_inv K M a w L \<longleftrightarrow> pools_shape w \<and> (\<forall>x. distinct (content w x)) \<and>
     (\<forall>x y. x \<noteq> y \<longrightarrow> set (content w x) \<inter> set (content w y) = {}) \<and> cached w \<inter> L = {} \<and>
     buddy_holds K M a (buddy w) (L \<union> cached w)"

definition others :: "pool_world \<Rightarrow> nat \<times> nat \<Rightarrow> (u64 \<times> nat) set" where
  "others w x = (\<Union>y \<in> - {x}. set (content w y))"

lemma buddy_frame [simp]: "content (w\<lparr>buddy := b\<rparr>) = content w" "cached (w\<lparr>buddy := b\<rparr>) = cached w" "pools_shape (w\<lparr>buddy := b\<rparr>) = pools_shape w"
  by (auto simp: content_def cached_def pools_shape_def fun_eq_iff)

lemma cached_split: "cached w = others w x \<union> set (content w x)"
  unfolding cached_def others_def by blast

lemma pools_inv_backed:
  assumes "pools_inv K M a w L" "c < 64" "k < 3"
  shows "buddy_source.backed K M a (buddy w) (pool_orders ! k) (L \<union> others w (c, k)) (the_pool w c k)"
proof -
  have e: "content w (c, k) = stacked (pool_orders ! k) (the_pool w c k)" using assms(2,3) by (simp add: content_def)
  have "L \<union> others w (c, k) \<union> set (content w (c, k)) = L \<union> cached w" using cached_split [of w "(c, k)"] by blast
  moreover have "set (content w (c, k)) \<inter> (L \<union> others w (c, k)) = {}"
    using assms(1) unfolding pools_inv_def others_def cached_def by blast
  moreover have "distinct (content w (c, k))" "buddy_holds K M a (buddy w) (L \<union> cached w)" "pool_ok (the_pool w c k)"
    using assms by (auto simp: pools_inv_def pools_shape_def)
  ultimately show ?thesis unfolding buddy_source.backed_def e by simp
qed

text \<open>Writing back a pool: only its own contents change.\<close>

lemma put_pool_eq:
  assumes "pools_shape w" "c < of_nat CPU_POOL_MAX_CPUS" "k < 3" "pool_ok op" "pinitialized (cpu_pools w ! unat c) \<noteq> 0"
  shows "\<exists>w'. put_pool c k op w = Inr w' \<and> pools_shape w' \<and> buddy w' = buddy w \<and>
    content w' = (content w)((unat c, k) := stacked (pool_orders ! k) op)"
proof -
  have c: "unat c < 64" "unat c < length (cpu_pools w)" using assms(1,2) by (auto simp: pool_consts word_less_nat_alt pools_shape_def)
  have k: "k < length (porders (cpu_pools w ! unat c))" using assms(1,3) c(1) by (simp add: pools_shape_def)
  let ?p = "cpu_pools w ! unat c"
  let ?w = "w\<lparr>cpu_pools := (cpu_pools w)[unat c := ?p\<lparr>porders := (porders ?p)[k := op]\<rparr>]\<rparr>"
  have "put_pool c k op w = Inr ?w"
    using rd_nat [OF c(2)] wr_nat [OF c(2)] wr_nat [OF k] by (simp add: put_pool_def)
  moreover have "pools_shape ?w"
    using assms(1,3-5) c k unfolding pools_shape_def by (simp add: nth_list_update)
  moreover have "content ?w = (content w)((unat c, k) := stacked (pool_orders ! k) op)"
    using assms(3) c k by (auto simp: content_def fun_eq_iff nth_list_update)
  ultimately show ?thesis by simp
qed

lemma backed_pools_inv:
  assumes i: "pools_inv K M a w L" and s: "pools_shape w'" and c: "content w' = (content w)((c, k) := stacked (pool_orders ! k) op)"
    and b: "buddy_source.backed K M a (buddy w') (pool_orders ! k) (L' \<union> others w (c, k)) op" "L' \<inter> others w (c, k) = {}"
  shows "pools_inv K M a w' L'"
proof -
  have x: "set (stacked (pool_orders ! k) op) \<inter> (L' \<union> others w (c, k)) = {}" "distinct (stacked (pool_orders ! k) op)"
    "buddy_holds K M a (buddy w') (L' \<union> others w (c, k) \<union> set (stacked (pool_orders ! k) op))"
    using b(1) by (auto simp: buddy_source.backed_def)
  have o: "others w' (c, k) = others w (c, k)" by (auto simp: others_def c)
  have ca: "cached w' = others w (c, k) \<union> set (stacked (pool_orders ! k) op)" using cached_split [of w' "(c, k)"] unfolding o by (simp add: c)
  have oth: "set (content w u) \<inter> set (stacked (pool_orders ! k) op) = {}" if "u \<noteq> (c, k)" for u
    using that x(1) unfolding others_def by blast
  have pair: "set (content w y) \<inter> set (content w z) = {}" if "y \<noteq> z" for y z using i that unfolding pools_inv_def by blast
  have "set (content w' y) \<inter> set (content w' z) = {}" if "y \<noteq> z" for y z
    using that oth pair unfolding c by (cases "y = (c, k)"; cases "z = (c, k)") (auto simp: Int_commute)
  moreover have "distinct (content w' y)" for y using i x(2) by (cases y) (simp add: c pools_inv_def)
  moreover have "cached w' \<inter> L' = {}" using x(1) b(2) unfolding ca by blast
  moreover have "L' \<union> cached w' = L' \<union> others w (c, k) \<union> set (stacked (pool_orders ! k) op)" unfolding ca by blast
  ultimately show ?thesis using s x(3) unfolding pools_inv_def by simp
qed

lemma order_of_size:
  assumes "order_ok order"
  shows "get_minimum_order (push_bit order 1) = order"
proof -
  have u: "unat (push_bit order 1 :: u64) = 2 ^ order" using block_size_nat [of order] assms by (simp add: BUDDY_BLOCK_SIZE_def)
  let ?g = "get_minimum_order (push_bit order 1)"
  have "(2 :: nat) ^ order \<le> 2 ^ 20" using assms by (intro power_increasing) auto
  then have "(2 :: nat) ^ order \<le> 2 ^ ?g" using get_minimum_order_spec(2) [of "push_bit order 1"] u by simp
  then have "order \<le> ?g" by simp
  moreover have "\<not> order < ?g" using get_minimum_order_spec(3) [of order "push_bit order 1"] assms u by auto
  ultimately show ?thesis by simp
qed

lemma order_idx_eq: "order_idx order = Inr (if order = 12 then Some 0 else if order = 13 then Some 1 else if order = 14 then Some 2 else None)"
proof -
  have s: "CPU_POOL_ORDERS = Suc (Suc (Suc 0))" by (simp add: CPU_POOL_ORDERS_def)
  show ?thesis unfolding order_idx_def s by (simp add: search.simps pool_orders_def rd_def)
qed

lemma order_idx_order: "order_idx order = Inr (Some k) \<Longrightarrow> k < 3 \<and> pool_orders ! k = order"
  by (auto simp: order_idx_eq pool_orders_def split: if_splits)

lemma buddy_direct_inv:
  assumes i: "pools_inv K M a w L" and o: "order_ok order"
  shows "\<exists>p w'. buddy_direct order w = Inr (p, w') \<and> (if p = 0 then w' = w else pools_inv K M a w' (insert (p, order) L) \<and> (p, order) \<notin> L)"
proof -
  have h: "buddy_holds K M a (buddy w) (L \<union> cached w)" "cached w \<inter> L = {}" using i by (auto simp: pools_inv_def)
  from buddy_source.alloc_law [OF h(1), of "push_bit order 1"] obtain p b where
    b: "buddy_alloc (buddy w) (push_bit order 1) = Inr (p, b)"
      "if p = 0 then b = buddy w else buddy_holds K M a b (insert (p, order) (L \<union> cached w)) \<and> (p, order) \<notin> L \<union> cached w"
    unfolding order_of_size [OF o] by blast
  have "pools_inv K M a (w\<lparr>buddy := b\<rparr>) (insert (p, order) L) \<and> (p, order) \<notin> L" if "p \<noteq> 0"
    using i b(2) that unfolding pools_inv_def buddy_frame by auto
  then show ?thesis using b by (auto simp: buddy_direct_def)
qed

lemma buddy_return_inv:
  assumes i: "pools_inv K M a w L" and m: "(p, order) \<in> L"
  shows "\<exists>w'. buddy_return p order w = Inr w' \<and> pools_inv K M a w' (L - {(p, order)})"
proof -
  have h: "buddy_holds K M a (buddy w) (L \<union> cached w)" "cached w \<inter> L = {}" using i by (auto simp: pools_inv_def)
  obtain b where b: "buddy_free (buddy w) p order = Inr b" "buddy_holds K M a b (L \<union> cached w - {(p, order)})"
    using buddy_source.free_law [OF h(1)] m by blast
  have e: "L \<union> cached w - {(p, order)} = L - {(p, order)} \<union> cached w" using h(2) m by blast
  have "pools_inv K M a (w\<lparr>buddy := b\<rparr>) (L - {(p, order)})" using i b(2) unfolding pools_inv_def buddy_frame e by auto
  then show ?thesis using b(1) by (simp add: buddy_return_def)
qed

lemma pools_rd:
  fixes c :: u32
  assumes "pools_shape w" "c < of_nat CPU_POOL_MAX_CPUS"
  shows "unat c < 64" "rd (cpu_pools w) (uint c) = Inr (cpu_pools w ! unat c)" "k < 3 \<Longrightarrow> rd (porders (cpu_pools w ! unat c)) (int k) = Inr (the_pool w (unat c) k)"
proof -
  show c: "unat c < 64" using assms(2) by (simp add: pool_consts word_less_nat_alt)
  then show "rd (cpu_pools w) (uint c) = Inr (cpu_pools w ! unat c)" using assms(1) rd_nat [of "unat c" "cpu_pools w"] by (simp add: pools_shape_def)
  show "k < 3 \<Longrightarrow> rd (porders (cpu_pools w ! unat c)) (int k) = Inr (the_pool w (unat c) k)"
    using assms(1) c by (intro rd_nat) (simp add: pools_shape_def)
qed

lemma pool_route:
  fixes c :: u32
  obtains (direct) "of_nat CPU_POOL_MAX_CPUS \<le> c \<or> pinitialized (cpu_pools w ! unat c) = 0 \<or> order_idx order = Inr None"
  | (pool) k where "c < of_nat CPU_POOL_MAX_CPUS" "pinitialized (cpu_pools w ! unat c) \<noteq> 0" "order_idx order = Inr (Some k)"
proof -
  obtain r where "order_idx order = Inr r" using order_idx_eq by blast
  then show ?thesis using that by (cases r) (auto simp: not_le [symmetric])
qed

lemma cpu_pool_alloc_inv:
  assumes i: "pools_inv K M a w L" and o: "order_ok order"
  shows "\<exists>p w'. cpu_pool_alloc c order w = Inr (p, w') \<and> (if p = 0 then w' = w else pools_inv K M a w' (insert (p, order) L) \<and> (p, order) \<notin> L)"
proof -
  have s: "pools_shape w" using i by (simp add: pools_inv_def)
  show ?thesis
  proof (cases rule: pool_route [of c w order])
    case direct
    then have "cpu_pool_alloc c order w = buddy_direct order w"
      using pools_rd(2) [OF s, of c] order_idx_eq [of order] by (cases "of_nat CPU_POOL_MAX_CPUS \<le> c") (auto simp: cpu_pool_alloc_def not_le)
    then show ?thesis using buddy_direct_inv [OF i o] by simp
  next
    case (pool k)
    note c = pools_rd [OF s pool(1)]
    note k = order_idx_order [OF pool(3)]
    have "buddy_source.backed K M a (buddy w) (get_minimum_order (push_bit order 1)) (L \<union> others w (unat c, k)) (the_pool w (unat c) k)"
      using pools_inv_backed [OF i c(1), of k] k order_of_size [OF o] by simp
    from buddy_source.order_pool_alloc_served [OF this] obtain b op s' where
      b: "order_pool_alloc buddy_alloc (push_bit order 1) (the_pool w (unat c) k) (buddy w) = Inr (b, op, s')"
        "buddy_source.served K M a b order (L \<union> others w (unat c, k)) (the_pool w (unat c) k) (buddy w) op s'"
      unfolding order_of_size [OF o] by blast
    have run: "cpu_pool_alloc c order w = bindR (put_pool c k op (w\<lparr>buddy := s'\<rparr>)) (\<lambda>w. Inr (b, w))"
      using pool b(1) c(2) c(3) [of k] k by (auto simp: cpu_pool_alloc_def)
    show ?thesis
    proof (cases "b = 0")
      case True
      then have e: "op = the_pool w (unat c) k" "s' = buddy w" using b(2) by (auto simp: buddy_source.served_def)
      have l: "unat c < length (cpu_pools w)" "k < length (porders (cpu_pools w ! unat c))" using s c(1) k by (auto simp: pools_shape_def)
      have "put_pool c k op w = Inr w" using c(2) wr_nat [OF l(1)] wr_nat [OF l(2)] unfolding e by (simp add: put_pool_def)
      then show ?thesis using run e True by simp
    next
      case False
      then have v: "buddy_source.backed K M a s' order (insert (b, order) (L \<union> others w (unat c, k))) op" "(b, order) \<notin> L \<union> others w (unat c, k)"
        using b(2) by (auto simp: buddy_source.served_def)
      then have "pool_ok op" by (simp add: buddy_source.backed_def)
      from put_pool_eq [of "w\<lparr>buddy := s'\<rparr>", OF _ pool(1) _ this, of k] obtain w' where
        w': "put_pool c k op (w\<lparr>buddy := s'\<rparr>) = Inr w'" "pools_shape w'" "buddy w' = s'" "content w' = (content w)((unat c, k) := stacked (pool_orders ! k) op)"
        using s k pool(2) by auto
      have "pools_inv K M a w' (insert (b, order) L)"
        by (rule backed_pools_inv [OF i w'(2,4)]) (use v w'(3) k i in \<open>auto simp: pools_inv_def cached_split [of w "(unat c, k)"]\<close>)
      then show ?thesis using run w'(1) False v(2) by auto
    qed
  qed
qed

lemma cpu_pool_free_inv:
  assumes i: "pools_inv K M a w L" and m: "(p, order) \<in> L"
  shows "\<exists>w'. cpu_pool_free c p order w = Inr w' \<and> pools_inv K M a w' (L - {(p, order)})"
proof -
  have s: "pools_shape w" and h: "buddy_holds K M a (buddy w) (L \<union> cached w)" and d: "cached w \<inter> L = {}" using i by (auto simp: pools_inv_def)
  have nz: "p \<noteq> 0" using buddy_source.nonnull [OF h] m by blast
  show ?thesis
  proof (cases rule: pool_route [of c w order])
    case direct
    then have "cpu_pool_free c p order w = buddy_return p order w"
      using pools_rd(2) [OF s, of c] order_idx_eq [of order] nz by (cases "of_nat CPU_POOL_MAX_CPUS \<le> c") (auto simp: cpu_pool_free_def not_le)
    then show ?thesis using buddy_return_inv [OF i m] by simp
  next
    case (pool k)
    note c = pools_rd [OF s pool(1)]
    note k = order_idx_order [OF pool(3)]
    let ?R = "L - {(p, order)} \<union> others w (unat c, k)"
    have e: "insert (p, order) ?R = L \<union> others w (unat c, k)" "(p, order) \<notin> ?R" using m d cached_split [of w "(unat c, k)"] by auto
    have "buddy_source.backed K M a (buddy w) order (insert (p, order) ?R) (the_pool w (unat c) k)"
      unfolding e using pools_inv_backed [OF i c(1), of k] k by simp
    from buddy_source.order_pool_free_backed [OF this e(2)] obtain op s' where
      f: "order_pool_free buddy_free order p (the_pool w (unat c) k) (buddy w) = Inr (op, s')" "buddy_source.backed K M a s' order ?R op" by blast
    have "pool_ok op" using f(2) by (simp add: buddy_source.backed_def)
    from put_pool_eq [of "w\<lparr>buddy := s'\<rparr>", OF _ pool(1) _ this, of k] obtain w' where
      w': "put_pool c k op (w\<lparr>buddy := s'\<rparr>) = Inr w'" "pools_shape w'" "buddy w' = s'" "content w' = (content w)((unat c, k) := stacked (pool_orders ! k) op)"
      using s k pool(2) by auto
    have "pools_inv K M a w' (L - {(p, order)})"
      by (rule backed_pools_inv [OF i w'(2,4)]) (use f(2) w'(3) k d cached_split [of w "(unat c, k)"] in auto)
    moreover have "cpu_pool_free c p order w = Inr w'" using pool nz f(1) c(2) c(3) [of k] k w'(1) by (auto simp: cpu_pool_free_def)
    ultimately show ?thesis by blast
  qed
qed

lemma cpu_pool_init_inv:
  assumes i: "pools_inv K M a w L" and u: "c < of_nat CPU_POOL_MAX_CPUS \<longrightarrow> pinitialized (cpu_pools w ! unat c) = 0"
  shows "\<exists>w'. cpu_pool_init c w = Inr w' \<and> pools_inv K M a w' L \<and> buddy w' = buddy w \<and> cached w' = cached w"
proof (cases "c < of_nat CPU_POOL_MAX_CPUS")
  case False
  then have "of_nat CPU_POOL_MAX_CPUS \<le> c" by (simp add: not_less)
  then show ?thesis using i by (simp add: cpu_pool_init_def)
next
  case True
  have s: "pools_shape w" using i by (simp add: pools_inv_def)
  note c = pools_rd [OF s True]
  let ?p = "cpu_pools w ! unat c"
  let ?w = "w\<lparr>cpu_pools := (cpu_pools w)[unat c := ?p\<lparr>porders := map (\<lambda>op. op\<lparr>pcount := 0\<rparr>) (porders ?p), pinitialized := 1\<rparr>]\<rparr>"
  have l: "unat c < length (cpu_pools w)" "length (porders ?p) = 3" using s c(1) by (auto simp: pools_shape_def)
  have z: "pcount (the_pool w (unat c) k) = 0" if "k < 3" for k using s c(1) u True that by (simp add: pools_shape_def)
  have t: "the_pool ?w d k = the_pool w d k" if "k < 3" for d k
    using that l z [OF that] by (cases "d = unat c") (auto simp: nth_list_update)
  have e: "content ?w = content w" using t by (auto simp: content_def fun_eq_iff)
  have "pools_shape ?w" using s l t z c(1) by (auto simp: pools_shape_def nth_list_update)
  then have "pools_inv K M a ?w L" using i unfolding pools_inv_def cached_def e by simp
  moreover have "cpu_pool_init c w = Inr ?w" using True c(2) wr_nat [OF l(1)] by (auto simp: cpu_pool_init_def)
  ultimately show ?thesis using e by (auto simp: cached_def)
qed

subsection \<open>Runs\<close>

text \<open>Pools as the kernel starts with them: empty and not yet initialised, in front of the allocator.\<close>

definition pools_start :: "buddy_allocator \<Rightarrow> pool_world \<Rightarrow> bool" where
  "pools_start a w \<longleftrightarrow> buddy w = a \<and> length (cpu_pools w) = 64 \<and> (\<forall>p \<in> set (cpu_pools w). pinitialized p = 0 \<and> length (porders p) = 3 \<and>
     (\<forall>op \<in> set (porders p). length (pblocks op) = 16 \<and> pcount op = 0))"

text \<open>CPUs initialise their pools once, and allocate and release blocks of the buddy allocator's orders.\<close>

inductive pool_run :: "pool_world \<Rightarrow> pool_world \<Rightarrow> (u64 \<times> nat) set \<Rightarrow> bool" for w0 where
  start: "pool_run w0 w0 {}"
| inits: "pool_run w0 w L \<Longrightarrow> c < of_nat CPU_POOL_MAX_CPUS \<longrightarrow> pinitialized (cpu_pools w ! unat c) = 0 \<Longrightarrow> cpu_pool_init c w = Inr w' \<Longrightarrow> pool_run w0 w' L"
| allocs: "pool_run w0 w L \<Longrightarrow> order_ok order \<Longrightarrow> cpu_pool_alloc c order w = Inr (p, w') \<Longrightarrow>
    pool_run w0 w' (if p = 0 then L else insert (p, order) L)"
| frees: "pool_run w0 w L \<Longrightarrow> (p, order) \<in> L \<Longrightarrow> cpu_pool_free c p order w = Inr w' \<Longrightarrow> pool_run w0 w' (L - {(p, order)})"

lemma start_inv:
  assumes "fresh start sz K M a" "pools_start a w"
  shows "pools_inv K M a w {}"
proof -
  have "c < 64 \<Longrightarrow> k < 3 \<Longrightarrow> the_pool w c k \<in> set (porders (cpu_pools w ! c))" for c k
    using assms(2) by (auto simp: pools_start_def)
  then have z: "c < 64 \<Longrightarrow> k < 3 \<Longrightarrow> pcount (the_pool w c k) = 0 \<and> length (pblocks (the_pool w c k)) = 16" for c k
    using assms(2) unfolding pools_start_def by (metis nth_mem)
  then have "content w x = []" for x by (cases x) (auto simp: content_def stacked_def)
  moreover have "pools_shape w" using assms(2) z by (auto simp: pools_start_def pools_shape_def pool_ok_def)
  moreover have "owned K M a a {}" using assms(1) by (auto simp: owned_def fresh_def cover_def apart_def)
  then have "buddy_holds K M a a {}" by (auto simp: buddy_holds_def)
  ultimately show ?thesis using assms(2) by (auto simp: pools_inv_def cached_def pools_start_def)
qed

lemma run_inv:
  assumes "fresh start sz K M a" "pools_start a w0" "pool_run w0 w L"
  shows "pools_inv K M a w L"
  using assms(3)
proof induction
  case start
  show ?case by (rule start_inv [OF assms(1,2)])
next
  case (inits w L c w')
  then show ?case using cpu_pool_init_inv [OF inits(4,2)] by auto
next
  case (allocs w L order c p w')
  then show ?case using cpu_pool_alloc_inv [OF allocs(4,2), of c] by (auto split: if_splits)
next
  case (frees w L p order c w')
  then show ?case using cpu_pool_free_inv [OF frees(4,2), of c] by auto
qed

text \<open>C33. The per-CPU pools never hand out a block twice: after any sequence of initialisations,
  allocations and releases on any CPUs, the blocks in use and those cached in the pools are different, disjoint, inside the
  memory of the buddy allocator and off its bitmaps; a pool caches at most sixteen blocks; the free memory the allocator
  reports, the blocks in use and the cached ones add up to the initial free memory; and every further allocation and
  release returns.\<close>

theorem pools_safe:
  assumes "buddy_booted a0 start sz hhdm a" "pools_start a w0" "pool_run w0 w L"
  shows "sound_blocks start sz (buddy w) (L \<union> cached w) \<and> cached w \<inter> L = {} \<and> (\<forall>x. distinct (content w x) \<and> length (content w x) \<le> 16) \<and>
    (\<exists>n m. buddy_get_free_memory (buddy w) = Inr (n, buddy w) \<and> buddy_get_free_memory a = Inr (m, a) \<and>
      unat n + (\<Sum>(p, order) \<in> L. 2 ^ order) + (\<Sum>(p, order) \<in> cached w. 2 ^ order) = unat m) \<and>
    (\<forall>c order. order_ok order \<longrightarrow> (\<exists>r. cpu_pool_alloc c order w = Inr r)) \<and>
    (\<forall>c p order. (p, order) \<in> L \<longrightarrow> (\<exists>w'. cpu_pool_free c p order w = Inr w'))"
proof -
  obtain K M where f: "fresh start sz K M a" "geo K M a" "2 ^ M \<le> unat sz" using booted_fresh [OF assms(1)] by blast
  have i: "pools_inv K M a w L" by (rule run_inv [OF f(1) assms(2,3)])
  then have s: "pools_shape w" and d: "cached w \<inter> L = {}" and h: "buddy_holds K M a (buddy w) (L \<union> cached w)" and ds: "\<And>x. distinct (content w x)"
    by (auto simp: pools_inv_def)
  obtain B where B: "owned K M a (buddy w) B" "L \<union> cached w = handle a ` B" using h by (auto simp: buddy_holds_def)
  have len: "length (content w x) \<le> 16" for x
    using s stacked_length by (cases x) (auto simp: content_def pools_shape_def pool_ok_def)
  have "finite (L \<union> cached w)" using B by (simp add: owned_def)
  then have sum: "(\<Sum>(p, order) \<in> L \<union> cached w. 2 ^ order) = (\<Sum>(p, order) \<in> L. 2 ^ order) + (\<Sum>(p, order) \<in> cached w. 2 ^ order :: nat)"
    using d by (intro sum.union_disjoint) auto
  have ok: "buddy_ok K M a" "free_set a = {(M, 0)}" "buddy_ok K M (buddy w)" using f(1) B(1) by (auto simp: fresh_def owned_def)
  obtain n m where n: "buddy_get_free_memory (buddy w) = Inr (n, buddy w)" "unat n = card (cover (free_set (buddy w)))"
    and m: "buddy_get_free_memory a = Inr (m, a)" "unat m = card (cover (free_set a))"
    using buddy_get_free_memory_spec [OF ok(3)] buddy_get_free_memory_spec [OF ok(1)] by blast
  have "unat m = 2 ^ M" using m(2) ok(2) span_card(1) [of "(M, 0)"] by (simp add: cover_def)
  then have cons: "unat n + (\<Sum>(p, order) \<in> L. 2 ^ order) + (\<Sum>(p, order) \<in> cached w. 2 ^ order) = unat m"
    using owned_memory [OF f(2) B(1)] n(2) sum unfolding B(2) by simp
  have al: "\<exists>r. cpu_pool_alloc c order w = Inr r" if "order_ok order" for c order using cpu_pool_alloc_inv [OF i that, of c] by blast
  have fr: "\<exists>w'. cpu_pool_free c p order w = Inr w'" if "(p, order) \<in> L" for c p order using cpu_pool_free_inv [OF i that, of c] by blast
  show ?thesis
    using owned_sound [OF f(1) B f(3)] d ds len n(1) m(1) cons al fr by blast
qed

definition blank_pools :: "buddy_allocator \<Rightarrow> pool_world" where
  "blank_pools a = \<lparr>cpu_pools = replicate 64 \<lparr>porders = replicate 3 \<lparr>pblocks = replicate 16 0, pcount = 0\<rparr>, pinitialized = 0\<rparr>, buddy = a\<rparr>"

lemma blank_pools_start: "pools_start a (blank_pools a)"
  by (simp add: pools_start_def blank_pools_def)

lemma fresh_page:
  assumes "fresh start sz K M a"
  shows "\<exists>p b. buddy_alloc a (push_bit 12 1) = Inr (p, b) \<and> p \<noteq> 0"
proof -
  have ok: "buddy_ok K M a" "free_set a = {(M, 0)}" and g: "geo K M a" using assms by (auto simp: fresh_def buddy_ok_def core_def)
  have M: "order_ok M" "unat (pool_size a) = K * 2 ^ M" "0 < K" using g by (auto simp: geo_def)
  have "(2 :: nat) ^ 12 \<le> 2 ^ M" using M(1) by (intro power_increasing) auto
  also have "\<dots> \<le> unat (pool_size a)" using M(2,3) by simp
  finally have "\<not> push_bit 12 1 > pool_size a" by (simp add: word_less_nat_alt)
  moreover have o: "get_minimum_order 4096 = 12" using order_of_size [of 12] by simp
  ultimately obtain i b where b: "buddy_alloc a (push_bit 12 1) = Inr (addr a 12 i, b)" "grabs K M a (12, i) b"
    using buddy_alloc_spec [OF ok(1), of "push_bit 12 1"] ok(2) M(1) o by auto
  have "addr a 12 i \<noteq> 0" by (rule addr_nonzero [OF g]) (use b(2) in \<open>auto simp: grabs_def\<close>)
  then show ?thesis using b(1) by blast
qed

theorem pools_safe_witness:
  "\<exists>a w p. buddy_booted blank_buddy 0x1000 8192 0 a \<and> pool_run (blank_pools a) w {(p, 12)} \<and> cached w = {} \<and> sound_blocks 0x1000 8192 (buddy w) {(p, 12)}"
proof -
  obtain a where a: "buddy_booted blank_buddy 0x1000 8192 0 a" using one_held by blast
  then obtain K M where f: "fresh 0x1000 8192 K M a" by (rule booted_fresh)
  obtain p b where p: "buddy_alloc a (push_bit 12 1) = Inr (p, b)" "p \<noteq> 0" using fresh_page [OF f] by blast
  let ?w = "(blank_pools a)\<lparr>buddy := b\<rparr>"
  have "rd (cpu_pools (blank_pools a)) (uint (0 :: u32)) = Inr (cpu_pools (blank_pools a) ! 0)" by (simp add: rd_def blank_pools_def)
  then have "cpu_pool_alloc 0 12 (blank_pools a) = Inr (p, ?w)"
    using p by (simp add: cpu_pool_alloc_def buddy_direct_def pool_consts) (simp add: blank_pools_def)
  from pool_run.allocs [OF pool_run.start _ this] have r: "pool_run (blank_pools a) ?w {(p, 12)}" using p(2) by simp
  have "content (blank_pools a) x = []" for x by (cases x) (auto simp: content_def stacked_def blank_pools_def)
  then have c: "cached ?w = {}" by (simp add: cached_def)
  have "sound_blocks 0x1000 8192 (buddy ?w) {(p, 12)}" using pools_safe [OF a blank_pools_start r, THEN conjunct1] c by simp
  then show ?thesis using a r c by blast
qed

end
