(* ===== verification/Chacha.thy ===== *)
theory Chacha
  imports Prelude
begin

text \<open>
  The stream cipher and the random generator (\<open>core/crypto/chacha20.c\<close>, \<open>core/crypto/chacha20_rng.c\<close>).  The C code
  computes on signed integers: right shifts are arithmetic and bytes widen with their sign.  Both
  files share the text of the twenty rounds.
\<close>

subsection \<open>Words\<close>

definition rotl32 :: "i32 \<Rightarrow> nat \<Rightarrow> i32" where
  "rotl32 x n = push_bit n x OR signed_drop_bit (32 - n) x"

definition pack4 :: "i8 list \<Rightarrow> nat \<Rightarrow> i32 res" where
  "pack4 a i =
     bindR (rd a (int i)) (\<lambda>a0. bindR (rd a (int i + 1)) (\<lambda>a1. bindR (rd a (int i + 2)) (\<lambda>a2. bindR (rd a (int i + 3)) (\<lambda>a3.
     Inr (scast a0 OR push_bit 8 (scast a1) OR push_bit 16 (scast a2) OR push_bit 24 (scast a3))))))"

definition unpack4 :: "i32 \<Rightarrow> i8 list \<Rightarrow> i8 list res" where
  "unpack4 src dst =
     bindR (wr dst 0 (ucast src)) (\<lambda>dst. bindR (wr dst 1 (ucast (signed_drop_bit 8 src))) (\<lambda>dst.
     bindR (wr dst 2 (ucast (signed_drop_bit 16 src))) (\<lambda>dst. wr dst 3 (ucast (signed_drop_bit 24 src)))))"

definition magic_constant :: "i8 list" where
  "magic_constant = [101, 120, 112, 97, 110, 100, 32, 51, 50, 45, 98, 121, 116, 101, 32, 107]"

subsection \<open>The rounds\<close>

definition add_to :: "nat \<Rightarrow> nat \<Rightarrow> i32 list \<Rightarrow> i32 list res" where
  "add_to a b x = bindR (rd x (int a)) (\<lambda>u. bindR (rd x (int b)) (\<lambda>v. wr x (int a) (u + v)))"

definition xor_rot :: "nat \<Rightarrow> nat \<Rightarrow> nat \<Rightarrow> i32 list \<Rightarrow> i32 list res" where
  "xor_rot d a n x = bindR (rd x (int d)) (\<lambda>u. bindR (rd x (int a)) (\<lambda>v. wr x (int d) (rotl32 (u XOR v) n)))"

definition quarter :: "nat \<Rightarrow> nat \<Rightarrow> nat \<Rightarrow> nat \<Rightarrow> i32 list \<Rightarrow> i32 list res" where
  "quarter a b c d x =
     bindR (add_to a b x) (\<lambda>x. bindR (xor_rot d a 16 x) (\<lambda>x.
     bindR (add_to c d x) (\<lambda>x. bindR (xor_rot b c 12 x) (\<lambda>x.
     bindR (add_to a b x) (\<lambda>x. bindR (xor_rot d a 8 x) (\<lambda>x.
     bindR (add_to c d x) (\<lambda>x. xor_rot b c 7 x)))))))"

definition double_round :: "i32 list \<Rightarrow> i32 list res" where
  "double_round x =
     bindR (quarter 0 4 8 12 x) (\<lambda>x. bindR (quarter 1 5 9 13 x) (\<lambda>x.
     bindR (quarter 2 6 10 14 x) (\<lambda>x. bindR (quarter 3 7 11 15 x) (\<lambda>x.
     bindR (quarter 0 5 10 15 x) (\<lambda>x. bindR (quarter 1 6 11 12 x) (\<lambda>x.
     bindR (quarter 2 7 8 13 x) (\<lambda>x. quarter 3 4 9 14 x)))))))"

fun rounds :: "nat \<Rightarrow> i32 list \<Rightarrow> i32 list res" where
  "rounds 0 x = Inr x"
| "rounds (Suc n) x = bindR (double_round x) (\<lambda>x. rounds n x)"

fun add_state :: "nat \<Rightarrow> i32 list \<Rightarrow> i32 list \<Rightarrow> i32 list \<Rightarrow> i32 list res" where
  "add_state 0 ks x state = Inr ks"
| "add_state (Suc n) ks x state =
     (let i = 15 - n in
      bindR (rd x (int i)) (\<lambda>u. bindR (rd state (int i)) (\<lambda>v. bindR (wr ks (int i) (u + v)) (\<lambda>ks. add_state n ks x state))))"

text \<open>The keystream as the array of bytes it occupies.\<close>

definition keystream8 :: "i32 list \<Rightarrow> int \<Rightarrow> i8 res" where
  "keystream8 ks p = bindR (rd ks (p div 4)) (\<lambda>w. Inr (ucast (drop_bit (8 * nat (p mod 4)) w)))"

subsection \<open>The cipher\<close>

record chacha20_context =
  keystream32 :: "i32 list"
  position :: i32
  key :: "i8 list"
  nonce :: "i8 list"
  counter :: i32
  cstate :: "i32 list"

fun pack_words :: "nat \<Rightarrow> nat \<Rightarrow> nat \<Rightarrow> i8 list \<Rightarrow> i32 list \<Rightarrow> i32 list res" where
  "pack_words 0 j i src st = Inr st"
| "pack_words (Suc n) j i src st = bindR (pack4 src i) (\<lambda>w. bindR (wr st (int j) w) (\<lambda>st. pack_words n (Suc j) (i + 4) src st))"

definition chacha20_init_block :: "chacha20_context \<Rightarrow> i8 list \<Rightarrow> i8 list \<Rightarrow> chacha20_context res" where
  "chacha20_init_block ctx k n =
     bindR (copy_loop (key ctx) k 0 32) (\<lambda>ck. bindR (copy_loop (nonce ctx) n 0 12) (\<lambda>cn.
     bindR (pack_words 4 0 0 magic_constant (cstate ctx)) (\<lambda>st.
     bindR (pack_words 8 4 0 k st) (\<lambda>st. bindR (wr st 12 0) (\<lambda>st. bindR (pack_words 3 13 0 n st) (\<lambda>st.
     Inr (ctx\<lparr>key := ck, nonce := cn, cstate := st\<rparr>)))))))"

definition chacha20_block_set_counter :: "chacha20_context \<Rightarrow> i32 \<Rightarrow> chacha20_context res" where
  "chacha20_block_set_counter ctx c =
     bindR (wr (cstate ctx) 12 c) (\<lambda>st. bindR (pack4 (nonce ctx) 0) (\<lambda>w. bindR (wr st 13 w) (\<lambda>st. Inr (ctx\<lparr>cstate := st\<rparr>))))"

definition chacha20_block_next :: "chacha20_context \<Rightarrow> chacha20_context res" where
  "chacha20_block_next ctx =
     bindR (copy_loop (replicate 16 0) (cstate ctx) 0 16) (\<lambda>x.
     bindR (rounds 10 x) (\<lambda>x.
     bindR (add_state 16 (keystream32 ctx) x (cstate ctx)) (\<lambda>ks.
     bindR (rd (cstate ctx) 12) (\<lambda>c0.
     bindR (wr (cstate ctx) 12 (c0 + 1)) (\<lambda>st.
     bindR (if c0 + 1 = 0 then bindR (rd st 13) (\<lambda>c1. wr st 13 (c1 + 1)) else Inr st) (\<lambda>st.
     Inr (ctx\<lparr>keystream32 := ks, cstate := st\<rparr>)))))))"

definition zeroed :: "chacha20_context \<Rightarrow> chacha20_context" where
  "zeroed ctx = \<lparr>keystream32 = map (\<lambda>_. 0) (keystream32 ctx), position = 0, key = map (\<lambda>_. 0) (key ctx), nonce = map (\<lambda>_. 0) (nonce ctx),
     counter = 0, cstate = map (\<lambda>_. 0) (cstate ctx)\<rparr>"

definition chacha20_init_context :: "chacha20_context \<Rightarrow> i8 list \<Rightarrow> i8 list \<Rightarrow> i32 \<Rightarrow> chacha20_context res" where
  "chacha20_init_context ctx k n c =
     bindR (chacha20_init_block (zeroed ctx) k n) (\<lambda>ctx.
     bindR (chacha20_block_set_counter ctx c) (\<lambda>ctx. Inr (ctx\<lparr>counter := c, position := 64\<rparr>)))"

text \<open>One byte of the keystream, with a new block when the last is used up.\<close>

definition cipher_byte :: "chacha20_context \<Rightarrow> (i8 \<times> chacha20_context) res" where
  "cipher_byte ctx =
     bindR (if 64 \<le> sint (position ctx) then bindR (chacha20_block_next ctx) (\<lambda>ctx. Inr (ctx\<lparr>position := 0\<rparr>)) else Inr ctx) (\<lambda>ctx.
     bindR (keystream8 (keystream32 ctx) (sint (position ctx))) (\<lambda>b. Inr (b, ctx\<lparr>position := position ctx + 1\<rparr>)))"

fun byte_loop :: "('c \<Rightarrow> (i8 \<times> 'c) res) \<Rightarrow> (i8 \<Rightarrow> i8 \<Rightarrow> i8) \<Rightarrow> nat \<Rightarrow> nat \<Rightarrow> i8 list \<Rightarrow> 'c \<Rightarrow> (i8 list \<times> 'c) res" where
  "byte_loop fetch f 0 i bs c = Inr (bs, c)"
| "byte_loop fetch f (Suc n) i bs c =
     bindR (fetch c) (\<lambda>(k, c). bindR (rd bs (int i)) (\<lambda>b. bindR (wr bs (int i) (f b k)) (\<lambda>bs. byte_loop fetch f n (Suc i) bs c)))"

definition chacha20_xor :: "chacha20_context \<Rightarrow> i8 list \<Rightarrow> i32 \<Rightarrow> (i8 list \<times> chacha20_context) res" where
  "chacha20_xor ctx bs n = byte_loop cipher_byte (\<lambda>b k. b XOR k) (nat (sint n)) 0 bs ctx"

subsection \<open>The random generator\<close>

record chacha20_rng =
  rkey :: "i8 list"
  rnonce :: "i8 list"
  rstate :: "i32 list"
  rkeystream32 :: "i32 list"
  rcounter :: u64
  rposition :: i32

definition rng_init_block :: "chacha20_rng \<Rightarrow> i8 list \<Rightarrow> i8 list \<Rightarrow> chacha20_rng res" where
  "rng_init_block rng k n =
     bindR (copy_loop (rkey rng) k 0 32) (\<lambda>ck. bindR (copy_loop (rnonce rng) n 0 12) (\<lambda>cn.
     bindR (pack_words 4 0 0 magic_constant (rstate rng)) (\<lambda>st.
     bindR (pack_words 8 4 0 k st) (\<lambda>st. bindR (wr st 12 0) (\<lambda>st. bindR (pack_words 3 13 0 n st) (\<lambda>st.
     Inr (rng\<lparr>rkey := ck, rnonce := cn, rstate := st\<rparr>)))))))"

definition rng_block_set_counter :: "chacha20_rng \<Rightarrow> u64 \<Rightarrow> chacha20_rng res" where
  "rng_block_set_counter rng c =
     bindR (wr (rstate rng) 12 (ucast c)) (\<lambda>st. bindR (pack4 (rnonce rng) 0) (\<lambda>w.
     bindR (wr st 13 (w + ucast (drop_bit 32 c))) (\<lambda>st. Inr (rng\<lparr>rstate := st\<rparr>))))"

definition rng_counter :: "i32 \<Rightarrow> i32 \<Rightarrow> u64" where
  "rng_counter s12 s13 = push_bit 32 (scast s13) OR ucast s12"

definition rng_block_next :: "chacha20_rng \<Rightarrow> chacha20_rng res" where
  "rng_block_next rng =
     bindR (copy_loop (replicate 16 0) (rstate rng) 0 16) (\<lambda>x.
     bindR (rounds 10 x) (\<lambda>x.
     bindR (add_state 16 (rkeystream32 rng) x (rstate rng)) (\<lambda>ks.
     bindR (rd (rstate rng) 13) (\<lambda>s13. bindR (rd (rstate rng) 12) (\<lambda>s12.
     let c = rng_counter s12 s13 + 1 in
     bindR (wr (rstate rng) 12 (ucast c)) (\<lambda>st. bindR (wr st 13 (ucast (drop_bit 32 c))) (\<lambda>st.
     Inr (rng\<lparr>rkeystream32 := ks, rstate := st\<rparr>))))))))"

definition rng_zeroed :: "chacha20_rng \<Rightarrow> chacha20_rng" where
  "rng_zeroed rng = \<lparr>rkey = map (\<lambda>_. 0) (rkey rng), rnonce = map (\<lambda>_. 0) (rnonce rng), rstate = map (\<lambda>_. 0) (rstate rng),
     rkeystream32 = map (\<lambda>_. 0) (rkeystream32 rng), rcounter = 0, rposition = 0\<rparr>"

definition seed_byte :: "u64 \<Rightarrow> nat \<Rightarrow> i8" where
  "seed_byte seed i = ucast (drop_bit (i mod 8 * 8) seed)"

definition chacha20_rng_init :: "chacha20_rng \<Rightarrow> u64 \<Rightarrow> chacha20_rng res" where
  "chacha20_rng_init rng seed =
     (let k = map (seed_byte seed) [0..<32]; n = map (\<lambda>i. seed_byte seed i XOR 0xAA) [0..<12] in
      bindR (rng_init_block (rng_zeroed rng) k n) (\<lambda>rng.
      bindR (rng_block_set_counter rng 0) (\<lambda>rng. Inr (rng\<lparr>rcounter := 0, rposition := 64\<rparr>))))"

definition rng_refresh :: "chacha20_rng \<Rightarrow> chacha20_rng res" where
  "rng_refresh rng =
     (if 64 \<le> sint (rposition rng) then bindR (rng_block_next rng) (\<lambda>rng. Inr (rng\<lparr>rposition := 0\<rparr>)) else Inr rng)"

definition chacha20_rng_next32 :: "chacha20_rng \<Rightarrow> (i32 \<times> chacha20_rng) res" where
  "chacha20_rng_next32 rng =
     bindR (rng_refresh rng) (\<lambda>rng.
     bindR (rd (rkeystream32 rng) (sint (rposition rng) sdiv 4)) (\<lambda>w. Inr (w, rng\<lparr>rposition := rposition rng + 4\<rparr>)))"

definition chacha20_rng_next64 :: "chacha20_rng \<Rightarrow> (u64 \<times> chacha20_rng) res" where
  "chacha20_rng_next64 rng =
     bindR (chacha20_rng_next32 rng) (\<lambda>(high, rng). bindR (chacha20_rng_next32 rng) (\<lambda>(low, rng).
     Inr (push_bit 32 (ucast high) OR ucast low, rng)))"

definition rng_byte :: "chacha20_rng \<Rightarrow> (i8 \<times> chacha20_rng) res" where
  "rng_byte rng =
     bindR (rng_refresh rng) (\<lambda>rng.
     bindR (keystream8 (rkeystream32 rng) (sint (rposition rng))) (\<lambda>b. Inr (b, rng\<lparr>rposition := rposition rng + 1\<rparr>)))"

fun fill_loop :: "('c \<Rightarrow> (i8 \<times> 'c) res) \<Rightarrow> nat \<Rightarrow> nat \<Rightarrow> i8 list \<Rightarrow> 'c \<Rightarrow> (i8 list \<times> 'c) res" where
  "fill_loop fetch 0 i bs c = Inr (bs, c)"
| "fill_loop fetch (Suc n) i bs c = bindR (fetch c) (\<lambda>(k, c). bindR (wr bs (int i) k) (\<lambda>bs. fill_loop fetch n (Suc i) bs c))"

definition chacha20_rng_bytes :: "chacha20_rng \<Rightarrow> i8 list \<Rightarrow> i32 \<Rightarrow> (i8 list \<times> chacha20_rng) res" where
  "chacha20_rng_bytes rng buffer n = fill_loop rng_byte (nat (sint n)) 0 buffer rng"

subsection \<open>The rounds never leave the arrays\<close>

lemma length16_wp: "length x = 16 \<Longrightarrow> a < 16 \<Longrightarrow> b < 16 \<Longrightarrow> \<exists>y. add_to a b x = Inr y \<and> length y = 16"
  "length x = 16 \<Longrightarrow> a < 16 \<Longrightarrow> b < 16 \<Longrightarrow> \<exists>y. xor_rot a b n x = Inr y \<and> length y = 16"
  by (simp_all add: add_to_def xor_rot_def rd_nat wr_nat)

lemma bindR_total: "\<exists>y. m = Inr y \<and> P y \<Longrightarrow> (\<And>y. P y \<Longrightarrow> \<exists>z. f y = Inr z \<and> Q z) \<Longrightarrow> \<exists>z. bindR m f = Inr z \<and> Q z"
  by auto

lemma quarter_total:
  assumes "a < 16" "b < 16" "c < 16" "d < 16" "length x = 16"
  shows "\<exists>y. quarter a b c d x = Inr y \<and> length y = 16"
  unfolding quarter_def by (intro bindR_total [where P = "\<lambda>y. length y = 16"] length16_wp assms; assumption?)

lemma double_round_total: "length x = 16 \<Longrightarrow> \<exists>y. double_round x = Inr y \<and> length y = 16"
  unfolding double_round_def by (intro bindR_total [where P = "\<lambda>y. length y = 16"] quarter_total) (assumption | simp)+

lemma rounds_total: "length x = 16 \<Longrightarrow> \<exists>y. rounds n x = Inr y \<and> length y = 16"
proof (induction n arbitrary: x)
  case (Suc n)
  then show ?case unfolding rounds.simps by (intro bindR_total [where P = "\<lambda>y. length y = 16"] double_round_total)
qed simp

lemma add_state_total:
  "n \<le> 16 \<Longrightarrow> length ks = 16 \<Longrightarrow> length x = 16 \<Longrightarrow> length st = 16 \<Longrightarrow> \<exists>y. add_state n ks x st = Inr y \<and> length y = 16"
proof (induction n arbitrary: ks)
  case (Suc n)
  then show ?case by (simp add: Let_def rd_ok wr_ok)
qed simp

lemma pack4_eq:
  "i + 4 \<le> length a \<Longrightarrow> pack4 a i =
     Inr (scast (a ! i) OR push_bit 8 (scast (a ! (i + 1))) OR push_bit 16 (scast (a ! (i + 2))) OR push_bit 24 (scast (a ! (i + 3))))"
  by (simp add: pack4_def rd_ok nat_add_distrib)

lemma block_total:
  assumes "length st = 16" "length ks = 16"
  shows "\<exists>x ks'. copy_loop (replicate 16 0) st 0 16 = Inr st \<and> rounds 10 st = Inr x \<and> add_state 16 ks x st = Inr ks' \<and> length ks' = 16"
proof -
  have "copy_loop (replicate 16 0) st 0 16 = Inr st" using copy_loop_eq [of 0 16 st "replicate 16 0"] assms(1) by simp
  then show ?thesis using rounds_total [OF assms(1), of 10] add_state_total [of 16 ks _ st] assms by fastforce
qed

subsection \<open>The block function\<close>

text \<open>
  The block function of ChaCha20 as a function on sixteen words: a quarter round on four words, applied to
  the columns and to the diagonals of the four by four matrix, ten times, and the input added at the end.
  The rotation is that of the code.
\<close>

definition quarter_words :: "i32 \<times> i32 \<times> i32 \<times> i32 \<Rightarrow> i32 \<times> i32 \<times> i32 \<times> i32" where
  "quarter_words = (\<lambda>(a, b, c, d).
     let a1 = a + b; d1 = rotl32 (d XOR a1) 16; c1 = c + d1; b1 = rotl32 (b XOR c1) 12;
         a2 = a1 + b1; d2 = rotl32 (d1 XOR a2) 8; c2 = c1 + d2; b2 = rotl32 (b1 XOR c2) 7
     in (a2, b2, c2, d2))"

definition at_words :: "nat \<times> nat \<times> nat \<times> nat \<Rightarrow> i32 list \<Rightarrow> i32 list" where
  "at_words = (\<lambda>(i, j, k, l) xs. case quarter_words (xs ! i, xs ! j, xs ! k, xs ! l) of
     (a, b, c, d) \<Rightarrow> xs[i := a, j := b, k := c, l := d])"

definition double_words :: "i32 list \<Rightarrow> i32 list" where
  "double_words xs = fold (\<lambda>i. at_words (i, 4 + (i + 1) mod 4, 8 + (i + 2) mod 4, 12 + (i + 3) mod 4)) [0, 1, 2, 3]
     (fold (\<lambda>i. at_words (i, 4 + i, 8 + i, 12 + i)) [0, 1, 2, 3] xs)"

definition block_words :: "i32 list \<Rightarrow> i32 list" where
  "block_words xs = map2 (+) ((double_words ^^ 10) xs) xs"

text \<open>
  The block number \<open>b\<close> that follows a state, whose words 12 and 13 are one 64-bit counter, and byte \<open>m\<close> of
  the keystream.
\<close>

definition state_at :: "i32 list \<Rightarrow> nat \<Rightarrow> i32 list" where
  "state_at st b = (let c = rng_counter (st ! 12) (st ! 13) + of_nat b in st[12 := ucast c, 13 := ucast (drop_bit 32 c)])"

definition key_byte :: "i32 list \<Rightarrow> nat \<Rightarrow> i8" where
  "key_byte st m = ucast (drop_bit (8 * (m mod 4)) (block_words (state_at st (m div 64)) ! (m mod 64 div 4)))"

text \<open>The state for a key, a nonce and a counter.\<close>

definition word_at :: "i8 list \<Rightarrow> nat \<Rightarrow> i32" where
  "word_at a i = scast (a ! i) OR push_bit 8 (scast (a ! (i + 1))) OR push_bit 16 (scast (a ! (i + 2))) OR push_bit 24 (scast (a ! (i + 3)))"

definition initial_state :: "i8 list \<Rightarrow> i8 list \<Rightarrow> i32 \<Rightarrow> i32 list" where
  "initial_state k n c = map (\<lambda>i. word_at magic_constant (4 * i)) [0..<4] @ map (\<lambda>i. word_at k (4 * i)) [0..<8] @
     c # map (\<lambda>i. word_at n (4 * i)) [0..<3]"

text \<open>The loops over the array compute the block function.\<close>

lemma at_words_length [simp]: "length (at_words q xs) = length xs"
  by (cases q) (auto simp: at_words_def split: prod.split)

lemma quarter_eq:
  assumes "distinct [a, b, c, d]" "a < 16" "b < 16" "c < 16" "d < 16" "length x = 16"
  shows "quarter a b c d x = Inr (at_words (a, b, c, d) x)"
proof -
  have "quarter a b c d x = Inr y \<Longrightarrow> y = at_words (a, b, c, d) x" for y
    using assms unfolding quarter_def add_to_def xor_rot_def at_words_def quarter_words_def
    by (intro nth_equalityI) (auto simp: rd_nat wr_nat Let_def nth_list_update)
  then show ?thesis using quarter_total [OF assms(2-6)] by blast
qed

lemma double_round_eq: "length x = 16 \<Longrightarrow> double_round x = Inr (double_words x)"
  unfolding double_round_def double_words_def by (simp add: quarter_eq)

lemma double_words_length [simp]: "length (double_words x) = length x"
  by (simp add: double_words_def)

lemma rounds_eq: "length x = 16 \<Longrightarrow> rounds n x = Inr ((double_words ^^ n) x)"
  by (induction n arbitrary: x) (simp_all add: double_round_eq funpow_swap1)

lemma add_state_eq:
  "n \<le> 16 \<Longrightarrow> length ks = 16 \<Longrightarrow> length x = 16 \<Longrightarrow> length st = 16 \<Longrightarrow>
   add_state n ks x st = Inr (take (16 - n) ks @ map2 (+) (drop (16 - n) x) (drop (16 - n) st))"
proof (induction n arbitrary: ks)
  case (Suc n)
  let ?i = "15 - n"
  have i: "?i < 16" "Suc ?i = 16 - n" "16 - Suc n = ?i" using Suc.prems(1) by auto
  have d: "drop ?i x = x ! ?i # drop (16 - n) x" "drop ?i st = st ! ?i # drop (16 - n) st"
    using Cons_nth_drop_Suc [of ?i x] Cons_nth_drop_Suc [of ?i st] i Suc.prems by simp_all
  have "take (16 - n) (ks[?i := x ! ?i + st ! ?i]) = take ?i ks @ [x ! ?i + st ! ?i]"
    using i Suc.prems(2) take_Suc_conv_app_nth [of ?i "ks[?i := x ! ?i + st ! ?i]"] by simp
  moreover have "add_state (Suc n) ks x st = add_state n (ks[?i := x ! ?i + st ! ?i]) x st"
    using rd_nat [of ?i x] rd_nat [of ?i st] wr_nat [of ?i ks] i Suc.prems by (simp add: Let_def del: of_nat_diff)
  ultimately show ?case using Suc i d by (simp del: add_state.simps)
qed simp

lemma block_words_eq:
  assumes "length st = 16" "length ks = 16"
  shows "copy_loop (replicate 16 0) st 0 16 = Inr st" "rounds 10 st = Inr ((double_words ^^ 10) st)"
    "add_state 16 ks ((double_words ^^ 10) st) st = Inr (block_words st)"
proof -
  have "length ((double_words ^^ n) st) = 16" for n by (induction n) (simp_all add: assms)
  then show "add_state 16 ks ((double_words ^^ 10) st) st = Inr (block_words st)"
    using add_state_eq [of 16 ks "(double_words ^^ 10) st" st] assms by (simp add: block_words_def)
qed (use copy_loop_eq [of 0 16 st "replicate 16 0"] rounds_eq [OF assms(1)] assms in simp_all)


lemma counter_split: "rng_counter (ucast c) (ucast (drop_bit 32 c)) = c" for c :: u64
  by (intro bit_word_eqI) (auto simp: rng_counter_def bit_simps not_less)

lemma counter_halves: "ucast (rng_counter s12 s13) = s12" "ucast (drop_bit 32 (rng_counter s12 s13)) = s13"
proof -
  have "\<not> bit s12 (32 + n)" for n using bit_imp_le_length [of s12 "32 + n"] by auto
  then show "ucast (rng_counter s12 s13) = s12" "ucast (drop_bit 32 (rng_counter s12 s13)) = s13"
    by (auto intro!: bit_word_eqI simp: rng_counter_def bit_simps)
qed

lemma state_at_length [simp]: "length (state_at st b) = length st"
  by (simp add: state_at_def Let_def)

lemma state_at_0 [simp]: "state_at st 0 = st"
  by (simp add: state_at_def Let_def counter_halves)

lemma state_at_counter:
  assumes "length st = 16"
  shows "rng_counter (state_at st b ! 12) (state_at st b ! 13) = rng_counter (st ! 12) (st ! 13) + of_nat b"
  using assms by (simp add: state_at_def Let_def counter_split)

lemma state_at_Suc:
  assumes "length st = 16"
  shows "state_at st (Suc b) = (state_at st b)[12 := ucast (rng_counter (state_at st b ! 12) (state_at st b ! 13) + 1),
     13 := ucast (drop_bit 32 (rng_counter (state_at st b ! 12) (state_at st b ! 13) + 1))]"
  unfolding state_at_counter [OF assms]
  by (simp add: state_at_def Let_def add.assoc add.commute [of 1] list_update_swap [of 12 13])

text \<open>The carry of the cipher's counter is that of a 64-bit number.\<close>

lemma unat_counter: "unat (rng_counter s12 s13) = unat s13 * 2 ^ 32 + unat s12"
proof -
  have "push_bit 32 (scast s13) OR ucast s12 = push_bit 32 (ucast s13 :: u64) OR ucast s12" for s13 s12 :: i32
    by (auto intro!: bit_word_eqI simp: bit_simps)
  moreover have "push_bit 32 (ucast s13 :: u64) OR ucast s12 = push_bit 32 (ucast s13) + ucast s12" for s13 s12 :: i32
    by (intro disjunctive_add [symmetric]) (auto simp: bit_simps dest: bit_imp_le_length)
  ultimately have e: "rng_counter s12 s13 = push_bit 32 (ucast s13) + ucast s12" by (simp add: rng_counter_def)
  have s: "unat s13 < 2 ^ 32" "unat s12 < 2 ^ 32" using unsigned_less [of s13] unsigned_less [of s12] by simp_all
  then show ?thesis unfolding e by (simp add: unat_word_ariths push_bit_eq_mult unat_ucast_up)
qed

lemma counter_carry:
  fixes s12 s13 :: i32
  defines "c \<equiv> rng_counter s12 s13 + 1"
  shows "ucast c = s12 + 1" "ucast (drop_bit 32 c) = (if s12 + 1 = 0 then s13 + 1 else s13)"
proof -
  define a b where "a = unat s12" and "b = unat s13"
  have s: "a < 2 ^ 32" "b < 2 ^ 32" using unsigned_less [of s13] unsigned_less [of s12] by (simp_all add: a_def b_def)
  have c: "unat c = (b * 2 ^ 32 + a + 1) mod 2 ^ 64" by (simp add: c_def unat_word_ariths unat_counter a_def b_def)
  show "ucast c = s12 + 1"
    using s by (simp add: word_unat_eq_iff unsigned_ucast_eq c unat_word_ariths take_bit_eq_mod flip: a_def)  (simp add: mod_mod_cancel)
  have z: "s12 + 1 = 0 \<longleftrightarrow> a = 2 ^ 32 - 1"
    using s(1) by (auto simp: word_unat_eq_iff unat_word_ariths mod_if simp flip: a_def)
  have "unat c div 2 ^ 32 mod 2 ^ 32 = (if a = 2 ^ 32 - 1 then (b + 1) mod 2 ^ 32 else b)"
    using s unfolding c by (auto simp: mod_if)
  then show "ucast (drop_bit 32 c) = (if s12 + 1 = 0 then s13 + 1 else s13)"
    unfolding z by (simp add: word_unat_eq_iff unsigned_ucast_eq unat_drop_bit_eq drop_bit_eq_div take_bit_eq_mod unat_word_ariths mod_mod_cancel flip: b_def)
qed

lemma rd_word: "length ks = 16 \<Longrightarrow> 0 \<le> p \<Longrightarrow> p < 64 \<Longrightarrow> rd ks (p div 4) = Inr (ks ! nat (p div 4))"
  by (simp add: rd_ok)

lemma key_byte_eq:
  assumes "0 \<le> p" "p < 64"
  shows "length (block_words (state_at st b)) = 16 \<Longrightarrow> keystream8 (block_words (state_at st b)) p = Inr (key_byte st (64 * b + nat p))"
proof -
  have m: "(64 * b + nat p) div 64 = b" "(64 * b + nat p) mod 64 = nat p" using assms by simp_all
  have "(64 * b + q) mod 4 = q mod 4" for q by presburger
  then have "(64 * b + nat p) mod 4 = nat p mod 4" .
  moreover have "nat (p div 4) = nat p div 4" "nat (p mod 4) = nat p mod 4" using assms by (simp_all add: nat_div_distrib nat_mod_distrib)
  moreover assume "length (block_words (state_at st b)) = 16"
  ultimately show ?thesis using assms rd_word [of "block_words (state_at st b)" p] by (simp add: keystream8_def key_byte_def m del: mod_mult_self4)
qed

lemma block_words_length: "length (block_words st) = length st"
proof -
  have "length ((double_words ^^ n) st) = length st" for n by (induction n) simp_all
  then show ?thesis by (simp add: block_words_def)
qed

lemma pack_words_eq:
  "i + 4 * n \<le> length src \<Longrightarrow> j + n \<le> length st \<Longrightarrow>
   pack_words n j i src st = Inr (take j st @ map (\<lambda>q. word_at src (i + 4 * q)) [0..<n] @ drop (j + n) st)"
proof (induction n arbitrary: i j st)
  case (Suc n)
  let ?w = "word_at src i"
  have w: "pack4 src i = Inr ?w" using pack4_eq [of i src] Suc(2) by (simp add: word_at_def)
  have j: "j < length st" using Suc(3) by simp
  have "pack_words (Suc n) j i src st = pack_words n (Suc j) (i + 4) src (st[j := ?w])" using w j by (simp add: wr_nat)
  also have "\<dots> = Inr (take (Suc j) (st[j := ?w]) @ map (\<lambda>q. word_at src (i + 4 + 4 * q)) [0..<n] @ drop (Suc j + n) (st[j := ?w]))"
    using Suc(2,3) by (intro Suc(1)) simp_all
  also have "take (Suc j) (st[j := ?w]) = take j st @ [?w]" using j by (simp add: take_Suc_conv_app_nth)
  also have "drop (Suc j + n) (st[j := ?w]) = drop (j + Suc n) st" by simp
  also have "(take j st @ [?w]) @ map (\<lambda>q. word_at src (i + 4 + 4 * q)) [0..<n] @ drop (j + Suc n) st =
      take j st @ map (\<lambda>q. word_at src (i + 4 * q)) [0..<Suc n] @ drop (j + Suc n) st"
    by (simp add: upt_conv_Cons map_Suc_upt [symmetric] add.assoc del: upt_Suc)
  finally show ?case .
qed simp

subsection \<open>Keystreams\<close>

text \<open>
  A source of key bytes that never fails.  The loops that encrypt and that fill a buffer consume it one
  byte at a time; \<open>draw\<close> is what they consume.
\<close>

locale keystream =
  fixes ok :: "'c \<Rightarrow> bool" and fetch :: "'c \<Rightarrow> (i8 \<times> 'c) res"
  assumes fetch_ok: "ok c \<Longrightarrow> \<exists>k c'. fetch c = Inr (k, c') \<and> ok c'"
begin

fun draw :: "nat \<Rightarrow> 'c \<Rightarrow> i8 list \<times> 'c" where
  "draw 0 c = ([], c)"
| "draw (Suc n) c = (case fetch c of Inr (k, c') \<Rightarrow> (let (ks, c'') = draw n c' in (k # ks, c'')) | Inl e \<Rightarrow> ([], c))"

lemma draw_length: "ok c \<Longrightarrow> length (fst (draw n c)) = n \<and> ok (snd (draw n c))"
proof (induction n arbitrary: c)
  case (Suc n)
  obtain k c' where "fetch c = Inr (k, c')" "ok c'" using fetch_ok [OF Suc(2)] by blast
  then show ?case using Suc(1) [of c'] by (simp add: case_prod_beta Let_def)
qed simp

lemma draw_add: "ok c \<Longrightarrow> draw (m + n) c = (let (ks, c') = draw m c; (ks', c'') = draw n c' in (ks @ ks', c''))"
proof (induction m arbitrary: c)
  case (Suc m)
  obtain k c' where "fetch c = Inr (k, c')" "ok c'" using fetch_ok [OF Suc(2)] by blast
  then show ?case using Suc(1) [of c'] by (simp add: case_prod_beta Let_def)
qed (simp add: case_prod_beta)

lemma byte_loop_eq:
  "ok c \<Longrightarrow> i + n \<le> length bs \<Longrightarrow>
   byte_loop fetch f n i bs c = Inr (take i bs @ map2 f (take n (drop i bs)) (fst (draw n c)) @ drop (i + n) bs, snd (draw n c))"
proof (induction n arbitrary: i bs c)
  case (Suc n)
  obtain k c' where k: "fetch c = Inr (k, c')" "ok c'" using fetch_ok [OF Suc(2)] by blast
  let ?bs = "bs[i := f (bs ! i) k]"
  have i: "i < length bs" using Suc(3) by simp
  have "byte_loop fetch f (Suc n) i bs c = byte_loop fetch f n (Suc i) ?bs c'" using k(1) i by (simp add: rd_nat wr_nat)
  also have "\<dots> = Inr (take (Suc i) ?bs @ map2 f (take n (drop (Suc i) ?bs)) (fst (draw n c')) @ drop (Suc i + n) ?bs, snd (draw n c'))"
    by (rule Suc(1) [OF k(2)]) (use Suc(3) in simp)
  also have "take (Suc i) ?bs = take i bs @ [f (bs ! i) k]" using i by (simp add: take_Suc_conv_app_nth)
  also have "drop (Suc i) ?bs = drop (Suc i) bs" by simp
  also have "drop (Suc i + n) ?bs = drop (Suc i + n) bs" by simp
  finally show ?case using k(1) Cons_nth_drop_Suc [OF i, symmetric] by (simp add: case_prod_beta Let_def)
qed simp

end

text \<open>A source whose bytes are known: at offset \<open>m\<close> it delivers \<open>byte m\<close> and moves on.\<close>

locale byte_stream =
  fixes reached :: "nat \<Rightarrow> 'c \<Rightarrow> bool" and byte :: "nat \<Rightarrow> i8" and fetch :: "'c \<Rightarrow> (i8 \<times> 'c) res"
  assumes fetch_at: "reached m c \<Longrightarrow> \<exists>c'. fetch c = Inr (byte m, c') \<and> reached (Suc m) c'"

sublocale byte_stream \<subseteq> keystream "\<lambda>c. \<exists>m. reached m c" fetch
  by unfold_locales (use fetch_at in blast)

context byte_stream
begin

lemma draw_at: "reached m c \<Longrightarrow> \<exists>c'. draw n c = (map byte [m..<m + n], c') \<and> reached (m + n) c'"
proof (induction n arbitrary: m c)
  case (Suc n)
  obtain c' where c': "fetch c = Inr (byte m, c')" "reached (Suc m) c'" using fetch_at [OF Suc(2)] by blast
  obtain c'' where "draw n c' = (map byte [Suc m..<Suc m + n], c'')" "reached (Suc m + n) c''" using Suc(1) [OF c'(2)] by blast
  then show ?case using c'(1) by (simp add: upt_conv_Cons del: upt_Suc)
qed simp

lemma loop_at:
  assumes "reached m c" "n \<le> length bs"
  shows "byte_loop fetch f n 0 bs c = Inr (map2 f (take n bs) (map byte [m..<m + n]) @ drop n bs, snd (draw n c))"
    and "reached (m + n) (snd (draw n c))"
proof -
  obtain c' where "draw n c = (map byte [m..<m + n], c')" "reached (m + n) c'" using draw_at [OF assms(1)] by blast
  moreover have "\<exists>m. reached m c" using assms(1) by blast
  ultimately show "byte_loop fetch f n 0 bs c = Inr (map2 f (take n bs) (map byte [m..<m + n]) @ drop n bs, snd (draw n c))"
    and "reached (m + n) (snd (draw n c))"
    using byte_loop_eq [of c 0 n bs f] assms(2) by simp_all
qed

end

lemma fill_loop_eq: "fill_loop fetch n i bs c = byte_loop fetch (\<lambda>_ k. k) n i bs c"
proof (induction n arbitrary: i bs c)
  case (Suc n)
  show ?case
  proof (cases "fetch c")
    case (Inr r)
    obtain k c' where r: "r = (k, c')" by (cases r)
    then show ?thesis using Suc Inr by (cases "i < length bs") (simp_all add: rd_def wr_def)
  qed simp
qed simp

definition rng_ok :: "chacha20_rng \<Rightarrow> bool" where
  "rng_ok rng \<longleftrightarrow> length (rkeystream32 rng) = 16 \<and> length (rstate rng) = 16 \<and> 0 \<le> sint (rposition rng) \<and> sint (rposition rng) \<le> 67"

lemma keystream8_total: "length ks = 16 \<Longrightarrow> 0 \<le> p \<Longrightarrow> p < 64 \<Longrightarrow> \<exists>b. keystream8 ks p = Inr b"
  by (simp add: keystream8_def rd_ok)

lemma sint_plus_small: "0 \<le> sint p \<Longrightarrow> sint p \<le> 100 \<Longrightarrow> 0 \<le> k \<Longrightarrow> k \<le> 100 \<Longrightarrow> sint (p + word_of_int k) = sint p + k" for p :: i32
proof -
  assume a: "0 \<le> sint p" "sint p \<le> 100" "0 \<le> k" "k \<le> 100"
  have "p + word_of_int k = word_of_int (sint p + k)" by (simp add: wi_hom_add [symmetric])
  then show ?thesis using sint_of_int_small [of "sint p + k"] a by simp
qed

text \<open>
  Offset \<open>m\<close> of the stream that starts with the state \<open>st\<close>: \<open>b\<close> blocks have been produced, the last of them is in
  the buffer and its bytes from \<open>p\<close> on are unused.
\<close>

definition stream_at :: "i32 list \<Rightarrow> nat \<Rightarrow> i32 list \<Rightarrow> i32 list \<Rightarrow> int \<Rightarrow> bool" where
  "stream_at st m ks cs p \<longleftrightarrow> length st = 16 \<and> length ks = 16 \<and> 0 \<le> p \<and> p \<le> 64 \<and>
     (\<exists>b. cs = state_at st b \<and> m + 64 = 64 * b + nat p \<and> (0 < b \<longrightarrow> ks = block_words (state_at st (b - 1))))"

lemma stream_refill:
  assumes "stream_at st m ks cs p" "64 \<le> p"
  obtains b where "length cs = 16" "length ks = 16" "cs = state_at st b" "stream_at st m (block_words cs) (state_at st (Suc b)) 0"
proof -
  obtain b where b: "length st = 16" "length ks = 16" "p = 64" "cs = state_at st b" "m + 64 = 64 * b + nat p"
    using assms unfolding stream_at_def by force
  then have "stream_at st m (block_words cs) (state_at st (Suc b)) 0"
    by (auto simp: stream_at_def block_words_length intro!: exI [of _ "Suc b"])
  with b that show ?thesis by simp
qed

lemma stream_next:
  assumes "stream_at st m ks cs p" "p < 64"
  shows "keystream8 ks p = Inr (key_byte st m)" "stream_at st (Suc m) ks cs (p + 1)"
proof -
  obtain b where a: "length st = 16" "length ks = 16" "0 \<le> p" "cs = state_at st b" "m + 64 = 64 * b + nat p"
      "0 < b \<Longrightarrow> ks = block_words (state_at st (b - 1))"
    using assms(1) unfolding stream_at_def by blast
  have b: "0 < b" using a(3,5) assms(2) by (cases b) auto
  then have m: "m = 64 * (b - 1) + nat p" using a(5) by (cases b) auto
  show "keystream8 ks p = Inr (key_byte st m)"
    using key_byte_eq [OF a(3) assms(2), of st "b - 1"] a(1) a(6) [OF b] m by (simp add: block_words_length)
  show "stream_at st (Suc m) ks cs (p + 1)"
    using a assms(2) by (auto simp: stream_at_def intro!: exI [of _ b])
qed

lemma block_next_eq:
  assumes "length (keystream32 ctx) = 16" "length (cstate ctx) = 16"
  shows "chacha20_block_next ctx = Inr (ctx\<lparr>keystream32 := block_words (cstate ctx), cstate := state_at (cstate ctx) 1\<rparr>)"
proof -
  let ?s = "cstate ctx"
  note e = block_words_eq [OF assms(2,1)]
  have "state_at ?s 1 = (if ?s ! 12 + 1 = 0 then ?s[12 := ?s ! 12 + 1, 13 := ?s ! 13 + 1] else ?s[12 := ?s ! 12 + 1])"
    using state_at_Suc [OF assms(2), of 0] list_update_id [of "?s[12 := ?s ! 12 + 1]" 13] by (simp add: counter_carry)
  with e assms(2) show ?thesis by (simp add: chacha20_block_next_def rd_ok wr_ok)
qed

lemma state_at_add: "length st = 16 \<Longrightarrow> state_at (state_at st b) 1 = state_at st (Suc b)"
  using state_at_Suc [of "state_at st b" 0] state_at_Suc [of st b] by simp

definition cipher_at :: "i32 list \<Rightarrow> nat \<Rightarrow> chacha20_context \<Rightarrow> bool" where
  "cipher_at st m ctx \<longleftrightarrow> stream_at st m (keystream32 ctx) (cstate ctx) (sint (position ctx))"

lemma stream_length: "stream_at st m ks cs p \<Longrightarrow> length st = 16"
  by (simp add: stream_at_def)

interpretation cipher: byte_stream "cipher_at st" "key_byte st" cipher_byte for st
proof
  fix m ctx assume "cipher_at st m ctx"
  then have s: "stream_at st m (keystream32 ctx) (cstate ctx) (sint (position ctx))" by (simp add: cipher_at_def)
  define fresh where "fresh = (if 64 \<le> sint (position ctx) then bindR (chacha20_block_next ctx) (\<lambda>ctx. Inr (ctx\<lparr>position := 0\<rparr>)) else Inr ctx)"
  obtain c where c: "fresh = Inr c" "stream_at st m (keystream32 c) (cstate c) (sint (position c))" "sint (position c) < 64"
  proof (cases "64 \<le> sint (position ctx)")
    case True
    obtain b where b: "length (cstate ctx) = 16" "length (keystream32 ctx) = 16" "cstate ctx = state_at st b"
        "stream_at st m (block_words (cstate ctx)) (state_at st (Suc b)) 0"
      using stream_refill [OF s True] by blast
    then show ?thesis
      using that [of "ctx\<lparr>keystream32 := block_words (cstate ctx), cstate := state_at st (Suc b), position := 0\<rparr>"] True
        block_next_eq [OF b(2,1)] state_at_add [OF stream_length [OF s], of b] by (simp add: fresh_def)
  qed (use that s in \<open>simp add: fresh_def\<close>)
  have "0 \<le> sint (position c)" using c(2) by (simp add: stream_at_def)
  then have "sint (position c + 1) = sint (position c) + 1" using sint_plus_small [of "position c" 1] c(3) by simp
  then show "\<exists>c'. cipher_byte ctx = Inr (key_byte st m, c') \<and> cipher_at st (Suc m) c'"
    using c(1) stream_next [OF c(2,3)] by (simp add: cipher_byte_def fresh_def [symmetric] cipher_at_def)
qed

lemma rng_block_next_total:
  assumes "length (rkeystream32 rng) = 16" "length (rstate rng) = 16"
  shows "\<exists>rng'. rng_block_next rng = Inr rng' \<and> length (rkeystream32 rng') = 16 \<and> length (rstate rng') = 16"
  using block_total [OF assms(2,1)] assms by (auto simp: rng_block_next_def rd_ok wr_ok Let_def)

lemma rng_refresh_total:
  assumes "rng_ok rng"
  shows "\<exists>r. rng_refresh rng = Inr r \<and> rng_ok r \<and> sint (rposition r) < 64 \<and> (sint (rposition rng) mod 4 = 0 \<longrightarrow> sint (rposition r) mod 4 = 0)"
  using assms rng_block_next_total [of rng] by (auto simp: rng_refresh_def rng_ok_def)

lemma rng_refresh_again: "sint (rposition r) < 64 \<Longrightarrow> rng_refresh r = Inr r"
  by (simp add: rng_refresh_def)

interpretation generator: keystream rng_ok rng_byte
proof
  fix rng assume ok: "rng_ok rng"
  obtain r where r: "rng_refresh rng = Inr r" "rng_ok r" "sint (rposition r) < 64" using rng_refresh_total [OF ok] by blast
  obtain b where "keystream8 (rkeystream32 r) (sint (rposition r)) = Inr b"
    using keystream8_total [of "rkeystream32 r"] r(2,3) by (auto simp: rng_ok_def)
  then have "rng_byte rng = Inr (b, r\<lparr>rposition := rposition r + 1\<rparr>)" using r(1) by (simp add: rng_byte_def)
  moreover have "sint (rposition r + 1) = sint (rposition r) + 1" using sint_plus_small [of "rposition r" 1] r(2,3) by (simp add: rng_ok_def)
  then have "rng_ok (r\<lparr>rposition := rposition r + 1\<rparr>)" using r(2,3) by (simp add: rng_ok_def)
  ultimately show "\<exists>k c'. rng_byte rng = Inr (k, c') \<and> rng_ok c'" by blast
qed

lemma rng_block_next_eq:
  assumes "length (rkeystream32 rng) = 16" "length (rstate rng) = 16"
  shows "rng_block_next rng = Inr (rng\<lparr>rkeystream32 := block_words (rstate rng), rstate := state_at (rstate rng) 1\<rparr>)"
  using block_words_eq [OF assms(2,1)] assms by (simp add: rng_block_next_def rd_ok wr_ok Let_def state_at_def)

definition rng_at :: "i32 list \<Rightarrow> nat \<Rightarrow> chacha20_rng \<Rightarrow> bool" where
  "rng_at st m rng \<longleftrightarrow> stream_at st m (rkeystream32 rng) (rstate rng) (sint (rposition rng))"

interpretation seeded: byte_stream "rng_at st" "key_byte st" rng_byte for st
proof
  fix m rng assume "rng_at st m rng"
  then have s: "stream_at st m (rkeystream32 rng) (rstate rng) (sint (rposition rng))" by (simp add: rng_at_def)
  obtain c where c: "rng_refresh rng = Inr c" "stream_at st m (rkeystream32 c) (rstate c) (sint (rposition c))" "sint (rposition c) < 64"
  proof (cases "64 \<le> sint (rposition rng)")
    case True
    obtain b where b: "length (rstate rng) = 16" "length (rkeystream32 rng) = 16" "rstate rng = state_at st b"
        "stream_at st m (block_words (rstate rng)) (state_at st (Suc b)) 0"
      using stream_refill [OF s True] by blast
    then show ?thesis
      using that [of "rng\<lparr>rkeystream32 := block_words (rstate rng), rstate := state_at st (Suc b), rposition := 0\<rparr>"] True
        rng_block_next_eq [OF b(2,1)] state_at_add [OF stream_length [OF s], of b] by (simp add: rng_refresh_def)
  qed (use that s in \<open>simp add: rng_refresh_def\<close>)
  have "0 \<le> sint (rposition c)" using c(2) by (simp add: stream_at_def)
  then have "sint (rposition c + 1) = sint (rposition c) + 1" using sint_plus_small [of "rposition c" 1] c(3) by simp
  then show "\<exists>c'. rng_byte rng = Inr (key_byte st m, c') \<and> rng_at st (Suc m) c'"
    using c(1) stream_next [OF c(2,3)] by (simp add: rng_byte_def rng_at_def)
qed

lemma sdiv4: "0 \<le> p \<Longrightarrow> p sdiv 4 = p div (4 :: int)"
  by (auto simp: signed_divide_int_def sgn_if)

lemma next32_total:
  assumes "rng_ok rng"
  shows "\<exists>w rng'. chacha20_rng_next32 rng = Inr (w, rng') \<and> rng_ok rng' \<and> (sint (rposition rng) mod 4 = 0 \<longrightarrow> sint (rposition rng') mod 4 = 0)"
proof -
  obtain r where r: "rng_refresh rng = Inr r" "rng_ok r" "sint (rposition r) < 64" "sint (rposition rng) mod 4 = 0 \<longrightarrow> sint (rposition r) mod 4 = 0"
    using rng_refresh_total [OF assms] by (elim exE conjE)
  have p: "sint (rposition r + 4) = sint (rposition r) + 4" using sint_plus_small [of "rposition r" 4] r(2,3) by (simp add: rng_ok_def)
  have "sint (rposition r) sdiv 4 = sint (rposition r) div 4" using r(2) by (intro sdiv4) (simp add: rng_ok_def)
  then have "rd (rkeystream32 r) (sint (rposition r) sdiv 4) = Inr (rkeystream32 r ! nat (sint (rposition r) div 4))"
    using r(2,3) rd_word [of "rkeystream32 r" "sint (rposition r)"] by (simp add: rng_ok_def)
  then have "chacha20_rng_next32 rng = Inr (rkeystream32 r ! nat (sint (rposition r) div 4), r\<lparr>rposition := rposition r + 4\<rparr>)"
    using r(1) by (simp add: chacha20_rng_next32_def)
  moreover have "rng_ok (r\<lparr>rposition := rposition r + 4\<rparr>)" using r(2,3) p by (simp add: rng_ok_def)
  moreover have "sint (rposition rng) mod 4 = 0 \<longrightarrow> sint (rposition r + 4) mod 4 = 0" using r(4) p by simp
  ultimately show ?thesis by simp
qed

text \<open>At a word boundary four bytes are the bytes of the next word.\<close>

lemma next32_bytes:
  assumes "rng_ok rng" "sint (rposition rng) mod 4 = 0" "chacha20_rng_next32 rng = Inr (w, rng')"
  shows "generator.draw 4 rng = ([ucast w, ucast (drop_bit 8 w), ucast (drop_bit 16 w), ucast (drop_bit 24 w)], rng')"
proof -
  obtain r where r: "rng_refresh rng = Inr r" "rng_ok r" "sint (rposition r) < 64" "sint (rposition r) mod 4 = 0"
    using rng_refresh_total [OF assms(1)] assms(2) by (elim exE conjE) simp
  let ?p = "sint (rposition r)"
  have b: "0 \<le> ?p" "length (rkeystream32 r) = 16" using r(2) by (auto simp: rng_ok_def)
  have sd: "?p sdiv 4 = ?p div 4" by (rule sdiv4 [OF b(1)])
  have w: "w = rkeystream32 r ! nat (?p div 4)" "rng' = r\<lparr>rposition := rposition r + 4\<rparr>"
    using assms(3) r(1,3) b sd by (auto simp: chacha20_rng_next32_def rd_ok)
  have pk: "sint (rposition r + word_of_int k) = ?p + k" if "0 \<le> k" "k \<le> 4" for k using sint_plus_small [of "rposition r" k] r(3) b(1) that by simp
  have ks: "keystream8 (rkeystream32 r) (?p + k) = Inr (ucast (drop_bit (8 * nat k) w))" if "0 \<le> k" "k < 4" for k
  proof -
    have "(?p + k) div 4 = ?p div 4" "(?p + k) mod 4 = k" using r(4) that by presburger+
    then show ?thesis using b r(3) w(1) by (simp add: keystream8_def rd_ok)
  qed
  have st: "rng_byte (r\<lparr>rposition := rposition r + word_of_int k\<rparr>) = Inr (ucast (drop_bit (8 * nat k) w), r\<lparr>rposition := rposition r + word_of_int (k + 1)\<rparr>)"
    if "0 \<le> k" "k < 4" for k
  proof -
    have lt: "?p + k < 64" using r(3,4) that by presburger
    then have "rng_refresh (r\<lparr>rposition := rposition r + word_of_int k\<rparr>) = Inr (r\<lparr>rposition := rposition r + word_of_int k\<rparr>)"
      using pk [of k] that by (intro rng_refresh_again) simp
    then show ?thesis using ks [OF that] pk [of k] that by (simp add: rng_byte_def add.assoc wi_hom_add [symmetric])
  qed
  have s0: "rng_byte rng = Inr (ucast w, r\<lparr>rposition := rposition r + 1\<rparr>)"
    using r(1) ks [of 0] by (simp add: rng_byte_def)
  show ?thesis using s0 st [of 1] st [of 2] st [of 3] w(2)
    by (simp add: eval_nat_numeral Let_def)
qed

subsection \<open>Where the code departs from the cipher\<close>

text \<open>The cipher rotates and packs unsigned words.\<close>

lemma rotl32_bit:
  assumes "0 < n" "n < 32" "i < 32"
  shows "bit (rotl32 x n) i \<longleftrightarrow> (if i < n then bit x (32 + i - n) else bit x (i - n) \<or> bit x 31)"
  using assms by (auto simp: rotl32_def bit_simps not_less)

lemma word_rotl_bit:
  fixes x :: u32
  assumes "0 < n" "n < 32" "i < 32"
  shows "bit (word_rotl n x) i \<longleftrightarrow> (if i < n then bit x (32 + i - n) else bit x (i - n))"
proof -
  have "(i + (32 - n)) mod 32 = (if i < n then 32 + i - n else i - n)"
  proof (cases "i < n")
    case True
    then have "i + (32 - n) = 32 + i - n" "32 + i - n < 32" using assms by auto
    then show ?thesis using True by simp
  next
    case False
    then have "i + (32 - n) = 32 + (i - n)" "i - n < 32" using assms by auto
    then show ?thesis using False by (metis mod_add_self1 mod_less)
  qed
  then show ?thesis using assms by (simp add: bit_word_rotl_iff)
qed

lemma rotl32_exact:
  assumes "0 < n" "n < 32"
  shows "rotl32 x n = word_rotl n x \<longleftrightarrow> (bit x 31 \<longrightarrow> (\<forall>j < 32 - n. bit x j))"
proof
  assume e: "rotl32 x n = word_rotl n x"
  show "bit x 31 \<longrightarrow> (\<forall>j < 32 - n. bit x j)"
  proof (intro impI allI)
    fix j assume "bit x 31" "j < 32 - n"
    then have "bit (rotl32 x n) (j + n)" using rotl32_bit [OF assms, of "j + n"] by auto
    then show "bit x j" unfolding e using word_rotl_bit [OF assms, of "j + n"] \<open>j < 32 - n\<close> by auto
  qed
next
  assume "bit x 31 \<longrightarrow> (\<forall>j < 32 - n. bit x j)"
  then show "rotl32 x n = word_rotl n x"
    by (intro bit_word_eqI) (auto simp: rotl32_bit [OF assms] word_rotl_bit [OF assms])
qed

definition le_word :: "i8 list \<Rightarrow> nat \<Rightarrow> u32" where
  "le_word a i = ucast (a ! i) OR push_bit 8 (ucast (a ! (i + 1))) OR push_bit 16 (ucast (a ! (i + 2))) OR push_bit 24 (ucast (a ! (i + 3)))"

lemma le_word_bit:
  "n < 32 \<Longrightarrow> bit (le_word a i) n = (if n < 8 then bit (a ! i) n else if n < 16 then bit (a ! (i + 1)) (n - 8)
     else if n < 24 then bit (a ! (i + 2)) (n - 16) else bit (a ! (i + 3)) (n - 24))"
  by (auto simp: le_word_def bit_simps dest: bit_imp_le_length)

lemma byte_of_word:
  fixes n :: nat
  assumes "n < 32"
  obtains m where "n = m" "m < 8" | m where "n = m + 8" "m < 8" | m where "n = m + 16" "m < 8" | m where "n = m + 24" "m < 8"
proof -
  consider "n < 8" | "8 \<le> n" "n < 16" | "16 \<le> n" "n < 24" | "24 \<le> n" by linarith
  then show ?thesis using that(1) [of n] that(2) [of "n - 8"] that(3) [of "n - 16"] that(4) [of "n - 24"] assms by cases auto
qed

lemma scast_bit: "bit (scast b :: i32) m \<longleftrightarrow> m < 32 \<and> bit b (if m < 8 then m else 7)" for b :: i8
  by (auto simp: bit_simps min_def le_less split: if_splits)

lemma pack4_bit:
  assumes "i + 4 \<le> length a" "pack4 a i = Inr w" "n < 32"
  shows "bit w n = (if n < 8 then bit (a ! i) n else if n < 16 then bit (a ! i) 7 \<or> bit (a ! (i + 1)) (n - 8)
     else if n < 24 then bit (a ! i) 7 \<or> bit (a ! (i + 1)) 7 \<or> bit (a ! (i + 2)) (n - 16)
     else bit (a ! i) 7 \<or> bit (a ! (i + 1)) 7 \<or> bit (a ! (i + 2)) 7 \<or> bit (a ! (i + 3)) (n - 24))"
proof -
  have w: "w = scast (a ! i) OR push_bit 8 (scast (a ! (i + 1))) OR push_bit 16 (scast (a ! (i + 2))) OR push_bit 24 (scast (a ! (i + 3)))"
    using assms(2) pack4_eq [OF assms(1)] by simp
  show ?thesis by (cases rule: byte_of_word [OF assms(3)]) (simp_all add: w bit_or_iff bit_push_bit_iff scast_bit)
qed

text \<open>Bytes that widen like unsigned ones: a negative byte is followed only by bytes of all ones.\<close>

lemma pack4_exact:
  assumes "i + 4 \<le> length a"
  shows "pack4 a i = Inr (le_word a i) \<longleftrightarrow>
    (bit (a ! i) 7 \<longrightarrow> a ! (i + 1) = - 1) \<and> (bit (a ! i) 7 \<or> bit (a ! (i + 1)) 7 \<longrightarrow> a ! (i + 2) = - 1) \<and>
    (bit (a ! i) 7 \<or> bit (a ! (i + 1)) 7 \<or> bit (a ! (i + 2)) 7 \<longrightarrow> a ! (i + 3) = - 1)"
proof -
  obtain w where w: "pack4 a i = Inr w" using pack4_eq [OF assms] by blast
  note b = pack4_bit [OF assms w]
  have all: "c = - 1 \<longleftrightarrow> (\<forall>j < 8. bit c j)" for c :: i8 by (auto intro: bit_word_eqI)
  have "w = le_word a i \<longleftrightarrow> (\<forall>n < 32. bit w n = bit (le_word a i) n)" by (auto intro: bit_word_eqI)
  also have "\<dots> \<longleftrightarrow> (\<forall>j < 8. (bit (a ! i) 7 \<longrightarrow> bit (a ! (i + 1)) j) \<and> (bit (a ! i) 7 \<or> bit (a ! (i + 1)) 7 \<longrightarrow> bit (a ! (i + 2)) j) \<and>
      (bit (a ! i) 7 \<or> bit (a ! (i + 1)) 7 \<or> bit (a ! (i + 2)) 7 \<longrightarrow> bit (a ! (i + 3)) j))" (is "?l \<longleftrightarrow> ?r")
  proof
    assume l: ?l
    show ?r
    proof (intro allI impI)
      fix j :: nat assume j: "j < 8"
      show "(bit (a ! i) 7 \<longrightarrow> bit (a ! (i + 1)) j) \<and> (bit (a ! i) 7 \<or> bit (a ! (i + 1)) 7 \<longrightarrow> bit (a ! (i + 2)) j) \<and>
        (bit (a ! i) 7 \<or> bit (a ! (i + 1)) 7 \<or> bit (a ! (i + 2)) 7 \<longrightarrow> bit (a ! (i + 3)) j)"
        using j l [rule_format, of "j + 8"] l [rule_format, of "j + 16"] l [rule_format, of "j + 24"]
        by (simp add: b le_word_bit) blast
    qed
  next
    assume r: ?r
    show ?l
    proof (intro allI impI)
      fix n :: nat assume n: "n < 32"
      show "bit w n = bit (le_word a i) n" using r by (cases rule: byte_of_word [OF n]) (auto simp: b le_word_bit)
    qed
  qed
  finally show ?thesis unfolding w all by auto
qed

subsection \<open>Properties\<close>

definition context_shape :: "chacha20_context \<Rightarrow> bool" where
  "context_shape ctx \<longleftrightarrow> length (keystream32 ctx) = 16 \<and> length (cstate ctx) = 16 \<and> length (key ctx) = 32 \<and> length (nonce ctx) = 12"

lemma init_state:
  assumes "length st = 16" "32 \<le> length k" "12 \<le> length n"
  shows "bindR (pack_words 4 0 0 magic_constant st) (\<lambda>st. bindR (pack_words 8 4 0 k st) (\<lambda>st. bindR (wr st 12 0) (\<lambda>st. pack_words 3 13 0 n st)))
    = Inr (initial_state k n 0)"
proof -
  let ?s = "map (\<lambda>i. word_at magic_constant (4 * i)) [0..<4]" and ?k = "map (\<lambda>i. word_at k (4 * i)) [0..<8]"
  have 1: "pack_words 4 0 0 magic_constant st = Inr (?s @ drop 4 st)"
    using pack_words_eq [of 0 4 magic_constant 0 st] assms(1) by (simp add: magic_constant_def)
  have 2: "pack_words 8 4 0 k (?s @ drop 4 st) = Inr (?s @ ?k @ drop 12 st)"
    using pack_words_eq [of 0 8 k 4 "?s @ drop 4 st"] assms(1,2) by simp
  have "drop 12 st = st ! 12 # drop 13 st" using Cons_nth_drop_Suc [of 12 st] assms(1) by simp
  then have d: "(drop 12 st)[0 := 0] = 0 # drop 13 st" by simp
  have 3: "wr (?s @ ?k @ drop 12 st) 12 0 = Inr (?s @ ?k @ 0 # drop 13 st)"
    using wr_nat [of 12 "?s @ ?k @ drop 12 st" 0] assms(1) d by (simp add: list_update_append)
  have 4: "pack_words 3 13 0 n (?s @ ?k @ 0 # drop 13 st) = Inr (initial_state k n 0)"
    using pack_words_eq [of 0 3 n 13 "?s @ ?k @ 0 # drop 13 st"] assms(1,3) by (simp add: initial_state_def)
  show ?thesis by (simp only: 1 2 3 4 bindR.simps)
qed

lemma initial_state_sel: "length (initial_state k n c) = 16" "initial_state k n c ! 13 = word_at n 0"
  "(initial_state k n d)[12 := c] = initial_state k n c"
  by (simp_all add: initial_state_def nth_append list_update_append)

lemma init_context_at:
  assumes "context_shape ctx" "32 \<le> length k" "12 \<le> length n"
  shows "\<exists>ctx'. chacha20_init_context ctx k n c = Inr ctx' \<and> cipher_at (initial_state k n c) 0 ctx'"
proof -
  let ?z = "zeroed ctx"
  have z: "length (keystream32 ?z) = 16" "length (cstate ?z) = 16" "length (key ?z) = 32" "length (nonce ?z) = 12"
    using assms(1) by (simp_all add: zeroed_def context_shape_def)
  have c: "copy_loop (key ?z) k 0 32 = Inr (take 32 k)" "copy_loop (nonce ?z) n 0 12 = Inr (take 12 n)"
    using copy_loop_eq [of 0 32 k "key ?z"] copy_loop_eq [of 0 12 n "nonce ?z"] assms(2,3) z by simp_all
  have "chacha20_init_block ?z k n = bindR (bindR (pack_words 4 0 0 magic_constant (cstate ?z)) (\<lambda>st.
      bindR (pack_words 8 4 0 k st) (\<lambda>st. bindR (wr st 12 0) (\<lambda>st. pack_words 3 13 0 n st))))
      (\<lambda>st. Inr (?z\<lparr>key := take 32 k, nonce := take 12 n, cstate := st\<rparr>))"
    using c by (simp add: chacha20_init_block_def bindR_assoc)
  then have i: "chacha20_init_block ?z k n = Inr (?z\<lparr>key := take 32 k, nonce := take 12 n, cstate := initial_state k n 0\<rparr>)"
    unfolding init_state [OF z(2) assms(2,3)] by simp
  have p: "pack4 (take 12 n) 0 = Inr (word_at n 0)" using pack4_eq [of 0 "take 12 n"] assms(3) by (simp add: word_at_def)
  have "(initial_state k n c)[13 := word_at n 0] = initial_state k n c"
    using list_update_id [of "initial_state k n c" 13] by (simp add: initial_state_sel(2))
  then have "chacha20_init_context ctx k n c = Inr (?z\<lparr>key := take 32 k, nonce := take 12 n, cstate := initial_state k n c, counter := c, position := 64\<rparr>)"
    using i p by (simp add: chacha20_init_context_def chacha20_block_set_counter_def wr_ok initial_state_sel)
  then show ?thesis using z(1) by (simp add: cipher_at_def stream_at_def initial_state_sel(1))
qed

text \<open>A message with its first bytes combined with the keystream from \<open>i\<close> on.\<close>

definition encrypted :: "i32 list \<Rightarrow> nat \<Rightarrow> nat \<Rightarrow> i8 list \<Rightarrow> i8 list" where
  "encrypted st i n bs = map2 (\<lambda>b k. b XOR k) (take n bs) (map (key_byte st) [i..<i + n]) @ drop n bs"

lemma encrypted_twice:
  assumes "n \<le> length bs"
  shows "encrypted st i n (encrypted st i n bs) = bs" "length (encrypted st i n bs) = length bs"
proof -
  have inv: "map2 (\<lambda>b k. b XOR k) (map2 (\<lambda>b k. b XOR k) xs ys) ys = xs" if "length xs = length ys" for xs ys :: "i8 list"
    using that by (induction rule: list_induct2) (simp_all add: xor.assoc)
  show "encrypted st i n (encrypted st i n bs) = bs"
    using assms inv [of "take n bs" "map (key_byte st) [i..<i + n]"] by (simp add: encrypted_def)
qed (use assms in \<open>simp add: encrypted_def\<close>)

lemma xor_at:
  assumes "cipher_at st m ctx" "nat (sint n) \<le> length bs"
  shows "chacha20_xor ctx bs n = Inr (encrypted st m (nat (sint n)) bs, snd (cipher.draw (nat (sint n)) ctx))"
    and "cipher_at st (m + nat (sint n)) (snd (cipher.draw (nat (sint n)) ctx))"
  using cipher.loop_at [OF assms] by (simp_all add: chacha20_xor_def encrypted_def)

text \<open>C34. The cipher encrypts with the keystream of ChaCha20, taken with the rotation and the load of four bytes that the code
  uses: from a freshly initialised context the first call combines its message byte by byte with the bytes of the
  blocks number 0, 1, 2 and so on, computed by the block function from key, nonce and counter; the next call goes on in the keystream where the
  first ended; and encrypting the result again from the initial context restores the message.  No access leaves an array.
  The block number is added to a 64-bit counter in the words 12 and 13, of which the cipher uses word 13 for the nonce.\<close>

theorem chacha_stream:
  assumes "context_shape ctx0" "32 \<le> length k" "12 \<le> length iv" "nat (sint n) \<le> length bs" "nat (sint m) \<le> length cs"
  shows "\<exists>ctx ctx' ctx''. let st = initial_state k iv c; l = nat (sint n) in chacha20_init_context ctx0 k iv c = Inr ctx \<and>
    chacha20_xor ctx bs n = Inr (encrypted st 0 l bs, ctx') \<and>
    chacha20_xor ctx' cs m = Inr (encrypted st l (nat (sint m)) cs, ctx'') \<and>
    chacha20_xor ctx (encrypted st 0 l bs) n = Inr (bs, ctx')"
proof -
  let ?st = "initial_state k iv c" and ?l = "nat (sint n)"
  obtain ctx where i: "chacha20_init_context ctx0 k iv c = Inr ctx" "cipher_at ?st 0 ctx" using init_context_at [OF assms(1-3)] by blast
  note x = xor_at [OF i(2) assms(4)]
  have y: "cipher_at ?st ?l (snd (cipher.draw ?l ctx))" using x(2) by simp
  note e = encrypted_twice [OF assms(4), of ?st 0]
  have "chacha20_xor ctx (encrypted ?st 0 ?l bs) n = Inr (bs, snd (cipher.draw ?l ctx))"
    using xor_at(1) [OF i(2), of n "encrypted ?st 0 ?l bs"] e assms(4) by simp
  with i(1) x(1) xor_at(1) [OF y assms(5)] show ?thesis by (auto simp: Let_def)
qed

definition blank_context :: chacha20_context where
  "blank_context = \<lparr>keystream32 = replicate 16 0, position = 0, key = replicate 32 0, nonce = replicate 12 0, counter = 0, cstate = replicate 16 0\<rparr>"

theorem chacha_stream_witness:
  "\<exists>ctx ctx' ctx''. chacha20_init_context blank_context (replicate 32 7) (replicate 12 9) 1 = Inr ctx \<and>
     chacha20_xor ctx [1, 2, 3, 4] 3 = Inr (encrypted (initial_state (replicate 32 7) (replicate 12 9) 1) 0 3 [1, 2, 3, 4], ctx') \<and>
     chacha20_xor ctx' [5, 6] 2 = Inr (encrypted (initial_state (replicate 32 7) (replicate 12 9) 1) 3 2 [5, 6], ctx'')"
proof -
  have s: "context_shape blank_context" by (simp add: context_shape_def blank_context_def)
  have k: "32 \<le> length (replicate 32 (7 :: i8))" "12 \<le> length (replicate 12 (9 :: i8))" by simp_all
  have l: "nat (sint (3 :: i32)) \<le> length [1, 2, 3, 4 :: i8]" "nat (sint (2 :: i32)) \<le> length [5, 6 :: i8]" by simp_all
  show ?thesis using chacha_stream [OF s k l, of 1] by (auto simp: Let_def)
qed

text \<open>C36. Where the code departs from ChaCha20.  Its rotation is the rotation of the cipher exactly when the word is
  nonnegative or all its bits below the rotated ones are set, because the right shift copies the sign.  Its
  little-endian load of four bytes is exact only when a byte from 128 on is followed by bytes of all ones, because bytes widen with their sign.\<close>

theorem chacha_deviates:
  assumes "0 < n" "n < 32" "i + 4 \<le> length a"
  shows "(rotl32 x n = word_rotl n x \<longleftrightarrow> 0 \<le> sint x \<or> (\<forall>j < 32 - n. bit x j)) \<and>
    (pack4 a i = Inr (le32 (a ! i) (a ! (i + 1)) (a ! (i + 2)) (a ! (i + 3))) \<longleftrightarrow>
      (0 \<le> sint (a ! i) \<or> a ! (i + 1) = 255 \<and> a ! (i + 2) = 255 \<and> a ! (i + 3) = 255) \<and>
      (0 \<le> sint (a ! (i + 1)) \<or> a ! (i + 2) = 255 \<and> a ! (i + 3) = 255) \<and> (0 \<le> sint (a ! (i + 2)) \<or> a ! (i + 3) = 255))"
proof -
  have m1: "- 1 = (255 :: i8)" by simp
  have le: "le_word a i = le32 (a ! i) (a ! (i + 1)) (a ! (i + 2)) (a ! (i + 3))"
    by (simp add: le_word_def le32_def be32_def or.assoc or.commute or.left_commute)
  have s: "0 \<le> sint x \<longleftrightarrow> \<not> bit x 31" for x :: i32 using bit_last_iff [of x] by (auto simp: not_less)
  have s8: "0 \<le> sint x \<longleftrightarrow> \<not> bit x 7" for x :: i8 using bit_last_iff [of x] by (auto simp: not_less)
  show ?thesis unfolding rotl32_exact [OF assms(1,2)] pack4_exact [OF assms(3)] le [symmetric] s s8 m1 by auto
qed

theorem chacha_deviates_witness:
  "rotl32 0x80000001 16 \<noteq> word_rotl 16 0x80000001 \<and> rotl32 0x12345678 16 = word_rotl 16 0x12345678 \<and>
   pack4 [1, 2, 3, 4] 0 = Inr (le32 1 2 3 4) \<and> pack4 [128, 0, 0, 0] 0 \<noteq> Inr (le32 128 0 0 0)"
proof -
  have 1: "\<not> (\<forall>j < 32 - 16. bit (0x80000001 :: i32) j)" by (auto intro!: exI [of _ 1])
  have 2: "sint (0x80000001 :: i32) < 0" "0 \<le> sint (0x12345678 :: i32)" "sint (128 :: i8) < 0" by simp_all
  show ?thesis using chacha_deviates [of 16 0 "[1, 2, 3, 4]" "0x12345678"] chacha_deviates [of 16 0 "[128, 0, 0, 0]" "0x80000001"] 1 2
    by (auto simp: not_le)
qed

definition rng_shape :: "chacha20_rng \<Rightarrow> bool" where
  "rng_shape rng \<longleftrightarrow> length (rkey rng) = 32 \<and> length (rnonce rng) = 12 \<and> length (rstate rng) = 16 \<and> length (rkeystream32 rng) = 16"

text \<open>The key and the nonce a seed is spread over.\<close>

definition seed_key :: "u64 \<Rightarrow> i8 list" where
  "seed_key seed = map (seed_byte seed) [0..<32]"

definition seed_nonce :: "u64 \<Rightarrow> i8 list" where
  "seed_nonce seed = map (\<lambda>i. seed_byte seed i XOR 0xAA) [0..<12]"

lemma rng_init_at:
  assumes "rng_shape rng"
  shows "\<exists>r. chacha20_rng_init rng seed = Inr r \<and> rng_at (initial_state (seed_key seed) (seed_nonce seed) 0) 0 r \<and>
    rng_ok r \<and> sint (rposition r) = 64"
proof -
  let ?z = "rng_zeroed rng" and ?k = "seed_key seed" and ?n = "seed_nonce seed"
  have z: "length (rkeystream32 ?z) = 16" "length (rstate ?z) = 16" "length (rkey ?z) = 32" "length (rnonce ?z) = 12"
    using assms by (simp_all add: rng_zeroed_def rng_shape_def)
  have l: "length ?k = 32" "length ?n = 12" by (simp_all add: seed_key_def seed_nonce_def)
  have c: "copy_loop (rkey ?z) ?k 0 32 = Inr ?k" "copy_loop (rnonce ?z) ?n 0 12 = Inr ?n"
    using copy_loop_eq [of 0 32 ?k "rkey ?z"] copy_loop_eq [of 0 12 ?n "rnonce ?z"] z l by simp_all
  have "rng_init_block ?z ?k ?n = bindR (bindR (pack_words 4 0 0 magic_constant (rstate ?z)) (\<lambda>st.
      bindR (pack_words 8 4 0 ?k st) (\<lambda>st. bindR (wr st 12 0) (\<lambda>st. pack_words 3 13 0 ?n st))))
      (\<lambda>st. Inr (?z\<lparr>rkey := ?k, rnonce := ?n, rstate := st\<rparr>))"
    using c by (simp add: rng_init_block_def bindR_assoc)
  then have i: "rng_init_block ?z ?k ?n = Inr (?z\<lparr>rkey := ?k, rnonce := ?n, rstate := initial_state ?k ?n 0\<rparr>)"
    using init_state [OF z(2), of ?k ?n] l by simp
  have p: "pack4 ?n 0 = Inr (word_at ?n 0)" using pack4_eq [of 0 ?n] l by (simp add: word_at_def)
  have "(initial_state ?k ?n 0)[13 := word_at ?n 0] = initial_state ?k ?n 0"
    using list_update_id [of "initial_state ?k ?n 0" 13] by (simp add: initial_state_sel(2))
  then have "chacha20_rng_init rng seed = Inr (?z\<lparr>rkey := ?k, rnonce := ?n, rstate := initial_state ?k ?n 0, rcounter := 0, rposition := 64\<rparr>)"
    using i p unfolding seed_key_def seed_nonce_def
    by (simp add: chacha20_rng_init_def Let_def rng_block_set_counter_def wr_ok initial_state_sel)
  then show ?thesis using z(1) by (simp add: rng_at_def stream_at_def rng_ok_def initial_state_sel(1))
qed

lemma rng_bytes_at:
  assumes "rng_at st m rng" "nat (sint n) \<le> length buf"
  shows "\<exists>q. chacha20_rng_bytes rng buf n = Inr (map (key_byte st) [m..<m + nat (sint n)] @ drop (nat (sint n)) buf, q)"
proof -
  have m: "map2 (\<lambda>_ k. k) xs ys = ys" if "length xs = length ys" for xs ys :: "i8 list" using that by (induction rule: list_induct2) simp_all
  show ?thesis unfolding chacha20_rng_bytes_def fill_loop_eq
    using seeded.loop_at(1) [OF assms, of "\<lambda>_ k. k"] assms(2) m [of "take (nat (sint n)) buf" "map (key_byte st) [m..<m + nat (sint n)]"] by simp
qed

text \<open>Away from a word boundary the next word is the one that holds the current byte.\<close>

lemma next32_word:
  assumes "rng_ok r" "sint (rposition r) < 64"
  shows "chacha20_rng_next32 r = Inr (rkeystream32 r ! nat (sint (rposition r) div 4), r\<lparr>rposition := rposition r + 4\<rparr>)"
  using assms rd_word [of "rkeystream32 r" "sint (rposition r)"] sdiv4 [of "sint (rposition r)"]
  by (simp add: chacha20_rng_next32_def rng_refresh_again rng_ok_def)

lemma rng_bytes_draw:
  assumes "rng_ok rng" "0 \<le> sint n" "nat (sint n) \<le> length buf"
  shows "chacha20_rng_bytes rng buf n = Inr (fst (generator.draw (nat (sint n)) rng) @ drop (nat (sint n)) buf, snd (generator.draw (nat (sint n)) rng))"
proof -
  have l: "length (fst (generator.draw (nat (sint n)) rng)) = nat (sint n)" using generator.draw_length [OF assms(1)] by blast
  have m: "map2 (\<lambda>_ k. k) xs ys = ys" if "length xs = length ys" for xs ys :: "i8 list" using that by (induction rule: list_induct2) simp_all
  show ?thesis unfolding chacha20_rng_bytes_def fill_loop_eq
    using generator.byte_loop_eq [OF assms(1), of 0 "nat (sint n)" buf "\<lambda>_ k. k"] assms(3) l m [of "take (nat (sint n)) buf" "fst (generator.draw (nat (sint n)) rng)"] by simp
qed

text \<open>C35. The random generator.  Seeding always succeeds, and filling a buffer then delivers the keystream of the
  block function for the key and the nonce the seed is spread over.  From a generator at a word boundary a 32-bit word is the
  next four bytes, little-endian, a 64-bit word is the next two 32-bit words, high word first, and filling a buffer in two calls gives what
  one call gives.  Away from a word boundary the next 32-bit word is the keystream word that holds the current byte,
  so that bytes delivered before are delivered again.  Every block advances the 64-bit block counter by one.\<close>

theorem rng_stream:
  assumes "rng_shape rng0" and "rng_ok rng" "sint (rposition rng) mod 4 = 0" "rng_ok mid" "sint (rposition mid) < 64"
  shows "(\<exists>r. chacha20_rng_init rng0 seed = Inr r \<and> rng_ok r \<and> sint (rposition r) mod 4 = 0 \<and>
      (\<forall>n buf. nat (sint n) \<le> length buf \<longrightarrow> (\<exists>q. chacha20_rng_bytes r buf n =
        Inr (map (key_byte (initial_state (seed_key seed) (seed_nonce seed) 0)) [0..<nat (sint n)] @ drop (nat (sint n)) buf, q)))) \<and>
    (\<exists>w r. chacha20_rng_next32 rng = Inr (w, r) \<and> rng_ok r \<and> sint (rposition r) mod 4 = 0 \<and>
      (\<exists>v q. chacha20_rng_next32 r = Inr (v, q) \<and> chacha20_rng_next64 rng = Inr (push_bit 32 (ucast w) OR ucast v, q) \<and>
        chacha20_rng_bytes rng (replicate 8 0) 8 = Inr (bytes_le32 w @ bytes_le32 v, q))) \<and>
    (\<forall>m n buf. 0 \<le> sint m \<and> 0 \<le> sint n \<and> sint (m + n) = sint m + sint n \<and> length buf = nat (sint m) + nat (sint n) \<longrightarrow>
      (\<exists>front back q r. chacha20_rng_bytes rng (take (nat (sint m)) buf) m = Inr (front, q) \<and> chacha20_rng_bytes q (drop (nat (sint m)) buf) n = Inr (back, r) \<and>
        chacha20_rng_bytes rng buf (m + n) = Inr (front @ back, r))) \<and>
    chacha20_rng_next32 mid = Inr (rkeystream32 mid ! nat (sint (rposition mid) div 4), mid\<lparr>rposition := rposition mid + 4\<rparr>) \<and>
    (\<exists>r. rng_block_next rng = Inr r \<and>
      rng_counter (rstate r ! 12) (rstate r ! 13) = rng_counter (rstate rng ! 12) (rstate rng ! 13) + 1)"
proof (intro conjI allI impI)
  obtain r where r: "chacha20_rng_init rng0 seed = Inr r" "rng_at (initial_state (seed_key seed) (seed_nonce seed) 0) 0 r" "rng_ok r"
      "sint (rposition r) = 64"
    using rng_init_at [OF assms(1), of seed] by (elim exE conjE)
  show "\<exists>r. chacha20_rng_init rng0 seed = Inr r \<and> rng_ok r \<and> sint (rposition r) mod 4 = 0 \<and>
      (\<forall>n buf. nat (sint n) \<le> length buf \<longrightarrow> (\<exists>q. chacha20_rng_bytes r buf n =
        Inr (map (key_byte (initial_state (seed_key seed) (seed_nonce seed) 0)) [0..<nat (sint n)] @ drop (nat (sint n)) buf, q)))"
    using r(1,3,4) rng_bytes_at [OF r(2)] by simp
next
  show "chacha20_rng_next32 mid = Inr (rkeystream32 mid ! nat (sint (rposition mid) div 4), mid\<lparr>rposition := rposition mid + 4\<rparr>)"
    by (rule next32_word [OF assms(4,5)])
next
  obtain w r where w: "chacha20_rng_next32 rng = Inr (w, r)" "rng_ok r" "sint (rposition r) mod 4 = 0" using next32_total [OF assms(2)] assms(3) by (elim exE conjE) simp
  obtain v q where v: "chacha20_rng_next32 r = Inr (v, q)" using next32_total [OF w(2)] by (elim exE conjE)
  have d: "generator.draw 4 rng = (bytes_le32 w, r)" "generator.draw 4 r = (bytes_le32 v, q)"
    using next32_bytes [OF assms(2,3) w(1)] next32_bytes [OF w(2,3) v] by (simp_all add: bytes_le32_def)
  then have "generator.draw 8 rng = (bytes_le32 w @ bytes_le32 v, q)" using generator.draw_add [OF assms(2), of 4 4] by simp
  then have "chacha20_rng_bytes rng (replicate 8 0) 8 = Inr (bytes_le32 w @ bytes_le32 v, q)" using rng_bytes_draw [OF assms(2), of 8 "replicate 8 0"] by simp
  moreover have "chacha20_rng_next64 rng = Inr (push_bit 32 (ucast w) OR ucast v, q)" using w(1) v by (simp add: chacha20_rng_next64_def)
  ultimately show "\<exists>w r. chacha20_rng_next32 rng = Inr (w, r) \<and> rng_ok r \<and> sint (rposition r) mod 4 = 0 \<and>
      (\<exists>v q. chacha20_rng_next32 r = Inr (v, q) \<and> chacha20_rng_next64 rng = Inr (push_bit 32 (ucast w) OR ucast v, q) \<and>
        chacha20_rng_bytes rng (replicate 8 0) 8 = Inr (bytes_le32 w @ bytes_le32 v, q))" using w v by simp
next
  fix m n :: i32 and buf :: "i8 list"
  assume a: "0 \<le> sint m \<and> 0 \<le> sint n \<and> sint (m + n) = sint m + sint n \<and> length buf = nat (sint m) + nat (sint n)"
  let ?m = "nat (sint m)" and ?n = "nat (sint n)"
  have mn: "nat (sint (m + n)) = ?m + ?n" using a by (simp add: nat_add_distrib)
  obtain ks q where d: "generator.draw ?m rng = (ks, q)" by (cases "generator.draw ?m rng")
  have q: "rng_ok q" using generator.draw_length [OF assms(2), of ?m] d by simp
  obtain js r where e: "generator.draw ?n q = (js, r)" by (cases "generator.draw ?n q")
  have "generator.draw (?m + ?n) rng = (ks @ js, r)" using generator.draw_add [OF assms(2), of ?m ?n] d e by simp
  then show "\<exists>front back q r. chacha20_rng_bytes rng (take ?m buf) m = Inr (front, q) \<and> chacha20_rng_bytes q (drop ?m buf) n = Inr (back, r) \<and>
        chacha20_rng_bytes rng buf (m + n) = Inr (front @ back, r)"
    using rng_bytes_draw [OF assms(2), of m "take ?m buf"] rng_bytes_draw [OF q, of n "drop ?m buf"] rng_bytes_draw [OF assms(2), of "m + n" buf] a d e mn by simp
next
  have l: "length (rkeystream32 rng) = 16" "length (rstate rng) = 16" using assms(2) by (simp_all add: rng_ok_def)
  show "\<exists>r. rng_block_next rng = Inr r \<and> rng_counter (rstate r ! 12) (rstate r ! 13) = rng_counter (rstate rng ! 12) (rstate rng ! 13) + 1"
    using block_total [OF l(2,1)] l by (auto simp: rng_block_next_def rd_ok wr_ok Let_def counter_split)
qed

definition blank_rng :: chacha20_rng where
  "blank_rng = \<lparr>rkey = replicate 32 0, rnonce = replicate 12 0, rstate = replicate 16 0, rkeystream32 = replicate 16 0, rcounter = 0, rposition = 64\<rparr>"

theorem rng_stream_witness:
  "\<exists>r w v q q' s. chacha20_rng_init blank_rng 5 = Inr r \<and>
     chacha20_rng_bytes r [9, 9, 9] 2 = Inr (map (key_byte (initial_state (seed_key 5) (seed_nonce 5) 0)) [0, 1] @ [9], s) \<and>
     chacha20_rng_next32 blank_rng = Inr (w, q) \<and> chacha20_rng_next32 q = Inr (v, q') \<and>
     chacha20_rng_next64 blank_rng = Inr (push_bit 32 (ucast w) OR ucast v, q') \<and>
     chacha20_rng_next32 (blank_rng\<lparr>rposition := 1\<rparr>) = Inr (0, blank_rng\<lparr>rposition := 5\<rparr>)"
proof -
  let ?o = "blank_rng\<lparr>rposition := 1\<rparr>"
  have o: "rng_ok ?o" "sint (rposition ?o) < 64" by (simp_all add: rng_ok_def blank_rng_def)
  have "rng_shape blank_rng" "rng_ok blank_rng" "sint (rposition blank_rng) mod 4 = 0" by (simp_all add: rng_shape_def rng_ok_def blank_rng_def)
  note s = rng_stream [OF this o, of 5]
  obtain r where r: "chacha20_rng_init blank_rng 5 = Inr r"
    "\<And>n buf. nat (sint n) \<le> length buf \<Longrightarrow> \<exists>q. chacha20_rng_bytes r buf n =
        Inr (map (key_byte (initial_state (seed_key 5) (seed_nonce 5) 0)) [0..<nat (sint n)] @ drop (nat (sint n)) buf, q)"
    using s [THEN conjunct1] by blast
  have u: "[0..<nat (sint (2 :: i32))] = [0, 1]" by (simp add: upt_rec)
  have b: "\<exists>q. chacha20_rng_bytes r [9, 9, 9] 2 = Inr (map (key_byte (initial_state (seed_key 5) (seed_nonce 5) 0)) [0, 1] @ [9], q)"
    using r(2) [of 2 "[9, 9, 9]"] unfolding u by simp
  have n: "chacha20_rng_next32 ?o = Inr (0, blank_rng\<lparr>rposition := 5\<rparr>)"
    using s [THEN conjunct2, THEN conjunct2, THEN conjunct2, THEN conjunct1] by (simp add: blank_rng_def)
  show ?thesis using r(1) b n s [THEN conjunct2, THEN conjunct1] by (elim exE conjE) (intro exI conjI)
qed

end
