(* ===== verification/Rtc.thy ===== *)
theory Rtc
  imports Kstd
begin

text \<open>
  The real-time clock (\<open>core/arch/rtc.c\<close>).  The chip is reached through two ports, so the port operations are
  an argument; what the code relies on is that selecting a register and reading or writing the data port
  reads or writes that register.  The console output of \<open>rtc_init\<close> is left out.
\<close>

subsection \<open>Registers\<close>

record 's ports =
  outb :: "u16 \<Rightarrow> u8 \<Rightarrow> 's \<Rightarrow> 's"
  inb :: "u16 \<Rightarrow> 's \<Rightarrow> u8 \<times> 's"

definition RTC_PORT_DATA :: u16 where "RTC_PORT_DATA = 0x71"
definition RTC_PORT_CMD :: u16 where "RTC_PORT_CMD = 0x70"
definition RTC_SECONDS :: u8 where "RTC_SECONDS = 0x00"
definition RTC_MINUTES :: u8 where "RTC_MINUTES = 0x02"
definition RTC_HOURS :: u8 where "RTC_HOURS = 0x04"
definition RTC_WEEKDAY :: u8 where "RTC_WEEKDAY = 0x06"
definition RTC_DAY :: u8 where "RTC_DAY = 0x07"
definition RTC_MONTH :: u8 where "RTC_MONTH = 0x08"
definition RTC_YEAR :: u8 where "RTC_YEAR = 0x09"
definition RTC_CENTURY :: u8 where "RTC_CENTURY = 0x32"
definition RTC_STATUS_A :: u8 where "RTC_STATUS_A = 0x0A"
definition RTC_STATUS_B :: u8 where "RTC_STATUS_B = 0x0B"
definition RTC_STATUS_C :: u8 where "RTC_STATUS_C = 0x0C"
definition RTC_UIP :: u8 where "RTC_UIP = push_bit 7 1"
definition RTC_24H :: u8 where "RTC_24H = push_bit 1 1"
definition RTC_BINARY :: u8 where "RTC_BINARY = push_bit 2 1"
definition RTC_PIE :: u8 where "RTC_PIE = push_bit 6 1"

record rtc_time =
  year :: u16
  month :: u8
  day :: u8
  hour :: u8
  minute :: u8
  second :: u8
  weekday :: u8

definition read_register :: "'s ports \<Rightarrow> u8 \<Rightarrow> 's \<Rightarrow> u8 \<times> 's" where
  "read_register io reg s = inb io RTC_PORT_DATA (outb io RTC_PORT_CMD reg s)"

definition write_register :: "'s ports \<Rightarrow> u8 \<Rightarrow> u8 \<Rightarrow> 's \<Rightarrow> 's" where
  "write_register io reg v s = outb io RTC_PORT_DATA v (outb io RTC_PORT_CMD reg s)"

definition bcd_to_binary :: "u8 \<Rightarrow> u8" where
  "bcd_to_binary bcd = drop_bit 4 bcd * 10 + (bcd AND 0x0F)"

definition binary_to_bcd :: "u8 \<Rightarrow> u8" where
  "binary_to_bcd b = push_bit 4 (b div 10) OR (b mod 10)"

text \<open>The loop that waits for an update to finish, at most \<open>timeout\<close> more times.\<close>

fun wait_loop :: "'s ports \<Rightarrow> nat \<Rightarrow> 's \<Rightarrow> 's" where
  "wait_loop io timeout s =
     (let (a, s) = read_register io RTC_STATUS_A s in
      if a AND RTC_UIP = 0 then s
      else case timeout of 0 \<Rightarrow> s | Suc n \<Rightarrow> wait_loop io n s)"

declare wait_loop.simps [simp del]

definition wait_ready :: "'s ports \<Rightarrow> 's \<Rightarrow> 's" where
  "wait_ready io s = wait_loop io 100000 s"

definition rtc_init :: "'s ports \<Rightarrow> 's \<Rightarrow> 's" where
  "rtc_init io s =
     (let (b, s) = read_register io RTC_STATUS_B s;
          b = (b OR RTC_24H) AND NOT RTC_BINARY;
          s = write_register io RTC_STATUS_B b s;
          (_, s) = read_register io RTC_STATUS_B s;
          (_, s) = read_register io RTC_STATUS_C s in s)"

subsection \<open>Reading the time\<close>

definition rtc_read_time :: "'s ports \<Rightarrow> 's \<Rightarrow> rtc_time \<times> 's" where
  "rtc_read_time io s =
     (let s = wait_ready io s;
          (sec, s) = read_register io RTC_SECONDS s;
          (mn, s) = read_register io RTC_MINUTES s;
          (hr, s) = read_register io RTC_HOURS s;
          (wd, s) = read_register io RTC_WEEKDAY s;
          (dy, s) = read_register io RTC_DAY s;
          (mo, s) = read_register io RTC_MONTH s;
          (yr, s) = read_register io RTC_YEAR s;
          (century, s) = read_register io RTC_CENTURY s;
          sec = bcd_to_binary sec; mn = bcd_to_binary mn; hr = bcd_to_binary hr;
          dy = bcd_to_binary dy; mo = bcd_to_binary mo; yr = bcd_to_binary yr;
          century = if century = 0x20 \<or> century = 0x19 then bcd_to_binary century else 20;
          (b, s) = read_register io RTC_STATUS_B s;
          hour12 = hr AND 0x7F;
          is_pm = hr AND 0x80 \<noteq> 0;
          hr = if b AND RTC_24H \<noteq> 0 then hr
               else if is_pm \<and> hour12 < 12 then hour12 + 12
               else if \<not> is_pm \<and> hour12 = 12 then 0
               else hour12 in
      (\<lparr>year = ucast century * 100 + ucast yr, month = mo, day = dy, hour = hr, minute = mn, second = sec, weekday = wd\<rparr>, s))"

definition month_days :: "u16 list" where
  "month_days = [31, 28, 31, 30, 31, 30, 31, 31, 30, 31, 30, 31]"

definition leap :: "u16 \<Rightarrow> bool" where
  "leap y \<longleftrightarrow> y mod 4 = 0 \<and> y mod 100 \<noteq> 0 \<or> y mod 400 = 0"

lemma unat_succ: "y < z \<Longrightarrow> unat (y + 1) = Suc (unat y)" for y z :: "'a::len word"
proof -
  assume "y < z"
  then have "unat y < unat z" by (simp add: word_less_nat_alt)
  moreover have "unat z < 2 ^ LENGTH('a)" by simp
  ultimately have "Suc (unat y) < 2 ^ LENGTH('a)" by linarith
  then show ?thesis by (simp add: unat_word_ariths)
qed

text \<open>\<open>for (year = 1970; year < time.year; year++)\<close>, adding the days of each year.\<close>

function add_years :: "u16 \<Rightarrow> u16 \<Rightarrow> u64 \<Rightarrow> u64" where
  "add_years y ty ts = (if y < ty then add_years (y + 1) ty (ts + 365 + (if leap y then 1 else 0)) else ts)"
  by pat_completeness auto
termination
  by (relation "measure (\<lambda>(y, ty, ts). unat ty - unat y)") (auto simp: unat_succ word_less_nat_alt)

declare add_years.simps [simp del]

text \<open>\<open>for (month = 0; month < time.month - 1; month++)\<close>, adding the days of each month; the bound is computed as \<open>int\<close>.\<close>

fun add_months :: "nat \<Rightarrow> nat \<Rightarrow> u16 \<Rightarrow> u64 \<Rightarrow> u64 res" where
  "add_months m 0 ty ts = Inr ts"
| "add_months m (Suc n) ty ts =
     bindR (rd month_days (int m)) (\<lambda>d. add_months (Suc m) n ty (ts + ucast d + (if m = 1 \<and> leap ty then 1 else 0)))"

definition unix_of :: "rtc_time \<Rightarrow> u64 res" where
  "unix_of t =
     bindR (add_months 0 (unat (month t) - 1) (year t) (add_years 1970 (year t) 0)) (\<lambda>ts.
     let ts = ts + (ucast (day t) - 1);
         ts = ts * 86400;
         ts = ts + ucast (hour t) * 3600;
         ts = ts + ucast (minute t) * 60 in
     Inr (ts + ucast (second t)))"

definition rtc_read_unix :: "'s ports \<Rightarrow> 's \<Rightarrow> (u64 \<times> 's) res" where
  "rtc_read_unix io s = (let (t, s) = rtc_read_time io s in bindR (unix_of t) (\<lambda>ts. Inr (ts, s)))"

subsection \<open>Setting the time\<close>

definition rtc_set_time :: "'s ports \<Rightarrow> rtc_time \<Rightarrow> 's \<Rightarrow> 's" where
  "rtc_set_time io t s =
     (let s = wait_ready io s;
          s = write_register io RTC_SECONDS (binary_to_bcd (second t)) s;
          s = write_register io RTC_MINUTES (binary_to_bcd (minute t)) s;
          s = write_register io RTC_HOURS (binary_to_bcd (hour t)) s;
          s = write_register io RTC_DAY (binary_to_bcd (day t)) s;
          s = write_register io RTC_MONTH (binary_to_bcd (month t)) s;
          s = write_register io RTC_YEAR (binary_to_bcd (ucast (year t mod 100))) s;
          s = write_register io RTC_CENTURY (binary_to_bcd (ucast (year t div 100))) s in
      write_register io RTC_WEEKDAY (weekday t) s)"

function find_year :: "u64 \<Rightarrow> u16 \<Rightarrow> u64 \<times> u16" where
  "find_year days y =
     (let n = (if leap y then 366 else 365) in
      if days \<ge> 365 \<and> days \<ge> n then find_year (days - n) (y + 1) else (days, y))"
  by pat_completeness auto
termination
  by (relation "measure (\<lambda>(days, y). unat days)") (auto simp: word_le_nat_alt unat_sub_if' split: if_splits)

declare find_year.simps [simp del]

fun find_month :: "nat \<Rightarrow> nat \<Rightarrow> bool \<Rightarrow> u64 \<Rightarrow> (nat \<times> u64) res" where
  "find_month m 0 lp days = Inr (m, days)"
| "find_month m (Suc n) lp days =
     bindR (rd month_days (int m)) (\<lambda>d.
     let d = if m = 1 \<and> lp then 29 else d in
     if days \<ge> ucast d then find_month (Suc m) n lp (days - ucast d) else Inr (m, days))"

definition time_of_unix :: "u64 \<Rightarrow> rtc_time res" where
  "time_of_unix timestamp =
     (let days = timestamp div 86400; rest = timestamp mod 86400; (left, y) = find_year days 1970 in
      bindR (find_month 0 12 (leap y) left) (\<lambda>(m, left).
      Inr \<lparr>year = y, month = of_nat m + 1, day = ucast left + 1, hour = ucast (rest div 3600), minute = ucast (rest mod 3600 div 60),
        second = ucast (rest mod 60), weekday = ucast ((timestamp div 86400 + 4) mod 7 + 1)\<rparr>))"

definition rtc_set_unix :: "'s ports \<Rightarrow> u64 \<Rightarrow> 's \<Rightarrow> 's res" where
  "rtc_set_unix io timestamp s = bindR (time_of_unix timestamp) (\<lambda>t. Inr (rtc_set_time io t s))"

subsection \<open>Interrupts and names\<close>

definition periodic_rate :: "u32 \<Rightarrow> u8" where
  "periodic_rate hz =
     (if hz \<ge> 8192 then 1 else if hz \<ge> 4096 then 2 else if hz \<ge> 2048 then 3 else if hz \<ge> 1024 then 4
      else if hz \<ge> 512 then 5 else if hz \<ge> 256 then 6 else if hz \<ge> 128 then 7 else if hz \<ge> 64 then 8
      else if hz \<ge> 32 then 9 else if hz \<ge> 16 then 10 else if hz \<ge> 8 then 11 else if hz \<ge> 4 then 12
      else if hz \<ge> 2 then 13 else 14)"

definition rtc_enable_periodic_interrupt :: "'s ports \<Rightarrow> u32 \<Rightarrow> 's \<Rightarrow> 's" where
  "rtc_enable_periodic_interrupt io hz s =
     (let (a, s) = read_register io RTC_STATUS_A s;
          s = write_register io RTC_STATUS_A ((a AND 0xF0) OR periodic_rate hz) s;
          (b, s) = read_register io RTC_STATUS_B s in
      write_register io RTC_STATUS_B (b OR RTC_PIE) s)"

definition rtc_disable_periodic_interrupt :: "'s ports \<Rightarrow> 's \<Rightarrow> 's" where
  "rtc_disable_periodic_interrupt io s =
     (let (b, s) = read_register io RTC_STATUS_B s in write_register io RTC_STATUS_B (b AND NOT RTC_PIE) s)"

definition rtc_handle_interrupt :: "'s ports \<Rightarrow> 's \<Rightarrow> u8 \<times> 's" where
  "rtc_handle_interrupt io s = (let (c, s) = read_register io RTC_STATUS_C s in (if c AND 0x70 \<noteq> 0 then 1 else 0, s))"

definition rtc_is_update_in_progress :: "'s ports \<Rightarrow> 's \<Rightarrow> bool \<times> 's" where
  "rtc_is_update_in_progress io s = (let (a, s) = read_register io RTC_STATUS_A s in (a AND RTC_UIP \<noteq> 0, s))"

text \<open>The names of the days, Monday to Sunday, and \<open>Unknown\<close>.\<close>

definition day_names :: "u8 list list" where
  "day_names =
    [[77, 111, 110, 100, 97, 121, 0], [84, 117, 101, 115, 100, 97, 121, 0], [87, 101, 100, 110, 101, 115, 100, 97, 121, 0],
     [84, 104, 117, 114, 115, 100, 97, 121, 0], [70, 114, 105, 100, 97, 121, 0], [83, 97, 116, 117, 114, 100, 97, 121, 0],
     [83, 117, 110, 100, 97, 121, 0]]"

definition rtc_get_weekday_string :: "u8 \<Rightarrow> u8 list res" where
  "rtc_get_weekday_string wd =
     (if wd < 1 \<or> wd > 7 then Inr [85, 110, 107, 110, 111, 119, 110, 0] else rd day_names (uint wd - 1))"

subsection \<open>Days, months and years\<close>

text \<open>The calendar in natural numbers.\<close>

definition leap_year :: "nat \<Rightarrow> bool" where
  "leap_year y \<longleftrightarrow> y mod 4 = 0 \<and> y mod 100 \<noteq> 0 \<or> y mod 400 = 0"

definition year_length :: "nat \<Rightarrow> nat" where
  "year_length y = (if leap_year y then 366 else 365)"

definition month_length :: "bool \<Rightarrow> nat \<Rightarrow> nat" where
  "month_length lp m = (if m = 1 \<and> lp then 29 else [31, 28, 31, 30, 31, 30, 31, 31, 30, 31, 30, 31] ! m)"

abbreviation years :: "nat \<Rightarrow> nat \<Rightarrow> nat" where
  "years a b \<equiv> sum year_length {a..<b}"

abbreviation months :: "bool \<Rightarrow> nat \<Rightarrow> nat \<Rightarrow> nat" where
  "months lp a b \<equiv> sum (month_length lp) {a..<b}"

lemma leap_eq: "leap y = leap_year (unat y)"
proof -
  have "(y mod n = 0) = (unat y mod unat n = 0)" for n by (metis unat_eq_zero unat_mod)
  then show ?thesis by (simp add: leap_def leap_year_def)
qed

lemma sum_first: "a < b \<Longrightarrow> sum f {a..<b} = f a + sum f {Suc a..<b}" for f :: "nat \<Rightarrow> nat"
  by (simp add: sum.atLeast_Suc_lessThan)

lemma add_years_eq: "y \<le> ty \<Longrightarrow> add_years y ty ts = ts + of_nat (years (unat y) (unat ty))"
proof (induction y ty ts rule: add_years.induct)
  case (1 y ty ts)
  show ?case
  proof (cases "y < ty")
    case True
    have n: "unat (y + 1) = Suc (unat y)" by (rule unat_succ [OF True])
    have "y + 1 \<le> ty" using True n by (simp add: word_le_nat_alt word_less_nat_alt)
    then have "add_years y ty ts = ts + 365 + (if leap y then 1 else 0) + of_nat (years (Suc (unat y)) (unat ty))"
      using True 1(1) n by (subst add_years.simps) simp
    also have "\<dots> = ts + of_nat (years (unat y) (unat ty))"
      using True by (simp add: sum_first word_less_nat_alt year_length_def leap_eq)
    finally show ?thesis .
  next
    case False
    then have "y = ty" using 1(2) by simp
    then show ?thesis by (subst add_years.simps) simp
  qed
qed

lemma month_days_rd: "m < 12 \<Longrightarrow> rd month_days (int m) = Inr (month_days ! m)"
  by (simp add: rd_nat month_days_def)

lemma month_cases: "m < 12 \<Longrightarrow> m = 0 \<or> m = 1 \<or> m = 2 \<or> m = 3 \<or> m = 4 \<or> m = 5 \<or> m = 6 \<or> m = 7 \<or> m = 8 \<or> m = 9 \<or> m = 10 \<or> m = (11 :: nat)"
  by presburger

lemma month_days_value:
  assumes "m < 12"
  shows "month_length lp m = unat (if m = 1 \<and> lp then 29 else month_days ! m)" "of_nat (month_length lp m) = (ucast (month_days ! m) :: u64) + (if m = 1 \<and> lp then 1 else 0)"
  using month_cases [OF assms] by (elim disjE; simp add: month_length_def month_days_def)+

lemma add_months_eq: "m + n \<le> 12 \<Longrightarrow> add_months m n ty ts = Inr (ts + of_nat (months (leap ty) m (m + n)))"
proof (induction n arbitrary: m ts)
  case (Suc n)
  then have m: "m < 12" by simp
  have e: "add_months (Suc m) n ty u = Inr (u + of_nat (months (leap ty) (Suc m) (Suc m + n)))" for u by (rule Suc.IH) (use Suc.prems in simp)
  have s: "months (leap ty) m (m + Suc n) = month_length (leap ty) m + months (leap ty) (Suc m) (Suc m + n)" using sum_first [of m "m + Suc n"] by simp
  show ?case unfolding add_months.simps month_days_rd [OF m] bindR.simps e s of_nat_add month_days_value(2) [OF m] by (simp add: algebra_simps)
qed simp


lemma find_year_eq:
  assumes "unat days < years (unat y) Y" "Y < 2 ^ 16" "unat y < Y"
  shows "\<exists>left y'. find_year days y = (left, y') \<and> unat y \<le> unat y' \<and> unat y' < Y \<and> unat days = years (unat y) (unat y') + unat left \<and> unat left < year_length (unat y')"
  using assms
proof (induction days y rule: find_year.induct)
  case (1 days y)
  define n :: u64 where "n = (if leap y then 366 else 365)"
  have un: "unat n = year_length (unat y)" by (simp add: n_def year_length_def leap_eq)
  have ge: "365 \<le> n" by (simp add: n_def)
  have step: "find_year days y = (if days \<ge> n then find_year (days - n) (y + 1) else (days, y))"
    using ge by (subst find_year.simps) (auto simp: Let_def n_def [symmetric])
  show ?case
  proof (cases "days \<ge> n")
    case True
    have d: "unat (days - n) = unat days - year_length (unat y)" using True un by (simp add: unat_sub_if' word_le_nat_alt)
    have le: "year_length (unat y) \<le> unat days" using True un by (simp add: word_le_nat_alt)
    have s: "years (unat y) Y = year_length (unat y) + years (Suc (unat y)) Y" using 1(4) by (rule sum_first)
    have lt: "Suc (unat y) < Y"
    proof (rule ccontr)
      assume "\<not> Suc (unat y) < Y"
      then have "years (Suc (unat y)) Y = 0" by simp
      then show False using s le 1(2) by simp
    qed
    have y: "unat (y + 1) = Suc (unat y)" using lt 1(3) by (simp add: unat_word_ariths)
    have "\<exists>left y'. find_year (days - n) (y + 1) = (left, y') \<and> unat (y + 1) \<le> unat y' \<and> unat y' < Y \<and>
        unat (days - n) = years (unat (y + 1)) (unat y') + unat left \<and> unat left < year_length (unat y')"
    proof (rule 1(1) [OF n_def])
      show "365 \<le> days \<and> n \<le> days" using True ge by simp
    qed (use d y lt s le 1(2,3) in simp_all)
    then obtain left y' where r: "find_year (days - n) (y + 1) = (left, y')" "Suc (unat y) \<le> unat y'" "unat y' < Y"
      "unat days - year_length (unat y) = years (Suc (unat y)) (unat y') + unat left" "unat left < year_length (unat y')"
      unfolding y d by blast
    have "years (unat y) (unat y') = year_length (unat y) + years (Suc (unat y)) (unat y')" by (rule sum_first) (use r(2) in simp)
    then show ?thesis using r le step True by simp
  next
    case False
    then show ?thesis using step 1(4) un by (simp add: word_le_nat_alt)
  qed
qed

lemma find_month_eq:
  assumes "unat days < months lp m 12" "m + n = 12" "m < 12"
  shows "\<exists>m' left. find_month m n lp days = Inr (m', left) \<and> m \<le> m' \<and> m' < 12 \<and> unat days = months lp m m' + unat left \<and> unat left < month_length lp m'"
  using assms
proof (induction n arbitrary: m days)
  case (Suc n)
  define d where "d = (if m = 1 \<and> lp then 29 else month_days ! m)"
  have ud: "unat (ucast d :: u64) = month_length lp m" using month_days_value(1) [OF Suc.prems(3), of lp] by (simp add: d_def unat_ucast_up)
  have step: "find_month m (Suc n) lp days = (if days \<ge> ucast d then find_month (Suc m) n lp (days - ucast d) else Inr (m, days))"
    by (simp add: month_days_rd Suc.prems(3) d_def Let_def)
  show ?case
  proof (cases "days \<ge> ucast d")
    case True
    have le: "month_length lp m \<le> unat days" using True ud by (simp add: word_le_nat_alt)
    have u: "unat (days - ucast d) = unat days - month_length lp m" using True ud by (simp add: unat_sub_if' word_le_nat_alt)
    have s: "months lp m 12 = month_length lp m + months lp (Suc m) 12" using Suc.prems(3) by (rule sum_first)
    have lt: "Suc m < 12"
    proof (rule ccontr)
      assume "\<not> Suc m < 12"
      then have "months lp (Suc m) 12 = 0" by simp
      then show False using s le Suc.prems(1) by simp
    qed
    have lo: "unat days - month_length lp m < months lp (Suc m) 12" using s le Suc.prems(1) by linarith
    obtain m' left where r: "find_month (Suc m) n lp (days - ucast d) = Inr (m', left)" "Suc m \<le> m'" "m' < 12"
      "unat days - month_length lp m = months lp (Suc m) m' + unat left" "unat left < month_length lp m'"
      using Suc.IH [of "days - ucast d" "Suc m"] u lo lt Suc.prems(2) by auto
    have "months lp m m' = month_length lp m + months lp (Suc m) m'" by (rule sum_first) (use r(2) in simp)
    then show ?thesis using r le step True by simp
  next
    case False
    then show ?thesis using step Suc.prems(3) ud by (simp add: word_le_nat_alt)
  qed
qed simp

lemma year_months: "months (leap_year y) 0 12 = year_length y"
  by (simp add: month_length_def year_length_def numeral_eq_Suc)


subsection \<open>Timestamps\<close>

lemma leap_until_2100: "1970 \<le> y \<Longrightarrow> y < 2100 \<Longrightarrow> leap_year y \<longleftrightarrow> y mod 4 = 0"
  unfolding leap_year_def by presburger

lemma years_until_2100: "n \<le> 130 \<Longrightarrow> years 1970 (1970 + n) = 365 * n + (n + 1) div 4"
proof (induction n)
  case (Suc n)
  have "year_length (1970 + n) = (if (n + 2) mod 4 = 0 then 366 else 365)" using Suc.prems leap_until_2100 [of "1970 + n"] by (simp add: year_length_def) presburger
  moreover have "years 1970 (1970 + Suc n) = years 1970 (1970 + n) + year_length (1970 + n)" by (simp add: sum.atLeastLessThan_concat flip: sum.atLeastLessThan_Suc)
  moreover have "(Suc n + 1) div 4 = (n + 1) div 4 + (if (n + 2) mod 4 = 0 then 1 else 0)" by presburger
  ultimately show ?case using Suc by simp
qed simp

lemma year_2100: "years 1970 2100 = 47482"
  using years_until_2100 [of 130] by simp

definition valid_time :: "rtc_time \<Rightarrow> bool" where
  "valid_time t \<longleftrightarrow> 1970 \<le> unat (year t) \<and> unat (year t) < 2100 \<and> 1 \<le> unat (month t) \<and> unat (month t) \<le> 12 \<and> 1 \<le> unat (day t) \<and> unat (day t) \<le> 31 \<and>
     unat (hour t) < 24 \<and> unat (minute t) < 60 \<and> unat (second t) < 60"

lemma of_unat: "of_nat (unat w) = w" for w :: "'a::len word"
  by simp

lemma ucast_small: "unat (w :: u64) < 256 \<Longrightarrow> unat (ucast w :: u8) = unat w"
  by (simp add: unsigned_ucast_eq unsigned_take_bit_eq take_bit_nat_eq_self)

lemma time_roundtrip:
  assumes "unat t < 4102444800"
  shows "\<exists>T. time_of_unix t = Inr T \<and> unix_of T = Inr t \<and> valid_time T \<and> weekday T = ucast ((t div 86400 + 4) mod 7 + 1)"
proof -
  let ?D = "unat t div 86400" and ?R = "unat t mod 86400"
  have d: "unat (t div 86400) = ?D" "unat (t mod 86400) = ?R" by (simp_all add: unat_div unat_mod)
  have "?D < years 1970 2100" unfolding year_2100 using assms by (simp add: div_less_iff_less_mult less_mult_imp_div_less)
  then obtain left y where y: "find_year (t div 86400) 1970 = (left, y)" "1970 \<le> unat y" "unat y < 2100" "?D = years 1970 (unat y) + unat left" "unat left < year_length (unat y)"
    using find_year_eq [of "t div 86400" 1970 2100] d by auto
  obtain m l where m: "find_month 0 12 (leap y) left = Inr (m, l)" "m < 12" "unat left = months (leap y) 0 m + unat l" "unat l < month_length (leap y) m"
    using find_month_eq [of left "leap y" 0 12] y(5) year_months [of "unat y"] by (auto simp: leap_eq)
  have l31: "unat l < 31"
    using m(4) month_cases [OF m(2)] by (elim disjE) (simp_all add: month_length_def split: if_splits)
  let ?T = "\<lparr>year = y, month = of_nat m + 1, day = ucast l + 1, hour = ucast (t mod 86400 div 3600), minute = ucast (t mod 86400 mod 3600 div 60),
        second = ucast (t mod 86400 mod 60), weekday = ucast ((t div 86400 + 4) mod 7 + 1)\<rparr>"
  have T: "time_of_unix t = Inr ?T" using y(1) m(1) by (simp add: time_of_unix_def Let_def)
  have um: "unat (month ?T) = Suc m" using m(2) by (simp add: unat_word_ariths unat_of_nat take_bit_nat_eq_self)
  have ul: "unat (ucast l :: u8) = unat l" by (rule ucast_small) (use l31 in simp)
  have ud: "unat (day ?T) = Suc (unat l)" using ul l31 by (simp add: unat_word_ariths)
  have h: "unat (t mod 86400 div 3600) = ?R div 3600" "unat (t mod 86400 mod 3600 div 60) = ?R mod 3600 div 60" "unat (t mod 86400 mod 60) = ?R mod 60"
    by (simp_all add: unat_div unat_mod)
  have b: "?R div 3600 < 24" "?R mod 3600 div 60 < 60" "?R mod 60 < 60" by (simp_all add: div_less_iff_less_mult less_mult_imp_div_less)
  have uh: "unat (hour ?T) = ?R div 3600" "unat (minute ?T) = ?R mod 3600 div 60" "unat (second ?T) = ?R mod 60"
    using ucast_small [of "t mod 86400 div 3600", unfolded h] ucast_small [of "t mod 86400 mod 3600 div 60", unfolded h] ucast_small [of "t mod 86400 mod 60", unfolded h] b
    unfolding rtc_time.select_convs by linarith+
  have v: "valid_time ?T" unfolding valid_time_def um ud uh using y(2,3) m(2) l31 b by simp
  have ym: "add_months 0 (unat (month ?T) - 1) (year ?T) (add_years 1970 (year ?T) 0) = Inr (of_nat (years 1970 (unat y)) + of_nat (months (leap y) 0 m))"
  proof -
    have "add_years 1970 y 0 = 0 + of_nat (years (unat (1970 :: u16)) (unat y))" by (rule add_years_eq) (use y(2) in \<open>simp add: word_le_nat_alt\<close>)
    then show ?thesis unfolding um using add_months_eq [of 0 m y "of_nat (years 1970 (unat y))"] m(2) by simp
  qed
  have ucast64: "(ucast w :: u64) = of_nat (unat w)" for w :: u8 by simp
  have "unix_of ?T = Inr ((of_nat (years 1970 (unat y)) + of_nat (months (leap y) 0 m) + (of_nat (Suc (unat l)) - 1)) * 86400 +
      of_nat (?R div 3600) * 3600 + of_nat (?R mod 3600 div 60) * 60 + of_nat (?R mod 60))"
    unfolding unix_of_def ym bindR.simps Let_def ucast64 ud uh ..
  also have "\<dots> = Inr (of_nat (?D * 86400 + ?R div 3600 * 3600 + ?R mod 3600 div 60 * 60 + ?R mod 60))"
    unfolding y(4) m(3) by (simp add: algebra_simps)
  also have "?D * 86400 + ?R div 3600 * 3600 + ?R mod 3600 div 60 * 60 + ?R mod 60 = unat t"
  proof -
    have "?R mod 3600 mod 60 = ?R mod 60" by (simp add: mod_mod_cancel)
    moreover have "?R mod 3600 div 60 * 60 + ?R mod 3600 mod 60 = ?R mod 3600" by simp
    moreover have "?R div 3600 * 3600 + ?R mod 3600 = ?R" by simp
    moreover have "?D * 86400 + ?R = unat t" by simp
    ultimately show ?thesis by linarith
  qed
  finally have "unix_of ?T = Inr t" by simp
  then show ?thesis using T v by (intro exI [of _ ?T]) simp
qed


subsection \<open>The chip\<close>

text \<open>
  What the driver relies on: reading a register returns it and changes no register, but for the interrupt flags, which reading clears;
  writing one changes that one.  The clock is taken to stand still between the calls.
\<close>

definition cmos :: "'s ports \<Rightarrow> ('s \<Rightarrow> u8 \<Rightarrow> u8) \<Rightarrow> bool" where
  "cmos io reg \<longleftrightarrow>
     (\<forall>r s. r \<noteq> RTC_STATUS_C \<longrightarrow> fst (read_register io r s) = reg s r \<and> reg (snd (read_register io r s)) = reg s) \<and>
     (\<forall>r s. r \<noteq> RTC_STATUS_C \<longrightarrow> reg (snd (read_register io RTC_STATUS_C s)) r = reg s r) \<and>
     (\<forall>r v s. reg (write_register io r v s) = (reg s)(r := v))"

lemma bcd_roundtrip:
  assumes "unat b < 100"
  shows "bcd_to_binary (binary_to_bcd b) = b"
proof -
  have "list_all (\<lambda>k. bcd_to_binary (binary_to_bcd (of_nat k)) = of_nat k) [0..<100]" by code_simp
  then have "\<forall>k < 100. bcd_to_binary (binary_to_bcd (of_nat k)) = of_nat k" by (simp add: list_all_iff)
  then show ?thesis using assms of_unat [of b] by metis
qed

lemma wait_ready_kept:
  assumes "cmos io reg" "reg s RTC_STATUS_A AND RTC_UIP = 0"
  shows "reg (wait_ready io s) = reg s"
proof -
  have "RTC_STATUS_A \<noteq> RTC_STATUS_C" by (simp add: RTC_STATUS_A_def RTC_STATUS_C_def)
  then show ?thesis using assms unfolding wait_ready_def cmos_def by (subst wait_loop.simps) (simp add: case_prod_beta)
qed

lemmas rtc_registers = RTC_SECONDS_def RTC_MINUTES_def RTC_HOURS_def RTC_WEEKDAY_def RTC_DAY_def RTC_MONTH_def RTC_YEAR_def RTC_CENTURY_def
  RTC_STATUS_A_def RTC_STATUS_B_def RTC_STATUS_C_def

lemma read_time_eq:
  assumes "cmos io reg" "reg s RTC_STATUS_A AND RTC_UIP = 0" "reg s RTC_STATUS_B AND RTC_24H \<noteq> 0" "reg s RTC_CENTURY = 0x20 \<or> reg s RTC_CENTURY = 0x19"
  shows "fst (rtc_read_time io s) = \<lparr>year = ucast (bcd_to_binary (reg s RTC_CENTURY)) * 100 + ucast (bcd_to_binary (reg s RTC_YEAR)),
      month = bcd_to_binary (reg s RTC_MONTH), day = bcd_to_binary (reg s RTC_DAY), hour = bcd_to_binary (reg s RTC_HOURS),
      minute = bcd_to_binary (reg s RTC_MINUTES), second = bcd_to_binary (reg s RTC_SECONDS), weekday = reg s RTC_WEEKDAY\<rparr>"
proof -
  have rd: "fst (read_register io r u) = reg u r" "reg (snd (read_register io r u)) = reg u" if "r \<noteq> RTC_STATUS_C" for r u
    using assms(1) that by (auto simp: cmos_def)
  have ne: "RTC_SECONDS \<noteq> RTC_STATUS_C" "RTC_MINUTES \<noteq> RTC_STATUS_C" "RTC_HOURS \<noteq> RTC_STATUS_C" "RTC_WEEKDAY \<noteq> RTC_STATUS_C" "RTC_DAY \<noteq> RTC_STATUS_C"
    "RTC_MONTH \<noteq> RTC_STATUS_C" "RTC_YEAR \<noteq> RTC_STATUS_C" "RTC_CENTURY \<noteq> RTC_STATUS_C" "RTC_STATUS_B \<noteq> RTC_STATUS_C"
    by (simp_all add: rtc_registers)
  show ?thesis using assms(3,4) unfolding rtc_read_time_def Let_def case_prod_beta
    by (simp add: rd ne wait_ready_kept [OF assms(1,2)])
qed

lemma set_time_eq:
  assumes "cmos io reg" "reg s RTC_STATUS_A AND RTC_UIP = 0"
  shows "reg (rtc_set_time io t s) = (reg s)(RTC_SECONDS := binary_to_bcd (second t), RTC_MINUTES := binary_to_bcd (minute t), RTC_HOURS := binary_to_bcd (hour t),
     RTC_DAY := binary_to_bcd (day t), RTC_MONTH := binary_to_bcd (month t), RTC_YEAR := binary_to_bcd (ucast (year t mod 100)),
     RTC_CENTURY := binary_to_bcd (ucast (year t div 100)), RTC_WEEKDAY := weekday t)"
proof -
  have wr: "reg (write_register io r v u) = (reg u)(r := v)" for r v u using assms(1) by (simp add: cmos_def)
  show ?thesis unfolding rtc_set_time_def Let_def wr wait_ready_kept [OF assms] ..
qed

lemma set_read_time:
  assumes "cmos io reg" "reg s RTC_STATUS_A AND RTC_UIP = 0" "reg s RTC_STATUS_B AND RTC_24H \<noteq> 0" "valid_time t"
  shows "fst (rtc_read_time io (rtc_set_time io t s)) = t"
proof -
  let ?s = "rtc_set_time io t s"
  note r = set_time_eq [OF assms(1,2), of t]
  note v = assms(4) [unfolded valid_time_def]
  let ?c = "unat (year t) div 100" and ?y = "unat (year t) mod 100"
  have c: "?c = 19 \<or> ?c = 20" using v by auto
  have uc: "unat (year t div 100) = ?c" "unat (year t mod 100) = ?y" by (simp_all add: unat_div unat_mod)
  have cc: "unat (ucast (year t div 100) :: u8) = ?c" "unat (ucast (year t mod 100) :: u8) = ?y"
    using c uc by (auto simp: unsigned_ucast_eq unsigned_take_bit_eq take_bit_nat_eq_self)
  have "(ucast (year t div 100) :: u8) = of_nat ?c" using cc(1) of_unat by metis
  then have cen: "binary_to_bcd (ucast (year t div 100)) = 0x20 \<or> binary_to_bcd (ucast (year t div 100)) = 0x19" using c by (auto simp: binary_to_bcd_def)
  have "(ucast w :: u16) = of_nat (unat w)" for w :: u8 by simp
  then have "ucast (ucast (year t div 100) :: u8) * 100 + ucast (ucast (year t mod 100) :: u8) = (of_nat ?c * 100 + of_nat ?y :: u16)" unfolding cc by (simp only: cc)
  also have "\<dots> = of_nat (?c * 100 + ?y)" by (simp only: of_nat_add of_nat_mult of_nat_numeral)
  also have "\<dots> = year t" by simp
  finally have yr: "ucast (ucast (year t div 100) :: u8) * 100 + ucast (ucast (year t mod 100) :: u8) = year t" .
  have b: "bcd_to_binary (binary_to_bcd (ucast (year t div 100))) = ucast (year t div 100)" "bcd_to_binary (binary_to_bcd (ucast (year t mod 100))) = ucast (year t mod 100)"
    by (rule bcd_roundtrip, unfold cc, use c in auto)+
  have "fst (rtc_read_time io ?s) = \<lparr>year = ucast (bcd_to_binary (binary_to_bcd (ucast (year t div 100)))) * 100 + ucast (bcd_to_binary (binary_to_bcd (ucast (year t mod 100)))),
      month = bcd_to_binary (binary_to_bcd (month t)), day = bcd_to_binary (binary_to_bcd (day t)), hour = bcd_to_binary (binary_to_bcd (hour t)),
      minute = bcd_to_binary (binary_to_bcd (minute t)), second = bcd_to_binary (binary_to_bcd (second t)), weekday = weekday t\<rparr>"
    using read_time_eq [OF assms(1), of ?s] assms(2,3) cen unfolding r by (simp add: rtc_registers)
  also have "\<dots> = t" using v yr by (simp add: b bcd_roundtrip)
  finally show ?thesis .
qed


lemma init_24h:
  assumes "cmos io reg"
  shows "reg (rtc_init io s) RTC_STATUS_A = reg s RTC_STATUS_A" "reg (rtc_init io s) RTC_STATUS_B AND RTC_24H \<noteq> 0"
proof -
  have rd: "fst (read_register io RTC_STATUS_B u) = reg u RTC_STATUS_B" "reg (snd (read_register io RTC_STATUS_B u)) = reg u" for u
    using assms by (auto simp: cmos_def rtc_registers)
  have c: "reg (snd (read_register io RTC_STATUS_C u)) RTC_STATUS_A = reg u RTC_STATUS_A" "reg (snd (read_register io RTC_STATUS_C u)) RTC_STATUS_B = reg u RTC_STATUS_B" for u
    using assms by (auto simp: cmos_def rtc_registers)
  have wr: "reg (write_register io r v u) = (reg u)(r := v)" for r v u using assms by (simp add: cmos_def)
  have ab: "RTC_STATUS_A \<noteq> RTC_STATUS_B" by (simp add: rtc_registers)
  show "reg (rtc_init io s) RTC_STATUS_A = reg s RTC_STATUS_A" using ab by (simp add: rtc_init_def Let_def case_prod_beta rd c wr)
  have "bit (((x OR RTC_24H) AND NOT RTC_BINARY) AND RTC_24H) 1" for x by (simp add: RTC_24H_def RTC_BINARY_def bit_simps)
  then have "((x OR RTC_24H) AND NOT RTC_BINARY) AND RTC_24H \<noteq> 0" for x by (metis bit_0_eq bot_apply bot_bool_def)
  then show "reg (rtc_init io s) RTC_STATUS_B AND RTC_24H \<noteq> 0" by (simp add: rtc_init_def Let_def case_prod_beta rd c wr)
qed

text \<open>C39. On a chip that keeps its registers (\<open>cmos\<close>) and is not in the middle of an update, once \<open>rtc_init\<close> has switched the clock to 24-hour mode, a timestamp before the year 2100 that is set with
\<open>rtc_set_unix\<close> is the timestamp \<open>rtc_read_unix\<close> returns: the calendar computations, which walk the years and months forwards and
backwards, and the conversions to and from binary-coded decimals undo each other.  The day of the week does not come back: day \<open>0\<close> of the epoch was a Thursday,
so day \<open>n\<close> has position \<open>n + 3\<close> modulo 7 in a week from Monday, but the name read back is the one at position \<open>n + 4\<close>, the day after.
\<close>

theorem rtc_unix_roundtrip:
  assumes "cmos io reg" "reg s RTC_STATUS_A AND RTC_UIP = 0" "unat t < 4102444800"
  shows "\<exists>s1 s2. rtc_set_unix io t (rtc_init io s) = Inr s1 \<and> rtc_read_unix io s1 = Inr (t, s2) \<and>
    rtc_get_weekday_string (weekday (fst (rtc_read_time io s1))) = Inr (day_names ! ((unat t div 86400 + 4) mod 7))"
proof -
  let ?s = "rtc_init io s"
  have i: "reg ?s RTC_STATUS_A AND RTC_UIP = 0" "reg ?s RTC_STATUS_B AND RTC_24H \<noteq> 0" using init_24h [OF assms(1), of s] assms(2) by simp_all
  obtain T where T: "time_of_unix t = Inr T" "unix_of T = Inr t" "valid_time T" "weekday T = ucast ((t div 86400 + 4) mod 7 + 1)"
    using time_roundtrip [OF assms(3)] by blast
  have r: "fst (rtc_read_time io (rtc_set_time io T ?s)) = T" by (rule set_read_time [OF assms(1) i T(3)])
  have n: "unat (t div 86400 + 4) = unat t div 86400 + 4" using assms(3) by (simp add: unat_word_ariths unat_div less_mult_imp_div_less)
  have w: "unat (weekday T) = (unat t div 86400 + 4) mod 7 + 1"
  proof -
    have "unat ((t div 86400 + 4) mod 7 + 1) = (unat t div 86400 + 4) mod 7 + 1" using n by (simp add: unat_word_ariths unat_mod)
    moreover have "(unat t div 86400 + 4) mod 7 < 7" by simp
    ultimately show ?thesis unfolding T(4) by (subst ucast_small) linarith+
  qed
  define k where "k = (unat t div 86400 + 4) mod 7"
  have k: "k < 7" "unat (weekday T) = Suc k" using w by (simp_all add: k_def)
  have "uint (weekday T) - 1 = int k" using k(2) by (metis add_diff_cancel_left' of_nat_Suc uint_nat)
  then have wd: "rtc_get_weekday_string (weekday T) = Inr (day_names ! ((unat t div 86400 + 4) mod 7))"
    using k rd_nat [of k day_names] unfolding k_def [symmetric] by (simp add: rtc_get_weekday_string_def word_less_nat_alt) (simp add: day_names_def)
  show ?thesis using T(1,2) r wd by (simp add: rtc_set_unix_def rtc_read_unix_def case_prod_beta)
qed


text \<open>A chip that behaves so: the selected register and the registers.\<close>

definition chip :: "(u8 \<times> (u8 \<Rightarrow> u8)) ports" where
  "chip = \<lparr>outb = \<lambda>port v (i, r). if port = RTC_PORT_CMD then (v, r) else if port = RTC_PORT_DATA then (i, r(i := v)) else (i, r),
     inb = \<lambda>port (i, r). (if port = RTC_PORT_DATA then r i else 0, (i, r))\<rparr>"

theorem rtc_unix_roundtrip_witness:
  "\<exists>s1 s2. rtc_set_unix chip 1700000000 (rtc_init chip (0, \<lambda>_. 0)) = Inr s1 \<and> rtc_read_unix chip s1 = Inr (1700000000, s2) \<and>
     rtc_get_weekday_string (weekday (fst (rtc_read_time chip s1))) = Inr [87, 101, 100, 110, 101, 115, 100, 97, 121, 0]"
proof -
  have c: "cmos chip snd" by (auto simp: cmos_def chip_def read_register_def write_register_def RTC_PORT_CMD_def RTC_PORT_DATA_def)
  show ?thesis using rtc_unix_roundtrip [OF c, of "(0, \<lambda>_. 0)" 1700000000] by (simp add: day_names_def)
qed

end
