(* ===== verification/Timer.thy ===== *)
theory Timer
  imports Rtc
begin

text \<open>
  The timer subsystem (\<open>core/drivers/timer.c\<close>): a table of timer drivers, the choice of the active one, and the driver for the
  real-time clock, which prints the time into a buffer.  The driver works on the state of the ports and on the flag \<open>rtc_hw_initialized\<close>; the
  uptime of the interrupt controller is an argument.  Console output is left out.
\<close>

subsection \<open>The adapter of the real-time clock\<close>

record 'h clock =
  hw :: 'h
  rtc_hw_initialized :: bool

definition rtc_adapter_get_time :: "'h ports \<Rightarrow> 'h clock \<Rightarrow> (u64 \<times> 'h clock) res" where
  "rtc_adapter_get_time io s =
     (if \<not> rtc_hw_initialized s then Inr (0, s)
      else bindR (rtc_read_unix io (hw s)) (\<lambda>(t, h). Inr (t, s\<lparr>hw := h\<rparr>)))"

text \<open>\<open>apic\<close> is the uptime in milliseconds if the interrupt controller is available.\<close>

definition rtc_adapter_get_uptime :: "('h \<Rightarrow> u64 option) \<Rightarrow> 'h clock \<Rightarrow> (u64 \<times> 'h clock) res" where
  "rtc_adapter_get_uptime apic s = Inr (case apic (hw s) of Some ms \<Rightarrow> ms | None \<Rightarrow> 0, s)"

definition rtc_adapter_get_unix_epoch :: "'h ports \<Rightarrow> 'h clock \<Rightarrow> (u64 \<times> 'h clock) res" where
  "rtc_adapter_get_unix_epoch io s =
     (if \<not> rtc_hw_initialized s then Inr (0, s)
      else bindR (rtc_read_unix io (hw s)) (\<lambda>(t, h). Inr (t, s\<lparr>hw := h\<rparr>)))"

text \<open>\<open>if (pos < size - 1) buf[pos++] = c;\<close> and \<open>while (*str && pos < size - 1) buf[pos++] = *str++;\<close>.\<close>

definition put_char :: "u8 \<Rightarrow> nat \<Rightarrow> u8 list \<times> nat \<Rightarrow> (u8 list \<times> nat) res" where
  "put_char c size' = (\<lambda>(buf, pos). if pos < size' - 1 then bindR (wr buf (int pos) c) (\<lambda>buf. Inr (buf, pos + 1)) else Inr (buf, pos))"

fun put_str :: "u8 list \<Rightarrow> nat \<Rightarrow> u8 list \<times> nat \<Rightarrow> (u8 list \<times> nat) res" where
  "put_str [] size' bp = Inl OutOfBounds"
| "put_str (c # cs) size' (buf, pos) =
     (if c \<noteq> 0 \<and> pos < size' - 1 then bindR (wr buf (int pos) c) (\<lambda>buf. put_str cs size' (buf, pos + 1)) else Inr (buf, pos))"

definition put_number :: "u16 \<Rightarrow> nat \<Rightarrow> u8 list \<Rightarrow> u8 list \<times> nat \<Rightarrow> (u8 list \<times> (u8 list \<times> nat)) res" where
  "put_number n size' temp bp =
     bindR (itoa (ucast n) temp 10) (\<lambda>temp. bindR (put_str temp size' bp) (\<lambda>bp. Inr (temp, bp)))"

text \<open>A two-digit field: \<open>if (n < 10 && pos < size - 1) buf[pos++] = '0';\<close> and then the number.\<close>

definition put_padded :: "u8 \<Rightarrow> nat \<Rightarrow> u8 list \<Rightarrow> u8 list \<times> nat \<Rightarrow> (u8 list \<times> (u8 list \<times> nat)) res" where
  "put_padded n size' temp bp =
     bindR (if n < 10 then put_char 48 size' bp else Inr bp) (\<lambda>bp. put_number (ucast n) size' temp bp)"

definition month_names :: "u8 list list" where
  "month_names =
    [[74, 97, 110, 0], [70, 101, 98, 0], [77, 97, 114, 0], [65, 112, 114, 0], [77, 97, 121, 0], [74, 117, 110, 0],
     [74, 117, 108, 0], [65, 117, 103, 0], [83, 101, 112, 0], [79, 99, 116, 0], [78, 111, 118, 0], [68, 101, 99, 0]]"

definition rtc_not_initialized :: "u8 list" where
  "rtc_not_initialized = [82, 84, 67, 32, 110, 111, 116, 32, 105, 110, 105, 116, 105, 97, 108, 105, 122, 101, 100, 0]"

text \<open>\<open>len = strlen(err); if (len >= size) len = size - 1; memcpy(buf, err, len); buf[len] = 0;\<close>.\<close>

definition put_message :: "u8 list \<Rightarrow> u8 list \<Rightarrow> nat \<Rightarrow> u8 list res" where
  "put_message err buf size' =
     bindR (strlen err) (\<lambda>len.
     let len = if size' \<le> len then size' - 1 else len in
     bindR (memcpy buf 0 err len) (\<lambda>buf. wr buf (int len) 0))"

definition write_time :: "rtc_time \<Rightarrow> u8 list \<Rightarrow> u8 list \<Rightarrow> nat \<Rightarrow> u8 list res" where
  "write_time t temp buf size' =
     bindR (rtc_get_weekday_string (weekday t)) (\<lambda>day_str.
     bindR (put_str day_str size' (buf, 0)) (\<lambda>bp.
     bindR (put_char 32 size' bp) (\<lambda>bp.
     bindR (rd month_names (uint (month t) - 1)) (\<lambda>month_str.
     bindR (put_str month_str size' bp) (\<lambda>bp.
     bindR (put_char 32 size' bp) (\<lambda>bp.
     bindR (put_number (ucast (day t)) size' temp bp) (\<lambda>(temp, bp).
     bindR (put_char 32 size' bp) (\<lambda>bp.
     bindR (put_padded (hour t) size' temp bp) (\<lambda>(temp, bp).
     bindR (put_char 58 size' bp) (\<lambda>bp.
     bindR (put_padded (minute t) size' temp bp) (\<lambda>(temp, bp).
     bindR (put_char 58 size' bp) (\<lambda>bp.
     bindR (put_padded (second t) size' temp bp) (\<lambda>(temp, bp).
     bindR (put_char 32 size' bp) (\<lambda>bp.
     bindR (put_number (year t) size' temp bp) (\<lambda>(temp, (buf, pos)).
     wr buf (int pos) 0)))))))))))))))"

text \<open>\<open>temp\<close> is the local array, whose contents nobody has set.\<close>

definition rtc_adapter_get_readable :: "'h ports \<Rightarrow> u8 list \<Rightarrow> u8 list \<Rightarrow> nat \<Rightarrow> 'h clock \<Rightarrow> (u8 list \<times> 'h clock) res" where
  "rtc_adapter_get_readable io temp buf size' s =
     (if size' < 2 then bindR (if 0 < size' then wr buf 0 0 else Inr buf) (\<lambda>buf. Inr (buf, s))
      else if \<not> rtc_hw_initialized s then bindR (put_message rtc_not_initialized buf size') (\<lambda>buf. Inr (buf, s))
      else
        let (t, h) = rtc_read_time io (hw s) in
        bindR (write_time t temp buf size') (\<lambda>buf. Inr (buf, s\<lparr>hw := h\<rparr>)))"

definition rtc_adapter_init :: "'h ports \<Rightarrow> 'h clock \<Rightarrow> 'h clock" where
  "rtc_adapter_init io s = s\<lparr>hw := rtc_init io (hw s), rtc_hw_initialized := True\<rparr>"

definition rtc_adapter_enable_interrupt :: "'h ports \<Rightarrow> u32 \<Rightarrow> 'h clock \<Rightarrow> 'h clock" where
  "rtc_adapter_enable_interrupt io hz s = (if rtc_hw_initialized s then s\<lparr>hw := rtc_enable_periodic_interrupt io hz (hw s)\<rparr> else s)"

definition rtc_adapter_disable_interrupt :: "'h ports \<Rightarrow> 'h clock \<Rightarrow> 'h clock" where
  "rtc_adapter_disable_interrupt io s = (if rtc_hw_initialized s then s\<lparr>hw := rtc_disable_periodic_interrupt io (hw s)\<rparr> else s)"

subsection \<open>Timers\<close>

definition MAX_TIMERS :: nat where "MAX_TIMERS = 8"

text \<open>A driver; \<open>get_name\<close> stands for the string its function returns.\<close>

record 's timer_driver =
  get_time :: "('s \<Rightarrow> (u64 \<times> 's) res) option"
  get_uptime :: "('s \<Rightarrow> (u64 \<times> 's) res) option"
  get_unix_epoch :: "('s \<Rightarrow> (u64 \<times> 's) res) option"
  get_readable :: "(u8 list \<Rightarrow> nat \<Rightarrow> 's \<Rightarrow> (u8 list \<times> 's) res) option"
  drv_init :: "('s \<Rightarrow> 's) option"
  enable_interrupt :: "(u32 \<Rightarrow> 's \<Rightarrow> 's) option"
  disable_interrupt :: "('s \<Rightarrow> 's) option"
  get_name :: "u8 list option"
  drv_name :: "u8 list option"

text \<open>\<open>Real-Time Clock (CMOS)\<close> and \<open>rtc\<close>.\<close>

definition rtc_adapter_get_name :: "u8 list" where
  "rtc_adapter_get_name = [82, 101, 97, 108, 45, 84, 105, 109, 101, 32, 67, 108, 111, 99, 107, 32, 40, 67, 77, 79, 83, 41, 0]"

definition rtc_timer_driver :: "'h ports \<Rightarrow> ('h \<Rightarrow> u64 option) \<Rightarrow> u8 list \<Rightarrow> 'h clock timer_driver" where
  "rtc_timer_driver io apic temp =
     \<lparr>get_time = Some (rtc_adapter_get_time io), get_uptime = Some (rtc_adapter_get_uptime apic), get_unix_epoch = Some (rtc_adapter_get_unix_epoch io),
      get_readable = Some (rtc_adapter_get_readable io temp), drv_init = Some (rtc_adapter_init io),
      enable_interrupt = Some (rtc_adapter_enable_interrupt io), disable_interrupt = Some (rtc_adapter_disable_interrupt io),
      get_name = Some rtc_adapter_get_name, drv_name = Some [114, 116, 99, 0]\<rparr>"

record 's timer_entry =
  driver :: "'s timer_driver option"
  initialized :: bool
  priority :: i32

record 's timer_table =
  timers :: "'s timer_entry list"
  timer_count :: nat
  active_timer :: "'s timer_driver option"
  timer_initialized :: bool

definition timer_register :: "'s timer_driver option \<Rightarrow> i32 \<Rightarrow> 's timer_table \<Rightarrow> (bool \<times> 's timer_table) res" where
  "timer_register drv prio t =
     (if drv = None \<or> MAX_TIMERS \<le> timer_count t then Inr (False, t)
      else bindR (wr (timers t) (int (timer_count t)) \<lparr>driver = drv, initialized = False, priority = prio\<rparr>) (\<lambda>ts.
        Inr (True, t\<lparr>timers := ts, timer_count := timer_count t + 1\<rparr>)))"

text \<open>The loop over the timers that looks for the best priority below 1000, a timer without uptime being put back by 100.\<close>

fun best_timer :: "'s timer_entry list \<Rightarrow> nat \<Rightarrow> nat \<Rightarrow> nat option \<times> i32 \<Rightarrow> nat option res" where
  "best_timer ts i 0 (b, p) = Inr b"
| "best_timer ts i (Suc n) (b, p) =
     bindR (rd ts (int i)) (\<lambda>e. case (initialized e, driver e) of
       (True, Some d) \<Rightarrow>
         let adj = priority e + (if get_uptime d = None then 100 else 0) in
         best_timer ts (Suc i) n (if sint adj < sint p then (Some i, adj) else (b, p))
     | _ \<Rightarrow> best_timer ts (Suc i) n (b, p))"

definition timer_select_best :: "'s timer_table \<Rightarrow> 's timer_table res" where
  "timer_select_best t =
     bindR (best_timer (timers t) 0 (timer_count t) (None, 1000)) (\<lambda>b. case b of
       None \<Rightarrow> Inr t
     | Some i \<Rightarrow> bindR (rd (timers t) (int i)) (\<lambda>e. Inr (t\<lparr>active_timer := driver e\<rparr>)))"

fun init_timers :: "nat \<Rightarrow> nat \<Rightarrow> bool \<Rightarrow> 's timer_table \<Rightarrow> 's \<Rightarrow> (bool \<times> 's timer_table \<times> 's) res" where
  "init_timers i 0 any t s = Inr (any, t, s)"
| "init_timers i (Suc n) any t s =
     bindR (rd (timers t) (int i)) (\<lambda>e. case driver e of
       None \<Rightarrow> Inl NullPointer
     | Some d \<Rightarrow> (case drv_init d of
           None \<Rightarrow> init_timers (Suc i) n any t s
         | Some f \<Rightarrow> bindR (wr (timers t) (int i) (e\<lparr>initialized := True\<rparr>)) (\<lambda>ts. init_timers (Suc i) n True (t\<lparr>timers := ts\<rparr>) (f s))))"

definition init_timer_subsystem :: "'s timer_driver \<Rightarrow> 's timer_table \<Rightarrow> 's \<Rightarrow> ('s timer_table \<times> 's) res" where
  "init_timer_subsystem rtc t s =
     bindR (timer_register (Some rtc) 10 t) (\<lambda>(_, t).
     bindR (init_timers 0 (timer_count t) False t s) (\<lambda>(any_success, t, s).
     bindR (if any_success then timer_select_best t else Inr (t\<lparr>active_timer := None\<rparr>)) (\<lambda>t.
     Inr (t\<lparr>timer_initialized := True\<rparr>, s))))"

definition timer_get_uptime :: "'s timer_table \<Rightarrow> 's \<Rightarrow> (u64 \<times> 's) res" where
  "timer_get_uptime t s = (case (if timer_initialized t then active_timer t else None) of
       None \<Rightarrow> Inr (0, s)
     | Some d \<Rightarrow> (case get_uptime d of None \<Rightarrow> Inr (0, s) | Some f \<Rightarrow> f s))"

definition timer_get_time :: "'s timer_table \<Rightarrow> 's \<Rightarrow> (u64 \<times> 's) res" where
  "timer_get_time t s = (case (if timer_initialized t then active_timer t else None) of
       None \<Rightarrow> Inr (0, s)
     | Some d \<Rightarrow> (case get_time d of None \<Rightarrow> Inr (0, s) | Some f \<Rightarrow> f s))"

definition timer_get_unix_epoch :: "'s timer_table \<Rightarrow> 's \<Rightarrow> (u64 \<times> 's) res" where
  "timer_get_unix_epoch t s = (case (if timer_initialized t then active_timer t else None) of
       None \<Rightarrow> Inr (0, s)
     | Some d \<Rightarrow> (case get_unix_epoch d of None \<Rightarrow> timer_get_time t s | Some f \<Rightarrow> f s))"

text \<open>The messages \<open>Timer not initialized\<close> and \<open>No readable function\<close>.\<close>

definition timer_not_initialized :: "u8 list" where
  "timer_not_initialized = [84, 105, 109, 101, 114, 32, 110, 111, 116, 32, 105, 110, 105, 116, 105, 97, 108, 105, 122, 101, 100, 0]"

definition no_readable_function :: "u8 list" where
  "no_readable_function = [78, 111, 32, 114, 101, 97, 100, 97, 98, 108, 101, 32, 102, 117, 110, 99, 116, 105, 111, 110, 0]"

definition timer_get_readable :: "'s timer_table \<Rightarrow> u8 list option \<Rightarrow> nat \<Rightarrow> 's \<Rightarrow> (u8 list option \<times> 's) res" where
  "timer_get_readable t buf size' s = (case buf of
       None \<Rightarrow> Inr (None, s)
     | Some b \<Rightarrow>
         if size' = 0 then Inr (Some b, s)
         else bindR (memset b 0 0 size') (\<lambda>b.
           case (if timer_initialized t then active_timer t else None) of
             None \<Rightarrow> bindR (put_message timer_not_initialized b size') (\<lambda>b. Inr (Some b, s))
           | Some d \<Rightarrow>
               bindR (case get_readable d of
                   Some f \<Rightarrow> f b size' s
                 | None \<Rightarrow> bindR (put_message no_readable_function b size') (\<lambda>b. Inr (b, s))) (\<lambda>(b, s).
               bindR (wr b (int size' - 1) 0) (\<lambda>b. Inr (Some b, s)))))"

definition timer_get_name :: "'s timer_table \<Rightarrow> u8 list" where
  "timer_get_name t = (case (if timer_initialized t then active_timer t else None) of
       None \<Rightarrow> timer_not_initialized
     | Some d \<Rightarrow> (case get_name d of Some nm \<Rightarrow> nm
         | None \<Rightarrow> (case drv_name d of Some nm \<Rightarrow> nm | None \<Rightarrow> [85, 110, 107, 110, 111, 119, 110, 32, 116, 105, 109, 101, 114, 0])))"

subsection \<open>Printing\<close>

text \<open>The buffer \<open>l\<close> with as much of \<open>out\<close> in it as fits below \<open>n\<close> with a terminator.\<close>

definition filled :: "u8 list \<Rightarrow> nat \<Rightarrow> u8 list \<Rightarrow> u8 list \<times> nat \<Rightarrow> bool" where
  "filled l n out = (\<lambda>(buf, pos). length buf = length l \<and> n \<le> length l \<and> drop n buf = drop n l \<and> pos = min (length out) (n - 1) \<and> take pos buf = take (n - 1) out)"

lemma put_char_filled:
  assumes "filled l n out bp"
  shows "\<exists>bp'. put_char c n bp = Inr bp' \<and> filled l n (out @ [c]) bp'"
proof -
  obtain buf pos where bp: "bp = (buf, pos)" by (cases bp)
  note f = assms [unfolded filled_def bp prod.case]
  show ?thesis
  proof (cases "pos < n - 1")
    case True
    then have p: "pos = length out" using f by simp
    have lt: "pos < length buf" using True f by auto
    then have "take (Suc pos) (buf[pos := c]) = take pos buf @ [c]" by (simp add: take_Suc_conv_app_nth)
    moreover have "take pos buf = out" using True f p by simp
    ultimately show ?thesis using True f p lt by (simp add: bp put_char_def wr_nat filled_def)
  next
    case False
    then show ?thesis using f by (auto simp: bp put_char_def filled_def)
  qed
qed

lemma put_str_filled:
  assumes "terminated str" "filled l n out bp"
  shows "\<exists>bp'. put_str str n bp = Inr bp' \<and> filled l n (out @ cstr str) bp'"
  using assms
proof (induction str arbitrary: out bp)
  case (Cons c cs)
  obtain buf pos where bp: "bp = (buf, pos)" by (cases bp)
  note f = Cons.prems(2) [unfolded filled_def bp prod.case]
  show ?case
  proof (cases "c \<noteq> 0 \<and> pos < n - 1")
    case True
    obtain bp' where b: "put_char c n bp = Inr bp'" "filled l n (out @ [c]) bp'" using put_char_filled [OF Cons.prems(2)] by blast
    have "put_str (c # cs) n bp = put_str cs n bp'" using True b(1) f by (auto simp: bp put_char_def wr_nat)
    then show ?thesis using Cons.IH [OF _ b(2)] Cons.prems(1) True by (simp add: terminated_Cons cstr_Cons)
  next
    case False
    then have "put_str (c # cs) n bp = Inr bp" by (auto simp: bp)
    moreover have "filled l n (out @ cstr (c # cs)) bp" using False f by (auto simp: bp filled_def cstr_Cons)
    ultimately show ?thesis by blast
  qed
qed simp

definition decimal :: "nat \<Rightarrow> u8 list" where
  "decimal n = (if n = 0 then [48] else rev (map digit_char (digits 10 n)))"

lemma itoa_decimal:
  assumes "length temp = 32"
  shows "\<exists>temp'. itoa (ucast (w :: u16)) temp 10 = Inr temp' \<and> length temp' = 32 \<and> terminated temp' \<and> cstr temp' = decimal (unat w)"
proof (cases "w = 0")
  case True
  obtain a c r where "temp = a # c # r" using assms by (cases temp; cases "tl temp") auto
  then show ?thesis using True assms by (simp add: itoa_def wr_def decimal_def terminated_def cstr_def)
next
  case False
  have w: "unat w < 65536" using unsigned_less [of w] by simp
  have "unat (ucast w :: i32) = unat w" by (rule unat_ucast_up) simp
  then have u: "uint (ucast w :: i32) = int (unat w)" by (metis uint_nat)
  moreover have "int (unat w) < 65536" using w by linarith
  ultimately have "uint (ucast w :: i32) < 2 ^ (LENGTH(32) - 1)" by simp
  then have s: "sint (ucast w :: i32) = int (unat w)" using u sint_small_eq_uint by metis
  have l: "length (digits 10 (unat w)) \<le> 5" by (rule digits_length) (use w in simp_all)
  have "itoa (ucast w) temp 10 = Inr (rev (map digit_char (digits 10 (unat w))) @ 0 # drop (Suc (length (digits 10 (unat w)))) temp)"
    by (rule itoa_positive [OF s]) (use False l assms in \<open>simp_all add: unat_gt_0\<close>)
  moreover have "0 < unat w" using False by (simp add: unat_gt_0)
  ultimately show ?thesis using cstr_append_zero(1) [OF digit_string(1) [of 10 "unat w"]] cstr_append_zero(2) l assms by (simp add: decimal_def)
qed

lemma put_number_filled:
  assumes "length temp = 32" "filled l n out bp"
  shows "\<exists>temp' bp'. put_number w n temp bp = Inr (temp', bp') \<and> length temp' = 32 \<and> filled l n (out @ decimal (unat w)) bp'"
proof -
  obtain temp' where t: "itoa (ucast w) temp 10 = Inr temp'" "length temp' = 32" "terminated temp'" "cstr temp' = decimal (unat w)"
    using itoa_decimal [OF assms(1)] by blast
  show ?thesis using put_str_filled [OF t(3) assms(2)] t by (auto simp: put_number_def)
qed

definition two_digits :: "nat \<Rightarrow> u8 list" where
  "two_digits n = (if n < 10 then [48] else []) @ decimal n"

lemma put_padded_filled:
  assumes "length temp = 32" "filled l n out bp"
  shows "\<exists>temp' bp'. put_padded w n temp bp = Inr (temp', bp') \<and> length temp' = 32 \<and> filled l n (out @ two_digits (unat w)) bp'"
proof (cases "w < 10")
  case True
  obtain bp1 where 1: "put_char 48 n bp = Inr bp1" "filled l n (out @ [48]) bp1" using put_char_filled [OF assms(2)] by blast
  show ?thesis using put_number_filled [OF assms(1) 1(2), of "ucast w"] True 1(1) by (simp add: put_padded_def two_digits_def word_less_nat_alt unat_ucast_up)
next
  case False
  then show ?thesis using put_number_filled [OF assms, of "ucast w"] by (simp add: put_padded_def two_digits_def word_less_nat_alt unat_ucast_up)
qed


text \<open>The text of a time: weekday, month, day, time of day and year.\<close>

definition time_text :: "rtc_time \<Rightarrow> u8 list" where
  "time_text t =
     (if weekday t < 1 \<or> weekday t > 7 then [85, 110, 107, 110, 111, 119, 110] else cstr (day_names ! (unat (weekday t) - 1))) @ [32] @
     cstr (month_names ! (unat (month t) - 1)) @ [32] @ decimal (unat (day t)) @ [32] @ two_digits (unat (hour t)) @ [58] @
     two_digits (unat (minute t)) @ [58] @ two_digits (unat (second t)) @ [32] @ decimal (unat (year t))"

lemma bindR_ex: "\<exists>y. m = Inr y \<and> P y \<Longrightarrow> (\<And>y. P y \<Longrightarrow> \<exists>z. f y = Inr z \<and> Q z) \<Longrightarrow> \<exists>z. bindR m f = Inr z \<and> Q z"
  by fastforce

lemma weekday_string:
  "\<exists>str. rtc_get_weekday_string w = Inr str \<and> terminated str \<and> cstr str = (if w < 1 \<or> w > 7 then [85, 110, 107, 110, 111, 119, 110] else cstr (day_names ! (unat w - 1)))"
proof (cases "w < 1 \<or> w > 7")
  case True
  then show ?thesis by (auto simp: rtc_get_weekday_string_def terminated_def cstr_def)
next
  case False
  then have w: "1 \<le> unat w" "unat w \<le> 7" by (auto simp: word_less_nat_alt not_less)
  have "uint w - 1 = int (unat w - 1)" using w(1) by (simp add: of_nat_diff)
  moreover have "unat w - 1 < length day_names" using w by (simp add: day_names_def)
  ultimately have "rtc_get_weekday_string w = Inr (day_names ! (unat w - 1))" using False rd_nat [of "unat w - 1" day_names] by (simp add: rtc_get_weekday_string_def)
  moreover have "\<forall>d \<in> set day_names. terminated d" by (simp add: day_names_def terminated_def)
  ultimately show ?thesis using False \<open>unat w - 1 < length day_names\<close> by simp
qed

lemma month_string:
  assumes "1 \<le> unat m" "unat m \<le> 12"
  shows "rd month_names (uint m - 1) = Inr (month_names ! (unat m - 1)) \<and> terminated (month_names ! (unat m - 1))"
proof -
  have l: "unat m - 1 < length month_names" using assms by (simp add: month_names_def)
  have "uint m - 1 = int (unat m - 1)" using assms(1) by (simp add: of_nat_diff)
  moreover have "\<forall>d \<in> set month_names. terminated d" by (simp add: month_names_def terminated_def)
  ultimately show ?thesis using l rd_nat [OF l] by simp
qed

lemma write_time_eq:
  assumes "length temp = 32" "n \<le> length buf" "0 < n" "1 \<le> unat (month t)" "unat (month t) \<le> 12"
  shows "\<exists>buf'. write_time t temp buf n = Inr buf' \<and> length buf' = length buf \<and> drop n buf' = drop n buf \<and> terminated (take n buf') \<and> cstr buf' = take (n - 1) (time_text t)"
proof -
  let ?l = buf
  obtain ds where d: "rtc_get_weekday_string (weekday t) = Inr ds" "terminated ds"
    "cstr ds = (if weekday t < 1 \<or> weekday t > 7 then [85, 110, 107, 110, 111, 119, 110] else cstr (day_names ! (unat (weekday t) - 1)))"
    using weekday_string by blast
  note m = month_string [OF assms(4,5)]
  have "filled ?l n [] (buf, 0)" using assms(2) by (simp add: filled_def)
  then obtain b1 where 1: "put_str ds n (buf, 0) = Inr b1" "filled ?l n ([] @ cstr ds) b1" using put_str_filled [OF d(2)] by blast
  obtain b2 where 2: "put_char 32 n b1 = Inr b2" "filled ?l n (([] @ cstr ds) @ [32]) b2" using put_char_filled [OF 1(2)] by blast
  obtain b3 where 3: "put_str (month_names ! (unat (month t) - 1)) n b2 = Inr b3" "filled ?l n ((([] @ cstr ds) @ [32]) @ cstr (month_names ! (unat (month t) - 1))) b3"
    using put_str_filled [OF conjunct2 [OF m] 2(2)] by blast
  obtain b4 where 4: "put_char 32 n b3 = Inr b4" "filled ?l n (((([] @ cstr ds) @ [32]) @ cstr (month_names ! (unat (month t) - 1))) @ [32]) b4" using put_char_filled [OF 3(2)] by blast
  define o4 where "o4 = ((([] @ cstr ds) @ [32]) @ cstr (month_names ! (unat (month t) - 1))) @ [32]"
  obtain t5 b5 where 5: "put_number (ucast (day t)) n temp b4 = Inr (t5, b5)" "length t5 = 32" "filled ?l n (o4 @ decimal (unat (ucast (day t) :: u16))) b5"
    using put_number_filled [OF assms(1) 4(2)] unfolding o4_def by blast
  obtain b6 where 6: "put_char 32 n b5 = Inr b6" "filled ?l n ((o4 @ decimal (unat (ucast (day t) :: u16))) @ [32]) b6" using put_char_filled [OF 5(3)] by blast
  define o6 where "o6 = (o4 @ decimal (unat (ucast (day t) :: u16))) @ [32]"
  obtain t7 b7 where 7: "put_padded (hour t) n t5 b6 = Inr (t7, b7)" "length t7 = 32" "filled ?l n (o6 @ two_digits (unat (hour t))) b7"
    using put_padded_filled [OF 5(2) 6(2)] unfolding o6_def by blast
  obtain b8 where 8: "put_char 58 n b7 = Inr b8" "filled ?l n ((o6 @ two_digits (unat (hour t))) @ [58]) b8" using put_char_filled [OF 7(3)] by blast
  define o8 where "o8 = (o6 @ two_digits (unat (hour t))) @ [58]"
  obtain t9 b9 where 9: "put_padded (minute t) n t7 b8 = Inr (t9, b9)" "length t9 = 32" "filled ?l n (o8 @ two_digits (unat (minute t))) b9"
    using put_padded_filled [OF 7(2) 8(2)] unfolding o8_def by blast
  obtain b10 where 10: "put_char 58 n b9 = Inr b10" "filled ?l n ((o8 @ two_digits (unat (minute t))) @ [58]) b10" using put_char_filled [OF 9(3)] by blast
  define o10 where "o10 = (o8 @ two_digits (unat (minute t))) @ [58]"
  obtain t11 b11 where 11: "put_padded (second t) n t9 b10 = Inr (t11, b11)" "length t11 = 32" "filled ?l n (o10 @ two_digits (unat (second t))) b11"
    using put_padded_filled [OF 9(2) 10(2)] unfolding o10_def by blast
  obtain b12 where 12: "put_char 32 n b11 = Inr b12" "filled ?l n ((o10 @ two_digits (unat (second t))) @ [32]) b12" using put_char_filled [OF 11(3)] by blast
  define o12 where "o12 = (o10 @ two_digits (unat (second t))) @ [32]"
  obtain t13 bb pp where 13: "put_number (year t) n t11 b12 = Inr (t13, (bb, pp))" "filled ?l n (o12 @ decimal (unat (year t))) (bb, pp)"
    using put_number_filled [OF 11(2) 12(2), of "year t"] unfolding o12_def by auto
  have tt: "o12 @ decimal (unat (year t)) = time_text t"
    unfolding o12_def o10_def o8_def o6_def o4_def time_text_def using d(3) by (simp add: unat_ucast_up)
  have f: "length bb = length buf" "drop n bb = drop n buf" "pp = min (length (time_text t)) (n - 1)" "take pp bb = take (n - 1) (time_text t)" using 13(2) unfolding tt filled_def by (auto simp del: min_less_iff_conj)
  have "0 \<notin> set (decimal k)" for k using digit_string(1) [of 10 k] by (simp add: decimal_def)
  then have "0 \<notin> set (time_text t)" using cstr_no_zero by (simp add: time_text_def two_digits_def)
  then have z: "0 \<notin> set (take (n - 1) (time_text t))" by (meson in_set_takeD)
  have pl: "pp < n" "pp < length bb" using f assms(2,3) by auto
  have "wr bb (int pp) 0 = Inr (take pp bb @ 0 # drop (Suc pp) bb)" using pl(2) by (simp add: wr_nat upd_conv_take_nth_drop)
  then have "write_time t temp buf n = Inr (take pp bb @ 0 # drop (Suc pp) bb)"
    using d(1) m 1(1) 2(1) 3(1) 4(1) 5(1) 6(1) 7(1) 8(1) 9(1) 10(1) 11(1) 12(1) 13(1) by (simp add: write_time_def)
  moreover have "cstr (take pp bb @ 0 # drop (Suc pp) bb) = take (n - 1) (time_text t)" using cstr_append_zero(1) [OF z] unfolding f(4) by simp
  moreover have "terminated (take n (take pp bb @ 0 # drop (Suc pp) bb))" using pl by (simp add: terminated_def take_append take_Cons')
  moreover have "length (take pp bb @ 0 # drop (Suc pp) bb) = length buf" using pl(2) f(1) by simp
  moreover have "drop n (take pp bb @ 0 # drop (Suc pp) bb) = drop n buf" using pl f(2) by (simp add: drop_Cons')
  ultimately show ?thesis by blast
qed


lemma cstr_update_end:
  assumes "terminated b" "length (cstr b) \<le> i"
  shows "cstr (b[i := 0]) = cstr b"
proof -
  obtain r where b: "b = cstr b @ 0 # r" using assms(1) by (metis append_take_drop_id cstr_end cstr_length cstr_take id_take_nth_drop)
  then have "b[i := 0] = cstr b @ (0 # r)[i - length (cstr b) := 0]" using assms(2) list_update_append [of "cstr b" "0 # r" i 0] by simp
  moreover have "\<exists>r'. (0 # r)[i - length (cstr b) := 0] = 0 # r'" by (cases "i - length (cstr b)") simp_all
  ultimately show ?thesis using cstr_append_zero(1) [OF cstr_no_zero] by metis
qed

definition no_timers :: "'s timer_table" where
  "no_timers = \<lparr>timers = replicate MAX_TIMERS \<lparr>driver = None, initialized = False, priority = 0\<rparr>, timer_count = 0, active_timer = None, timer_initialized = False\<rparr>"

lemma init_timers_rtc:
  "init_timer_subsystem (rtc_timer_driver io apic temp) no_timers s =
     Inr (\<lparr>timers = (replicate MAX_TIMERS \<lparr>driver = None, initialized = False, priority = 0\<rparr>)[0 := \<lparr>driver = Some (rtc_timer_driver io apic temp), initialized = True, priority = 10\<rparr>],
       timer_count = 1, active_timer = Some (rtc_timer_driver io apic temp), timer_initialized = True\<rparr>, rtc_adapter_init io s)"
  by (simp add: init_timer_subsystem_def timer_register_def no_timers_def MAX_TIMERS_def wr_def rd_def timer_select_best_def rtc_timer_driver_def Let_def)

text \<open>C40. After \<open>init_timer_subsystem\<close> the real-time clock is the active timer, and \<open>timer_get_readable\<close> fills a buffer of any size from two bytes on
with the date and time it reads, cut off to leave room for the terminator: weekday, month, day, hours, minutes and seconds in two digits, and the year.  The bytes behind the
given size are not touched.  The month must be one of the twelve: the code indexes the table of names with whatever the chip returns.
\<close>

theorem timer_readable:
  assumes "init_timer_subsystem (rtc_timer_driver io apic temp) no_timers s0 = Inr (T, s)" "length temp = 32" "2 \<le> n" "n \<le> length buf"
    and "t = fst (rtc_read_time io (hw s))" "1 \<le> unat (month t)" "unat (month t) \<le> 12"
  shows "\<exists>buf' s'. timer_get_readable T (Some buf) n s = Inr (Some buf', s') \<and> length buf' = length buf \<and> drop n buf' = drop n buf \<and>
    cstr buf' = take (n - 1) (time_text t) \<and> timer_get_name T = rtc_adapter_get_name"
proof -
  have T: "timer_initialized T" "active_timer T = Some (rtc_timer_driver io apic temp)" "rtc_hw_initialized s" using assms(1) unfolding init_timers_rtc by (auto simp: rtc_adapter_init_def)
  let ?b = "replicate n 0 @ drop n buf"
  have ms: "memset buf 0 0 n = Inr ?b" using memset_eq assms(4) by simp
  have l: "length ?b = length buf" "n \<le> length ?b" "drop n ?b = drop n buf" using assms(4) by simp_all
  obtain h where h: "rtc_read_time io (hw s) = (t, h)" using assms(5) by (metis prod.collapse)
  obtain b where b: "write_time t temp ?b n = Inr b" "length b = length buf" "drop n b = drop n buf" "terminated (take n b)" "cstr b = take (n - 1) (time_text t)"
    using write_time_eq [OF assms(2) l(2) _ assms(6,7)] l assms(3) by auto
  have "terminated b" using b(4) by (auto simp: terminated_def dest: in_set_takeD)
  then have c: "cstr (b[n - 1 := 0]) = take (n - 1) (time_text t)" using cstr_update_end [of b "n - 1"] b(5) by simp
  have w: "wr b (int n - 1) 0 = Inr (b[n - 1 := 0])" using wr_nat [of "n - 1" b 0] assms(3,4) b(2) by (simp add: of_nat_diff)
  have "drop n (b[n - 1 := 0]) = drop n buf" using assms(3) b(3) by simp
  then show ?thesis using T ms h b(1,2) c w assms(3)
    by (simp add: timer_get_readable_def rtc_timer_driver_def rtc_adapter_get_readable_def timer_get_name_def not_less)
qed

theorem timer_readable_witness:
  "\<exists>T s buf' s'. init_timer_subsystem (rtc_timer_driver chip (\<lambda>_. None) (replicate 32 0)) no_timers \<lparr>hw = (0, \<lambda>r. if r = RTC_MONTH then 2 else 1), rtc_hw_initialized = False\<rparr> = Inr (T, s) \<and>
     timer_get_readable T (Some (replicate 12 1)) 11 s = Inr (Some buf', s') \<and> cstr buf' = [77, 111, 110, 100, 97, 121, 32, 70, 101, 98] \<and> drop 11 buf' = [1]"
proof -
  let ?s0 = "\<lparr>hw = (0, \<lambda>r. if r = RTC_MONTH then 2 else 1), rtc_hw_initialized = False\<rparr> :: (u8 \<times> (u8 \<Rightarrow> u8)) clock"
  obtain T s where i: "init_timer_subsystem (rtc_timer_driver chip (\<lambda>_. None) (replicate 32 0)) no_timers ?s0 = Inr (T, s)"
    and s: "s = rtc_adapter_init chip ?s0" unfolding init_timers_rtc by blast
  have c: "cmos chip snd" by (auto simp: cmos_def chip_def read_register_def write_register_def RTC_PORT_CMD_def RTC_PORT_DATA_def)
  let ?t = "fst (rtc_read_time chip (hw s))"
  have a: "snd (hw s) RTC_STATUS_A AND RTC_UIP = 0" using init_24h(1) [OF c, of "hw ?s0"] by (simp add: s rtc_adapter_init_def RTC_UIP_def rtc_registers)
  have r: "snd (hw s) RTC_MONTH = 2" "snd (hw s) RTC_WEEKDAY = 1"
    by (simp_all add: s rtc_adapter_init_def rtc_init_def Let_def read_register_def write_register_def chip_def RTC_PORT_CMD_def RTC_PORT_DATA_def rtc_registers)
  have t: "weekday ?t = 1" "month ?t = 2"
    using r wait_ready_kept [OF c a] by (simp_all add: rtc_read_time_def Let_def case_prod_beta read_register_def chip_def RTC_PORT_CMD_def RTC_PORT_DATA_def bcd_to_binary_def)
  have tx: "take 10 (time_text ?t) = [77, 111, 110, 100, 97, 121, 32, 70, 101, 98]"
    using t by (simp add: time_text_def day_names_def month_names_def cstr_def)
  show ?thesis using timer_readable [OF i _ _ _ refl, of 11 "replicate 12 1"] t tx i by auto
qed

end
