(* ===== verification/Vfs.thy ===== *)
theory Vfs
  imports Block
begin

text \<open>
  The virtual file system (\<open>core/fs/vfs.c\<close>, \<open>include/core/fs/vfs.h\<close>): the table of files of the kernel itself, the descriptor table,
  the registered file systems, the mount table and the calls that route a path or a descriptor to the file or to the driver
  behind it.  Pointers into the static tables are indices; a null pointer is \<open>None\<close>.  The entry points of a driver are
  functions on its own state \<open>'s\<close>, reached through the tables as in the code, and device callbacks get the
  \<open>dev_data\<close> pointer of their file, the only field they use (\<open>None\<close> when the file pointer itself is null).
\<close>

subsection \<open>Tables\<close>

definition MAX_FILES :: nat where "MAX_FILES = 256"
definition MAX_HANDLES :: nat where "MAX_HANDLES = 64"
definition MAX_FILENAME :: nat where "MAX_FILENAME = 256"
definition MAX_FILE_SIZE :: nat where "MAX_FILE_SIZE = 65536"
definition MAX_FS_NAME :: nat where "MAX_FS_NAME = 32"
definition MAX_REGISTERED_FS :: nat where "MAX_REGISTERED_FS = 16"
definition MAX_MOUNT_PATH :: nat where "MAX_MOUNT_PATH = 256"
definition MAX_MOUNTS :: nat where "MAX_MOUNTS = 32"

definition VFS_READ :: i32 where "VFS_READ = 1"
definition VFS_WRITE :: i32 where "VFS_WRITE = 2"
definition VFS_CREAT :: i32 where "VFS_CREAT = 4"
definition VFS_TRUNC :: i32 where "VFS_TRUNC = 16"

definition ENOSPC :: i32 where "ENOSPC = 28"
definition EACCES :: i32 where "EACCES = 13"
definition ENOTTY :: i32 where "ENOTTY = 25"
definition EBADF :: i32 where "EBADF = 9"
definition EBUSY :: i32 where "EBUSY = 16"
definition ENOENT :: i32 where "ENOENT = 2"
definition ENOTDIR :: i32 where "ENOTDIR = 20"
definition EEXIST :: i32 where "EEXIST = 17"
definition EISDIR :: i32 where "EISDIR = 21"
definition EIO :: i32 where "EIO = 5"
definition EMFILE :: i32 where "EMFILE = 24"

definition VFS_S_IFREG :: u32 where "VFS_S_IFREG = 0x8000"
definition VFS_S_IFDIR :: u32 where "VFS_S_IFDIR = 0x4000"
definition VFS_S_IFCHR :: u32 where "VFS_S_IFCHR = 0x2000"

datatype vfs_file_type = VFS_TYPE_FILE | VFS_TYPE_DIR | VFS_TYPE_DEVICE

fun type_code :: "vfs_file_type \<Rightarrow> u32" where
  "type_code VFS_TYPE_FILE = 0"
| "type_code VFS_TYPE_DIR = 1"
| "type_code VFS_TYPE_DEVICE = 2"

type_synonym 's vfs_dev_read = "u64 option \<Rightarrow> u8 list \<Rightarrow> u64 \<Rightarrow> u64 \<Rightarrow> 's \<Rightarrow> (u64 \<times> u8 list \<times> u64 \<times> 's) res"
type_synonym 's vfs_dev_write = "u64 option \<Rightarrow> u8 list \<Rightarrow> u64 \<Rightarrow> u64 \<Rightarrow> 's \<Rightarrow> (u64 \<times> u64 \<times> 's) res"
type_synonym 's vfs_dev_seek = "u64 option \<Rightarrow> u64 \<Rightarrow> i32 \<Rightarrow> u64 \<Rightarrow> 's \<Rightarrow> (u64 \<times> u64 \<times> 's) res"
type_synonym 's vfs_dev_ioctl = "u64 option \<Rightarrow> u64 \<Rightarrow> u64 \<Rightarrow> 's \<Rightarrow> (i32 \<times> 's) res"

record vfs_stat_t =
  st_mode :: u32
  st_size :: u64
  st_blksize :: u32
  st_mtime :: u64

record vfs_dirent =
  d_name :: "u8 list"
  d_type :: u32

record 's vfs_file =
  f_name :: "u8 list"
  f_data :: "u8 list"
  f_size :: u64
  f_used :: bool
  f_type :: vfs_file_type
  f_read :: "'s vfs_dev_read option"
  f_write :: "'s vfs_dev_write option"
  f_seek :: "'s vfs_dev_seek option"
  f_ioctl :: "'s vfs_dev_ioctl option"
  f_dev_data :: u64

record vfs_handle =
  h_used :: bool
  h_fd :: i32
  h_file :: "nat option"
  h_position :: u64
  h_flags :: i32
  h_fs_private :: "nat option"
  h_mount :: "nat option"

record vfs_mount =
  m_point :: "u8 list"
  m_device :: "u8 list"
  m_fs :: "nat option"
  m_private :: u64
  m_flags :: u32
  m_mounted :: bool
  m_ref_count :: i32

record vfs_file_handle =
  fh_used :: bool
  fh_fd :: i32
  fh_mount :: "nat option"
  fh_path :: "u8 list"
  fh_position :: u64
  fh_flags :: i32
  fh_private :: u64

record 's vfs_fs_ops =
  op_mount :: "(vfs_mount \<Rightarrow> u8 list option \<Rightarrow> u64 \<Rightarrow> 's \<Rightarrow> (i32 \<times> vfs_mount \<times> 's) res) option"
  op_unmount :: "(vfs_mount \<Rightarrow> 's \<Rightarrow> (i32 \<times> vfs_mount \<times> 's) res) option"
  op_open :: "(vfs_mount \<Rightarrow> u8 list \<Rightarrow> i32 \<Rightarrow> vfs_file_handle \<Rightarrow> 's \<Rightarrow> (i32 \<times> vfs_file_handle \<times> 's) res) option"
  op_close :: "(vfs_mount \<Rightarrow> vfs_file_handle \<Rightarrow> 's \<Rightarrow> (i32 \<times> vfs_file_handle \<times> 's) res) option"
  op_read :: "(vfs_mount \<Rightarrow> vfs_file_handle \<Rightarrow> u8 list \<Rightarrow> u64 \<Rightarrow> 's \<Rightarrow> (u64 \<times> vfs_file_handle \<times> u8 list \<times> 's) res) option"
  op_write :: "(vfs_mount \<Rightarrow> vfs_file_handle \<Rightarrow> u8 list \<Rightarrow> u64 \<Rightarrow> 's \<Rightarrow> (u64 \<times> vfs_file_handle \<times> 's) res) option"
  op_seek :: "(vfs_mount \<Rightarrow> vfs_file_handle \<Rightarrow> u64 \<Rightarrow> i32 \<Rightarrow> 's \<Rightarrow> (u64 \<times> vfs_file_handle \<times> 's) res) option"
  op_mkdir :: "(vfs_mount \<Rightarrow> u8 list \<Rightarrow> u32 \<Rightarrow> 's \<Rightarrow> (i32 \<times> 's) res) option"
  op_rmdir :: "(vfs_mount \<Rightarrow> u8 list \<Rightarrow> 's \<Rightarrow> (i32 \<times> 's) res) option"
  op_readdir :: "(vfs_mount \<Rightarrow> u8 list \<Rightarrow> vfs_dirent list \<Rightarrow> u64 \<Rightarrow> 's \<Rightarrow> (i32 \<times> vfs_dirent list \<times> 's) res) option"
  op_stat :: "(vfs_mount \<Rightarrow> u8 list \<Rightarrow> vfs_stat_t \<Rightarrow> 's \<Rightarrow> (i32 \<times> vfs_stat_t \<times> 's) res) option"
  op_unlink :: "(vfs_mount \<Rightarrow> u8 list \<Rightarrow> 's \<Rightarrow> (i32 \<times> 's) res) option"
  op_ioctl :: "(vfs_mount \<Rightarrow> vfs_file_handle \<Rightarrow> u64 \<Rightarrow> u64 \<Rightarrow> 's \<Rightarrow> (i32 \<times> 's) res) option"
  op_sync :: "(vfs_mount \<Rightarrow> 's \<Rightarrow> (i32 \<times> 's) res) option"

record 's vfs_filesystem =
  fs_name :: "u8 list"
  fs_ops :: "'s vfs_fs_ops option"
  fs_flags :: u32
  fs_registered :: bool

record 's vfs =
  files :: "'s vfs_file list"
  handles :: "vfs_handle list"
  next_fd :: i32
  registered_fs :: "'s vfs_filesystem list"
  mounts :: "vfs_mount list"
  file_handles :: "vfs_file_handle list"
  read_buffer :: "u8 list"
  env :: 's

subsection \<open>Files and descriptors\<close>

text \<open>The first used entry with the given name.  Every lookup of the file system is this loop.\<close>

function find_named :: "('a \<Rightarrow> bool) \<Rightarrow> ('a \<Rightarrow> u8 list) \<Rightarrow> u8 list \<Rightarrow> 'a list \<Rightarrow> nat \<Rightarrow> nat \<Rightarrow> nat option res" where
  "find_named used name key xs i n =
     (if i < n then
        bindR (rd xs (int i)) (\<lambda>x.
        if used x then bindR (strcmp (name x) key) (\<lambda>r. if r = 0 then Inr (Some i) else find_named used name key xs (Suc i) n)
        else find_named used name key xs (Suc i) n)
      else Inr None)"
  by pat_completeness auto
termination
  by (relation "measure (\<lambda>(used, name, key, xs, i, n). n - i)") auto

declare find_named.simps [simp del]

definition find_file :: "u8 list \<Rightarrow> 's vfs \<Rightarrow> nat option res" where
  "find_file filename v = find_named f_used f_name filename (files v) 0 MAX_FILES"

definition get_handle :: "i32 \<Rightarrow> 's vfs \<Rightarrow> nat option res" where
  "get_handle fd v = search (\<lambda>h. h_used h \<and> h_fd h = fd) (handles v) 0 MAX_HANDLES"

definition free_handle :: "'s vfs \<Rightarrow> nat option res" where
  "free_handle v = search (\<lambda>h. \<not> h_used h) (handles v) 0 MAX_HANDLES"

definition reserved_fds :: "i32 list" where
  "reserved_fds = [1000, 1001, 1002, 1003, 1004, 1005]"

function fd_scan :: "int \<Rightarrow> 's vfs \<Rightarrow> int option res" where
  "fd_scan i v =
     (if i < int MAX_HANDLES + 3 then
        if word_of_int i \<in> set reserved_fds then fd_scan (i + 1) v
        else bindR (get_handle (word_of_int i) v) (\<lambda>r. case r of None \<Rightarrow> Inr (Some i) | Some _ \<Rightarrow> fd_scan (i + 1) v)
      else Inr None)"
  by pat_completeness auto
termination
  by (relation "measure (\<lambda>(i, v). nat (int MAX_HANDLES + 3 - i))") auto

declare fd_scan.simps [simp del]

definition allocate_fd :: "'s vfs \<Rightarrow> (i32 \<times> 's vfs) res" where
  "allocate_fd v =
     bindR (fd_scan (sint (next_fd v)) v) (\<lambda>r. case r of
       Some i \<Rightarrow> Inr (word_of_int i, v\<lparr>next_fd := if i + 1 \<ge> int MAX_HANDLES + 3 then 3 else word_of_int (i + 1)\<rparr>)
     | None \<Rightarrow>
         bindR (fd_scan 3 v) (\<lambda>r. case r of
           Some i \<Rightarrow> Inr (word_of_int i, v\<lparr>next_fd := word_of_int (i + 1)\<rparr>)
         | None \<Rightarrow> Inr (- 1, v)))"

text \<open>Writing entry \<open>i\<close> of a table through a pointer to it.\<close>

definition upd :: "nat \<Rightarrow> ('a \<Rightarrow> 'a) \<Rightarrow> 'a list \<Rightarrow> 'a list res" where
  "upd i f xs = bindR (rd xs (int i)) (\<lambda>x. wr xs (int i) (f x))"

definition upd_file :: "nat \<Rightarrow> ('s vfs_file \<Rightarrow> 's vfs_file) \<Rightarrow> 's vfs \<Rightarrow> 's vfs res" where
  "upd_file i f v = bindR (upd i f (files v)) (\<lambda>xs. Inr (v\<lparr>files := xs\<rparr>))"

definition upd_handle :: "nat \<Rightarrow> (vfs_handle \<Rightarrow> vfs_handle) \<Rightarrow> 's vfs \<Rightarrow> 's vfs res" where
  "upd_handle i f v = bindR (upd i f (handles v)) (\<lambda>xs. Inr (v\<lparr>handles := xs\<rparr>))"

definition upd_fh :: "nat \<Rightarrow> (vfs_file_handle \<Rightarrow> vfs_file_handle) \<Rightarrow> 's vfs \<Rightarrow> 's vfs res" where
  "upd_fh i f v = bindR (upd i f (file_handles v)) (\<lambda>xs. Inr (v\<lparr>file_handles := xs\<rparr>))"

definition upd_mount :: "nat \<Rightarrow> (vfs_mount \<Rightarrow> vfs_mount) \<Rightarrow> 's vfs \<Rightarrow> 's vfs res" where
  "upd_mount i f v = bindR (upd i f (mounts v)) (\<lambda>xs. Inr (v\<lparr>mounts := xs\<rparr>))"

definition vfs_mkdir :: "u8 list \<Rightarrow> 's vfs \<Rightarrow> (i32 \<times> 's vfs) res" where
  "vfs_mkdir dirname v =
     bindR (strlen dirname) (\<lambda>len.
     if MAX_FILENAME \<le> len then Inr (- 1, v)
     else bindR (find_file dirname v) (\<lambda>r. case r of
       Some i \<Rightarrow> bindR (rd (files v) (int i)) (\<lambda>f. Inr (if f_type f = VFS_TYPE_DIR then of_nat i else - 2, v))
     | None \<Rightarrow>
         bindR (search (\<lambda>f. \<not> f_used f) (files v) 0 MAX_FILES) (\<lambda>r. case r of
           None \<Rightarrow> Inr (- 3, v)
         | Some i \<Rightarrow>
             bindR (rd (files v) (int i)) (\<lambda>f. bindR (strcpy (f_name f) dirname) (\<lambda>nm.
             bindR (upd_file i (\<lambda>f. f\<lparr>f_name := nm, f_size := 0, f_used := True, f_type := VFS_TYPE_DIR\<rparr>) v) (\<lambda>v. Inr (of_nat i, v)))))))"

definition vfs_pseudo_register ::
    "u8 list \<Rightarrow> 's vfs_dev_read option \<Rightarrow> 's vfs_dev_write option \<Rightarrow> 's vfs_dev_seek option \<Rightarrow> 's vfs_dev_ioctl option \<Rightarrow> u64 \<Rightarrow> 's vfs \<Rightarrow> (i32 \<times> 's vfs) res" where
  "vfs_pseudo_register filename read_fn write_fn seek_fn ioctl_fn dev_data v =
     bindR (strlen filename) (\<lambda>len.
     if MAX_FILENAME \<le> len then Inr (- 1, v)
     else bindR (find_file filename v) (\<lambda>r. case r of
       Some i \<Rightarrow>
         bindR (rd (files v) (int i)) (\<lambda>f.
         if f_type f = VFS_TYPE_DIR then Inr (- 4, v)
         else bindR (upd_file i (\<lambda>f. f\<lparr>f_read := read_fn, f_write := write_fn, f_seek := seek_fn, f_ioctl := ioctl_fn, f_dev_data := dev_data\<rparr>) v) (\<lambda>v. Inr (of_nat i, v)))
     | None \<Rightarrow>
         bindR (search (\<lambda>f. \<not> f_used f) (files v) 0 MAX_FILES) (\<lambda>r. case r of
           None \<Rightarrow> Inr (- 3, v)
         | Some i \<Rightarrow>
             bindR (rd (files v) (int i)) (\<lambda>f. bindR (strcpy (f_name f) filename) (\<lambda>nm.
             bindR (upd_file i (\<lambda>f. f\<lparr>f_name := nm, f_size := 0, f_used := True, f_type := VFS_TYPE_DEVICE,
               f_read := read_fn, f_write := write_fn, f_seek := seek_fn, f_ioctl := ioctl_fn, f_dev_data := dev_data\<rparr>) v) (\<lambda>v. Inr (of_nat i, v)))))))"

text \<open>The names the code compares with: \<open>/dev/stdout\<close>, \<open>/dev/stderr\<close>, \<open>/dev/stdin\<close> and \<open>/\<close>.\<close>

definition dev_stdout :: "u8 list" where "dev_stdout = [47, 100, 101, 118, 47, 115, 116, 100, 111, 117, 116, 0]"
definition dev_stderr :: "u8 list" where "dev_stderr = [47, 100, 101, 118, 47, 115, 116, 100, 101, 114, 114, 0]"
definition dev_stdin :: "u8 list" where "dev_stdin = [47, 100, 101, 118, 47, 115, 116, 100, 105, 110, 0]"
definition root_dir :: "u8 list" where "root_dir = [47, 0]"

definition std_flags :: "u8 list \<Rightarrow> i32 res" where
  "std_flags filename =
     bindR (strcmp filename dev_stdout) (\<lambda>a. if a = 0 then Inr VFS_WRITE
     else bindR (strcmp filename dev_stderr) (\<lambda>b. if b = 0 then Inr VFS_WRITE
     else bindR (strcmp filename dev_stdin) (\<lambda>c. Inr (if c = 0 then VFS_READ else VFS_READ OR VFS_WRITE))))"

definition vfs_pseudo_register_with_fd ::
    "u8 list \<Rightarrow> i32 \<Rightarrow> 's vfs_dev_read option \<Rightarrow> 's vfs_dev_write option \<Rightarrow> 's vfs_dev_seek option \<Rightarrow> 's vfs_dev_ioctl option \<Rightarrow> u64 \<Rightarrow> 's vfs \<Rightarrow> (i32 \<times> 's vfs) res" where
  "vfs_pseudo_register_with_fd filename fixed_fd read_fn write_fn seek_fn ioctl_fn dev_data v =
     bindR (strlen filename) (\<lambda>len.
     if MAX_FILENAME \<le> len then Inr (- 1, v)
     else bindR (get_handle fixed_fd v) (\<lambda>taken.
     if taken \<noteq> None then Inr (- 5, v)
     else bindR (find_file filename v) (\<lambda>r.
     bindR (case r of Some i \<Rightarrow> Inr (of_nat i, v) | None \<Rightarrow> vfs_pseudo_register filename read_fn write_fn seek_fn ioctl_fn dev_data v) (\<lambda>(file_idx, v).
     if sint file_idx < 0 then Inr (file_idx, v)
     else bindR (free_handle v) (\<lambda>hi. case hi of
       None \<Rightarrow> Inr (- 2, v)
     | Some j \<Rightarrow>
         bindR (std_flags filename) (\<lambda>flags.
         bindR (upd_handle j (\<lambda>h. h\<lparr>h_used := True, h_fd := fixed_fd, h_file := Some (unat file_idx), h_position := 0, h_flags := flags\<rparr>) v) (\<lambda>v.
         Inr (fixed_fd, v))))))))"

definition vfs_link_std_fd :: "i32 \<Rightarrow> u8 list \<Rightarrow> 's vfs \<Rightarrow> 's vfs res" where
  "vfs_link_std_fd std_fd dev_name v =
     bindR (find_file dev_name v) (\<lambda>r. case r of
       None \<Rightarrow> Inr v
     | Some i \<Rightarrow> if 0 \<le> sint std_fd \<and> sint std_fd < 3 then upd_handle (unat std_fd) (\<lambda>h. h\<lparr>h_file := Some i\<rparr>) v else Inr v)"


subsection \<open>File systems and mounts\<close>

definition vfs_register_filesystem :: "u8 list option \<Rightarrow> 's vfs_fs_ops option \<Rightarrow> u32 \<Rightarrow> 's vfs \<Rightarrow> (i32 \<times> 's vfs) res" where
  "vfs_register_filesystem name dops flags v = (case (name, dops) of
       (Some nm, Some _) \<Rightarrow>
         bindR (strlen nm) (\<lambda>len.
         if MAX_FS_NAME \<le> len then Inr (- EINVAL, v)
         else bindR (find_named fs_registered fs_name nm (registered_fs v) 0 MAX_REGISTERED_FS) (\<lambda>r.
         if r \<noteq> None then Inr (- EEXIST, v)
         else bindR (search (\<lambda>f. \<not> fs_registered f) (registered_fs v) 0 MAX_REGISTERED_FS) (\<lambda>r. case r of
           None \<Rightarrow> Inr (- ENOMEM, v)
         | Some i \<Rightarrow>
             bindR (rd (registered_fs v) (int i)) (\<lambda>f. bindR (strcpy (fs_name f) nm) (\<lambda>nm.
             bindR (wr (registered_fs v) (int i) (f\<lparr>fs_name := nm, fs_ops := dops, fs_flags := flags, fs_registered := True\<rparr>)) (\<lambda>xs.
             Inr (0, v\<lparr>registered_fs := xs\<rparr>)))))))
     | _ \<Rightarrow> Inr (- EINVAL, v))"

definition vfs_unregister_filesystem :: "u8 list option \<Rightarrow> 's vfs \<Rightarrow> (i32 \<times> 's vfs) res" where
  "vfs_unregister_filesystem name v = (case name of
       None \<Rightarrow> Inr (- EINVAL, v)
     | Some nm \<Rightarrow>
         bindR (find_named fs_registered fs_name nm (registered_fs v) 0 MAX_REGISTERED_FS) (\<lambda>r. case r of
           None \<Rightarrow> Inr (- ENOENT, v)
         | Some i \<Rightarrow>
             bindR (search (\<lambda>m. m_mounted m \<and> m_fs m = Some i) (mounts v) 0 MAX_MOUNTS) (\<lambda>b.
             if b \<noteq> None then Inr (- EBUSY, v)
             else bindR (upd i (\<lambda>f. f\<lparr>fs_registered := False, fs_ops := None\<rparr>) (registered_fs v)) (\<lambda>xs. Inr (0, v\<lparr>registered_fs := xs\<rparr>)))))"

definition vfs_find_filesystem :: "u8 list option \<Rightarrow> 's vfs \<Rightarrow> nat option res" where
  "vfs_find_filesystem name v = (case name of
       None \<Rightarrow> Inr None
     | Some nm \<Rightarrow> find_named fs_registered fs_name nm (registered_fs v) 0 MAX_REGISTERED_FS)"

text \<open>The operations of a mounted file system: \<open>mnt->fs->ops\<close>, if both pointers are set.\<close>

definition mount_ops :: "vfs_mount \<Rightarrow> 's vfs \<Rightarrow> 's vfs_fs_ops option res" where
  "mount_ops mnt v = (case m_fs mnt of None \<Rightarrow> Inr None | Some k \<Rightarrow> bindR (rd (registered_fs v) (int k)) (\<lambda>f. Inr (fs_ops f)))"

definition vfs_mount_fs :: "u8 list option \<Rightarrow> u8 list option \<Rightarrow> u8 list option \<Rightarrow> u32 \<Rightarrow> u64 \<Rightarrow> 's vfs \<Rightarrow> (i32 \<times> 's vfs) res" where
  "vfs_mount_fs fs_name' mount_point device flags data v = (case (fs_name', mount_point) of
       (Some nm, Some mp) \<Rightarrow>
         bindR (strlen mp) (\<lambda>len.
         if MAX_MOUNT_PATH \<le> len then Inr (- EINVAL, v)
         else bindR (vfs_mkdir mp v) (\<lambda>(mkdir_result, v).
         if sint mkdir_result < 0 \<and> mkdir_result \<noteq> - EEXIST then Inr (mkdir_result, v)
         else bindR (vfs_find_filesystem (Some nm) v) (\<lambda>fs. case fs of
           None \<Rightarrow> Inr (- ENODEV, v)
         | Some k \<Rightarrow>
             bindR (find_named m_mounted m_point mp (mounts v) 0 MAX_MOUNTS) (\<lambda>busy.
             if busy \<noteq> None then Inr (- EBUSY, v)
             else bindR (search (\<lambda>m. \<not> m_mounted m) (mounts v) 0 MAX_MOUNTS) (\<lambda>slot. case slot of
               None \<Rightarrow> Inr (- ENOMEM, v)
             | Some i \<Rightarrow>
                 bindR (rd (mounts v) (int i)) (\<lambda>mnt.
                 bindR (strcpy (m_point mnt) mp) (\<lambda>pt.
                 bindR (case device of Some d \<Rightarrow> strcpy (m_device mnt) d | None \<Rightarrow> wr (m_device mnt) 0 0) (\<lambda>dv.
                 let mnt = mnt\<lparr>m_point := pt, m_device := dv, m_fs := Some k, m_flags := flags, m_ref_count := 0, m_private := 0\<rparr> in
                 bindR (wr (mounts v) (int i) mnt) (\<lambda>ms.
                 let v = v\<lparr>mounts := ms\<rparr> in
                 bindR (mount_ops mnt v) (\<lambda>dops.
                 bindR (case Option.bind dops op_mount of
                     None \<Rightarrow> Inr (0, v)
                   | Some f \<Rightarrow> bindR (f mnt device data (env v)) (\<lambda>(r, mnt, s). bindR (upd_mount i (\<lambda>_. mnt) (v\<lparr>env := s\<rparr>)) (\<lambda>v. Inr (r, v)))) (\<lambda>(result, v).
                 if sint result < 0 then bindR (upd_mount i (\<lambda>m. m\<lparr>m_mounted := False\<rparr>) v) (\<lambda>v. Inr (result, v))
                 else bindR (upd_mount i (\<lambda>m. m\<lparr>m_mounted := True\<rparr>) v) (\<lambda>v. Inr (0, v)))))))))))))
     | _ \<Rightarrow> Inr (- EINVAL, v))"

definition vfs_umount :: "u8 list option \<Rightarrow> 's vfs \<Rightarrow> (i32 \<times> 's vfs) res" where
  "vfs_umount mount_point v = (case mount_point of
       None \<Rightarrow> Inr (- EINVAL, v)
     | Some mp \<Rightarrow>
         bindR (find_named m_mounted m_point mp (mounts v) 0 MAX_MOUNTS) (\<lambda>r. case r of
           None \<Rightarrow> Inr (- ENOENT, v)
         | Some i \<Rightarrow>
             bindR (rd (mounts v) (int i)) (\<lambda>mnt.
             if 0 < sint (m_ref_count mnt) then Inr (- EBUSY, v)
             else bindR (mount_ops mnt v) (\<lambda>dops.
             bindR (case Option.bind dops op_unmount of
                 None \<Rightarrow> Inr (0, v)
               | Some f \<Rightarrow> bindR (f mnt (env v)) (\<lambda>(r, mnt, s). bindR (upd_mount i (\<lambda>_. mnt) (v\<lparr>env := s\<rparr>)) (\<lambda>v. Inr (r, v)))) (\<lambda>(result, v).
             if sint result < 0 then Inr (result, v)
             else bindR (upd_mount i (\<lambda>m. m\<lparr>m_mounted := False, m_fs := None, m_private := 0\<rparr>) v) (\<lambda>v. Inr (0, v)))))))"

text \<open>
  The longest mount point that is a prefix of the path up to a component boundary, and the rest of the path.
\<close>

definition mount_matches :: "u8 list \<Rightarrow> u8 list \<Rightarrow> nat \<Rightarrow> bool res" where
  "mount_matches path mp len =
     bindR (strncmp path mp (of_nat len)) (\<lambda>c.
     if c \<noteq> 0 then Inr False
     else bindR (rd path (int len)) (\<lambda>a.
       if a = 47 \<or> a = 0 then Inr True
       else if len = 1 then bindR (rd mp 0) (\<lambda>b. Inr (b = 47))
       else Inr False))"

function mount_scan :: "u8 list \<Rightarrow> vfs_mount list \<Rightarrow> nat \<Rightarrow> nat option \<times> nat \<Rightarrow> (nat option \<times> nat) res" where
  "mount_scan path ms i best =
     (if i < MAX_MOUNTS then
        bindR (rd ms (int i)) (\<lambda>m.
        if \<not> m_mounted m then mount_scan path ms (Suc i) best
        else bindR (strlen (m_point m)) (\<lambda>len. bindR (mount_matches path (m_point m) len) (\<lambda>ok.
          mount_scan path ms (Suc i) (if ok \<and> snd best < len then (Some i, len) else best))))
      else Inr best)"
  by pat_completeness auto
termination
  by (relation "measure (\<lambda>(path, ms, i, best). MAX_MOUNTS - i)") auto

declare mount_scan.simps [simp del]

definition relative_path :: "u8 list \<Rightarrow> nat \<Rightarrow> u8 list res" where
  "relative_path path best_len =
     (let rel = drop best_len path in
      bindR (rd rel 0) (\<lambda>c. let rel = if c = 47 then drop 1 rel else rel in
      bindR (rd rel 0) (\<lambda>c. Inr (if c = 0 then [0] else rel))))"

definition vfs_find_mount :: "u8 list option \<Rightarrow> 's vfs \<Rightarrow> (nat \<times> u8 list) option res" where
  "vfs_find_mount path v = (case path of
       None \<Rightarrow> Inr None
     | Some p \<Rightarrow>
         bindR (mount_scan p (mounts v) 0 (None, 0)) (\<lambda>(best, len). case best of
           None \<Rightarrow> Inr None
         | Some i \<Rightarrow> bindR (relative_path p len) (\<lambda>rel. Inr (Some (i, rel)))))"

text \<open>
  The route of a path: the mount it belongs to, its operations and the path inside it; \<open>None\<close> when any of the
  pointers \<open>mnt\<close>, \<open>mnt->fs\<close>, \<open>mnt->fs->ops\<close> is null.
\<close>

definition route :: "u8 list \<Rightarrow> 's vfs \<Rightarrow> (nat \<times> vfs_mount \<times> 's vfs_fs_ops \<times> u8 list) option res" where
  "route path v =
     bindR (vfs_find_mount (Some path) v) (\<lambda>r. case r of
       None \<Rightarrow> Inr None
     | Some (m, rel) \<Rightarrow>
         bindR (rd (mounts v) (int m)) (\<lambda>mnt. bindR (mount_ops mnt v) (\<lambda>dops. case dops of
           None \<Rightarrow> Inr None
         | Some dops \<Rightarrow> Inr (Some (m, mnt, dops, rel)))))"

subsection \<open>Open files\<close>

definition stat0 :: vfs_stat_t where
  "stat0 = \<lparr>st_mode = 0, st_size = 0, st_blksize = 0, st_mtime = 0\<rparr>"

definition open_legacy :: "nat \<Rightarrow> i32 \<Rightarrow> 's vfs \<Rightarrow> (i32 \<times> 's vfs) res" where
  "open_legacy i flags v =
     bindR (free_handle v) (\<lambda>r. case r of
       None \<Rightarrow> Inr (- EMFILE, v)
     | Some j \<Rightarrow>
         bindR (allocate_fd v) (\<lambda>(fd, v).
         if fd = - 1 then Inr (- EMFILE, v)
         else bindR (upd_handle j (\<lambda>h. h\<lparr>h_used := True, h_fd := fd, h_file := Some i, h_position := 0, h_flags := flags\<rparr>) v) (\<lambda>v. Inr (fd, v))))"

definition call_open :: "nat \<Rightarrow> vfs_mount \<Rightarrow> 's vfs_fs_ops \<Rightarrow> u8 list \<Rightarrow> i32 \<Rightarrow> 's vfs \<Rightarrow> (i32 \<times> 's vfs) res" where
  "call_open k mnt dops rel flags v = (case op_open dops of
       None \<Rightarrow> Inr (0, v)
     | Some f \<Rightarrow>
         bindR (rd (file_handles v) (int k)) (\<lambda>fh. bindR (f mnt rel flags fh (env v)) (\<lambda>(r, fh, s).
         bindR (upd_fh k (\<lambda>_. fh) (v\<lparr>env := s\<rparr>)) (\<lambda>v. Inr (r, v)))))"

definition call_close :: "nat \<Rightarrow> vfs_mount \<Rightarrow> 's vfs_fs_ops \<Rightarrow> 's vfs \<Rightarrow> 's vfs res" where
  "call_close k mnt dops v = (case op_close dops of
       None \<Rightarrow> Inr v
     | Some f \<Rightarrow>
         bindR (rd (file_handles v) (int k)) (\<lambda>fh. bindR (f mnt fh (env v)) (\<lambda>(r, fh, s). upd_fh k (\<lambda>_. fh) (v\<lparr>env := s\<rparr>))))"

text \<open>The part of \<open>vfs_open\<close> after the existence check.\<close>

definition open_checked :: "nat \<Rightarrow> vfs_mount \<Rightarrow> 's vfs_fs_ops \<Rightarrow> u8 list \<Rightarrow> i32 \<Rightarrow> 's vfs \<Rightarrow> (i32 \<times> 's vfs) res" where
  "open_checked m mnt dops rel flags v =
     bindR (search (\<lambda>h. \<not> fh_used h) (file_handles v) 0 MAX_HANDLES) (\<lambda>slot. case slot of
       None \<Rightarrow> Inr (- EMFILE, v)
     | Some k \<Rightarrow>
         bindR (allocate_fd v) (\<lambda>(fd, v).
         if fd = - 1 then Inr (- EMFILE, v)
         else bindR (rd (file_handles v) (int k)) (\<lambda>fh. bindR (strcpy (fh_path fh) rel) (\<lambda>p.
         bindR (upd_fh k (\<lambda>h. h\<lparr>fh_used := True, fh_fd := fd, fh_mount := Some m, fh_position := 0, fh_flags := flags, fh_path := p\<rparr>) v) (\<lambda>v.
         bindR (call_open k mnt dops rel flags v) (\<lambda>(ret, v).
         if sint ret < 0 then bindR (upd_fh k (\<lambda>h. h\<lparr>fh_used := False\<rparr>) v) (\<lambda>v. Inr (ret, v))
         else bindR (free_handle v) (\<lambda>r. case r of
           None \<Rightarrow>
             bindR (call_close k mnt dops v) (\<lambda>v.
             bindR (upd_fh k (\<lambda>h. h\<lparr>fh_used := False\<rparr>) v) (\<lambda>v. Inr (- EMFILE, v)))
         | Some j \<Rightarrow>
             bindR (upd_handle j (\<lambda>h. h\<lparr>h_used := True, h_fd := fd, h_file := None, h_position := 0, h_flags := flags, h_fs_private := Some k, h_mount := Some m\<rparr>) v) (\<lambda>v.
             Inr (fd, v)))))))))"

definition open_mounted :: "nat \<Rightarrow> vfs_mount \<Rightarrow> 's vfs_fs_ops \<Rightarrow> u8 list \<Rightarrow> i32 \<Rightarrow> 's vfs \<Rightarrow> (i32 \<times> 's vfs) res" where
  "open_mounted m mnt dops rel flags v =
     bindR (case op_stat dops of None \<Rightarrow> Inr (0, v) | Some f \<Rightarrow> bindR (f mnt rel stat0 (env v)) (\<lambda>(r, _, s). Inr (r, v\<lparr>env := s\<rparr>))) (\<lambda>(r, v).
     if r \<noteq> 0 then Inr (- ENOENT, v) else open_checked m mnt dops rel flags v)"

definition vfs_open :: "u8 list \<Rightarrow> i32 \<Rightarrow> 's vfs \<Rightarrow> (i32 \<times> 's vfs) res" where
  "vfs_open filename flags v =
     bindR (find_file filename v) (\<lambda>file. case file of
       Some i \<Rightarrow> open_legacy i flags v
     | None \<Rightarrow>
         bindR (route filename v) (\<lambda>r. case r of
           None \<Rightarrow> Inr (- ENOENT, v)
         | Some (m, mnt, dops, rel) \<Rightarrow> open_mounted m mnt dops rel flags v))"


text \<open>The operations behind a descriptor of a mounted file: \<open>handle->mount->fs->ops\<close> and the file handle, or why there is none.\<close>

definition handle_ops :: "vfs_handle \<Rightarrow> 's vfs \<Rightarrow> (vfs_mount \<times> 's vfs_fs_ops) option res" where
  "handle_ops h v = (case h_mount h of
       None \<Rightarrow> Inr None
     | Some m \<Rightarrow> bindR (rd (mounts v) (int m)) (\<lambda>mnt. bindR (mount_ops mnt v) (\<lambda>dops. Inr (map_option (\<lambda>o'. (mnt, o')) dops))))"

definition live_fh :: "vfs_handle \<Rightarrow> 's vfs \<Rightarrow> nat option res" where
  "live_fh h v = (case h_fs_private h of
       None \<Rightarrow> Inr None
     | Some k \<Rightarrow> bindR (rd (file_handles v) (int k)) (\<lambda>fh. Inr (if fh_used fh then Some k else None)))"

definition advance :: "nat \<Rightarrow> nat \<Rightarrow> u64 \<Rightarrow> 's vfs \<Rightarrow> 's vfs res" where
  "advance j k result v =
     (if 0 < sint result then
        bindR (rd (handles v) (int j)) (\<lambda>h. let pos = h_position h + result in
        bindR (upd_handle j (\<lambda>h. h\<lparr>h_position := pos\<rparr>) v) (\<lambda>v. upd_fh k (\<lambda>fh. fh\<lparr>fh_position := pos\<rparr>) v))
      else Inr v)"

definition read_legacy :: "nat \<Rightarrow> vfs_handle \<Rightarrow> nat \<Rightarrow> u8 list \<Rightarrow> u64 \<Rightarrow> 's vfs \<Rightarrow> (u64 \<times> u8 list \<times> 's vfs) res" where
  "read_legacy j h i buf count v =
     bindR (rd (files v) (int i)) (\<lambda>f.
     case (if f_type f = VFS_TYPE_DEVICE then f_read f else None) of
       Some rd_fn \<Rightarrow>
         bindR (rd_fn (Some (f_dev_data f)) buf count (h_position h) (env v)) (\<lambda>(r, buf, pos, s).
         bindR (upd_handle j (\<lambda>h. h\<lparr>h_position := pos\<rparr>) (v\<lparr>env := s\<rparr>)) (\<lambda>v. Inr (r, buf, v)))
     | None \<Rightarrow>
         if f_size f \<le> h_position h then Inr (0, buf, v)
         else
           let remaining = f_size f - h_position h; to_read = if count < remaining then count else remaining in
           bindR (memcpy buf 0 (drop (unat (h_position h)) (f_data f)) (unat to_read)) (\<lambda>buf.
           bindR (upd_handle j (\<lambda>h. h\<lparr>h_position := h_position h + to_read\<rparr>) v) (\<lambda>v. Inr (to_read, buf, v))))"

definition vfs_readfd :: "i32 \<Rightarrow> u8 list \<Rightarrow> u64 \<Rightarrow> 's vfs \<Rightarrow> (u64 \<times> u8 list \<times> 's vfs) res" where
  "vfs_readfd fd buf count v =
     bindR (get_handle fd v) (\<lambda>r. case r of
       None \<Rightarrow> Inr (scast (- EBADF), buf, v)
     | Some j \<Rightarrow>
         bindR (rd (handles v) (int j)) (\<lambda>h.
         if h_flags h AND VFS_READ = 0 then Inr (scast (- EACCES), buf, v)
         else case h_file h of
           Some i \<Rightarrow> read_legacy j h i buf count v
         | None \<Rightarrow>
             bindR (handle_ops h v) (\<lambda>r. case r of
               None \<Rightarrow> Inr (scast (- EIO), buf, v)
             | Some (mnt, dops) \<Rightarrow>
                 bindR (live_fh h v) (\<lambda>r. case r of
                   None \<Rightarrow> Inr (scast (- EBADF), buf, v)
                 | Some k \<Rightarrow>
                     bindR (upd_fh k (\<lambda>fh. fh\<lparr>fh_position := h_position h\<rparr>) v) (\<lambda>v.
                     case op_read dops of
                       None \<Rightarrow> Inr (scast (- EIO), buf, v)
                     | Some f \<Rightarrow>
                         bindR (rd (file_handles v) (int k)) (\<lambda>fh. bindR (f mnt fh buf count (env v)) (\<lambda>(result, fh, buf, s).
                         bindR (upd_fh k (\<lambda>_. fh) (v\<lparr>env := s\<rparr>)) (\<lambda>v.
                         bindR (advance j k result v) (\<lambda>v. Inr (result, buf, v))))))))))"

definition write_legacy :: "nat \<Rightarrow> vfs_handle \<Rightarrow> nat \<Rightarrow> u8 list \<Rightarrow> u64 \<Rightarrow> 's vfs \<Rightarrow> (u64 \<times> 's vfs) res" where
  "write_legacy j h i buf count v =
     bindR (rd (files v) (int i)) (\<lambda>f.
     case (if f_type f = VFS_TYPE_DEVICE then f_write f else None) of
       Some wr_fn \<Rightarrow>
         bindR (wr_fn (Some (f_dev_data f)) buf count (h_position h) (env v)) (\<lambda>(r, pos, s).
         bindR (upd_handle j (\<lambda>h. h\<lparr>h_position := pos\<rparr>) (v\<lparr>env := s\<rparr>)) (\<lambda>v. Inr (r, v)))
     | None \<Rightarrow>
         let count = if h_position h + count > of_nat MAX_FILE_SIZE then of_nat MAX_FILE_SIZE - h_position h else count in
         if count = 0 then Inr (scast (- ENOSPC), v)
         else
           bindR (memcpy (f_data f) (unat (h_position h)) buf (unat count)) (\<lambda>data.
           let pos = h_position h + count in
           bindR (upd_handle j (\<lambda>h. h\<lparr>h_position := pos\<rparr>) v) (\<lambda>v.
           bindR (upd_file i (\<lambda>f. f\<lparr>f_data := data, f_size := if pos > f_size f then pos else f_size f\<rparr>) v) (\<lambda>v. Inr (count, v)))))"

definition vfs_writefd :: "i32 \<Rightarrow> u8 list \<Rightarrow> u64 \<Rightarrow> 's vfs \<Rightarrow> (u64 \<times> 's vfs) res" where
  "vfs_writefd fd buf count v =
     bindR (get_handle fd v) (\<lambda>r. case r of
       None \<Rightarrow> Inr (scast (- EBADF), v)
     | Some j \<Rightarrow>
         bindR (rd (handles v) (int j)) (\<lambda>h.
         if h_flags h AND VFS_WRITE = 0 then Inr (scast (- EACCES), v)
         else if fd = 1 \<or> fd = 2 then Inr (count, v)
         else case h_file h of
           Some i \<Rightarrow> write_legacy j h i buf count v
         | None \<Rightarrow>
             bindR (handle_ops h v) (\<lambda>r. case r of
               None \<Rightarrow> Inr (scast (- EIO), v)
             | Some (mnt, dops) \<Rightarrow>
                 bindR (live_fh h v) (\<lambda>r. case r of
                   None \<Rightarrow> Inr (scast (- EBADF), v)
                 | Some k \<Rightarrow>
                     bindR (upd_fh k (\<lambda>fh. fh\<lparr>fh_position := h_position h\<rparr>) v) (\<lambda>v.
                     case op_write dops of
                       None \<Rightarrow> Inr (scast (- EIO), v)
                     | Some f \<Rightarrow>
                         bindR (rd (file_handles v) (int k)) (\<lambda>fh. bindR (f mnt fh buf count (env v)) (\<lambda>(result, fh, s).
                         bindR (upd_fh k (\<lambda>_. fh) (v\<lparr>env := s\<rparr>)) (\<lambda>v.
                         bindR (advance j k result v) (\<lambda>v. Inr (result, v))))))))))"

definition close_driver :: "vfs_handle \<Rightarrow> 's vfs \<Rightarrow> 's vfs res" where
  "close_driver h v =
     bindR (handle_ops h v) (\<lambda>r. case r of
       None \<Rightarrow> Inr v
     | Some (mnt, dops) \<Rightarrow>
         if op_close dops = None then Inr v
         else bindR (live_fh h v) (\<lambda>r. case r of
           None \<Rightarrow> Inr v
         | Some k \<Rightarrow> bindR (call_close k mnt dops v) (\<lambda>v. upd_fh k (\<lambda>fh. fh\<lparr>fh_used := False\<rparr>) v)))"

definition vfs_close :: "i32 \<Rightarrow> 's vfs \<Rightarrow> (i32 \<times> 's vfs) res" where
  "vfs_close fd v =
     (if sint fd < 3 then Inr (0, v)
      else bindR (get_handle fd v) (\<lambda>r. case r of
        None \<Rightarrow> Inr (- 1, v)
      | Some j \<Rightarrow>
          bindR (rd (handles v) (int j)) (\<lambda>h. bindR (close_driver h v) (\<lambda>v.
          bindR (upd_handle j (\<lambda>h. h\<lparr>h_used := False, h_fd := - 1, h_file := None, h_fs_private := None, h_mount := None\<rparr>) v) (\<lambda>v. Inr (0, v))))))"

definition vfs_seek :: "i32 \<Rightarrow> u64 \<Rightarrow> i32 \<Rightarrow> 's vfs \<Rightarrow> (u64 \<times> 's vfs) res" where
  "vfs_seek fd offset whence v =
     bindR (get_handle fd v) (\<lambda>r. case r of
       None \<Rightarrow> Inr (- 1, v)
     | Some j \<Rightarrow>
         bindR (rd (handles v) (int j)) (\<lambda>h. case h_file h of
           None \<Rightarrow> Inr (- 2, v)
         | Some i \<Rightarrow>
             bindR (rd (files v) (int i)) (\<lambda>f.
             case (if f_type f = VFS_TYPE_DEVICE then f_seek f else None) of
               Some sk \<Rightarrow>
                 bindR (sk (Some (f_dev_data f)) offset whence (h_position h) (env v)) (\<lambda>(r, pos, s).
                 bindR (upd_handle j (\<lambda>h. h\<lparr>h_position := pos\<rparr>) (v\<lparr>env := s\<rparr>)) (\<lambda>v. Inr (r, v)))
             | None \<Rightarrow>
                 if whence \<noteq> 0 \<and> whence \<noteq> 1 \<and> whence \<noteq> 2 then Inr (- 3, v)
                 else
                   let pos = if whence = 0 then offset else if whence = 1 then h_position h + offset else f_size f + offset;
                       pos = if sint pos < 0 then 0 else pos;
                       pos = if pos > f_size f then f_size f else pos in
                   bindR (upd_handle j (\<lambda>h. h\<lparr>h_position := pos\<rparr>) v) (\<lambda>v. Inr (pos, v)))))"

definition vfs_ioctl :: "i32 \<Rightarrow> u64 \<Rightarrow> u64 \<Rightarrow> 's vfs \<Rightarrow> (i32 \<times> 's vfs) res" where
  "vfs_ioctl fd request arg v =
     bindR (get_handle fd v) (\<lambda>r. case r of
       None \<Rightarrow> Inr (- 1, v)
     | Some j \<Rightarrow>
         bindR (rd (handles v) (int j)) (\<lambda>h. case h_file h of
           None \<Rightarrow> Inr (- 2, v)
         | Some i \<Rightarrow>
             bindR (rd (files v) (int i)) (\<lambda>f.
             case (if f_type f = VFS_TYPE_DEVICE then f_ioctl f else None) of
               Some io \<Rightarrow> bindR (io (Some (f_dev_data f)) request arg (env v)) (\<lambda>(r, s). Inr (r, v\<lparr>env := s\<rparr>))
             | None \<Rightarrow> Inr (- ENOTTY, v))))"

definition vfs_create :: "u8 list \<Rightarrow> u8 list \<Rightarrow> u64 \<Rightarrow> 's vfs \<Rightarrow> (i32 \<times> 's vfs) res" where
  "vfs_create filename data sz v =
     bindR (strlen filename) (\<lambda>len.
     if MAX_FILENAME \<le> len then Inr (- 1, v)
     else if sz > of_nat MAX_FILE_SIZE then Inr (- 2, v)
     else bindR (vfs_open filename (VFS_CREAT OR VFS_WRITE OR VFS_TRUNC) v) (\<lambda>(fd, v).
     if sint fd < 0 then Inr (- 3, v)
     else bindR (vfs_writefd fd data sz v) (\<lambda>(written, v). bindR (vfs_close fd v) (\<lambda>(_, v).
     if written \<noteq> sz then Inr (- 4, v)
     else bindR (find_file filename v) (\<lambda>r. Inr (case r of Some i \<Rightarrow> of_nat i | None \<Rightarrow> - 5, v))))))"

text \<open>The result is the size and, unless the call fails, the contents of the static buffer it returns.\<close>

definition vfs_read :: "u8 list \<Rightarrow> 's vfs \<Rightarrow> (u8 list option \<times> u64 \<times> 's vfs) res" where
  "vfs_read filename v =
     bindR (vfs_open filename VFS_READ v) (\<lambda>(fd, v).
     if sint fd < 0 then Inr (None, 0, v)
     else bindR (vfs_readfd fd (read_buffer v) (of_nat MAX_FILE_SIZE - 1) v) (\<lambda>(bytes, buffer, v).
     let v = v\<lparr>read_buffer := buffer\<rparr> in
     bindR (vfs_close fd v) (\<lambda>(_, v).
     if sint bytes < 0 then Inr (None, 0, v)
     else bindR (wr (read_buffer v) (sint bytes) 0) (\<lambda>buffer. Inr (Some buffer, bytes, v\<lparr>read_buffer := buffer\<rparr>)))))"

subsection \<open>Deletion\<close>

definition clear_file :: "'s vfs_file \<Rightarrow> 's vfs_file" where
  "clear_file f = f\<lparr>f_used := False, f_size := 0, f_name := (f_name f)[0 := 0], f_data := (f_data f)[0 := 0], f_type := VFS_TYPE_FILE,
     f_read := None, f_write := None, f_seek := None, f_ioctl := None, f_dev_data := 0\<rparr>"

definition drop_handles :: "nat \<Rightarrow> vfs_handle list \<Rightarrow> vfs_handle list" where
  "drop_handles i hs = map (\<lambda>h. if h_used h \<and> h_file h = Some i then h\<lparr>h_used := False, h_fd := - 1, h_file := None\<rparr> else h) hs"

definition reset_handles :: "nat \<Rightarrow> vfs_handle list \<Rightarrow> vfs_handle list" where
  "reset_handles i hs = map (\<lambda>h. if h_used h \<and> h_file h = Some i then h\<lparr>h_used := False, h_fd := - 1, h_file := None, h_position := 0, h_flags := 0\<rparr> else h) hs"

definition vfs_delete :: "u8 list \<Rightarrow> 's vfs \<Rightarrow> (i32 \<times> 's vfs) res" where
  "vfs_delete filename v =
     bindR (route filename v) (\<lambda>r.
     case (case r of Some (m, mnt, dops, rel) \<Rightarrow> map_option (\<lambda>f. f mnt rel) (op_unlink dops) | None \<Rightarrow> None) of
       Some f \<Rightarrow> bindR (f (env v)) (\<lambda>(r, s). Inr (r, v\<lparr>env := s\<rparr>))
     | None \<Rightarrow>
         bindR (find_file filename v) (\<lambda>r. case r of
           None \<Rightarrow> Inr (- ENOENT, v)
         | Some i \<Rightarrow> bindR (upd_file i clear_file (v\<lparr>handles := drop_handles i (handles v)\<rparr>)) (\<lambda>v. Inr (0, v))))"

text \<open>Removing a directory also removes every file whose name starts with the name of the directory and a slash.\<close>

function rmdir_loop :: "u8 list \<Rightarrow> nat \<Rightarrow> nat \<Rightarrow> nat \<Rightarrow> 's vfs \<Rightarrow> 's vfs res" where
  "rmdir_loop dir dir_len dir_idx i v =
     (if i < MAX_FILES then
        bindR (rd (files v) (int i)) (\<lambda>f.
        if f_used f \<and> i \<noteq> dir_idx then
          bindR (strlen (f_name f)) (\<lambda>name_len.
          bindR (if name_len > dir_len then bindR (strncmp (f_name f) dir (of_nat dir_len)) (\<lambda>c. Inr (c = 0)) else Inr False) (\<lambda>below.
          if below then
            bindR (upd_file i clear_file (v\<lparr>handles := reset_handles i (handles v)\<rparr>)) (\<lambda>v. rmdir_loop dir dir_len dir_idx (Suc i) v)
          else rmdir_loop dir dir_len dir_idx (Suc i) v))
        else rmdir_loop dir dir_len dir_idx (Suc i) v)
      else Inr v)"
  by pat_completeness auto
termination
  by (relation "measure (\<lambda>(dir, dir_len, dir_idx, i, v). MAX_FILES - i)") auto

declare rmdir_loop.simps [simp del]

definition vfs_rmdir :: "u8 list \<Rightarrow> 's vfs \<Rightarrow> (i32 \<times> 's vfs) res" where
  "vfs_rmdir dirname v =
     bindR (strlen dirname) (\<lambda>len.
     if MAX_FILENAME \<le> len then Inr (- 1, v)
     else bindR (find_file dirname v) (\<lambda>r. case r of
       None \<Rightarrow> Inr (- ENOENT, v)
     | Some d \<Rightarrow>
         bindR (rd (files v) (int d)) (\<lambda>f.
         if f_type f \<noteq> VFS_TYPE_DIR then Inr (- ENOTDIR, v)
         else bindR (strcmp dirname root_dir) (\<lambda>c.
         if c = 0 then Inr (- EBUSY, v)
         else
           bindR (strcpy (replicate MAX_FILENAME 0) dirname) (\<lambda>dir.
           bindR (rd dir (int len - 1)) (\<lambda>last.
           bindR (if last \<noteq> 47 then bindR (wr dir (int len) 47) (\<lambda>dir. bindR (wr dir (int len + 1) 0) (\<lambda>dir. Inr (dir, Suc len))) else Inr (dir, len)) (\<lambda>(dir, dir_len).
           bindR (rmdir_loop dir dir_len d 0 v) (\<lambda>v.
           bindR (upd_file d clear_file (v\<lparr>handles := reset_handles d (handles v)\<rparr>)) (\<lambda>v. Inr (0, v))))))))))"


subsection \<open>Queries\<close>

definition vfs_exists :: "u8 list \<Rightarrow> 's vfs \<Rightarrow> (bool \<times> 's vfs) res" where
  "vfs_exists filename v =
     bindR (find_file filename v) (\<lambda>r. case r of
       Some i \<Rightarrow> Inr (True, v)
     | None \<Rightarrow>
         bindR (route filename v) (\<lambda>r.
         case (case r of Some (m, mnt, dops, rel) \<Rightarrow> map_option (\<lambda>f. f mnt rel stat0) (op_stat dops) | None \<Rightarrow> None) of
           None \<Rightarrow> Inr (False, v)
         | Some f \<Rightarrow> bindR (f (env v)) (\<lambda>(r, _, s). Inr (r = 0, v\<lparr>env := s\<rparr>))))"

definition vfs_is_dir :: "u8 list \<Rightarrow> 's vfs \<Rightarrow> bool res" where
  "vfs_is_dir path v =
     bindR (find_file path v) (\<lambda>r. case r of None \<Rightarrow> Inr False | Some i \<Rightarrow> bindR (rd (files v) (int i)) (\<lambda>f. Inr (f_type f = VFS_TYPE_DIR)))"

definition vfs_is_device :: "u8 list \<Rightarrow> 's vfs \<Rightarrow> bool res" where
  "vfs_is_device path v =
     bindR (find_file path v) (\<lambda>r. case r of None \<Rightarrow> Inr False | Some i \<Rightarrow> bindR (rd (files v) (int i)) (\<lambda>f. Inr (f_type f = VFS_TYPE_DEVICE)))"

definition vfs_count :: "'s vfs \<Rightarrow> nat" where
  "vfs_count v = length (filter f_used (files v))"

definition stat_mode :: "vfs_file_type \<Rightarrow> u32" where
  "stat_mode t = (case t of VFS_TYPE_DIR \<Rightarrow> VFS_S_IFDIR OR 0x1ED | VFS_TYPE_DEVICE \<Rightarrow> VFS_S_IFCHR OR 0x1B6 | VFS_TYPE_FILE \<Rightarrow> VFS_S_IFREG OR 0x1A4)"

definition vfs_stat :: "u8 list option \<Rightarrow> vfs_stat_t option \<Rightarrow> 's vfs \<Rightarrow> (i32 \<times> vfs_stat_t option \<times> 's vfs) res" where
  "vfs_stat path stat v = (case (path, stat) of
       (Some p, Some st) \<Rightarrow>
         bindR (route p v) (\<lambda>r.
         case (case r of Some (m, mnt, dops, rel) \<Rightarrow> map_option (\<lambda>f. f mnt rel st) (op_stat dops) | None \<Rightarrow> None) of
           Some f \<Rightarrow> bindR (f (env v)) (\<lambda>(r, st, s). Inr (r, Some st, v\<lparr>env := s\<rparr>))
         | None \<Rightarrow>
             bindR (find_file p v) (\<lambda>r. case r of
               None \<Rightarrow> Inr (- ENOENT, stat, v)
             | Some i \<Rightarrow> bindR (rd (files v) (int i)) (\<lambda>f.
                 Inr (0, Some (st\<lparr>st_size := f_size f, st_blksize := 512, st_mtime := 0, st_mode := stat_mode (f_type f)\<rparr>), v))))
     | _ \<Rightarrow> Inr (- EINVAL, stat, v))"

text \<open>How many slashes the name has from index \<open>j\<close> to before \<open>n\<close>.\<close>

function slashes :: "u8 list \<Rightarrow> nat \<Rightarrow> nat \<Rightarrow> nat res" where
  "slashes name j n =
     (if j < n then bindR (rd name (int j)) (\<lambda>c. bindR (slashes name (Suc j) n) (\<lambda>k. Inr (if c = 47 then Suc k else k))) else Inr 0)"
  by pat_completeness auto
termination
  by (relation "measure (\<lambda>(name, j, n). n - j)") auto

declare slashes.simps [simp del]

text \<open>The offset of the last component if the name is directly below the directory.\<close>

definition child_of :: "u8 list \<Rightarrow> nat \<Rightarrow> u8 list \<Rightarrow> nat option res" where
  "child_of path path_len name =
     bindR (strlen name) (\<lambda>name_len. bindR (rd path 0) (\<lambda>c.
     if path_len = 1 \<and> c = 47 then
       bindR (rd name 0) (\<lambda>a. if a = 47 \<and> name_len > 1 then bindR (slashes name 1 name_len) (\<lambda>k. Inr (if k = 0 then Some 1 else None)) else Inr None)
     else if name_len > path_len then
       bindR (rd name (int path_len)) (\<lambda>a. if a \<noteq> 47 then Inr None
       else bindR (strncmp name path (of_nat path_len)) (\<lambda>r. if r \<noteq> 0 then Inr None
       else bindR (slashes name (path_len + 1) name_len) (\<lambda>k. Inr (if k = 0 then Some (path_len + 1) else None))))
     else Inr None))"

definition put_entry :: "vfs_dirent list \<Rightarrow> nat \<Rightarrow> u8 list \<Rightarrow> u32 \<Rightarrow> vfs_dirent list res" where
  "put_entry entries count name t =
     bindR (rd entries (int count)) (\<lambda>e. bindR (strcpy (d_name e) name) (\<lambda>nm. wr entries (int count) (e\<lparr>d_name := nm, d_type := t\<rparr>)))"

function files_loop :: "u8 list \<Rightarrow> nat \<Rightarrow> u64 \<Rightarrow> 's vfs_file list \<Rightarrow> nat \<Rightarrow> vfs_dirent list \<Rightarrow> nat \<Rightarrow> (vfs_dirent list \<times> nat) res" where
  "files_loop path path_len max_entries fs i entries count =
     (if i < MAX_FILES \<and> count < unat max_entries then
        bindR (rd fs (int i)) (\<lambda>f.
        if \<not> f_used f then files_loop path path_len max_entries fs (Suc i) entries count
        else bindR (child_of path path_len (f_name f)) (\<lambda>r. case r of
          None \<Rightarrow> files_loop path path_len max_entries fs (Suc i) entries count
        | Some b \<Rightarrow>
            bindR (put_entry entries count (drop b (f_name f)) (type_code (f_type f))) (\<lambda>entries.
            files_loop path path_len max_entries fs (Suc i) entries (Suc count))))
      else Inr (entries, count))"
  by pat_completeness auto
termination
  by (relation "measure (\<lambda>(path, path_len, max_entries, fs, i, entries, count). MAX_FILES - i)") auto

declare files_loop.simps [simp del]

function component_end :: "u8 list \<Rightarrow> nat \<Rightarrow> nat \<Rightarrow> nat res" where
  "component_end mp i n = (if i < n then bindR (rd mp (int i)) (\<lambda>c. if c \<noteq> 47 then component_end mp (Suc i) n else Inr i) else Inr i)"
  by pat_completeness auto
termination
  by (relation "measure (\<lambda>(mp, i, n). n - i)") auto

declare component_end.simps [simp del]

text \<open>The component of a mount point directly below the directory, as a terminated string.\<close>

definition mount_child :: "u8 list \<Rightarrow> nat \<Rightarrow> u8 list \<Rightarrow> u8 list option res" where
  "mount_child path path_len mp =
     bindR (strlen mp) (\<lambda>mount_len. bindR (rd path 0) (\<lambda>c.
     if path_len = 1 \<and> c = 47 then
       bindR (rd mp 0) (\<lambda>a. if a = 47 \<and> mount_len > 1 then
         bindR (component_end mp 1 mount_len) (\<lambda>e. Inr (Some (take (min e (MAX_FILENAME - 1) - 1) (drop 1 mp) @ [0]))) else Inr None)
     else if mount_len > path_len then
       bindR (strncmp mp path (of_nat path_len)) (\<lambda>r. if r \<noteq> 0 then Inr None
       else bindR (rd mp (int path_len)) (\<lambda>a. if a \<noteq> 47 then Inr None
       else bindR (component_end mp (path_len + 1) mount_len) (\<lambda>e.
         Inr (Some (take (min (e - (path_len + 1)) (MAX_FILENAME - 1)) (drop (path_len + 1) mp) @ [0])))))
     else Inr None))"

function mounts_loop :: "u8 list \<Rightarrow> nat \<Rightarrow> int \<Rightarrow> vfs_mount list \<Rightarrow> nat \<Rightarrow> vfs_dirent list \<Rightarrow> nat \<Rightarrow> (vfs_dirent list \<times> nat) res" where
  "mounts_loop path path_len max_entries ms i entries count =
     (if i < MAX_MOUNTS then
        bindR (rd ms (int i)) (\<lambda>m.
        if \<not> m_mounted m then mounts_loop path path_len max_entries ms (Suc i) entries count
        else bindR (mount_child path path_len (m_point m)) (\<lambda>r. case r of
          None \<Rightarrow> mounts_loop path path_len max_entries ms (Suc i) entries count
        | Some base \<Rightarrow>
            bindR (find_named (\<lambda>_. True) d_name base entries 0 count) (\<lambda>dup.
            if dup = None \<and> int count < max_entries then
              bindR (put_entry entries count base (type_code VFS_TYPE_DIR)) (\<lambda>entries.
              mounts_loop path path_len max_entries ms (Suc i) entries (Suc count))
            else mounts_loop path path_len max_entries ms (Suc i) entries count)))
      else Inr (entries, count))"
  by pat_completeness auto
termination
  by (relation "measure (\<lambda>(path, path_len, max_entries, ms, i, entries, count). MAX_MOUNTS - i)") auto

declare mounts_loop.simps [simp del]

definition list_files :: "u8 list \<Rightarrow> u64 \<Rightarrow> vfs_dirent list \<Rightarrow> 's vfs \<Rightarrow> (vfs_dirent list \<times> nat) res" where
  "list_files path max_entries entries v =
     bindR (strlen path) (\<lambda>len. bindR (strcpy (replicate MAX_FILENAME 0) path) (\<lambda>norm.
     bindR (if len > 1 then rd norm (int len - 1) else Inr 0) (\<lambda>last.
     bindR (if last = 47 then bindR (wr norm (int len - 1) 0) (\<lambda>norm. Inr (norm, len - 1)) else Inr (norm, len)) (\<lambda>(norm, len).
     files_loop norm len max_entries (files v) 0 entries 0))))"

definition vfs_readdir :: "u8 list option \<Rightarrow> vfs_dirent list option \<Rightarrow> u64 \<Rightarrow> 's vfs \<Rightarrow> (i32 \<times> vfs_dirent list option \<times> 's vfs) res" where
  "vfs_readdir path entries max_entries v = (case (path, entries) of
       (Some p, Some es) \<Rightarrow>
         if max_entries = 0 then Inr (- EINVAL, entries, v)
         else
           bindR (route p v) (\<lambda>r.
           bindR (case (case r of Some (m, mnt, dops, rel) \<Rightarrow> map_option (\<lambda>f. f mnt rel es max_entries) (op_readdir dops) | None \<Rightarrow> None) of
               Some f \<Rightarrow> bindR (f (env v)) (\<lambda>(fs_count, es, s). Inr (es, if 0 < sint fs_count then unat fs_count else 0, v\<lparr>env := s\<rparr>))
             | None \<Rightarrow> bindR (list_files p max_entries es v) (\<lambda>(es, count). Inr (es, count, v))) (\<lambda>(es, count, v).
           bindR (if int count < sint (ucast max_entries :: i32) then
               bindR (strlen p) (\<lambda>len. mounts_loop p len (sint (ucast max_entries :: i32)) (mounts v) 0 es count)
             else Inr (es, count)) (\<lambda>(es, count).
           Inr (of_nat count, Some es, v))))
     | _ \<Rightarrow> Inr (- EINVAL, entries, v))"

subsection \<open>Initialisation\<close>

text \<open>The static tables before and after the loops of \<open>vfs_init\<close>.\<close>

definition std_handle :: "nat \<Rightarrow> i32 \<Rightarrow> vfs_handle list \<Rightarrow> vfs_handle list res" where
  "std_handle i flags hs = upd i (\<lambda>h. h\<lparr>h_used := True, h_fd := of_nat i, h_flags := flags\<rparr>) hs"

definition vfs_init_tables :: "'s vfs \<Rightarrow> 's vfs res" where
  "vfs_init_tables v =
     (let v = v\<lparr>files := map clear_file (files v),
        registered_fs := map (\<lambda>f. f\<lparr>fs_registered := False, fs_ops := None, fs_name := (fs_name f)[0 := 0]\<rparr>) (registered_fs v),
        mounts := map (\<lambda>m. m\<lparr>m_mounted := False, m_fs := None, m_private := 0, m_ref_count := 0\<rparr>) (mounts v),
        file_handles := map (\<lambda>h. h\<lparr>fh_used := False, fh_fd := - 1, fh_mount := None, fh_private := 0\<rparr>) (file_handles v)\<rparr> in
      let hs = map (\<lambda>h. h\<lparr>h_used := False, h_fd := - 1, h_file := None, h_position := 0, h_flags := 0\<rparr>) (handles v) in
      bindR (std_handle 0 VFS_READ hs) (\<lambda>hs. bindR (std_handle 1 VFS_WRITE hs) (\<lambda>hs. bindR (std_handle 2 VFS_WRITE hs) (\<lambda>hs.
      Inr (v\<lparr>handles := hs\<rparr>)))))"

end
