(* ===== verification/Vfs_Inv.thy ===== *)
theory Vfs_Inv
  imports Vfs "HOL-Library.Multiset"
begin

text \<open>
  The invariant of the virtual file system and the contract of the drivers behind it.
\<close>

subsection \<open>Tables\<close>

lemma find_named_search:
  assumes "terminated key" "\<forall>x \<in> set xs. used x \<longrightarrow> terminated (name x)"
  shows "find_named used name key xs i n = search (\<lambda>x. used x \<and> cstr (name x) = cstr key) xs i n"
  using assms
proof (induction used name key xs i n rule: find_named.induct)
  case (1 used name key xs i n)
  show ?case
  proof (cases "i < n \<and> i < length xs")
    case False
    then show ?thesis by (auto simp: find_named.simps [of used name key xs i n] search.simps [of _ xs i n] rd_def)
  next
    case True
    then have r: "rd xs (int i) = Inr (xs ! i)" by (simp add: rd_nat)
    show ?thesis
    proof (cases "used (xs ! i)")
      case False
      then show ?thesis using True r "1.IH"(2) [OF _ r] "1.prems"
        by (simp add: find_named.simps [of used name key xs i n] search.simps [of _ xs i n])
    next
      case u: True
      then obtain c where c: "strcmp (name (xs ! i)) key = Inr c" "c = 0 \<longleftrightarrow> cstr (name (xs ! i)) = cstr key"
        using strcmp_from_eq [of 0 "name (xs ! i)" key] "1.prems" True nth_mem [of i xs] by (auto simp: strcmp_def)
      then show ?thesis using True r u "1.IH"(1) [OF _ r u c(1)] "1.prems"
        by (auto simp: find_named.simps [of used name key xs i n] search.simps [of _ xs i n])
    qed
  qed
qed

lemma strcpy_eq:
  "terminated src \<Longrightarrow> length (cstr src) < length dest \<Longrightarrow> strcpy dest src = Inr (cstr src @ 0 # drop (Suc (length (cstr src))) dest)"
  using copy_unbounded [of src 0 dest] by (simp add: strcpy_def)

lemma upd_eq: "i < length xs \<Longrightarrow> upd i f xs = Inr (xs[i := f (xs ! i)])"
  by (simp add: upd_def rd_nat wr_nat)

lemmas upd_defs = upd_file_def upd_handle_def upd_fh_def upd_mount_def

lemma search_first [consumes 1, case_names none some]:
  assumes "n \<le> length xs"
  obtains (none) "search P xs 0 n = Inr None" "\<forall>i < n. \<not> P (xs ! i)"
  | (some) i where "search P xs 0 n = Inr (Some i)" "i < n" "P (xs ! i)" "\<forall>k < i. \<not> P (xs ! k)"
proof -
  obtain r where r: "search P xs 0 n = Inr r" using search_total [OF assms] by blast
  show ?thesis
  proof (cases r)
    case None
    then show ?thesis using r none search_None [of P xs 0 n] by auto
  next
    case (Some i)
    then show ?thesis using r some [of i] search_Some [of P xs 0 n i] by auto
  qed
qed

lemma neg_le_uint [simp]: "- numeral k \<le> uint n"
  using order_trans [OF _ uint_ge_0, of "- numeral k" n] by simp

subsection \<open>Descriptors\<close>

definition fd_used :: "i32 \<Rightarrow> vfs_handle list \<Rightarrow> bool" where
  "fd_used fd hs \<longleftrightarrow> (\<exists>h \<in> set hs. h_used h \<and> h_fd h = fd)"

lemma get_handle_cases [consumes 1, case_names none some]:
  assumes "length (handles v) = MAX_HANDLES"
  obtains (none) "get_handle fd v = Inr None" "\<not> fd_used fd (handles v)"
  | (some) j where "get_handle fd v = Inr (Some j)" "j < MAX_HANDLES" "h_used (handles v ! j)" "h_fd (handles v ! j) = fd"
proof -
  have n: "MAX_HANDLES \<le> length (handles v)" using assms by simp
  from n show ?thesis
  proof (cases rule: search_first [where P = "\<lambda>h. h_used h \<and> h_fd h = fd"])
    case none': none
    then have "\<not> fd_used fd (handles v)" using assms by (auto simp: fd_used_def in_set_conv_nth)
    then show ?thesis using that(1) none'(1) by (simp add: get_handle_def)
  next
    case (some i)
    then show ?thesis using that(2) [of i] by (auto simp: get_handle_def)
  qed
qed

lemma fd_scan_spec:
  assumes "length (handles v) = MAX_HANDLES" "0 \<le> i"
  shows "\<exists>r. fd_scan i v = Inr r \<and> (case r of
      Some k \<Rightarrow> i \<le> k \<and> k < int MAX_HANDLES + 3 \<and> \<not> fd_used (word_of_int k) (handles v)
    | None \<Rightarrow> \<forall>k. i \<le> k \<and> k < int MAX_HANDLES + 3 \<longrightarrow> fd_used (word_of_int k) (handles v))"
  using assms
proof (induction i v rule: fd_scan.induct)
  case (1 i v)
  show ?case
  proof (cases "i < int MAX_HANDLES + 3")
    case False
    then show ?thesis by (auto simp: fd_scan.simps [of i v])
  next
    case True
    then have i: "i < 67" by (simp add: MAX_HANDLES_def)
    have s: "sint (word_of_int i :: i32) = i" using i 1(4) by (intro sint_of_int_small) auto
    have nr: "(word_of_int i :: i32) \<notin> set reserved_fds"
    proof
      assume "(word_of_int i :: i32) \<in> set reserved_fds"
      then have "sint (word_of_int i :: i32) \<in> {1000, 1001, 1002, 1003, 1004, 1005}" by (auto simp: reserved_fds_def)
      then show False using s i by simp
    qed
    from 1(3) show ?thesis
    proof (cases rule: get_handle_cases [where fd = "word_of_int i"])
      case none
      then show ?thesis using True nr by (simp add: fd_scan.simps [of i v])
    next
      case (some j)
      have u: "fd_used (word_of_int i) (handles v)" using some 1(3) by (auto simp: fd_used_def intro!: bexI [of _ "handles v ! j"])
      obtain r where r: "fd_scan (i + 1) v = Inr r" "case r of
          Some k \<Rightarrow> i + 1 \<le> k \<and> k < int MAX_HANDLES + 3 \<and> \<not> fd_used (word_of_int k) (handles v)
        | None \<Rightarrow> \<forall>k. i + 1 \<le> k \<and> k < int MAX_HANDLES + 3 \<longrightarrow> fd_used (word_of_int k) (handles v)"
        using 1(2) [OF True nr some(1)] 1(3,4) by auto
      have "fd_scan i v = Inr r" using True nr some(1) r(1) by (simp add: fd_scan.simps [of i v])
      moreover have "\<forall>k. i \<le> k \<and> k < int MAX_HANDLES + 3 \<longrightarrow> fd_used (word_of_int k) (handles v)" if "r = None"
      proof (intro allI impI)
        fix k assume "i \<le> k \<and> k < int MAX_HANDLES + 3"
        then show "fd_used (word_of_int k) (handles v)" using r(2) that u by (cases "k = i") auto
      qed
      ultimately show ?thesis using r(2) by (auto split: option.splits)
    qed
  qed
qed


lemma allocate_fd_spec:
  assumes "length (handles v) = MAX_HANDLES" "3 \<le> sint (next_fd v)" "sint (next_fd v) \<le> 67"
  shows "\<exists>fd n. allocate_fd v = Inr (fd, v\<lparr>next_fd := n\<rparr>) \<and> 3 \<le> sint n \<and> sint n \<le> 67 \<and>
    (if fd = - 1 then \<forall>k. 3 \<le> k \<and> k < 67 \<longrightarrow> fd_used (word_of_int k) (handles v)
     else 3 \<le> sint fd \<and> sint fd < 67 \<and> \<not> fd_used fd (handles v))"
proof -
  have m: "int MAX_HANDLES + 3 = 67" by (simp add: MAX_HANDLES_def)
  have s: "sint (word_of_int k :: i32) = k" if "3 \<le> k" "k \<le> 67" for k using that by (intro sint_of_int_small) auto
  have neg: "(word_of_int k :: i32) \<noteq> - 1" if "3 \<le> k" "k \<le> 67" for k
  proof
    assume "(word_of_int k :: i32) = - 1"
    then have "sint (word_of_int k :: i32) = - 1" by simp
    then show False using s [OF that] that by simp
  qed
  obtain r where r: "fd_scan (sint (next_fd v)) v = Inr r" "case r of
      Some k \<Rightarrow> sint (next_fd v) \<le> k \<and> k < 67 \<and> \<not> fd_used (word_of_int k) (handles v)
    | None \<Rightarrow> \<forall>k. sint (next_fd v) \<le> k \<and> k < 67 \<longrightarrow> fd_used (word_of_int k) (handles v)"
    using fd_scan_spec [OF assms(1), of "sint (next_fd v)"] assms(2) unfolding m by auto
  show ?thesis
  proof (cases r)
    case (Some k)
    then have k: "3 \<le> k" "k < 67" "\<not> fd_used (word_of_int k) (handles v)" using r(2) assms(2) by auto
    have "allocate_fd v = Inr (word_of_int k, v\<lparr>next_fd := if k + 1 \<ge> 67 then 3 else word_of_int (k + 1)\<rparr>)"
      using r(1) Some by (simp add: allocate_fd_def m)
    moreover have "3 \<le> sint (if k + 1 \<ge> 67 then 3 else word_of_int (k + 1) :: i32)" "sint (if k + 1 \<ge> 67 then 3 else word_of_int (k + 1) :: i32) \<le> 67"
      using s [of "k + 1"] k by simp_all
    ultimately show ?thesis using k neg [of k] s [of k] by (metis less_le)
  next
    case None
    obtain q where q: "fd_scan 3 v = Inr q" "case q of
        Some k \<Rightarrow> 3 \<le> k \<and> k < 67 \<and> \<not> fd_used (word_of_int k) (handles v)
      | None \<Rightarrow> \<forall>k. 3 \<le> k \<and> k < 67 \<longrightarrow> fd_used (word_of_int k) (handles v)"
      using fd_scan_spec [OF assms(1), of 3] unfolding m by auto
    show ?thesis
    proof (cases q)
      case (Some k)
      then have k: "3 \<le> k" "k < 67" "\<not> fd_used (word_of_int k) (handles v)" using q(2) by auto
      have "allocate_fd v = Inr (word_of_int k, v\<lparr>next_fd := word_of_int (k + 1)\<rparr>)" using r(1) None q(1) Some by (simp add: allocate_fd_def)
      then show ?thesis using k neg [of k] s [of k] s [of "k + 1"] by (intro exI [of _ "word_of_int k"] exI [of _ "word_of_int (k + 1)"]) simp
    next
      case n: None
      have "allocate_fd v = Inr (- 1, v\<lparr>next_fd := next_fd v\<rparr>)" using r(1) None q(1) n by (simp add: allocate_fd_def)
      then show ?thesis using q(2) n assms(2,3) by (intro exI [of _ "- 1"] exI [of _ "next_fd v"]) simp
    qed
  qed
qed

text \<open>As long as a table entry is free, so is one of the sixty-four descriptor numbers.\<close>

lemma fd_available:
  assumes "length hs = MAX_HANDLES" "j < MAX_HANDLES" "\<not> h_used (hs ! j)"
  shows "\<exists>k. 3 \<le> k \<and> k < 67 \<and> \<not> fd_used (word_of_int k) hs"
proof (rule ccontr)
  assume "\<not> ?thesis"
  then have all: "fd_used (word_of_int k) hs" if "3 \<le> k" "k < 67" for k using that by blast
  have "\<exists>i < MAX_HANDLES. h_used (hs ! i) \<and> h_fd (hs ! i) = word_of_int k" if "k \<in> {3..<67}" for k
    using all [of k] that assms(1) by (auto simp: fd_used_def in_set_conv_nth)
  then obtain g where g: "\<And>k. k \<in> {3..<67} \<Longrightarrow> g k < MAX_HANDLES \<and> h_used (hs ! g k) \<and> h_fd (hs ! g k) = word_of_int k" by metis
  have "inj_on g {3..<67}"
  proof (rule inj_onI)
    fix a b :: int assume ab: "a \<in> {3..<67}" "b \<in> {3..<67}" "g a = g b"
    have e: "(word_of_int a :: i32) = word_of_int b" using g [OF ab(1)] g [OF ab(2)] ab(3) by metis
    have "sint (word_of_int a :: i32) = a" "sint (word_of_int b :: i32) = b" using ab(1,2) by (intro sint_of_int_small; simp)+
    then show "a = b" using e by metis
  qed
  moreover have "g ` {3..<67} \<subseteq> {..<MAX_HANDLES} - {j}" using g assms(3) by auto
  ultimately have "card {3..<67 :: int} \<le> card ({..<MAX_HANDLES} - {j})" by (metis card_inj_on_le finite_Diff finite_lessThan)
  also have "\<dots> = 63" using assms(2) by (simp add: MAX_HANDLES_def)
  finally show False by simp
qed

subsection \<open>The contracts\<close>

text \<open>
  What the file system relies on in a driver.  \<open>ok s M\<close> says that the state \<open>s\<close> of the drivers is consistent with the open
  files \<open>M\<close>, each a pair of the file system it belongs to and the pointer the driver stored in the file handle.  Opening a file adds one, closing removes it,
  and no call fails or touches the fields of the file handle that the virtual file system owns.
\<close>

definition same_owner :: "vfs_file_handle \<Rightarrow> vfs_file_handle \<Rightarrow> bool" where
  "same_owner h h' \<longleftrightarrow> fh_used h' = fh_used h \<and> fh_fd h' = fh_fd h \<and> fh_mount h' = fh_mount h \<and> length (fh_path h') = length (fh_path h)"

locale vfs_driver =
  fixes ok :: "'s \<Rightarrow> (nat \<times> u64) multiset \<Rightarrow> bool" and k :: nat and dops :: "'s vfs_fs_ops"
  assumes mount_law: "op_mount dops = Some f \<Longrightarrow> ok s M \<Longrightarrow> \<exists>r mnt' s'. f mnt dev data s = Inr (r, mnt', s') \<and> ok s' M \<and>
      m_point mnt' = m_point mnt \<and> m_device mnt' = m_device mnt \<and> m_fs mnt' = m_fs mnt \<and> m_mounted mnt' = m_mounted mnt \<and> m_ref_count mnt' = m_ref_count mnt"
    and unmount_law: "op_unmount dops = Some f' \<Longrightarrow> ok s M \<Longrightarrow> \<exists>r mnt' s'. f' mnt s = Inr (r, mnt', s') \<and> ok s' M \<and>
      m_point mnt' = m_point mnt \<and> m_device mnt' = m_device mnt \<and> m_fs mnt' = m_fs mnt \<and> m_mounted mnt' = m_mounted mnt \<and> m_ref_count mnt' = m_ref_count mnt"
    and open_law: "ok s M \<Longrightarrow> terminated rel \<Longrightarrow> \<exists>f r h' s'. op_open dops = Some f \<and> f mnt rel flags h s = Inr (r, h', s') \<and> same_owner h h' \<and>
      ok s' (if sint r < 0 then M else add_mset (k, fh_private h') M)"
    and close_law: "ok s (add_mset (k, fh_private h) M) \<Longrightarrow> \<exists>f r h' s'. op_close dops = Some f \<and> f mnt h s = Inr (r, h', s') \<and> same_owner h h' \<and> ok s' M"
    and read_law: "op_read dops = Some rdf \<Longrightarrow> ok s M \<Longrightarrow> (k, fh_private h) \<in># M \<Longrightarrow> unat n \<le> length buf \<Longrightarrow>
      \<exists>r h' buf' s'. rdf mnt h buf n s = Inr (r, h', buf', s') \<and> same_owner h h' \<and> fh_private h' = fh_private h \<and> length buf' = length buf \<and> ok s' M \<and> (0 < unat n \<longrightarrow> sint r \<le> uint n)"
    and write_law: "op_write dops = Some wrf \<Longrightarrow> ok s M \<Longrightarrow> (k, fh_private h) \<in># M \<Longrightarrow> unat n \<le> length buf \<Longrightarrow> terminated buf \<Longrightarrow>
      \<exists>r h' s'. wrf mnt h buf n s = Inr (r, h', s') \<and> same_owner h h' \<and> fh_private h' = fh_private h \<and> ok s' M"
    and stat_law: "op_stat dops = Some stf \<Longrightarrow> ok s M \<Longrightarrow> terminated rel \<Longrightarrow> \<exists>r st' s'. stf mnt rel st s = Inr (r, st', s') \<and> ok s' M"
    and unlink_law: "op_unlink dops = Some ulf \<Longrightarrow> ok s M \<Longrightarrow> terminated rel \<Longrightarrow> \<exists>r s'. ulf mnt rel s = Inr (r, s') \<and> ok s' M"

text \<open>
  What it relies on in the callbacks of a device file.  A device that can be read but not written is written like a plain file,
  so its callbacks must keep the position within the size of a file; no callback sees or leaves a negative position.
\<close>

locale device_file =
  fixes ok :: "'s \<Rightarrow> (nat \<times> u64) multiset \<Rightarrow> bool" and d :: u64
    and r :: "'s vfs_dev_read option" and w :: "'s vfs_dev_write option" and sk :: "'s vfs_dev_seek option" and io :: "'s vfs_dev_ioctl option"
  assumes dev_read_law: "r = Some rf' \<Longrightarrow> ok s M \<Longrightarrow> unat n \<le> length buf \<Longrightarrow> length buf < 2 ^ 64 \<Longrightarrow> unat pos < 2 ^ 63 \<Longrightarrow>
      \<exists>x buf' pos' s'. rf' (Some d) buf n pos s = Inr (x, buf', pos', s') \<and> ok s' M \<and> length buf' = length buf \<and> (0 < unat n \<longrightarrow> sint x \<le> uint n) \<and> unat pos' < 2 ^ 63 \<and>
        (w = None \<and> unat pos \<le> MAX_FILE_SIZE \<longrightarrow> unat pos' \<le> MAX_FILE_SIZE)"
    and dev_write_law: "w = Some wf' \<Longrightarrow> ok s M \<Longrightarrow> unat n \<le> length buf \<Longrightarrow> unat pos < 2 ^ 63 \<Longrightarrow>
      \<exists>x pos' s'. wf' (Some d) buf n pos s = Inr (x, pos', s') \<and> ok s' M \<and> unat pos' < 2 ^ 63"
    and dev_seek_law: "sk = Some sf' \<Longrightarrow> ok s M \<Longrightarrow> unat pos < 2 ^ 63 \<Longrightarrow> \<exists>x pos' s'. sf' (Some d) off wh pos s = Inr (x, pos', s') \<and> ok s' M \<and> unat pos' < 2 ^ 63 \<and>
        (w = None \<and> unat pos \<le> MAX_FILE_SIZE \<longrightarrow> unat pos' \<le> MAX_FILE_SIZE)"
    and dev_ioctl_law: "io = Some cf' \<Longrightarrow> ok s M \<Longrightarrow> \<exists>x s'. cf' (Some d) req arg s = Inr (x, s') \<and> ok s' M"

subsection \<open>The invariant\<close>

definition dev_write :: "'s vfs_file \<Rightarrow> 's vfs_dev_write option" where
  "dev_write f = (if f_type f = VFS_TYPE_DEVICE then f_write f else None)"

definition file_ok :: "('s \<Rightarrow> (nat \<times> u64) multiset \<Rightarrow> bool) \<Rightarrow> 's vfs_file \<Rightarrow> bool" where
  "file_ok ok f \<longleftrightarrow> length (f_name f) = MAX_FILENAME \<and> terminated (f_name f) \<and> length (f_data f) = MAX_FILE_SIZE \<and> unat (f_size f) \<le> MAX_FILE_SIZE \<and>
     (f_type f = VFS_TYPE_DEVICE \<longrightarrow> device_file ok (f_dev_data f) (f_read f) (f_write f) (f_seek f) (f_ioctl f))"

definition handle_ok :: "'s vfs_file list \<Rightarrow> vfs_file_handle list \<Rightarrow> vfs_handle \<Rightarrow> bool" where
  "handle_ok fs fhs h \<longleftrightarrow>
     (if h_used h then
        (case h_file h of
           Some i \<Rightarrow> i < MAX_FILES \<and> f_used (fs ! i) \<and> h_mount h = None \<and> unat (h_position h) < 2 ^ 63 \<and> (dev_write (fs ! i) = None \<longrightarrow> unat (h_position h) \<le> MAX_FILE_SIZE)
         | None \<Rightarrow> (case h_mount h of
             None \<Rightarrow> True
           | Some m \<Rightarrow> (\<exists>k. h_fs_private h = Some k \<and> k < MAX_HANDLES \<and> fh_used (fhs ! k) \<and> fh_fd (fhs ! k) = h_fd h \<and> fh_mount (fhs ! k) = Some m)))
      else h_mount h = None)"

definition fds_ok :: "vfs_handle list \<Rightarrow> bool" where
  "fds_ok hs \<longleftrightarrow> (\<forall>i < length hs. \<forall>j < length hs. h_used (hs ! i) \<and> h_used (hs ! j) \<and> h_fd (hs ! i) = h_fd (hs ! j) \<longrightarrow> i = j)"

definition fh_ok :: "vfs_handle list \<Rightarrow> vfs_mount list \<Rightarrow> nat \<Rightarrow> vfs_file_handle \<Rightarrow> bool" where
  "fh_ok hs ms k fh \<longleftrightarrow> length (fh_path fh) = MAX_FILENAME \<and>
     (fh_used fh \<longrightarrow> (\<exists>m < MAX_MOUNTS. fh_mount fh = Some m \<and> m_mounted (ms ! m) \<and>
       (\<exists>h \<in> set hs. h_used h \<and> h_fd h = fh_fd fh \<and> h_file h = None \<and> h_fs_private h = Some k \<and> h_mount h = Some m)))"

definition mount_ok :: "'s vfs_filesystem list \<Rightarrow> vfs_mount \<Rightarrow> bool" where
  "mount_ok rs m \<longleftrightarrow> length (m_point m) = MAX_MOUNT_PATH \<and> length (m_device m) = MAX_MOUNT_PATH \<and> terminated (m_point m) \<and>
     (m_mounted m \<longrightarrow> (\<exists>k < MAX_REGISTERED_FS. m_fs m = Some k \<and> fs_registered (rs ! k)))"

definition fs_ok :: "('s \<Rightarrow> (nat \<times> u64) multiset \<Rightarrow> bool) \<Rightarrow> nat \<Rightarrow> 's vfs_filesystem \<Rightarrow> bool" where
  "fs_ok ok k f \<longleftrightarrow> length (fs_name f) = MAX_FS_NAME \<and> terminated (fs_name f) \<and> (fs_registered f \<longrightarrow> (\<exists>dops. fs_ops f = Some dops \<and> vfs_driver ok k dops))"

definition fs_of :: "vfs_mount list \<Rightarrow> vfs_file_handle \<Rightarrow> nat \<times> u64" where
  "fs_of ms fh = (the (m_fs (ms ! the (fh_mount fh))), fh_private fh)"

definition opened :: "vfs_mount list \<Rightarrow> vfs_file_handle list \<Rightarrow> (nat \<times> u64) multiset" where
  "opened ms fhs = image_mset (fs_of ms) (filter_mset fh_used (mset fhs))"

definition vfs_inv :: "('s \<Rightarrow> (nat \<times> u64) multiset \<Rightarrow> bool) \<Rightarrow> 's vfs \<Rightarrow> bool" where
  "vfs_inv ok v \<longleftrightarrow>
     length (files v) = MAX_FILES \<and> (\<forall>f \<in> set (files v). file_ok ok f) \<and>
     length (handles v) = MAX_HANDLES \<and> fds_ok (handles v) \<and> (\<forall>h \<in> set (handles v). handle_ok (files v) (file_handles v) h) \<and>
     length (file_handles v) = MAX_HANDLES \<and> (\<forall>k < MAX_HANDLES. fh_ok (handles v) (mounts v) k (file_handles v ! k)) \<and>
     length (mounts v) = MAX_MOUNTS \<and> (\<forall>m \<in> set (mounts v). mount_ok (registered_fs v) m) \<and>
     length (registered_fs v) = MAX_REGISTERED_FS \<and> (\<forall>k < MAX_REGISTERED_FS. fs_ok ok k (registered_fs v ! k)) \<and>
     ok (env v) (opened (mounts v) (file_handles v)) \<and> 3 \<le> sint (next_fd v) \<and> sint (next_fd v) \<le> 67 \<and> length (read_buffer v) = MAX_FILE_SIZE"

end
