(* ===== verification/Vfs_Path.thy ===== *)
theory Vfs_Path
  imports Vfs_Inv "HOL-Library.Sublist"
begin

text \<open>
  Routing of paths: \<open>vfs_find_mount\<close> chooses the longest mount point that covers a path and hands the driver the rest of it.
\<close>

text \<open>A mount point covers a path if it is a prefix that ends at a component boundary; the root covers every absolute path.\<close>

definition covers :: "u8 list \<Rightarrow> u8 list \<Rightarrow> bool" where
  "covers mp p \<longleftrightarrow> prefix mp p \<and> (length mp = length p \<or> p ! length mp = 47 \<or> mp = [47])"

definition rest_of :: "u8 list \<Rightarrow> nat \<Rightarrow> u8 list" where
  "rest_of p n = (let q = drop n p in if q \<noteq> [] \<and> hd q = 47 then tl q else q)"

lemma mount_matches_eq:
  assumes "terminated path" "terminated mp" "length mp < 2 ^ 64"
  shows "mount_matches path mp (length (cstr mp)) = Inr (covers (cstr mp) (cstr path))"
proof -
  let ?n = "length (cstr mp)"
  have "?n < 2 ^ 64" using cstr_length [OF assms(2)] assms(3) by linarith
  then have n: "unat (of_nat ?n :: u64) = ?n" by (intro unat_of_nat_eq) simp
  obtain r where r: "strncmp path mp (of_nat ?n) = Inr r" "r = 0 \<longleftrightarrow> take ?n (cstr path) = cstr mp"
    using strncmp_from_eq [of 0 path mp ?n] assms(1,2) by (auto simp: strncmp_def n)
  have pre: "take ?n (cstr path) = cstr mp \<longleftrightarrow> prefix (cstr mp) (cstr path)"
    by (metis append_eq_conv_conj prefix_def take_is_prefix)
  show ?thesis
  proof (cases "r = 0")
    case False
    then show ?thesis using r pre by (simp add: mount_matches_def covers_def)
  next
    case True
    then have p: "prefix (cstr mp) (cstr path)" using r(2) pre by simp
    then have le: "?n \<le> length (cstr path)" by (rule prefix_length_le)
    have lt: "?n < length path" using le cstr_length [OF assms(1)] by linarith
    have rp: "rd path (int ?n) = Inr (path ! ?n)" using lt by (simp add: rd_nat)
    have z: "path ! ?n = 0 \<longleftrightarrow> ?n = length (cstr path)" using le cstr_nonzero [of ?n path] cstr_end [OF assms(1)] by (metis le_neq_implies_less)
    have s: "path ! ?n = 47 \<longleftrightarrow> ?n < length (cstr path) \<and> cstr path ! ?n = 47"
      using le z cstr_nth [of ?n path] by (cases "?n = length (cstr path)") auto
    have m0: "rd mp 0 = Inr (mp ! 0)" "mp ! 0 = 47 \<longleftrightarrow> cstr mp = [47]" if "?n = 1"
    proof -
      have "0 < length mp" using cstr_length [OF assms(2)] by linarith
      then show "rd mp 0 = Inr (mp ! 0)" using rd_nat [of 0 mp] by simp
      have "cstr mp ! 0 = mp ! 0" using cstr_nth [of 0 mp] that by simp
      then show "mp ! 0 = 47 \<longleftrightarrow> cstr mp = [47]" using that by (cases "cstr mp") auto
    qed
    have c: "covers (cstr mp) (cstr path) \<longleftrightarrow> path ! ?n = 47 \<or> path ! ?n = 0 \<or> cstr mp = [47]"
      unfolding covers_def using p z s le by (auto simp: le_less)
    have ne: "cstr mp = [47] \<Longrightarrow> ?n = 1" by simp
    show ?thesis using r(1) True rp m0 ne unfolding mount_matches_def c by (cases "?n = 1") auto
  qed
qed

text \<open>The search for the longest covering mount.\<close>

definition best_of :: "vfs_mount list \<Rightarrow> u8 list \<Rightarrow> nat \<Rightarrow> nat option \<times> nat \<Rightarrow> bool" where
  "best_of ms p i b \<longleftrightarrow>
     (case fst b of
        None \<Rightarrow> snd b = 0
      | Some a \<Rightarrow> a < MAX_MOUNTS \<and> m_mounted (ms ! a) \<and> covers (cstr (m_point (ms ! a))) p \<and> snd b = length (cstr (m_point (ms ! a))) \<and> 0 < snd b) \<and>
     (\<forall>k < i. m_mounted (ms ! k) \<and> covers (cstr (m_point (ms ! k))) p \<longrightarrow> length (cstr (m_point (ms ! k))) \<le> snd b)"

lemma mount_scan_spec:
  assumes "terminated path" "length ms = MAX_MOUNTS" "\<forall>m \<in> set ms. terminated (m_point m) \<and> length (m_point m) = MAX_MOUNT_PATH"
    and "i \<le> MAX_MOUNTS" "best_of ms (cstr path) i best"
  shows "\<exists>b. mount_scan path ms i best = Inr b \<and> best_of ms (cstr path) MAX_MOUNTS b"
  using assms
proof (induction path ms i best rule: mount_scan.induct)
  case (1 path ms i best)
  show ?case
  proof (cases "i < MAX_MOUNTS")
    case False
    then have "mount_scan path ms i best = Inr best" by (subst mount_scan.simps) simp
    moreover have "i = MAX_MOUNTS" using 1(6) False by simp
    ultimately show ?thesis using 1(7) by blast
  next
    case True
    let ?m = "ms ! i"
    have r: "rd ms (int i) = Inr ?m" using True 1(4) by (simp add: rd_nat)
    have t: "terminated (m_point ?m)" "length (m_point ?m) = MAX_MOUNT_PATH" using 1(4,5) True by auto
    show ?thesis
    proof (cases "m_mounted ?m")
      case False
      have "best_of ms (cstr path) (Suc i) best" using 1(7) False by (auto simp: best_of_def less_Suc_eq)
      then show ?thesis using 1(1) [OF True r False] 1(3-5) True r False by (simp add: mount_scan.simps [of path ms i best])
    next
      case m: True
      let ?n = "length (cstr (m_point ?m))" and ?c = "covers (cstr (m_point ?m)) (cstr path)"
      have l: "strlen (m_point ?m) = Inr ?n" by (rule strlen_eq [OF t(1)])
      have mm: "mount_matches path (m_point ?m) ?n = Inr ?c" using t(2) by (intro mount_matches_eq [OF 1(3) t(1)]) (simp add: MAX_MOUNT_PATH_def)
      let ?b = "if ?c \<and> snd best < ?n then (Some i, ?n) else best"
      have "best_of ms (cstr path) (Suc i) ?b"
      proof (cases "?c \<and> snd best < ?n")
        case c: True
        then show ?thesis using 1(7) True m unfolding best_of_def by (auto simp: less_Suc_eq)
      next
        case False
        then have "?c \<longrightarrow> ?n \<le> snd best" by auto
        then show ?thesis using 1(7) False unfolding best_of_def by (auto simp: less_Suc_eq)
      qed
      then show ?thesis using 1(2) [OF True r] 1(3-5) True r m l mm by (simp add: mount_scan.simps [of path ms i best])
    qed
  qed
qed


lemma relative_path_eq:
  assumes "terminated path" "n \<le> length (cstr path)"
  shows "\<exists>rel. relative_path path n = Inr rel \<and> terminated rel \<and> cstr rel = rest_of (cstr path) n"
proof -
  let ?r = "drop n path"
  have t: "terminated ?r" and c: "cstr ?r = drop n (cstr path)" using terminated_drop [OF assms] cstr_drop [OF assms(2)] by simp_all
  obtain a as where a: "?r = a # as" using t by (cases ?r) auto
  show ?thesis
  proof (cases "a = 47")
    case True
    then have t': "terminated as" and c': "cstr as = tl (drop n (cstr path))" "drop n (cstr path) \<noteq> []" "hd (drop n (cstr path)) = 47"
      using t c a by (auto simp: terminated_Cons cstr_Cons split: if_splits) (metis list.sel list.distinct(1))+
    obtain b bs where b: "as = b # bs" using t' by (cases as) auto
    have "relative_path path n = Inr (if b = 0 then [0] else as)" using a b True by (simp add: relative_path_def rd_def)
    moreover have "rest_of (cstr path) n = cstr as" using c' by (simp add: rest_of_def Let_def)
    ultimately show ?thesis using t' b by (auto simp: cstr_Cons terminated_Cons)
  next
    case False
    have "relative_path path n = Inr (if a = 0 then [0] else ?r)" using a False by (simp add: relative_path_def rd_def)
    moreover have "\<not> (cstr ?r \<noteq> [] \<and> hd (cstr ?r) = 47)" unfolding a using False by (auto simp: cstr_Cons)
    then have "rest_of (cstr path) n = cstr ?r" unfolding rest_of_def Let_def c by auto
    ultimately show ?thesis using t a by (auto simp: cstr_Cons terminated_Cons)
  qed
qed

lemma find_mount_spec:
  assumes "terminated path" "length (mounts v) = MAX_MOUNTS" "\<forall>m \<in> set (mounts v). terminated (m_point m) \<and> length (m_point m) = MAX_MOUNT_PATH"
  shows "\<exists>r. vfs_find_mount (Some path) v = Inr r \<and> (case r of
      Some (i, rel) \<Rightarrow> i < MAX_MOUNTS \<and> m_mounted (mounts v ! i) \<and> covers (cstr (m_point (mounts v ! i))) (cstr path) \<and>
        (\<forall>m \<in> set (mounts v). m_mounted m \<and> covers (cstr (m_point m)) (cstr path) \<longrightarrow> length (cstr (m_point m)) \<le> length (cstr (m_point (mounts v ! i)))) \<and>
        terminated rel \<and> cstr rel = rest_of (cstr path) (length (cstr (m_point (mounts v ! i))))
    | None \<Rightarrow> (\<forall>m \<in> set (mounts v). m_mounted m \<and> covers (cstr (m_point m)) (cstr path) \<longrightarrow> cstr (m_point m) = []))"
proof -
  have "best_of (mounts v) (cstr path) 0 (None, 0)" by (simp add: best_of_def)
  then obtain b where b: "mount_scan path (mounts v) 0 (None, 0) = Inr b" "best_of (mounts v) (cstr path) MAX_MOUNTS b"
    using mount_scan_spec [OF assms, of 0 "(None, 0)"] by blast
  obtain a n where an: "b = (a, n)" by (cases b)
  have all: "\<forall>m \<in> set (mounts v). m_mounted m \<and> covers (cstr (m_point m)) (cstr path) \<longrightarrow> length (cstr (m_point m)) \<le> n"
    using b(2) assms(2) by (auto simp: best_of_def an in_set_conv_nth)
  show ?thesis
  proof (cases a)
    case None
    then have "n = 0" using b(2) an by (simp add: best_of_def)
    then show ?thesis using b(1) an None all by (simp add: vfs_find_mount_def)
  next
    case (Some i)
    then have i: "i < MAX_MOUNTS" "m_mounted (mounts v ! i)" "covers (cstr (m_point (mounts v ! i))) (cstr path)" "n = length (cstr (m_point (mounts v ! i)))"
      using b(2) an by (auto simp: best_of_def)
    have "n \<le> length (cstr path)" using i(3,4) prefix_length_le by (auto simp: covers_def)
    then obtain rel where "relative_path path n = Inr rel" "terminated rel" "cstr rel = rest_of (cstr path) n" using relative_path_eq [OF assms(1)] by blast
    then show ?thesis using b(1) an Some i all by (simp add: vfs_find_mount_def)
  qed
qed

end
