(* ===== verification/Vfs_Safe.thy ===== *)
theory Vfs_Safe
  imports Vfs_Path
begin

text \<open>
  Every call of the virtual file system keeps the invariant and returns.
\<close>

subsection \<open>Reading the invariant\<close>

lemma vfs_invD:
  assumes "vfs_inv ok v"
  shows "length (files v) = MAX_FILES" "\<And>i. i < MAX_FILES \<Longrightarrow> file_ok ok (files v ! i)"
    "length (handles v) = MAX_HANDLES" "fds_ok (handles v)" "\<And>j. j < MAX_HANDLES \<Longrightarrow> handle_ok (files v) (file_handles v) (handles v ! j)"
    "length (file_handles v) = MAX_HANDLES" "\<And>k. k < MAX_HANDLES \<Longrightarrow> fh_ok (handles v) (mounts v) k (file_handles v ! k)"
    "length (mounts v) = MAX_MOUNTS" "\<And>m. m < MAX_MOUNTS \<Longrightarrow> mount_ok (registered_fs v) (mounts v ! m)"
    "length (registered_fs v) = MAX_REGISTERED_FS" "\<And>k. k < MAX_REGISTERED_FS \<Longrightarrow> fs_ok ok k (registered_fs v ! k)"
    "ok (env v) (opened (mounts v) (file_handles v))" "3 \<le> sint (next_fd v)" "sint (next_fd v) \<le> 67" "length (read_buffer v) = MAX_FILE_SIZE"
  using assms nth_mem [of _ "files v"] nth_mem [of _ "handles v"] nth_mem [of _ "mounts v"] unfolding vfs_inv_def by auto

lemma in_upd: "h \<in> set hs \<Longrightarrow> j < length hs \<Longrightarrow> h \<noteq> hs ! j \<Longrightarrow> h \<in> set (hs[j := h'])"
  by (metis in_set_conv_nth length_list_update nth_list_update_neq)

lemma ball_upd: "\<forall>x \<in> set xs. P x \<Longrightarrow> P y \<Longrightarrow> \<forall>x \<in> set (xs[i := y]). P x"
  using set_update_subset_insert [of xs i y] by blast

subsection \<open>Open files\<close>

lemma opened_split:
  assumes "k < length fhs"
  shows "opened ms fhs = (if fh_used (fhs ! k) then {#fs_of ms (fhs ! k)#} else {#}) + (opened ms (take k fhs) + opened ms (drop (Suc k) fhs))"
  by (subst id_take_nth_drop [OF assms]) (simp add: opened_def)

lemma opened_upd:
  assumes "k < length fhs"
  shows "opened ms (fhs[k := h]) = (if fh_used h then {#fs_of ms h#} else {#}) + (opened ms (take k fhs) + opened ms (drop (Suc k) fhs))"
  using opened_split [of k "fhs[k := h]" ms] assms by simp

lemma opened_keep:
  "k < length fhs \<Longrightarrow> fh_used h = fh_used (fhs ! k) \<Longrightarrow> (fh_used h \<Longrightarrow> fs_of ms h = fs_of ms (fhs ! k)) \<Longrightarrow> opened ms (fhs[k := h]) = opened ms fhs"
  by (simp add: opened_split [of k fhs] opened_upd)

lemma opened_member: "k < length fhs \<Longrightarrow> fh_used (fhs ! k) \<Longrightarrow> fs_of ms (fhs ! k) \<in># opened ms fhs"
  by (simp add: opened_split [of k fhs])

subsection \<open>Small changes\<close>

lemma inv_env: "vfs_inv ok v \<Longrightarrow> ok s (opened (mounts v) (file_handles v)) \<Longrightarrow> vfs_inv ok (v\<lparr>env := s\<rparr>)"
  by (simp add: vfs_inv_def)

lemma inv_next_fd: "vfs_inv ok v \<Longrightarrow> 3 \<le> sint n \<Longrightarrow> sint n \<le> 67 \<Longrightarrow> vfs_inv ok (v\<lparr>next_fd := n\<rparr>)"
  by (simp add: vfs_inv_def)

lemma inv_read_buffer: "vfs_inv ok v \<Longrightarrow> length b = MAX_FILE_SIZE \<Longrightarrow> vfs_inv ok (v\<lparr>read_buffer := b\<rparr>)"
  by (simp add: vfs_inv_def)

lemma fds_ok_upd:
  assumes "fds_ok hs" "j < length hs" "h_used h \<Longrightarrow> (h_used (hs ! j) \<and> h_fd (hs ! j) = h_fd h) \<or> \<not> fd_used (h_fd h) hs"
  shows "fds_ok (hs[j := h])"
  unfolding fds_ok_def
proof (intro allI impI)
  fix a b assume a: "a < length (hs[j := h])" and b: "b < length (hs[j := h])"
    and e: "h_used (hs[j := h] ! a) \<and> h_used (hs[j := h] ! b) \<and> h_fd (hs[j := h] ! a) = h_fd (hs[j := h] ! b)"
  have other: "c = j" if "c < length hs" "h_used (hs ! c)" "h_fd (hs ! c) = h_fd h" "h_used h" for c
  proof -
    from assms(3) [OF that(4)] show ?thesis
    proof
      assume "h_used (hs ! j) \<and> h_fd (hs ! j) = h_fd h"
      then show "c = j" using assms(1,2) that unfolding fds_ok_def by metis
    next
      assume "\<not> fd_used (h_fd h) hs"
      then show "c = j" using that unfolding fd_used_def by (metis nth_mem)
    qed
  qed
  have l: "a < length hs" "b < length hs" using a b by simp_all
  show "a = b"
  proof (cases "a = j"; cases "b = j")
    assume "a = j" "b \<noteq> j"
    then show ?thesis using other [of b] l e assms(2) by simp
  next
    assume "a \<noteq> j" "b = j"
    then show ?thesis using other [of a] l e assms(2) by simp
  next
    assume "a \<noteq> j" "b \<noteq> j"
    then have "h_used (hs ! a) \<and> h_used (hs ! b) \<and> h_fd (hs ! a) = h_fd (hs ! b)" using e by simp
    then show ?thesis using assms(1) l unfolding fds_ok_def by blast
  qed simp
qed

text \<open>A handle that stands for the same file: only its position and its flags may differ.\<close>

definition same_role :: "vfs_handle \<Rightarrow> vfs_handle \<Rightarrow> bool" where
  "same_role h h' \<longleftrightarrow> h_used h' = h_used h \<and> h_fd h' = h_fd h \<and> h_file h' = h_file h \<and> h_fs_private h' = h_fs_private h \<and> h_mount h' = h_mount h"

lemma fh_ok_upd:
  assumes "fh_ok hs ms k fh" "j < length hs" "same_role (hs ! j) h \<or> \<not> h_used (hs ! j) \<or> h_mount (hs ! j) = None"
  shows "fh_ok (hs[j := h]) ms k fh"
proof -
  have "\<exists>x \<in> set (hs[j := h]). h_used x \<and> h_fd x = fh_fd fh \<and> h_file x = None \<and> h_fs_private x = Some k \<and> h_mount x = Some m"
    if x: "x \<in> set hs" "h_used x" "h_fd x = fh_fd fh" "h_file x = None" "h_fs_private x = Some k" "h_mount x = Some m" for x m
  proof (cases "x = hs ! j")
    case True
    then have "same_role (hs ! j) h" using assms(3) x by auto
    then show ?thesis using True x set_update_memI [OF assms(2), of h] by (auto simp: same_role_def)
  next
    case False
    then show ?thesis using in_upd [OF x(1) assms(2) False] x by auto
  qed
  then show ?thesis using assms(1) unfolding fh_ok_def by blast
qed

lemma inv_handle:
  assumes "vfs_inv ok v" "j < MAX_HANDLES" "handle_ok (files v) (file_handles v) h"
    and "h_used h \<Longrightarrow> (h_used (handles v ! j) \<and> h_fd (handles v ! j) = h_fd h) \<or> \<not> fd_used (h_fd h) (handles v)"
    and "same_role (handles v ! j) h \<or> \<not> h_used (handles v ! j) \<or> h_mount (handles v ! j) = None"
  shows "vfs_inv ok (v\<lparr>handles := (handles v)[j := h]\<rparr>)"
proof -
  note D = vfs_invD [OF assms(1)]
  have 1: "fds_ok ((handles v)[j := h])" using fds_ok_upd [OF D(4)] assms(2,4) D(3) by simp
  have 2: "\<forall>h' \<in> set ((handles v)[j := h]). handle_ok (files v) (file_handles v) h'"
    by (rule ball_upd) (use assms(1,3) in \<open>simp_all add: vfs_inv_def\<close>)
  have 3: "\<forall>k < MAX_HANDLES. fh_ok ((handles v)[j := h]) (mounts v) k (file_handles v ! k)"
    using fh_ok_upd D(3,7) assms(2,5) by metis
  show ?thesis using assms(1) 1 2 3 unfolding vfs_inv_def by simp
qed

lemma inv_position:
  assumes "vfs_inv ok v" "j < MAX_HANDLES"
    and "\<And>i. h_used (handles v ! j) \<Longrightarrow> h_file (handles v ! j) = Some i \<Longrightarrow> unat pos < 2 ^ 63 \<and> (dev_write (files v ! i) = None \<longrightarrow> unat pos \<le> MAX_FILE_SIZE)"
  shows "vfs_inv ok (v\<lparr>handles := (handles v)[j := (handles v ! j)\<lparr>h_position := pos\<rparr>]\<rparr>)"
proof (rule inv_handle [OF assms(1,2)])
  show "handle_ok (files v) (file_handles v) ((handles v ! j)\<lparr>h_position := pos\<rparr>)"
    using vfs_invD(5) [OF assms(1,2)] assms(3) by (auto simp: handle_ok_def split: option.splits)
qed (simp_all add: same_role_def)

lemma inv_position_legacy:
  assumes "vfs_inv ok v" "j < MAX_HANDLES" "h_file (handles v ! j) = Some i" "ok s (opened (mounts v) (file_handles v))"
    and "unat pos < 2 ^ 63" "dev_write (files v ! i) = None \<Longrightarrow> unat pos \<le> MAX_FILE_SIZE"
  shows "vfs_inv ok (v\<lparr>env := s, handles := (handles v)[j := (handles v ! j)\<lparr>h_position := pos\<rparr>]\<rparr>)"
proof -
  have "vfs_inv ok ((v\<lparr>env := s\<rparr>)\<lparr>handles := (handles (v\<lparr>env := s\<rparr>))[j := (handles (v\<lparr>env := s\<rparr>) ! j)\<lparr>h_position := pos\<rparr>]\<rparr>)"
    by (rule inv_position [OF inv_env [OF assms(1,4)] assms(2)]) (use assms(3,5,6) in simp)
  then show ?thesis by simp
qed

lemma small_position: "unat p \<le> MAX_FILE_SIZE \<Longrightarrow> unat p < 2 ^ 63" for p :: u64
  by (simp add: MAX_FILE_SIZE_def)

lemma inv_fh:
  assumes "vfs_inv ok v" "k < MAX_HANDLES" "same_owner (file_handles v ! k) fh" "fh_used fh \<Longrightarrow> fh_private fh = fh_private (file_handles v ! k)"
  shows "vfs_inv ok (v\<lparr>file_handles := (file_handles v)[k := fh]\<rparr>)"
proof -
  note D = vfs_invD [OF assms(1)]
  have s: "fh_used fh = fh_used (file_handles v ! k)" "fh_fd fh = fh_fd (file_handles v ! k)" "fh_mount fh = fh_mount (file_handles v ! k)"
    "length (fh_path fh) = length (fh_path (file_handles v ! k))" using assms(3) by (simp_all add: same_owner_def)
  have o: "opened (mounts v) ((file_handles v)[k := fh]) = opened (mounts v) (file_handles v)"
    using assms(2,4) D(6) s by (intro opened_keep) (simp_all add: fs_of_def)
  have h: "handle_ok (files v) ((file_handles v)[k := fh]) h" if "handle_ok (files v) (file_handles v) h" for h
    using that s assms(2) D(6) by (auto simp: handle_ok_def nth_list_update split: option.splits)
  have f: "fh_ok (handles v) (mounts v) i ((file_handles v)[k := fh] ! i)" if "i < MAX_HANDLES" for i
    using D(7) [OF that] s assms(2) D(6) by (cases "i = k") (auto simp: fh_ok_def)
  show ?thesis using assms(1) o h f unfolding vfs_inv_def by simp
qed


lemma dev_write_data [simp]: "dev_write (f\<lparr>f_data := a, f_size := b\<rparr>) = dev_write f"
  by (simp add: dev_write_def)

lemma inv_file:
  assumes "vfs_inv ok v" "i < MAX_FILES" "file_ok ok f" "f_used (files v ! i) \<Longrightarrow> f_used f"
    and "f_used (files v ! i) \<Longrightarrow> dev_write f = None \<Longrightarrow> dev_write (files v ! i) = None"
  shows "vfs_inv ok (v\<lparr>files := (files v)[i := f]\<rparr>)"
proof -
  note D = vfs_invD [OF assms(1)]
  have 1: "\<forall>g \<in> set ((files v)[i := f]). file_ok ok g" by (rule ball_upd) (use assms(1,3) in \<open>simp_all add: vfs_inv_def\<close>)
  have 2: "handle_ok ((files v)[i := f]) (file_handles v) h" if "handle_ok (files v) (file_handles v) h" for h
    using that assms(2,4,5) D(1) unfolding handle_ok_def by (auto simp: nth_list_update split: option.splits)
  show ?thesis using assms(1) 1 2 unfolding vfs_inv_def by simp
qed

subsection \<open>Reading and writing\<close>

lemma mounted_handle:
  assumes "vfs_inv ok v" "j < MAX_HANDLES" "h_used (handles v ! j)" "h_file (handles v ! j) = None" "h_mount (handles v ! j) = Some m"
  obtains k kf dops where "handle_ops (handles v ! j) v = Inr (Some (mounts v ! m, dops))" "live_fh (handles v ! j) v = Inr (Some k)"
    "k < MAX_HANDLES" "fh_used (file_handles v ! k)" "vfs_driver ok kf dops" "fs_of (mounts v) (file_handles v ! k) = (kf, fh_private (file_handles v ! k))"
    "fh_fd (file_handles v ! k) = h_fd (handles v ! j)" "fh_mount (file_handles v ! k) = Some m" "h_fs_private (handles v ! j) = Some k"
proof -
  note D = vfs_invD [OF assms(1)]
  obtain k where k: "h_fs_private (handles v ! j) = Some k" "k < MAX_HANDLES" "fh_used (file_handles v ! k)" "fh_mount (file_handles v ! k) = Some m"
    "fh_fd (file_handles v ! k) = h_fd (handles v ! j)"
    using D(5) [OF assms(2)] assms(3-5) by (auto simp: handle_ok_def)
  have m: "m < MAX_MOUNTS" "m_mounted (mounts v ! m)" using D(7) [OF k(2)] k(3,4) by (auto simp: fh_ok_def)
  obtain kf where kf: "kf < MAX_REGISTERED_FS" "m_fs (mounts v ! m) = Some kf" "fs_registered (registered_fs v ! kf)"
    using D(9) [OF m(1)] m(2) by (auto simp: mount_ok_def)
  obtain dops where d: "fs_ops (registered_fs v ! kf) = Some dops" "vfs_driver ok kf dops" using D(11) [OF kf(1)] kf(3) by (auto simp: fs_ok_def)
  have "handle_ops (handles v ! j) v = Inr (Some (mounts v ! m, dops))"
    using assms(5) m(1) kf d D(8,10) by (simp add: handle_ops_def mount_ops_def rd_nat)
  moreover have "live_fh (handles v ! j) v = Inr (Some k)" using k D(6) by (simp add: live_fh_def rd_nat)
  ultimately show ?thesis using that k d kf by (simp add: fs_of_def)
qed

lemma unmounted_handle: "h_mount h = None \<Longrightarrow> handle_ops h v = Inr None"
  by (simp add: handle_ops_def)

lemma legacy_handle:
  assumes "vfs_inv ok v" "j < MAX_HANDLES" "h_used (handles v ! j)" "h_file (handles v ! j) = Some i"
  shows "i < MAX_FILES" "f_used (files v ! i)" "h_mount (handles v ! j) = None" "dev_write (files v ! i) = None \<Longrightarrow> unat (h_position (handles v ! j)) \<le> MAX_FILE_SIZE"
    "unat (h_position (handles v ! j)) < 2 ^ 63"
  using vfs_invD(5) [OF assms(1,2)] assms(3,4) by (auto simp: handle_ok_def)

lemma advance_safe:
  assumes "vfs_inv ok v" "j < MAX_HANDLES" "k < MAX_HANDLES" "h_file (handles v ! j) = None"
  shows "\<exists>v'. advance j k result v = Inr v' \<and> vfs_inv ok v'"
proof (cases "0 < sint result")
  case False
  then show ?thesis using assms(1) by (simp add: advance_def)
next
  case True
  note D = vfs_invD [OF assms(1)]
  let ?p = "h_position (handles v ! j) + result" and ?v = "v\<lparr>handles := (handles v)[j := (handles v ! j)\<lparr>h_position := h_position (handles v ! j) + result\<rparr>]\<rparr>"
  have v: "vfs_inv ok ?v" by (rule inv_position [OF assms(1,2)]) (use assms(4) in simp)
  have "vfs_inv ok (?v\<lparr>file_handles := (file_handles ?v)[k := (file_handles ?v ! k)\<lparr>fh_position := ?p\<rparr>]\<rparr>)"
    by (rule inv_fh [OF v assms(3)]) (simp_all add: same_owner_def)
  then show ?thesis using True assms(2,3) D(3,6) by (simp add: advance_def rd_nat upd_defs upd_eq Let_def)
qed

lemma driver_read_safe:
  assumes "vfs_inv ok v" "j < MAX_HANDLES" "h_file (handles v ! j) = None" "k < MAX_HANDLES" "fh_used (file_handles v ! k)"
    and "vfs_driver ok kf dops" "fs_of (mounts v) (file_handles v ! k) = (kf, fh_private (file_handles v ! k))" "op_read dops = Some f" "unat n \<le> length buf"
  shows "\<exists>result fh buf' s v'. f mnt (file_handles v ! k) buf n (env v) = Inr (result, fh, buf', s) \<and> length buf' = length buf \<and> (0 < unat n \<longrightarrow> sint result \<le> uint n) \<and>
    bindR (upd_fh k (\<lambda>_. fh) (v\<lparr>env := s\<rparr>)) (\<lambda>v. bindR (advance j k result v) (\<lambda>v. Inr (result, buf', v))) = Inr (result, buf', v') \<and> vfs_inv ok v'"
proof -
  note D = vfs_invD [OF assms(1)]
  have mem: "(kf, fh_private (file_handles v ! k)) \<in># opened (mounts v) (file_handles v)"
    using opened_member [of k "file_handles v" "mounts v"] assms(4,5,7) D(6) by simp
  obtain result fh buf' s where r: "f mnt (file_handles v ! k) buf n (env v) = Inr (result, fh, buf', s)" "same_owner (file_handles v ! k) fh"
    "fh_private fh = fh_private (file_handles v ! k)" "length buf' = length buf" "ok s (opened (mounts v) (file_handles v))" "0 < unat n \<longrightarrow> sint result \<le> uint n"
    using vfs_driver.read_law [OF assms(6,8) D(12) mem assms(9)] by blast
  let ?v = "v\<lparr>env := s, file_handles := (file_handles v)[k := fh]\<rparr>"
  have v: "vfs_inv ok ?v" using inv_fh [OF inv_env [OF assms(1) r(5)] assms(4), of fh] r(2,3) by simp
  obtain v' where "advance j k result ?v = Inr v'" "vfs_inv ok v'" using advance_safe [OF v assms(2,4), of result] assms(3) by auto
  then show ?thesis using r(1,4,6) assms(4) D(6) by (simp add: upd_defs upd_eq)
qed


lemma file_device: "file_ok ok f \<Longrightarrow> f_type f = VFS_TYPE_DEVICE \<Longrightarrow> device_file ok (f_dev_data f) (f_read f) (f_write f) (f_seek f) (f_ioctl f)"
  by (simp add: file_ok_def)

text \<open>Reading the contents of a file at a position.\<close>

lemma read_plain:
  assumes "i < length (files v)" "j < length (handles v)" "handles v ! j = h" "\<not> (f_type (files v ! i) = VFS_TYPE_DEVICE \<and> f_read (files v ! i) \<noteq> None)"
    and "unat (f_size (files v ! i)) \<le> length (f_data (files v ! i))" "unat n \<le> length buf"
  shows "read_legacy j h i buf n v =
    (let m = min (unat n) (unat (f_size (files v ! i)) - unat (h_position h)) in
     Inr (of_nat m, take m (drop (unat (h_position h)) (f_data (files v ! i))) @ drop m buf,
       v\<lparr>handles := (handles v)[j := h\<lparr>h_position := h_position h + of_nat m\<rparr>]\<rparr>))"
proof -
  let ?f = "files v ! i" and ?p = "h_position h"
  have dv: "(if f_type ?f = VFS_TYPE_DEVICE then f_read ?f else None) = None" using assms(4) by auto
  show ?thesis
  proof (cases "f_size ?f \<le> ?p")
    case True
    then have "unat (f_size ?f) - unat ?p = 0" by (simp add: word_le_nat_alt)
    moreover have "(handles v)[j := h] = handles v" using assms(3) by (metis list_update_id)
    ultimately show ?thesis using assms(1-3) True dv by (simp add: read_legacy_def rd_nat Let_def)
  next
    case False
    then have lt: "unat ?p < unat (f_size ?f)" by (simp add: word_le_nat_alt)
    have rem: "unat (f_size ?f - ?p) = unat (f_size ?f) - unat ?p" using False by (intro unat_sub) simp
    define t where "t = (if n < f_size ?f - ?p then n else f_size ?f - ?p)"
    have m: "min (unat n) (unat (f_size ?f) - unat ?p) = unat t" by (auto simp: t_def word_less_nat_alt rem)
    have "unat t \<le> unat (f_size ?f) - unat ?p" "unat t \<le> length buf" using m [symmetric] assms(6) by simp_all
    then have "memcpy buf 0 (drop (unat ?p) (f_data ?f)) (unat t) = Inr (take (unat t) (drop (unat ?p) (f_data ?f)) @ drop (unat t) buf)"
      using memcpy_eq [of "unat t" "drop (unat ?p) (f_data ?f)" 0 buf] assms(5) lt by simp
    then show ?thesis using assms(1-3) False dv unfolding Let_def m
      by (cases "n < f_size ?f - ?p") (simp_all add: read_legacy_def Let_def t_def rd_nat upd_defs upd_eq)
  qed
qed

lemma read_legacy_safe:
  assumes "vfs_inv ok v" "j < MAX_HANDLES" "h_used (handles v ! j)" "h_file (handles v ! j) = Some i" "unat n \<le> length buf" "length buf < 2 ^ 64"
  shows "\<exists>r buf' v'. read_legacy j (handles v ! j) i buf n v = Inr (r, buf', v') \<and> vfs_inv ok v' \<and> length buf' = length buf \<and> (0 < unat n \<longrightarrow> sint r \<le> uint n)"
proof -
  note D = vfs_invD [OF assms(1)] and L = legacy_handle [OF assms(1-4)]
  let ?f = "files v ! i" and ?h = "handles v ! j"
  have f: "file_ok ok ?f" by (rule D(2) [OF L(1)])
  show ?thesis
  proof (cases "f_type ?f = VFS_TYPE_DEVICE \<and> f_read ?f \<noteq> None")
    case True
    then obtain rf where rf: "f_read ?f = Some rf" by blast
    obtain x buf' pos s where r: "rf (Some (f_dev_data ?f)) buf n (h_position ?h) (env v) = Inr (x, buf', pos, s)" "ok s (opened (mounts v) (file_handles v))"
      "length buf' = length buf" "0 < unat n \<longrightarrow> sint x \<le> uint n" "f_write ?f = None \<and> unat (h_position ?h) \<le> MAX_FILE_SIZE \<longrightarrow> unat pos \<le> MAX_FILE_SIZE" "unat pos < 2 ^ 63"
      using device_file.dev_read_law [OF file_device [OF f conjunct1 [OF True]] rf D(12) assms(5,6) L(5)] by (elim exE conjE) simp
    have "vfs_inv ok (v\<lparr>env := s, handles := (handles v)[j := ?h\<lparr>h_position := pos\<rparr>]\<rparr>)"
      using r(5) L(4) True by (intro inv_position_legacy [OF assms(1,2,4) r(2,6)]) (simp add: dev_write_def)
    then show ?thesis using True rf r(1,3,4) L(1) D(1,3) assms(2) by (simp add: read_legacy_def rd_nat upd_defs upd_eq)
  next
    case False
    let ?m = "min (unat n) (unat (f_size ?f) - unat (h_position ?h))"
    have e: "read_legacy j ?h i buf n v = Inr (of_nat ?m, take ?m (drop (unat (h_position ?h)) (f_data ?f)) @ drop ?m buf,
       v\<lparr>handles := (handles v)[j := ?h\<lparr>h_position := h_position ?h + of_nat ?m\<rparr>]\<rparr>)"
      using read_plain [of i v j ?h n buf] f False L(1) D(1,3) assms(2,5) unfolding Let_def file_ok_def by simp
    have sz: "unat (f_size ?f) \<le> MAX_FILE_SIZE" "length (f_data ?f) = MAX_FILE_SIZE" using f by (simp_all add: file_ok_def)
    have "unat (h_position ?h + of_nat ?m) \<le> MAX_FILE_SIZE" if "dev_write ?f = None"
    proof -
      have p: "unat (h_position ?h) \<le> MAX_FILE_SIZE" by (rule L(4) [OF that])
      have "unat (of_nat ?m :: u64) = ?m" using sz by (intro unat_of_nat_eq) (simp add: MAX_FILE_SIZE_def)
      then have "unat (h_position ?h + of_nat ?m) = (unat (h_position ?h) + ?m) mod 2 ^ 64" by (simp add: unat_word_ariths)
      also have "\<dots> \<le> unat (h_position ?h) + ?m" by (rule mod_less_eq_dividend)
      also have "\<dots> \<le> MAX_FILE_SIZE" using p sz by linarith
      finally show ?thesis .
    qed
    moreover have "unat (h_position ?h + of_nat ?m) < 2 ^ 63"
    proof (cases "unat (h_position ?h) \<le> unat (f_size ?f)")
      case True
      then have "unat (h_position ?h) + ?m \<le> MAX_FILE_SIZE" using sz by linarith
      then show ?thesis by (simp add: unat_word_ariths MAX_FILE_SIZE_def unat_of_nat take_bit_nat_eq_self)
    qed (use L(5) in simp)
    ultimately have "vfs_inv ok (v\<lparr>handles := (handles v)[j := ?h\<lparr>h_position := h_position ?h + of_nat ?m\<rparr>]\<rparr>)"
      by (intro inv_position [OF assms(1,2)]) (simp add: assms(4))
    moreover have "length (take ?m (drop (unat (h_position ?h)) (f_data ?f)) @ drop ?m buf) = length buf" using sz assms(5) by auto
    moreover have "sint (of_nat ?m :: u64) \<le> uint n"
    proof -
      have "unat (of_nat ?m :: u64) = ?m" using sz by (intro unat_of_nat_eq) (simp add: MAX_FILE_SIZE_def)
      then have u: "uint (of_nat ?m :: u64) = int ?m" by (metis uint_nat)
      have "int ?m < 2 ^ 63" using sz by (simp add: MAX_FILE_SIZE_def)
      then have "sint (of_nat ?m :: u64) = int ?m" using u by (subst sint_small_eq_uint) simp_all
      moreover have "int ?m \<le> int (unat n)" by (simp only: of_nat_le_iff min.cobounded1)
      ultimately show ?thesis by simp
    qed
    ultimately show ?thesis using e by blast
  qed
qed

lemma vfs_readfd_safe:
  assumes "vfs_inv ok v" "unat n \<le> length buf" "length buf < 2 ^ 64"
  shows "\<exists>r buf' v'. vfs_readfd fd buf n v = Inr (r, buf', v') \<and> vfs_inv ok v' \<and> length buf' = length buf \<and> (0 < unat n \<longrightarrow> sint r \<le> uint n)"
proof -
  note D = vfs_invD [OF assms(1)]
  from D(3) show ?thesis
  proof (cases rule: get_handle_cases [where fd = fd])
    case none
    then show ?thesis using assms(1) by (simp add: vfs_readfd_def EBADF_def)
  next
    case (some j)
    let ?h = "handles v ! j"
    have r: "rd (handles v) (int j) = Inr ?h" using some(2) D(3) by (simp add: rd_nat)
    show ?thesis
    proof (cases "h_flags ?h AND VFS_READ = 0")
      case True
      then show ?thesis using assms(1) some(1) r by (simp add: vfs_readfd_def EACCES_def)
    next
      case fl: False
      show ?thesis
      proof (cases "h_file ?h")
        case (Some i)
        then show ?thesis using read_legacy_safe [OF assms(1) some(2,3) Some assms(2,3)] fl some(1) r by (simp add: vfs_readfd_def)
      next
        case nf: None
        show ?thesis
        proof (cases "h_mount ?h")
          case None
          then show ?thesis using assms(1) fl some(1) r nf unmounted_handle [OF None, of v] by (simp add: vfs_readfd_def EIO_def)
        next
          case (Some m)
          obtain k kf dops where k: "handle_ops ?h v = Inr (Some (mounts v ! m, dops))" "live_fh ?h v = Inr (Some k)" "k < MAX_HANDLES"
            "fh_used (file_handles v ! k)" "vfs_driver ok kf dops" "fs_of (mounts v) (file_handles v ! k) = (kf, fh_private (file_handles v ! k))"
            by (rule mounted_handle [OF assms(1) some(2,3) nf Some])
          let ?v = "v\<lparr>file_handles := (file_handles v)[k := (file_handles v ! k)\<lparr>fh_position := h_position ?h\<rparr>]\<rparr>"
          have v: "vfs_inv ok ?v" by (rule inv_fh [OF assms(1) k(3)]) (simp_all add: same_owner_def)
          have u: "upd_fh k (\<lambda>fh. fh\<lparr>fh_position := h_position ?h\<rparr>) v = Inr ?v" using k(3) D(6) by (simp add: upd_defs upd_eq)
          show ?thesis
          proof (cases "op_read dops")
            case None
            then show ?thesis using v u k(1,2) fl some(1) r nf by (simp add: vfs_readfd_def EIO_def)
          next
            case (Some f)
            have "\<exists>result fh buf' s v'. f (mounts v ! m) (file_handles ?v ! k) buf n (env ?v) = Inr (result, fh, buf', s) \<and> length buf' = length buf \<and> (0 < unat n \<longrightarrow> sint result \<le> uint n) \<and>
                bindR (upd_fh k (\<lambda>_. fh) (?v\<lparr>env := s\<rparr>)) (\<lambda>v. bindR (advance j k result v) (\<lambda>v. Inr (result, buf', v))) = Inr (result, buf', v') \<and> vfs_inv ok v'"
              by (rule driver_read_safe [OF v some(2) _ k(3) _ k(5) _ Some assms(2)]) (use nf k(3,4,6) D(6) in \<open>simp_all add: fs_of_def\<close>)
            then obtain result fh buf' s v' where q: "f (mounts v ! m) (file_handles ?v ! k) buf n (env ?v) = Inr (result, fh, buf', s)" "length buf' = length buf" "0 < unat n \<longrightarrow> sint result \<le> uint n"
              "bindR (upd_fh k (\<lambda>_. fh) (?v\<lparr>env := s\<rparr>)) (\<lambda>v. bindR (advance j k result v) (\<lambda>v. Inr (result, buf', v))) = Inr (result, buf', v')" "vfs_inv ok v'"
              by (elim exE conjE)
            have fr: "rd (file_handles ?v) (int k) = Inr (file_handles ?v ! k)" using k(3) D(6) by (simp add: rd_nat)
            show ?thesis using u k(1,2) fl some(1) r nf Some q fr by (simp add: vfs_readfd_def)
          qed
        qed
      qed
    qed
  qed
qed


text \<open>Writing into a file at a position: the write is cut at the size limit, and writing nothing reports a full disk.\<close>

lemma write_plain:
  assumes "i < length (files v)" "j < length (handles v)" "handles v ! j = h" "dev_write (files v ! i) = None"
    and "unat (h_position h) \<le> MAX_FILE_SIZE" "length (f_data (files v ! i)) = MAX_FILE_SIZE" "unat n \<le> length buf" "unat n < 2 ^ 63"
  shows "write_legacy j h i buf n v =
    (let p = unat (h_position h); m = min (unat n) (MAX_FILE_SIZE - p) in
     if m = 0 then Inr (scast (- ENOSPC), v)
     else Inr (of_nat m, v\<lparr>handles := (handles v)[j := h\<lparr>h_position := of_nat (p + m)\<rparr>],
       files := (files v)[i := (files v ! i)\<lparr>f_data := take p (f_data (files v ! i)) @ take m buf @ drop (p + m) (f_data (files v ! i)),
         f_size := if of_nat (p + m) > f_size (files v ! i) then of_nat (p + m) else f_size (files v ! i)\<rparr>]\<rparr>))"
proof -
  let ?f = "files v ! i" and ?p = "h_position h"
  have dv: "(if f_type ?f = VFS_TYPE_DEVICE then f_write ?f else None) = None" using assms(4) by (simp add: dev_write_def)
  define c where "c = (if ?p + n > of_nat MAX_FILE_SIZE then of_nat MAX_FILE_SIZE - ?p else n)"
  have M: "unat (of_nat MAX_FILE_SIZE :: u64) = MAX_FILE_SIZE" by (intro unat_of_nat_eq) (simp add: MAX_FILE_SIZE_def)
  have s: "unat (?p + n) = unat ?p + unat n"
    using assms(5,8) by (subst unat_word_ariths) (simp add: MAX_FILE_SIZE_def)
  have d: "unat (of_nat MAX_FILE_SIZE - ?p) = MAX_FILE_SIZE - unat ?p" using assms(5) M by (subst unat_sub) (simp_all add: word_le_nat_alt)
  have m: "min (unat n) (MAX_FILE_SIZE - unat ?p) = unat c" using s d M by (auto simp: c_def word_less_nat_alt)
  have c0: "c = 0 \<longleftrightarrow> unat c = 0" by (simp add: unat_eq_zero)
  have b: "unat c \<le> length buf" "unat ?p + unat c \<le> MAX_FILE_SIZE" using m [symmetric] assms(5,7) by linarith+
  have cp: "memcpy (f_data ?f) (unat ?p) buf (unat c) = Inr (take (unat ?p) (f_data ?f) @ take (unat c) buf @ drop (unat ?p + unat c) (f_data ?f))"
    using memcpy_eq [of "unat c" buf "unat ?p" "f_data ?f"] b assms(6) by simp
  have "write_legacy j h i buf n v =
     (if c = 0 then Inr (scast (- ENOSPC), v)
      else bindR (memcpy (f_data ?f) (unat ?p) buf (unat c)) (\<lambda>data.
           bindR (upd_handle j (\<lambda>h. h\<lparr>h_position := ?p + c\<rparr>) v) (\<lambda>v.
           bindR (upd_file i (\<lambda>f. f\<lparr>f_data := data, f_size := if ?p + c > f_size f then ?p + c else f_size f\<rparr>) v) (\<lambda>v. Inr (c, v)))))"
    using assms(1) dv unfolding write_legacy_def c_def Let_def by (simp add: rd_nat)
  then show ?thesis using cp assms(1-3) unfolding Let_def m c0
    by (simp add: upd_defs upd_eq)
qed

lemma write_legacy_safe:
  assumes "vfs_inv ok v" "j < MAX_HANDLES" "h_used (handles v ! j)" "h_file (handles v ! j) = Some i" "unat n \<le> length buf" "unat n < 2 ^ 63"
  shows "\<exists>r v'. write_legacy j (handles v ! j) i buf n v = Inr (r, v') \<and> vfs_inv ok v'"
proof -
  note D = vfs_invD [OF assms(1)] and L = legacy_handle [OF assms(1-4)]
  let ?f = "files v ! i" and ?h = "handles v ! j"
  have f: "file_ok ok ?f" by (rule D(2) [OF L(1)])
  show ?thesis
  proof (cases "dev_write ?f")
    case (Some w)
    then have t: "f_type ?f = VFS_TYPE_DEVICE" "f_write ?f = Some w" by (simp_all add: dev_write_def split: if_splits)
    obtain x pos s where r: "w (Some (f_dev_data ?f)) buf n (h_position ?h) (env v) = Inr (x, pos, s)" "ok s (opened (mounts v) (file_handles v))" "unat pos < 2 ^ 63"
      using device_file.dev_write_law [OF file_device [OF f t(1)] t(2) D(12) assms(5) L(5)] by blast
    have "vfs_inv ok (v\<lparr>env := s, handles := (handles v)[j := ?h\<lparr>h_position := pos\<rparr>]\<rparr>)"
      using Some by (intro inv_position_legacy [OF assms(1,2,4) r(2,3)]) simp
    then show ?thesis using t r(1) L(1) D(1,3) assms(2) by (simp add: write_legacy_def rd_nat upd_defs upd_eq)
  next
    case None
    let ?p = "unat (h_position ?h)" and ?m = "min (unat n) (MAX_FILE_SIZE - unat (h_position ?h))"
    have p: "?p \<le> MAX_FILE_SIZE" by (rule L(4) [OF None])
    have e: "write_legacy j ?h i buf n v = (if ?m = 0 then Inr (scast (- ENOSPC), v)
     else Inr (of_nat ?m, v\<lparr>handles := (handles v)[j := ?h\<lparr>h_position := of_nat (?p + ?m)\<rparr>],
       files := (files v)[i := ?f\<lparr>f_data := take ?p (f_data ?f) @ take ?m buf @ drop (?p + ?m) (f_data ?f),
         f_size := if of_nat (?p + ?m) > f_size ?f then of_nat (?p + ?m) else f_size ?f\<rparr>]\<rparr>))"
      using write_plain [of i v j ?h n buf] f None L(1) p D(1,3) assms(2,5,6) unfolding Let_def file_ok_def by simp
    have q: "unat (of_nat (?p + ?m) :: u64) \<le> MAX_FILE_SIZE" using p by (subst unat_of_nat_eq) (simp_all add: MAX_FILE_SIZE_def)
    let ?v = "v\<lparr>handles := (handles v)[j := ?h\<lparr>h_position := of_nat (?p + ?m)\<rparr>]\<rparr>"
    have v: "vfs_inv ok ?v" using q small_position [OF q] by (intro inv_position [OF assms(1,2)]) simp
    have fo: "file_ok ok (?f\<lparr>f_data := take ?p (f_data ?f) @ take ?m buf @ drop (?p + ?m) (f_data ?f),
         f_size := if of_nat (?p + ?m) > f_size ?f then of_nat (?p + ?m) else f_size ?f\<rparr>)"
      using f q p assms(5) by (auto simp: file_ok_def)
    have "vfs_inv ok (?v\<lparr>files := (files ?v)[i := ?f\<lparr>f_data := take ?p (f_data ?f) @ take ?m buf @ drop (?p + ?m) (f_data ?f),
         f_size := if of_nat (?p + ?m) > f_size ?f then of_nat (?p + ?m) else f_size ?f\<rparr>]\<rparr>)"
      by (rule inv_file [OF v L(1) fo]) simp_all
    then show ?thesis using e assms(1) by simp
  qed
qed


lemma driver_write_safe:
  assumes "vfs_inv ok v" "j < MAX_HANDLES" "h_file (handles v ! j) = None" "k < MAX_HANDLES" "fh_used (file_handles v ! k)"
    and "vfs_driver ok kf dops" "fs_of (mounts v) (file_handles v ! k) = (kf, fh_private (file_handles v ! k))" "op_write dops = Some f" "unat n \<le> length buf" "terminated buf"
  shows "\<exists>result fh s v'. f mnt (file_handles v ! k) buf n (env v) = Inr (result, fh, s) \<and>
    bindR (upd_fh k (\<lambda>_. fh) (v\<lparr>env := s\<rparr>)) (\<lambda>v. bindR (advance j k result v) (\<lambda>v. Inr (result, v))) = Inr (result, v') \<and> vfs_inv ok v'"
proof -
  note D = vfs_invD [OF assms(1)]
  have mem: "(kf, fh_private (file_handles v ! k)) \<in># opened (mounts v) (file_handles v)"
    using opened_member [of k "file_handles v" "mounts v"] assms(4,5,7) D(6) by simp
  obtain result fh s where r: "f mnt (file_handles v ! k) buf n (env v) = Inr (result, fh, s)" "same_owner (file_handles v ! k) fh"
    "fh_private fh = fh_private (file_handles v ! k)" "ok s (opened (mounts v) (file_handles v))"
    using vfs_driver.write_law [OF assms(6,8) D(12) mem assms(9,10)] by blast
  let ?v = "v\<lparr>env := s, file_handles := (file_handles v)[k := fh]\<rparr>"
  have v: "vfs_inv ok ?v" using inv_fh [OF inv_env [OF assms(1) r(4)] assms(4), of fh] r(2,3) by simp
  obtain v' where "advance j k result ?v = Inr v'" "vfs_inv ok v'" using advance_safe [OF v assms(2,4), of result] assms(3) by auto
  then show ?thesis using r(1) assms(4) D(6) by (simp add: upd_defs upd_eq)
qed

lemma vfs_writefd_safe:
  assumes "vfs_inv ok v" "unat n \<le> length buf" "terminated buf" "unat n < 2 ^ 63"
  shows "\<exists>r v'. vfs_writefd fd buf n v = Inr (r, v') \<and> vfs_inv ok v'"
proof -
  note D = vfs_invD [OF assms(1)]
  from D(3) show ?thesis
  proof (cases rule: get_handle_cases [where fd = fd])
    case none
    then show ?thesis using assms(1) by (simp add: vfs_writefd_def)
  next
    case (some j)
    let ?h = "handles v ! j"
    have r: "rd (handles v) (int j) = Inr ?h" using some(2) D(3) by (simp add: rd_nat)
    show ?thesis
    proof (cases "h_flags ?h AND VFS_WRITE = 0 \<or> fd = 1 \<or> fd = 2")
      case True
      then show ?thesis using assms(1) some(1) r by (auto simp: vfs_writefd_def)
    next
      case fl: False
      show ?thesis
      proof (cases "h_file ?h")
        case (Some i)
        then show ?thesis using write_legacy_safe [OF assms(1) some(2,3) Some assms(2,4)] fl some(1) r by (simp add: vfs_writefd_def)
      next
        case nf: None
        show ?thesis
        proof (cases "h_mount ?h")
          case None
          then show ?thesis using assms(1) fl some(1) r nf unmounted_handle [OF None, of v] by (simp add: vfs_writefd_def)
        next
          case (Some m)
          obtain k kf dops where k: "handle_ops ?h v = Inr (Some (mounts v ! m, dops))" "live_fh ?h v = Inr (Some k)" "k < MAX_HANDLES"
            "fh_used (file_handles v ! k)" "vfs_driver ok kf dops" "fs_of (mounts v) (file_handles v ! k) = (kf, fh_private (file_handles v ! k))"
            by (rule mounted_handle [OF assms(1) some(2,3) nf Some])
          let ?v = "v\<lparr>file_handles := (file_handles v)[k := (file_handles v ! k)\<lparr>fh_position := h_position ?h\<rparr>]\<rparr>"
          have v: "vfs_inv ok ?v" by (rule inv_fh [OF assms(1) k(3)]) (simp_all add: same_owner_def)
          have u: "upd_fh k (\<lambda>fh. fh\<lparr>fh_position := h_position ?h\<rparr>) v = Inr ?v" using k(3) D(6) by (simp add: upd_defs upd_eq)
          show ?thesis
          proof (cases "op_write dops")
            case None
            then show ?thesis using v u k(1,2) fl some(1) r nf by (simp add: vfs_writefd_def)
          next
            case (Some f)
            have "\<exists>result fh s v'. f (mounts v ! m) (file_handles ?v ! k) buf n (env ?v) = Inr (result, fh, s) \<and>
                bindR (upd_fh k (\<lambda>_. fh) (?v\<lparr>env := s\<rparr>)) (\<lambda>v. bindR (advance j k result v) (\<lambda>v. Inr (result, v))) = Inr (result, v') \<and> vfs_inv ok v'"
              by (rule driver_write_safe [OF v some(2) _ k(3) _ k(5) _ Some assms(2,3)]) (use nf k(3,4,6) D(6) in \<open>simp_all add: fs_of_def\<close>)
            then obtain result fh s v' where q: "f (mounts v ! m) (file_handles ?v ! k) buf n (env ?v) = Inr (result, fh, s)"
              "bindR (upd_fh k (\<lambda>_. fh) (?v\<lparr>env := s\<rparr>)) (\<lambda>v. bindR (advance j k result v) (\<lambda>v. Inr (result, v))) = Inr (result, v')" "vfs_inv ok v'"
              by blast
            have fr: "rd (file_handles ?v) (int k) = Inr (file_handles ?v ! k)" using k(3) D(6) by (simp add: rd_nat)
            show ?thesis using u k(1,2) fl some(1) r nf Some q fr by (simp add: vfs_writefd_def)
          qed
        qed
      qed
    qed
  qed
qed


subsection \<open>Opening and closing\<close>

lemma handle_ok_other:
  assumes "handle_ok fs fhs h" "h_used h \<Longrightarrow> h_file h = None \<Longrightarrow> h_mount h \<noteq> None \<Longrightarrow> h_fs_private h \<noteq> Some k"
  shows "handle_ok fs (fhs[k := fh]) h"
proof -
  have "(fhs[k := fh]) ! k' = fhs ! k'" if "h_used h" "h_file h = None" "h_mount h = Some m" "h_fs_private h = Some k'" for k' m
    using assms(2) that by (cases "k' = k") auto
  then show ?thesis using assms(1) unfolding handle_ok_def by (auto split: option.splits)
qed

lemma inv_release:
  assumes "vfs_inv ok v" "j < MAX_HANDLES" "k < MAX_HANDLES" "h_used (handles v ! j)" "h_fs_private (handles v ! j) = Some k"
    and "fh_fd (file_handles v ! k) = h_fd (handles v ! j)" "fh_used (file_handles v ! k)"
    and "\<not> fh_used fh" "length (fh_path fh) = MAX_FILENAME" "\<not> h_used h" "h_mount h = None"
    and "\<And>M. opened (mounts v) (file_handles v) = add_mset (fs_of (mounts v) (file_handles v ! k)) M \<Longrightarrow> ok s M"
  shows "vfs_inv ok (v\<lparr>env := s, file_handles := (file_handles v)[k := fh], handles := (handles v)[j := h]\<rparr>)"
proof -
  note D = vfs_invD [OF assms(1)]
  let ?hs = "(handles v)[j := h]" and ?fhs = "(file_handles v)[k := fh]"
  have 1: "fds_ok ?hs" using assms(2,10) D(3) by (intro fds_ok_upd [OF D(4)]) simp_all
  have 2: "handle_ok (files v) ?fhs (?hs ! a)" if "a < MAX_HANDLES" for a
  proof (cases "a = j")
    case True
    then show ?thesis using assms(2,10,11) D(3) by (simp add: handle_ok_def)
  next
    case False
    have "handle_ok (files v) ?fhs (handles v ! a)"
    proof (rule handle_ok_other [OF D(5) [OF that]])
      assume u: "h_used (handles v ! a)" "h_file (handles v ! a) = None" "h_mount (handles v ! a) \<noteq> None"
      show "h_fs_private (handles v ! a) \<noteq> Some k"
      proof
        assume "h_fs_private (handles v ! a) = Some k"
        then have "fh_fd (file_handles v ! k) = h_fd (handles v ! a)" using D(5) [OF that] u by (auto simp: handle_ok_def)
        then show False using D(4) assms(2,4,6) that u(1) False D(3) unfolding fds_ok_def by metis
      qed
    qed
    then show ?thesis using False by simp
  qed
  have 3: "fh_ok ?hs (mounts v) b (?fhs ! b)" if "b < MAX_HANDLES" for b
  proof (cases "b = k")
    case True
    then show ?thesis using assms(3,8,9) D(6) by (simp add: fh_ok_def)
  next
    case False
    have "\<exists>x \<in> set ?hs. h_used x \<and> h_fd x = fd \<and> h_file x = None \<and> h_fs_private x = Some b \<and> h_mount x = Some m"
      if "\<exists>x \<in> set (handles v). h_used x \<and> h_fd x = fd \<and> h_file x = None \<and> h_fs_private x = Some b \<and> h_mount x = Some m" for fd m
    proof -
      from that obtain x where x: "x \<in> set (handles v)" "h_used x" "h_fd x = fd" "h_file x = None" "h_fs_private x = Some b" "h_mount x = Some m" by blast
      have "x \<noteq> handles v ! j" using x(5) assms(5) False by auto
      then show ?thesis using in_upd [OF x(1), of j h] assms(2) D(3) x by auto
    qed
    then show ?thesis using D(7) [OF that] False unfolding fh_ok_def by (simp, metis)
  qed
  have "opened (mounts v) (file_handles v) = add_mset (fs_of (mounts v) (file_handles v ! k)) (opened (mounts v) ?fhs)"
    using assms(3,7,8) D(6) by (simp add: opened_split [of k "file_handles v"] opened_upd)
  then have 4: "ok s (opened (mounts v) ?fhs)" by (rule assms(12))
  have "\<forall>x \<in> set ?hs. handle_ok (files v) ?fhs x" using 2 D(3) by (metis in_set_conv_nth length_list_update)
  then show ?thesis using assms(1) 1 3 4 unfolding vfs_inv_def by simp
qed

lemma inv_acquire:
  assumes "vfs_inv ok v" "j < MAX_HANDLES" "k < MAX_HANDLES" "\<not> h_used (handles v ! j)" "\<not> fh_used (file_handles v ! k)"
    and "fh_used fh" "fh_fd fh = fd" "fh_mount fh = Some m" "length (fh_path fh) = MAX_FILENAME" "m < MAX_MOUNTS" "m_mounted (mounts v ! m)"
    and "h_used h" "h_fd h = fd" "h_file h = None" "h_fs_private h = Some k" "h_mount h = Some m"
    and "\<not> fd_used fd (handles v)" "ok s (add_mset (fs_of (mounts v) fh) (opened (mounts v) (file_handles v)))"
  shows "vfs_inv ok (v\<lparr>env := s, file_handles := (file_handles v)[k := fh], handles := (handles v)[j := h]\<rparr>)"
proof -
  note D = vfs_invD [OF assms(1)]
  let ?hs = "(handles v)[j := h]" and ?fhs = "(file_handles v)[k := fh]"
  have 1: "fds_ok ?hs" using assms(2,13,17) D(3) by (intro fds_ok_upd [OF D(4)]) simp_all
  have 2: "handle_ok (files v) ?fhs x" if x: "x \<in> set (handles v)" for x
  proof (rule handle_ok_other)
    show a: "handle_ok (files v) (file_handles v) x" using x assms(1) by (simp add: vfs_inv_def)
    assume "h_used x" "h_file x = None" "h_mount x \<noteq> None"
    then show "h_fs_private x \<noteq> Some k" using a assms(5) by (auto simp: handle_ok_def)
  qed
  have 3: "handle_ok (files v) ?fhs h" using assms(3,6-8,12-16) D(6) by (simp add: handle_ok_def)
  have 4: "fh_ok ?hs (mounts v) b (?fhs ! b)" if "b < MAX_HANDLES" for b
  proof (cases "b = k")
    case True
    then show ?thesis using assms set_update_memI [of j "handles v" h] D(3,6) by (auto simp: fh_ok_def)
  next
    case False
    then show ?thesis using fh_ok_upd [OF D(7) [OF that], of j h] assms(2,4) D(3) by simp
  qed
  have "opened (mounts v) ?fhs = add_mset (fs_of (mounts v) fh) (opened (mounts v) (file_handles v))"
    using assms(3,5,6) D(6) by (simp add: opened_split [of k "file_handles v"] opened_upd)
  moreover have "\<forall>x \<in> set ?hs. handle_ok (files v) ?fhs x" using 2 3 by (intro ball_upd) auto
  ultimately show ?thesis using assms(1,18) 1 4 unfolding vfs_inv_def by simp
qed

lemma inv_idle_fh:
  assumes "vfs_inv ok v" "k < MAX_HANDLES" "\<not> fh_used (file_handles v ! k)" "\<not> fh_used fh" "length (fh_path fh) = MAX_FILENAME"
    and "ok s (opened (mounts v) (file_handles v))"
  shows "vfs_inv ok (v\<lparr>env := s, file_handles := (file_handles v)[k := fh]\<rparr>)"
proof -
  note D = vfs_invD [OF assms(1)]
  let ?fhs = "(file_handles v)[k := fh]"
  have 1: "handle_ok (files v) ?fhs x" if x: "x \<in> set (handles v)" for x
  proof (rule handle_ok_other)
    show a: "handle_ok (files v) (file_handles v) x" using x assms(1) by (simp add: vfs_inv_def)
    assume "h_used x" "h_file x = None" "h_mount x \<noteq> None"
    then show "h_fs_private x \<noteq> Some k" using a assms(3) by (auto simp: handle_ok_def)
  qed
  have 2: "fh_ok (handles v) (mounts v) b (?fhs ! b)" if "b < MAX_HANDLES" for b
    using D(7) [OF that] assms(2,4,5) D(6) by (cases "b = k") (simp_all add: fh_ok_def)
  have "opened (mounts v) ?fhs = opened (mounts v) (file_handles v)" using assms(2-4) D(6) by (intro opened_keep) simp_all
  then show ?thesis using assms(1,6) 1 2 unfolding vfs_inv_def by simp
qed


lemma rest_of_length: "length (rest_of p n) \<le> length p"
  by (auto simp: rest_of_def Let_def)

lemma route_cases [consumes 2, case_names none some]:
  assumes "vfs_inv ok v" "terminated path"
  obtains (none) "route path v = Inr None"
  | (some) m kf dops rel where "route path v = Inr (Some (m, mounts v ! m, dops, rel))" "m < MAX_MOUNTS" "m_mounted (mounts v ! m)"
      "m_fs (mounts v ! m) = Some kf" "vfs_driver ok kf dops" "terminated rel" "length (cstr rel) \<le> length (cstr path)"
proof -
  note D = vfs_invD [OF assms(1)]
  have "\<forall>m \<in> set (mounts v). terminated (m_point m) \<and> length (m_point m) = MAX_MOUNT_PATH"
    using assms(1) by (auto simp: vfs_inv_def mount_ok_def)
  from find_mount_spec [OF assms(2) D(8) this] obtain r where r: "vfs_find_mount (Some path) v = Inr r" "case r of
      Some (i, rel) \<Rightarrow> i < MAX_MOUNTS \<and> m_mounted (mounts v ! i) \<and> terminated rel \<and> cstr rel = rest_of (cstr path) (length (cstr (m_point (mounts v ! i))))
    | None \<Rightarrow> True" by (fastforce split: option.splits)
  show ?thesis
  proof (cases r)
    case None
    then show ?thesis using none r(1) by (simp add: route_def)
  next
    case (Some x)
    obtain i rel where x: "x = (i, rel)" by (cases x)
    then have i: "i < MAX_MOUNTS" "m_mounted (mounts v ! i)" "terminated rel" "length (cstr rel) \<le> length (cstr path)"
      using r(2) Some rest_of_length [of "cstr path"] by auto
    obtain kf where kf: "kf < MAX_REGISTERED_FS" "m_fs (mounts v ! i) = Some kf" "fs_registered (registered_fs v ! kf)"
      using D(9) [OF i(1)] i(2) by (auto simp: mount_ok_def)
    obtain dops where d: "fs_ops (registered_fs v ! kf) = Some dops" "vfs_driver ok kf dops" using D(11) [OF kf(1)] kf(3) by (auto simp: fs_ok_def)
    have "route path v = Inr (Some (i, mounts v ! i, dops, rel))"
      using r(1) Some x i(1) kf d D(8,10) by (simp add: route_def mount_ops_def rd_nat)
    then show ?thesis using some i kf(2) d(2) by blast
  qed
qed

lemma vfs_close_safe:
  assumes "vfs_inv ok v"
  shows "\<exists>r v'. vfs_close fd v = Inr (r, v') \<and> vfs_inv ok v'"
proof (cases "sint fd < 3")
  case True
  then show ?thesis using assms by (simp add: vfs_close_def)
next
  case lo: False
  note D = vfs_invD [OF assms(1)]
  from D(3) show ?thesis
  proof (cases rule: get_handle_cases [where fd = fd])
    case none
    then show ?thesis using assms(1) lo by (simp add: vfs_close_def)
  next
    case (some j)
    let ?h = "handles v ! j"
    let ?c = "?h\<lparr>h_used := False, h_fd := - 1, h_file := None, h_fs_private := None, h_mount := None\<rparr>"
    have r: "rd (handles v) (int j) = Inr ?h" using some(2) D(3) by (simp add: rd_nat)
    show ?thesis
    proof (cases "h_mount ?h")
      case None
      have "vfs_inv ok (v\<lparr>handles := (handles v)[j := ?c]\<rparr>)" by (rule inv_handle [OF assms some(2)]) (use None in \<open>simp_all add: handle_ok_def\<close>)
      then show ?thesis using lo some(1,2) r D(3) unmounted_handle [OF None, of v] by (simp add: vfs_close_def close_driver_def upd_defs upd_eq)
    next
      case (Some m)
      have nf: "h_file ?h = None" using D(5) [OF some(2)] some(3) Some by (auto simp: handle_ok_def split: option.splits)
      obtain k kf dops where k: "handle_ops ?h v = Inr (Some (mounts v ! m, dops))" "live_fh ?h v = Inr (Some k)" "k < MAX_HANDLES"
        "fh_used (file_handles v ! k)" "vfs_driver ok kf dops" "fs_of (mounts v) (file_handles v ! k) = (kf, fh_private (file_handles v ! k))"
        "fh_fd (file_handles v ! k) = h_fd ?h" "h_fs_private ?h = Some k"
        by (rule mounted_handle [OF assms(1) some(2,3) nf Some])
      let ?M = "opened (mounts v) (take k (file_handles v)) + opened (mounts v) (drop (Suc k) (file_handles v))"
      have M: "opened (mounts v) (file_handles v) = add_mset (kf, fh_private (file_handles v ! k)) ?M"
        using opened_split [of k "file_handles v" "mounts v"] k(3,4,6) D(6) by simp
      obtain f x fh s where f: "op_close dops = Some f" "f (mounts v ! m) (file_handles v ! k) (env v) = Inr (x, fh, s)" "same_owner (file_handles v ! k) fh" "ok s ?M"
        using vfs_driver.close_law [OF k(5), of "env v" "file_handles v ! k" ?M "mounts v ! m"] D(12) M by auto
      have p: "length (fh_path (fh\<lparr>fh_used := False\<rparr>)) = MAX_FILENAME" using D(7) [OF k(3)] f(3) by (simp add: fh_ok_def same_owner_def)
      have "vfs_inv ok (v\<lparr>env := s, file_handles := (file_handles v)[k := fh\<lparr>fh_used := False\<rparr>], handles := (handles v)[j := ?c]\<rparr>)"
        by (rule inv_release [OF assms some(2) k(3) some(3) k(8,7,4) _ p]) (use M k(6) f(4) in simp_all)
      then show ?thesis using lo some(1,2) r D(3,6) k(1,2,3) f(1,2)
        by (simp add: vfs_close_def close_driver_def call_close_def upd_defs upd_eq rd_nat)
    qed
  qed
qed

lemma open_legacy_safe:
  assumes "vfs_inv ok v" "i < MAX_FILES" "f_used (files v ! i)"
  shows "\<exists>fd v'. open_legacy i flags v = Inr (fd, v') \<and> vfs_inv ok v' \<and>
    (if \<exists>h \<in> set (handles v). \<not> h_used h then 3 \<le> sint fd \<and> sint fd < 67 \<and> \<not> fd_used fd (handles v) else fd = - EMFILE)"
proof -
  note D = vfs_invD [OF assms(1)]
  have n: "MAX_HANDLES \<le> length (handles v)" using D(3) by simp
  then show ?thesis
  proof (cases rule: search_first [where P = "\<lambda>h. \<not> h_used h"])
    case none
    then have "\<not> (\<exists>h \<in> set (handles v). \<not> h_used h)" using D(3) by (auto simp: in_set_conv_nth)
    then show ?thesis using none assms(1) by (simp add: open_legacy_def free_handle_def)
  next
    case (some j)
    have ex: "\<exists>h \<in> set (handles v). \<not> h_used h" using some(2,3) D(3) by (metis nth_mem)
    obtain fd m where fd: "allocate_fd v = Inr (fd, v\<lparr>next_fd := m\<rparr>)" "3 \<le> sint m" "sint m \<le> 67"
      "if fd = - 1 then \<forall>k. 3 \<le> k \<and> k < 67 \<longrightarrow> fd_used (word_of_int k) (handles v) else 3 \<le> sint fd \<and> sint fd < 67 \<and> \<not> fd_used fd (handles v)"
      using allocate_fd_spec [OF D(3,13,14)] by blast
    have ne: "fd \<noteq> - 1" using fd(4) fd_available [OF D(3) some(2,3)] by auto
    then have f: "3 \<le> sint fd" "sint fd < 67" "\<not> fd_used fd (handles v)" using fd(4) by auto
    let ?v = "v\<lparr>next_fd := m\<rparr>" and ?h = "(handles v ! j)\<lparr>h_used := True, h_fd := fd, h_file := Some i, h_position := 0, h_flags := flags\<rparr>"
    have mt: "h_mount (handles v ! j) = None" using D(5) [OF some(2)] some(3) by (simp add: handle_ok_def)
    have "vfs_inv ok (?v\<lparr>handles := (handles ?v)[j := ?h]\<rparr>)"
      by (rule inv_handle [OF inv_next_fd [OF assms(1) fd(2,3)] some(2)]) (use assms(2,3) f(3) some(3) mt in \<open>simp_all add: handle_ok_def\<close>)
    then show ?thesis using some(1,2) fd(1) ne ex f D(3) by (simp add: open_legacy_def free_handle_def upd_defs upd_eq)
  qed
qed


lemma find_file_search:
  assumes "vfs_inv ok v" "terminated name"
  shows "find_file name v = search (\<lambda>f. f_used f \<and> cstr (f_name f) = cstr name) (files v) 0 MAX_FILES"
  unfolding find_file_def by (rule find_named_search) (use assms in \<open>auto simp: vfs_inv_def file_ok_def\<close>)

lemma find_file_cases [consumes 2, case_names none some]:
  assumes "vfs_inv ok v" "terminated name"
  obtains (none) "find_file name v = Inr None" "\<forall>i < MAX_FILES. \<not> (f_used (files v ! i) \<and> cstr (f_name (files v ! i)) = cstr name)"
  | (some) i where "find_file name v = Inr (Some i)" "i < MAX_FILES" "f_used (files v ! i)" "cstr (f_name (files v ! i)) = cstr name"
proof -
  have n: "MAX_FILES \<le> length (files v)" using vfs_invD(1) [OF assms(1)] by simp
  then show ?thesis
    by (cases rule: search_first [where P = "\<lambda>f. f_used f \<and> cstr (f_name f) = cstr name"]) (use that find_file_search [OF assms] in auto)
qed

lemma env_file_handles: "v\<lparr>next_fd := q, file_handles := a, env := s\<rparr> = v\<lparr>next_fd := q, env := s, file_handles := a\<rparr>"
  by (cases v) simp

lemma open_checked_safe:
  assumes "vfs_inv ok v" "m < MAX_MOUNTS" "m_mounted (mounts v ! m)" "m_fs (mounts v ! m) = Some kf" "vfs_driver ok kf dops"
    and "terminated rel" "length (cstr rel) < MAX_FILENAME"
  shows "\<exists>fd v'. open_checked m (mounts v ! m) dops rel flags v = Inr (fd, v') \<and> vfs_inv ok v' \<and> (0 \<le> sint fd \<longrightarrow> \<not> fd_used fd (handles v) \<and> 3 \<le> sint fd \<and> sint fd < 67)"
proof -
  note D = vfs_invD [OF assms(1)]
  have n: "MAX_HANDLES \<le> length (file_handles v)" using D(6) by simp
  then show ?thesis
  proof (cases rule: search_first [where P = "\<lambda>h. \<not> fh_used h"])
    case none
    then show ?thesis using assms(1) by (simp add: open_checked_def EMFILE_def)
  next
    case (some k)
    obtain fd q where fd: "allocate_fd v = Inr (fd, v\<lparr>next_fd := q\<rparr>)" "3 \<le> sint q" "sint q \<le> 67"
      "if fd = - 1 then \<forall>k. 3 \<le> k \<and> k < 67 \<longrightarrow> fd_used (word_of_int k) (handles v) else 3 \<le> sint fd \<and> sint fd < 67 \<and> \<not> fd_used fd (handles v)"
      using allocate_fd_spec [OF D(3,13,14)] by blast
    have v1: "vfs_inv ok (v\<lparr>next_fd := q\<rparr>)" by (rule inv_next_fd [OF assms(1) fd(2,3)])
    show ?thesis
    proof (cases "fd = - 1")
      case True
      then show ?thesis using some(1) fd(1) v1 by (simp add: open_checked_def EMFILE_def)
    next
      case ne: False
      then have f: "3 \<le> sint fd" "sint fd < 67" "\<not> fd_used fd (handles v)" using fd(4) by auto
      let ?fh = "file_handles v ! k"
      have pl: "length (fh_path ?fh) = MAX_FILENAME" using D(7) [OF some(2)] by (simp add: fh_ok_def)
      define p where "p = cstr rel @ 0 # drop (Suc (length (cstr rel))) (fh_path ?fh)"
      have p: "strcpy (fh_path ?fh) rel = Inr p" "length p = MAX_FILENAME"
        using strcpy_eq [OF assms(6), of "fh_path ?fh"] assms(7) pl by (simp_all add: p_def)
      define h0 where "h0 = ?fh\<lparr>fh_used := True, fh_fd := fd, fh_mount := Some m, fh_position := 0, fh_flags := flags, fh_path := p\<rparr>"
      obtain g r fh s where g: "op_open dops = Some g" "g (mounts v ! m) rel flags h0 (env v) = Inr (r, fh, s)" "same_owner h0 fh"
        "ok s (if sint r < 0 then opened (mounts v) (file_handles v) else add_mset (kf, fh_private fh) (opened (mounts v) (file_handles v)))"
        using vfs_driver.open_law [OF assms(5) D(12) assms(6), of "mounts v ! m" flags h0] by blast
      have o: "fh_used fh" "fh_fd fh = fd" "fh_mount fh = Some m" "length (fh_path fh) = MAX_FILENAME" using g(3) p(2) by (simp_all add: same_owner_def h0_def)
      let ?v2 = "v\<lparr>next_fd := q, file_handles := (file_handles v)[k := fh], env := s\<rparr>"
      have call: "call_open k (mounts v ! m) dops rel flags (v\<lparr>next_fd := q, file_handles := (file_handles v)[k := h0]\<rparr>) = Inr (r, ?v2)"
        using g(1,2) some(2) D(6) by (simp add: call_open_def rd_nat upd_defs upd_eq)
      have start: "open_checked m (mounts v ! m) dops rel flags v =
          (if sint r < 0 then bindR (upd_fh k (\<lambda>h. h\<lparr>fh_used := False\<rparr>) ?v2) (\<lambda>v. Inr (r, v))
           else bindR (free_handle ?v2) (\<lambda>z. case z of
             None \<Rightarrow> bindR (call_close k (mounts v ! m) dops ?v2) (\<lambda>v. bindR (upd_fh k (\<lambda>h. h\<lparr>fh_used := False\<rparr>) v) (\<lambda>v. Inr (- EMFILE, v)))
           | Some j \<Rightarrow>
             bindR (upd_handle j (\<lambda>h. h\<lparr>h_used := True, h_fd := fd, h_file := None, h_position := 0, h_flags := flags, h_fs_private := Some k, h_mount := Some m\<rparr>) ?v2) (\<lambda>v.
             Inr (fd, v))))"
        using some(1,2) fd(1) ne p(1) D(6) call unfolding open_checked_def by (simp add: rd_nat upd_defs upd_eq h0_def)
      show ?thesis
      proof (cases "sint r < 0")
        case True
        have "vfs_inv ok ((v\<lparr>next_fd := q\<rparr>)\<lparr>env := s, file_handles := (file_handles (v\<lparr>next_fd := q\<rparr>))[k := fh\<lparr>fh_used := False\<rparr>]\<rparr>)"
          by (rule inv_idle_fh [OF v1 some(2)]) (use some(3) o(4) g(4) True in simp_all)
        then show ?thesis using start True some(2) D(6) by (simp add: upd_defs upd_eq)
      next
        case rp: False
        have oks: "ok s (add_mset (kf, fh_private fh) (opened (mounts v) (file_handles v)))" using g(4) rp by simp
        have "MAX_HANDLES \<le> length (handles v)" using D(3) by simp
        then show ?thesis
        proof (cases rule: search_first [where P = "\<lambda>h. \<not> h_used h"])
          case none
          obtain c x fh' s' where c: "op_close dops = Some c" "c (mounts v ! m) fh s = Inr (x, fh', s')" "same_owner fh fh'" "ok s' (opened (mounts v) (file_handles v))"
            using vfs_driver.close_law [OF assms(5) oks, of "mounts v ! m"] by blast
          have "length (fh_path fh') = MAX_FILENAME" using c(3) o(4) by (simp add: same_owner_def)
          then have "vfs_inv ok ((v\<lparr>next_fd := q\<rparr>)\<lparr>env := s', file_handles := (file_handles (v\<lparr>next_fd := q\<rparr>))[k := fh'\<lparr>fh_used := False\<rparr>]\<rparr>)"
            by (intro inv_idle_fh [OF v1 some(2)]) (use some(3) c(4) in simp_all)
          moreover have "free_handle ?v2 = Inr None" using none(1) by (simp add: free_handle_def)
          ultimately show ?thesis using start rp some(2) D(6) c(1,2) by (simp add: call_close_def upd_defs upd_eq rd_nat EMFILE_def)
        next
          case j: (some j)
          let ?h = "(handles v ! j)\<lparr>h_used := True, h_fd := fd, h_file := None, h_position := 0, h_flags := flags, h_fs_private := Some k, h_mount := Some m\<rparr>"
          have "vfs_inv ok ((v\<lparr>next_fd := q\<rparr>)\<lparr>env := s, file_handles := (file_handles (v\<lparr>next_fd := q\<rparr>))[k := fh], handles := (handles (v\<lparr>next_fd := q\<rparr>))[j := ?h]\<rparr>)"
            by (rule inv_acquire [OF v1 j(2) some(2)]) (use j(3) some(3) o assms(2-4) f(3) oks in \<open>simp_all add: fs_of_def\<close>)
          moreover have "free_handle ?v2 = Inr (Some j)" using j(1) by (simp add: free_handle_def)
          ultimately show ?thesis using start rp j(2) D(3) f unfolding env_file_handles by (simp add: upd_defs upd_eq)
        qed
      qed
    qed
  qed
qed

end
