(* ===== verification/Vfs_Calls.thy ===== *)
theory Vfs_Calls
  imports Vfs_Safe
begin

text \<open>
  The remaining calls of the virtual file system: opening, positions, the file table, deletion, and the tables of file systems and mounts.
\<close>

subsection \<open>Opening by name\<close>

lemma vfs_open_safe:
  assumes "vfs_inv ok v" "terminated name" "length (cstr name) < MAX_FILENAME"
  shows "\<exists>fd v'. vfs_open name flags v = Inr (fd, v') \<and> vfs_inv ok v' \<and> (0 \<le> sint fd \<longrightarrow> \<not> fd_used fd (handles v) \<and> 3 \<le> sint fd \<and> sint fd < 67)"
  using assms(1,2)
proof (cases rule: find_file_cases)
  case (some i)
  obtain fd v' where o: "open_legacy i flags v = Inr (fd, v')" "vfs_inv ok v'"
      "if \<exists>h \<in> set (handles v). \<not> h_used h then 3 \<le> sint fd \<and> sint fd < 67 \<and> \<not> fd_used fd (handles v) else fd = - EMFILE"
    using open_legacy_safe [OF assms(1) some(2,3), of flags] by blast
  then have "0 \<le> sint fd \<longrightarrow> \<not> fd_used fd (handles v) \<and> 3 \<le> sint fd \<and> sint fd < 67" by (auto simp: EMFILE_def split: if_splits)
  then show ?thesis using o(1,2) some(1) by (simp add: vfs_open_def)
next
  case nf: none
  from assms(1,2) show ?thesis
  proof (cases rule: route_cases)
    case none
    then show ?thesis using nf(1) assms(1) by (simp add: vfs_open_def ENOENT_def)
  next
    case (some m kf dops rel)
    have l: "length (cstr rel) < MAX_FILENAME" using some(7) assms(3) by simp
    note D = vfs_invD [OF assms(1)]
    have "\<exists>r s. (case op_stat dops of None \<Rightarrow> Inr (0, v) | Some f \<Rightarrow> bindR (f (mounts v ! m) rel stat0 (env v)) (\<lambda>(r, _, s). Inr (r, v\<lparr>env := s\<rparr>))) = Inr (r, v\<lparr>env := s\<rparr>) \<and>
        ok s (opened (mounts v) (file_handles v))"
    proof (cases "op_stat dops")
      case None
      then show ?thesis using D(12) by (intro exI [of _ 0] exI [of _ "env v"]) simp
    next
      case (Some f)
      then show ?thesis using vfs_driver.stat_law [OF some(5) Some D(12) some(6), of "mounts v ! m" stat0] by fastforce
    qed
    then obtain r s where r: "(case op_stat dops of None \<Rightarrow> Inr (0, v) | Some f \<Rightarrow> bindR (f (mounts v ! m) rel stat0 (env v)) (\<lambda>(r, _, s). Inr (r, v\<lparr>env := s\<rparr>))) = Inr (r, v\<lparr>env := s\<rparr>)"
        "ok s (opened (mounts v) (file_handles v))" by blast
    have v: "vfs_inv ok (v\<lparr>env := s\<rparr>)" by (rule inv_env [OF assms(1) r(2)])
    have e: "vfs_open name flags v = (if r \<noteq> 0 then Inr (- ENOENT, v\<lparr>env := s\<rparr>) else open_checked m (mounts v ! m) dops rel flags (v\<lparr>env := s\<rparr>))"
      using nf(1) some(1) r(1) by (simp add: vfs_open_def open_mounted_def)
    show ?thesis
    proof (cases "r = 0")
      case False
      then show ?thesis using e v by (simp add: ENOENT_def)
    next
      case True
      then show ?thesis using e open_checked_safe [OF v, of m kf dops rel flags] some l by simp
    qed
  qed
qed

lemma vfs_create_safe:
  assumes "vfs_inv ok v" "terminated name" "unat n \<le> length data" "terminated data"
  shows "\<exists>r v'. vfs_create name data n v = Inr (r, v') \<and> vfs_inv ok v'"
proof (cases "MAX_FILENAME \<le> length (cstr name) \<or> n > of_nat MAX_FILE_SIZE")
  case True
  then show ?thesis using assms(1) strlen_eq [OF assms(2)] by (auto simp: vfs_create_def)
next
  case False
  have M: "unat (of_nat MAX_FILE_SIZE :: u64) = MAX_FILE_SIZE" by (intro unat_of_nat_eq) (simp add: MAX_FILE_SIZE_def)
  have n: "unat n < 2 ^ 63" using False M by (simp add: word_le_nat_alt not_less MAX_FILE_SIZE_def)
  obtain fd v1 where 1: "vfs_open name (VFS_CREAT OR VFS_WRITE OR VFS_TRUNC) v = Inr (fd, v1)" "vfs_inv ok v1"
    using vfs_open_safe [OF assms(1,2), of "VFS_CREAT OR VFS_WRITE OR VFS_TRUNC"] False by (auto simp: not_le)
  obtain w v2 where 2: "vfs_writefd fd data n v1 = Inr (w, v2)" "vfs_inv ok v2" using vfs_writefd_safe [OF 1(2) assms(3,4) n] by blast
  obtain c v3 where 3: "vfs_close fd v2 = Inr (c, v3)" "vfs_inv ok v3" using vfs_close_safe [OF 2(2)] by blast
  have 4: "\<exists>r. find_file name v3 = Inr r" using 3(2) assms(2) by (cases rule: find_file_cases) auto
  show ?thesis using False strlen_eq [OF assms(2)] 1 2 3 4 by (auto simp: vfs_create_def)
qed

lemma vfs_read_safe:
  assumes "vfs_inv ok v" "terminated name" "length (cstr name) < MAX_FILENAME"
  shows "\<exists>r n v'. vfs_read name v = Inr (r, n, v') \<and> vfs_inv ok v'"
proof -
  obtain fd v1 where 1: "vfs_open name VFS_READ v = Inr (fd, v1)" "vfs_inv ok v1" using vfs_open_safe [OF assms] by blast
  show ?thesis
  proof (cases "sint fd < 0")
    case True
    then show ?thesis using 1 by (simp add: vfs_read_def)
  next
    case False
    have M: "unat (of_nat MAX_FILE_SIZE - 1 :: u64) = MAX_FILE_SIZE - 1" "uint (of_nat MAX_FILE_SIZE - 1 :: u64) = int MAX_FILE_SIZE - 1" by (simp_all add: MAX_FILE_SIZE_def)
    obtain n b v2 where 2: "vfs_readfd fd (read_buffer v1) (of_nat MAX_FILE_SIZE - 1) v1 = Inr (n, b, v2)" "vfs_inv ok v2" "length b = MAX_FILE_SIZE" "sint n < int MAX_FILE_SIZE"
      using vfs_readfd_safe [OF 1(2), of "of_nat MAX_FILE_SIZE - 1" "read_buffer v1" fd] vfs_invD(15) [OF 1(2)] M by (auto simp: MAX_FILE_SIZE_def)
    have v2: "vfs_inv ok (v2\<lparr>read_buffer := b\<rparr>)" by (rule inv_read_buffer [OF 2(2,3)])
    obtain c v3 where 3: "vfs_close fd (v2\<lparr>read_buffer := b\<rparr>) = Inr (c, v3)" "vfs_inv ok v3" using vfs_close_safe [OF v2] by blast
    have l: "length (read_buffer v3) = MAX_FILE_SIZE" by (rule vfs_invD(15) [OF 3(2)])
    show ?thesis
    proof (cases "sint n < 0")
      case True
      then show ?thesis using False 1 2 3 by (simp add: vfs_read_def)
    next
      case nn: False
      then have "wr (read_buffer v3) (sint n) 0 = Inr ((read_buffer v3)[nat (sint n) := 0])" using 2(4) l by (simp add: wr_ok)
      moreover have "vfs_inv ok (v3\<lparr>read_buffer := (read_buffer v3)[nat (sint n) := 0]\<rparr>)" by (rule inv_read_buffer [OF 3(2)]) (simp add: l)
      ultimately show ?thesis using False nn 1 2 3 by (simp add: vfs_read_def)
    qed
  qed
qed

subsection \<open>Positions\<close>

lemma vfs_seek_safe:
  assumes "vfs_inv ok v"
  shows "\<exists>r v'. vfs_seek fd off wh v = Inr (r, v') \<and> vfs_inv ok v'"
proof -
  note D = vfs_invD [OF assms(1)]
  from D(3) show ?thesis
  proof (cases rule: get_handle_cases [where fd = fd])
    case none
    then show ?thesis using assms by (simp add: vfs_seek_def)
  next
    case (some j)
    let ?h = "handles v ! j"
    have r: "rd (handles v) (int j) = Inr ?h" using some(2) D(3) by (simp add: rd_nat)
    show ?thesis
    proof (cases "h_file ?h")
      case None
      then show ?thesis using assms some(1) r by (simp add: vfs_seek_def)
    next
      case (Some i)
      note L = legacy_handle [OF assms some(2,3) Some]
      let ?f = "files v ! i"
      have f: "file_ok ok ?f" by (rule D(2) [OF L(1)])
      have rf: "rd (files v) (int i) = Inr ?f" using L(1) D(1) by (simp add: rd_nat)
      show ?thesis
      proof (cases "if f_type ?f = VFS_TYPE_DEVICE then f_seek ?f else None")
        case sk: (Some sk)
        then have t: "f_type ?f = VFS_TYPE_DEVICE" "f_seek ?f = Some sk" by (simp_all split: if_splits)
        obtain x pos s where q: "sk (Some (f_dev_data ?f)) off wh (h_position ?h) (env v) = Inr (x, pos, s)" "ok s (opened (mounts v) (file_handles v))"
          "f_write ?f = None \<and> unat (h_position ?h) \<le> MAX_FILE_SIZE \<longrightarrow> unat pos \<le> MAX_FILE_SIZE" "unat pos < 2 ^ 63"
          using device_file.dev_seek_law [OF file_device [OF f t(1)] t(2) D(12) L(5)] by blast
        have "vfs_inv ok (v\<lparr>env := s, handles := (handles v)[j := ?h\<lparr>h_position := pos\<rparr>]\<rparr>)"
          using q(3) L(4) t(1) by (intro inv_position_legacy [OF assms some(2) Some q(2,4)]) (simp add: dev_write_def)
        then show ?thesis using some(1,2) r Some rf t q(1) D(3) by (simp add: vfs_seek_def upd_defs upd_eq)
      next
        case plain: None
        show ?thesis
        proof (cases "wh \<noteq> 0 \<and> wh \<noteq> 1 \<and> wh \<noteq> 2")
          case True
          then show ?thesis using assms some(1) r Some rf plain by (simp add: vfs_seek_def)
        next
          case False
          define p where "p = (let pos = if wh = 0 then off else if wh = 1 then h_position ?h + off else f_size ?f + off; pos = if sint pos < 0 then 0 else pos in if pos > f_size ?f then f_size ?f else pos)"
          have "p \<le> f_size ?f" by (auto simp: p_def Let_def not_less)
          then have "unat p \<le> MAX_FILE_SIZE" using f by (auto simp: file_ok_def word_le_nat_alt)
          then have "vfs_inv ok (v\<lparr>handles := (handles v)[j := ?h\<lparr>h_position := p\<rparr>]\<rparr>)" using small_position [of p] by (intro inv_position [OF assms some(2)]) simp
          moreover have "vfs_seek fd off wh v = Inr (p, v\<lparr>handles := (handles v)[j := ?h\<lparr>h_position := p\<rparr>]\<rparr>)"
            using some(1,2) r Some rf plain False D(3) unfolding vfs_seek_def p_def Let_def by (simp add: upd_defs upd_eq) auto
          ultimately show ?thesis by blast
        qed
      qed
    qed
  qed
qed

lemma vfs_ioctl_safe:
  assumes "vfs_inv ok v"
  shows "\<exists>r v'. vfs_ioctl fd req arg v = Inr (r, v') \<and> vfs_inv ok v'"
proof -
  note D = vfs_invD [OF assms(1)]
  from D(3) show ?thesis
  proof (cases rule: get_handle_cases [where fd = fd])
    case none
    then show ?thesis using assms by (simp add: vfs_ioctl_def)
  next
    case (some j)
    let ?h = "handles v ! j"
    have r: "rd (handles v) (int j) = Inr ?h" using some(2) D(3) by (simp add: rd_nat)
    show ?thesis
    proof (cases "h_file ?h")
      case None
      then show ?thesis using assms some(1) r by (simp add: vfs_ioctl_def)
    next
      case (Some i)
      note L = legacy_handle [OF assms some(2,3) Some]
      have rf: "rd (files v) (int i) = Inr (files v ! i)" using L(1) D(1) by (simp add: rd_nat)
      show ?thesis
      proof (cases "if f_type (files v ! i) = VFS_TYPE_DEVICE then f_ioctl (files v ! i) else None")
        case None
        then show ?thesis using assms some(1) r Some rf by (simp add: vfs_ioctl_def)
      next
        case io: (Some io)
        then have t: "f_type (files v ! i) = VFS_TYPE_DEVICE" "f_ioctl (files v ! i) = Some io" by (simp_all split: if_splits)
        obtain x s where "io (Some (f_dev_data (files v ! i))) req arg (env v) = Inr (x, s)" "ok s (opened (mounts v) (file_handles v))"
          using device_file.dev_ioctl_law [OF file_device [OF D(2) [OF L(1)] t(1)] t(2) D(12)] by blast
        then show ?thesis using some(1) r Some rf t inv_env [OF assms] by (simp add: vfs_ioctl_def)
      qed
    qed
  qed
qed


subsection \<open>The file table\<close>

lemma length_cstr_new: "terminated name \<Longrightarrow> length (cstr name) < length old \<Longrightarrow>
    \<exists>nm. strcpy old name = Inr nm \<and> length nm = length old \<and> terminated nm \<and> cstr nm = cstr name"
  using strcpy_eq [of name old] cstr_append_zero(1) [OF cstr_no_zero [of name]] cstr_append_zero(2) by auto

lemma vfs_mkdir_safe:
  assumes "vfs_inv ok v" "terminated name"
  shows "\<exists>r v'. vfs_mkdir name v = Inr (r, v') \<and> vfs_inv ok v' \<and> mounts v' = mounts v \<and> registered_fs v' = registered_fs v \<and> file_handles v' = file_handles v \<and> handles v' = handles v \<and> env v' = env v"
proof (cases "MAX_FILENAME \<le> length (cstr name)")
  case True
  then show ?thesis using assms(1) strlen_eq [OF assms(2)] by (simp add: vfs_mkdir_def)
next
  case l: False
  note D = vfs_invD [OF assms(1)]
  from assms show ?thesis
  proof (cases rule: find_file_cases)
    case (some i)
    then show ?thesis using l assms(1) strlen_eq [OF assms(2)] D(1) by (simp add: vfs_mkdir_def rd_nat)
  next
    case nf: none
    have n: "MAX_FILES \<le> length (files v)" using D(1) by simp
    then show ?thesis
    proof (cases rule: search_first [where P = "\<lambda>f. \<not> f_used f"])
      case none
      then show ?thesis using nf(1) l assms(1) strlen_eq [OF assms(2)] by (simp add: vfs_mkdir_def)
    next
      case (some i)
      have f: "file_ok ok (files v ! i)" by (rule D(2) [OF some(2)])
      obtain nm where nm: "strcpy (f_name (files v ! i)) name = Inr nm" "length nm = MAX_FILENAME" "terminated nm"
        using length_cstr_new [OF assms(2), of "f_name (files v ! i)"] f l by (auto simp: file_ok_def)
      let ?f = "(files v ! i)\<lparr>f_name := nm, f_size := 0, f_used := True, f_type := VFS_TYPE_DIR\<rparr>"
      have "vfs_inv ok (v\<lparr>files := (files v)[i := ?f]\<rparr>)"
        by (rule inv_file [OF assms(1) some(2)]) (use f nm some(3) in \<open>simp_all add: file_ok_def\<close>)
      then show ?thesis using nf(1) l some(1,2) nm(1) strlen_eq [OF assms(2)] D(1) by (simp add: vfs_mkdir_def rd_nat upd_defs upd_eq)
    qed
  qed
qed

lemma vfs_pseudo_register_safe:
  assumes "vfs_inv ok v" "terminated name" "device_file ok d r w sk io"
    and "\<And>i. i < MAX_FILES \<Longrightarrow> f_used (files v ! i) \<Longrightarrow> cstr (f_name (files v ! i)) = cstr name \<Longrightarrow> w = None \<Longrightarrow> dev_write (files v ! i) = None"
  shows "\<exists>x v'. vfs_pseudo_register name r w sk io d v = Inr (x, v') \<and> vfs_inv ok v'"
proof (cases "MAX_FILENAME \<le> length (cstr name)")
  case True
  then show ?thesis using assms(1) strlen_eq [OF assms(2)] by (simp add: vfs_pseudo_register_def)
next
  case l: False
  note D = vfs_invD [OF assms(1)]
  from assms(1,2) show ?thesis
  proof (cases rule: find_file_cases)
    case (some i)
    have f: "file_ok ok (files v ! i)" by (rule D(2) [OF some(2)])
    let ?f = "(files v ! i)\<lparr>f_read := r, f_write := w, f_seek := sk, f_ioctl := io, f_dev_data := d\<rparr>"
    show ?thesis
    proof (cases "f_type (files v ! i) = VFS_TYPE_DIR")
      case True
      then show ?thesis using some(1,2) l assms(1) strlen_eq [OF assms(2)] D(1) by (simp add: vfs_pseudo_register_def rd_nat)
    next
      case False
      have "vfs_inv ok (v\<lparr>files := (files v)[i := ?f]\<rparr>)"
        by (rule inv_file [OF assms(1) some(2)]) (use f assms(3) assms(4) [OF some(2,3,4)] in \<open>auto simp: file_ok_def dev_write_def\<close>)
      then show ?thesis using some(1,2) l False strlen_eq [OF assms(2)] D(1) by (simp add: vfs_pseudo_register_def rd_nat upd_defs upd_eq)
    qed
  next
    case nf: none
    have n: "MAX_FILES \<le> length (files v)" using D(1) by simp
    then show ?thesis
    proof (cases rule: search_first [where P = "\<lambda>f. \<not> f_used f"])
      case none
      then show ?thesis using nf(1) l assms(1) strlen_eq [OF assms(2)] by (simp add: vfs_pseudo_register_def)
    next
      case (some i)
      have f: "file_ok ok (files v ! i)" by (rule D(2) [OF some(2)])
      obtain nm where nm: "strcpy (f_name (files v ! i)) name = Inr nm" "length nm = MAX_FILENAME" "terminated nm"
        using length_cstr_new [OF assms(2), of "f_name (files v ! i)"] f l by (auto simp: file_ok_def)
      let ?f = "(files v ! i)\<lparr>f_name := nm, f_size := 0, f_used := True, f_type := VFS_TYPE_DEVICE, f_read := r, f_write := w, f_seek := sk, f_ioctl := io, f_dev_data := d\<rparr>"
      have "vfs_inv ok (v\<lparr>files := (files v)[i := ?f]\<rparr>)"
        by (rule inv_file [OF assms(1) some(2)]) (use f nm some(3) assms(3) in \<open>simp_all add: file_ok_def\<close>)
      then show ?thesis using nf(1) l some(1,2) nm(1) strlen_eq [OF assms(2)] D(1) by (simp add: vfs_pseudo_register_def rd_nat upd_defs upd_eq)
    qed
  qed
qed

subsection \<open>Deletion\<close>

text \<open>What \<open>drop_handles\<close> and \<open>reset_handles\<close> have in common: they close the descriptors of one file and leave the others alone.\<close>

lemma inv_clear:
  assumes "vfs_inv ok v" "i < MAX_FILES" "\<And>h. \<not> (h_used h \<and> h_file h = Some i) \<Longrightarrow> g h = h"
    and "\<And>h. h_used h \<Longrightarrow> h_file h = Some i \<Longrightarrow> \<not> h_used (g h) \<and> h_mount (g h) = h_mount h"
  shows "vfs_inv ok (v\<lparr>handles := map g (handles v), files := (files v)[i := clear_file (files v ! i)]\<rparr>)"
proof -
  note D = vfs_invD [OF assms(1)]
  have u: "h_used (g h) \<Longrightarrow> g h = h \<and> h_used h" for h using assms(3,4) by metis
  have 1: "fds_ok (map g (handles v))" unfolding fds_ok_def
  proof (intro allI impI)
    fix a b assume l: "a < length (map g (handles v))" "b < length (map g (handles v))"
      and e: "h_used (map g (handles v) ! a) \<and> h_used (map g (handles v) ! b) \<and> h_fd (map g (handles v) ! a) = h_fd (map g (handles v) ! b)"
    then have "h_used (handles v ! a) \<and> h_used (handles v ! b) \<and> h_fd (handles v ! a) = h_fd (handles v ! b)" using u [of "handles v ! a"] u [of "handles v ! b"] by simp
    then show "a = b" using D(4) l unfolding fds_ok_def by auto
  qed
  have 2: "handle_ok ((files v)[i := f]) (file_handles v) (g h)" if "handle_ok (files v) (file_handles v) h" for h f
  proof (cases "h_used h \<and> h_file h = Some i")
    case True
    then show ?thesis using assms(4) [of h] that by (simp add: handle_ok_def)
  next
    case False
    then show ?thesis using assms(3) [OF False] that by (auto simp: handle_ok_def split: option.splits)
  qed
  have 3: "fh_ok (map g (handles v)) (mounts v) k fh" if "fh_ok (handles v) (mounts v) k fh" for k fh
  proof -
    have "\<exists>x \<in> set (map g (handles v)). h_used x \<and> h_fd x = fd \<and> h_file x = None \<and> h_fs_private x = Some k \<and> h_mount x = Some m"
      if "\<exists>x \<in> set (handles v). h_used x \<and> h_fd x = fd \<and> h_file x = None \<and> h_fs_private x = Some k \<and> h_mount x = Some m" for fd m
    proof -
      from that obtain x where x: "x \<in> set (handles v)" "h_used x" "h_fd x = fd" "h_file x = None" "h_fs_private x = Some k" "h_mount x = Some m" by blast
      then have "g x = x" by (intro assms(3)) simp
      then show ?thesis using x by (auto intro!: bexI [of _ x])
    qed
    then show ?thesis using that unfolding fh_ok_def by metis
  qed
  have f: "file_ok ok (clear_file (files v ! i))" using D(2) [OF assms(2)]
    by (auto simp: file_ok_def clear_file_def terminated_def MAX_FILENAME_def intro!: set_update_memI)
  have 4: "\<forall>f \<in> set ((files v)[i := clear_file (files v ! i)]). file_ok ok f"
    by (rule ball_upd) (use f assms(1) in \<open>simp_all add: vfs_inv_def\<close>)
  show ?thesis using assms(1) 1 2 3 4 unfolding vfs_inv_def by simp
qed

lemma inv_drop:
  assumes "vfs_inv ok v" "i < MAX_FILES"
  shows "vfs_inv ok (v\<lparr>handles := drop_handles i (handles v), files := (files v)[i := clear_file (files v ! i)]\<rparr>)"
    and "vfs_inv ok (v\<lparr>handles := reset_handles i (handles v), files := (files v)[i := clear_file (files v ! i)]\<rparr>)"
  unfolding drop_handles_def reset_handles_def by (rule inv_clear [OF assms]; auto)+

lemma vfs_delete_safe:
  assumes "vfs_inv ok v" "terminated name"
  shows "\<exists>r v'. vfs_delete name v = Inr (r, v') \<and> vfs_inv ok v'"
proof -
  note D = vfs_invD [OF assms(1)]
  have legacy: "\<exists>r v'. bindR (find_file name v) (\<lambda>r. case r of None \<Rightarrow> Inr (- ENOENT, v)
      | Some i \<Rightarrow> bindR (upd_file i clear_file (v\<lparr>handles := drop_handles i (handles v)\<rparr>)) (\<lambda>v. Inr (0, v))) = Inr (r, v') \<and> vfs_inv ok v'"
    using assms by (cases rule: find_file_cases) (use assms(1) inv_drop(1) [OF assms(1)] D(1) in \<open>simp_all add: upd_defs upd_eq\<close>)
  from assms show ?thesis
  proof (cases rule: route_cases)
    case none
    then show ?thesis using legacy by (simp add: vfs_delete_def)
  next
    case (some m kf dops rel)
    show ?thesis
    proof (cases "op_unlink dops")
      case None
      then show ?thesis using some(1) legacy by (simp add: vfs_delete_def)
    next
      case (Some f)
      obtain r s where "f (mounts v ! m) rel (env v) = Inr (r, s)" "ok s (opened (mounts v) (file_handles v))"
        using vfs_driver.unlink_law [OF some(5) Some D(12) some(6)] by blast
      then show ?thesis using some(1) Some inv_env [OF assms(1)] by (simp add: vfs_delete_def)
    qed
  qed
qed

end
