(* ===== verification/Vfs_Run.thy ===== *)
theory Vfs_Run
  imports Vfs_Calls
begin

text \<open>
  Removing directories, the tables of file systems and mounts, and sequences of calls.
\<close>

lemma rmdir_loop_safe:
  assumes "vfs_inv ok v" "terminated dir"
  shows "\<exists>v'. rmdir_loop dir n d i v = Inr v' \<and> vfs_inv ok v'"
  using assms
proof (induction dir n d i v rule: rmdir_loop.induct)
  case (1 dir n d i v)
  show ?case
  proof (cases "i < MAX_FILES")
    case False
    then show ?thesis using 1(4) by (subst rmdir_loop.simps) simp
  next
    case True
    note D = vfs_invD [OF 1(4)]
    let ?f = "files v ! i"
    have r: "rd (files v) (int i) = Inr ?f" using True D(1) by (simp add: rd_nat)
    have t: "terminated (f_name ?f)" using D(2) [OF True] by (simp add: file_ok_def)
    have l: "strlen (f_name ?f) = Inr (length (cstr (f_name ?f)))" by (rule strlen_eq [OF t])
    show ?thesis
    proof (cases "f_used ?f \<and> i \<noteq> d")
      case False
      then show ?thesis using 1(3) [OF True r False 1(4,5)] True r by (subst rmdir_loop.simps) (auto split: if_splits)
    next
      case u: True
      have "\<exists>b. (if length (cstr (f_name ?f)) > n then bindR (strncmp (f_name ?f) dir (of_nat n)) (\<lambda>c. Inr (c = 0)) else Inr False) = Inr b"
        using strncmp_from_eq [of 0 "f_name ?f" dir "unat (of_nat n :: u64)"] t 1(5) by (auto simp: strncmp_def)
      then obtain b where b: "(if length (cstr (f_name ?f)) > n then bindR (strncmp (f_name ?f) dir (of_nat n)) (\<lambda>c. Inr (c = 0)) else Inr False) = Inr b" by blast
      show ?thesis
      proof (cases b)
        case False
        then show ?thesis using 1(2) [OF True r u l b] 1(4,5) True r u l b by (subst rmdir_loop.simps) simp
      next
        case bt: True
        let ?v = "v\<lparr>handles := reset_handles i (handles v), files := (files v)[i := clear_file ?f]\<rparr>"
        have e: "upd_file i clear_file (v\<lparr>handles := reset_handles i (handles v)\<rparr>) = Inr ?v" using True D(1) by (simp add: upd_defs upd_eq)
        have "vfs_inv ok ?v" by (rule inv_drop(2) [OF 1(4) True])
        then show ?thesis using 1(1) [OF True r u l b bt e] 1(5) True r u l b bt e by (subst rmdir_loop.simps) simp
      qed
    qed
  qed
qed

lemma vfs_rmdir_safe:
  assumes "vfs_inv ok v" "terminated name" "cstr name \<noteq> []" "length (cstr name) \<noteq> 255"
  shows "\<exists>r v'. vfs_rmdir name v = Inr (r, v') \<and> vfs_inv ok v'"
proof (cases "MAX_FILENAME \<le> length (cstr name)")
  case True
  then show ?thesis using assms(1) strlen_eq [OF assms(2)] by (simp add: vfs_rmdir_def)
next
  case l: False
  let ?n = "length (cstr name)"
  have n: "0 < ?n" "?n < 255" using l assms(3,4) by (auto simp: MAX_FILENAME_def)
  note D = vfs_invD [OF assms(1)]
  from assms(1,2) show ?thesis
  proof (cases rule: find_file_cases)
    case none
    then show ?thesis using l assms(1) strlen_eq [OF assms(2)] by (simp add: vfs_rmdir_def)
  next
    case (some d)
    have r: "rd (files v) (int d) = Inr (files v ! d)" using some(2) D(1) by (simp add: rd_nat)
    obtain c where c: "strcmp name root_dir = Inr c"
      using strcmp_from_eq [of 0 name root_dir] assms(2) by (auto simp: strcmp_def root_dir_def terminated_Cons)
    show ?thesis
    proof (cases "f_type (files v ! d) \<noteq> VFS_TYPE_DIR \<or> c = 0")
      case True
      then show ?thesis using l some(1) r c assms(1) strlen_eq [OF assms(2)] by (auto simp: vfs_rmdir_def)
    next
      case False
      define dir where "dir = cstr name @ 0 # drop (Suc ?n) (replicate MAX_FILENAME 0)"
      have dl: "length dir = 256" using n by (simp add: dir_def MAX_FILENAME_def)
      have cp: "strcpy (replicate MAX_FILENAME 0) name = Inr dir" using strcpy_eq [OF assms(2), of "replicate MAX_FILENAME 0"] l by (simp add: dir_def)
      have "int ?n - 1 = int (?n - 1)" using n(1) by linarith
      then have last: "rd dir (int ?n - 1) = Inr (dir ! (?n - 1))" using rd_nat [of "?n - 1" dir] n dl by simp
      have "\<exists>dir' m. (if dir ! (?n - 1) \<noteq> 47 then bindR (wr dir (int ?n) 47) (\<lambda>dir. bindR (wr dir (int ?n + 1) 0) (\<lambda>dir. Inr (dir, Suc ?n))) else Inr (dir, ?n)) = Inr (dir', m) \<and> terminated dir'"
      proof (cases "dir ! (?n - 1) = 47")
        case True
        then show ?thesis using cstr_append_zero(2) by (simp add: dir_def)
      next
        case False
        have "wr dir (int ?n) 47 = Inr (dir[?n := 47])" using n dl by (simp add: wr_nat)
        moreover have "wr (dir[?n := 47]) (int ?n + 1) 0 = Inr (dir[?n := 47, Suc ?n := 0])" using n dl by (simp add: wr_ok nat_add_distrib)
        moreover have "terminated (dir[?n := 47, Suc ?n := 0])" unfolding terminated_def using n dl by (intro set_update_memI) simp
        ultimately show ?thesis using False by simp
      qed
      then obtain dir' m where dm: "(if dir ! (?n - 1) \<noteq> 47 then bindR (wr dir (int ?n) 47) (\<lambda>dir. bindR (wr dir (int ?n + 1) 0) (\<lambda>dir. Inr (dir, Suc ?n))) else Inr (dir, ?n)) = Inr (dir', m)"
        "terminated dir'" by blast
      obtain v' where v': "rmdir_loop dir' m d 0 v = Inr v'" "vfs_inv ok v'" using rmdir_loop_safe [OF assms(1) dm(2)] by blast
      have "upd_file d clear_file (v'\<lparr>handles := reset_handles d (handles v')\<rparr>) = Inr (v'\<lparr>handles := reset_handles d (handles v'), files := (files v')[d := clear_file (files v' ! d)]\<rparr>)"
        using some(2) vfs_invD(1) [OF v'(2)] by (simp add: upd_defs upd_eq)
      moreover have "vfs_inv ok (v'\<lparr>handles := reset_handles d (handles v'), files := (files v')[d := clear_file (files v' ! d)]\<rparr>)"
        by (rule inv_drop(2) [OF v'(2) some(2)])
      moreover have "vfs_rmdir name v = bindR (upd_file d clear_file (v'\<lparr>handles := reset_handles d (handles v')\<rparr>)) (\<lambda>v. Inr (0, v))"
        using l some(1) r c False strlen_eq [OF assms(2)] cp last dm(1) v'(1) unfolding vfs_rmdir_def by simp
      ultimately show ?thesis by simp
    qed
  qed
qed


subsection \<open>File systems and mounts\<close>

lemma inv_registered:
  assumes "vfs_inv ok v" "i < MAX_REGISTERED_FS" "fs_ok ok i f" "\<And>m. m \<in> set (mounts v) \<Longrightarrow> m_mounted m \<Longrightarrow> m_fs m = Some i \<Longrightarrow> fs_registered f"
  shows "vfs_inv ok (v\<lparr>registered_fs := (registered_fs v)[i := f]\<rparr>)"
proof -
  note D = vfs_invD [OF assms(1)]
  have 1: "mount_ok ((registered_fs v)[i := f]) m" if m: "m \<in> set (mounts v)" for m
  proof -
    have o: "mount_ok (registered_fs v) m" using assms(1) m by (simp add: vfs_inv_def)
    have "\<exists>k < MAX_REGISTERED_FS. m_fs m = Some k \<and> fs_registered ((registered_fs v)[i := f] ! k)" if mm: "m_mounted m"
    proof -
      obtain k where k: "k < MAX_REGISTERED_FS" "m_fs m = Some k" "fs_registered (registered_fs v ! k)" using o mm by (auto simp: mount_ok_def)
      then show ?thesis using assms(4) [OF m mm] D(10) by (cases "k = i") auto
    qed
    then show ?thesis using o by (simp add: mount_ok_def)
  qed
  have 2: "fs_ok ok k ((registered_fs v)[i := f] ! k)" if "k < MAX_REGISTERED_FS" for k
    using D(11) [OF that] assms(2,3) D(10) by (cases "k = i") simp_all
  show ?thesis using assms(1) 1 2 unfolding vfs_inv_def by simp
qed

lemma find_fs_search:
  assumes "vfs_inv ok v" "terminated name"
  shows "find_named fs_registered fs_name name (registered_fs v) 0 MAX_REGISTERED_FS = search (\<lambda>f. fs_registered f \<and> cstr (fs_name f) = cstr name) (registered_fs v) 0 MAX_REGISTERED_FS"
  using assms vfs_invD(10,11) [OF assms(1)] by (intro find_named_search) (auto simp: fs_ok_def in_set_conv_nth)

lemma vfs_register_safe:
  assumes "vfs_inv ok v" "terminated name" "\<And>k. vfs_driver ok k dops"
  shows "\<exists>r v'. vfs_register_filesystem (Some name) (Some dops) flags v = Inr (r, v') \<and> vfs_inv ok v'"
proof (cases "MAX_FS_NAME \<le> length (cstr name)")
  case True
  then show ?thesis using assms(1) strlen_eq [OF assms(2)] by (simp add: vfs_register_filesystem_def)
next
  case l: False
  note D = vfs_invD [OF assms(1)]
  have n: "MAX_REGISTERED_FS \<le> length (registered_fs v)" using D(10) by simp
  then show ?thesis
  proof (cases rule: search_first [where P = "\<lambda>f. fs_registered f \<and> cstr (fs_name f) = cstr name"])
    case (some i)
    then show ?thesis using l assms(1) strlen_eq [OF assms(2)] find_fs_search [OF assms(1,2)] by (simp add: vfs_register_filesystem_def)
  next
    case nf: none
    from n show ?thesis
    proof (cases rule: search_first [where P = "\<lambda>f. \<not> fs_registered f"])
      case none
      then show ?thesis using l nf(1) assms(1) strlen_eq [OF assms(2)] find_fs_search [OF assms(1,2)] by (simp add: vfs_register_filesystem_def)
    next
      case (some i)
      have f: "fs_ok ok i (registered_fs v ! i)" by (rule D(11) [OF some(2)])
      obtain nm where nm: "strcpy (fs_name (registered_fs v ! i)) name = Inr nm" "length nm = MAX_FS_NAME" "terminated nm"
        using length_cstr_new [OF assms(2), of "fs_name (registered_fs v ! i)"] f l by (auto simp: fs_ok_def)
      have "vfs_inv ok (v\<lparr>registered_fs := (registered_fs v)[i := (registered_fs v ! i)\<lparr>fs_name := nm, fs_ops := Some dops, fs_flags := flags, fs_registered := True\<rparr>]\<rparr>)"
        by (rule inv_registered [OF assms(1) some(2)]) (use nm assms(3) in \<open>simp_all add: fs_ok_def\<close>)
      then show ?thesis using l nf(1) some(1,2) nm(1) strlen_eq [OF assms(2)] find_fs_search [OF assms(1,2)] D(10)
        by (simp add: vfs_register_filesystem_def rd_nat wr_nat)
    qed
  qed
qed

lemma vfs_unregister_safe:
  assumes "vfs_inv ok v" "terminated name"
  shows "\<exists>r v'. vfs_unregister_filesystem (Some name) v = Inr (r, v') \<and> vfs_inv ok v'"
proof -
  note D = vfs_invD [OF assms(1)]
  have n: "MAX_REGISTERED_FS \<le> length (registered_fs v)" using D(10) by simp
  then show ?thesis
  proof (cases rule: search_first [where P = "\<lambda>f. fs_registered f \<and> cstr (fs_name f) = cstr name"])
    case none
    then show ?thesis using assms(1) find_fs_search [OF assms] by (simp add: vfs_unregister_filesystem_def)
  next
    case (some i)
    have nm: "MAX_MOUNTS \<le> length (mounts v)" using D(8) by simp
    then show ?thesis
    proof (cases rule: search_first [where P = "\<lambda>m. m_mounted m \<and> m_fs m = Some i"])
      case (some j)
      then show ?thesis using \<open>search _ (registered_fs v) 0 _ = _\<close> assms(1) find_fs_search [OF assms] by (simp add: vfs_unregister_filesystem_def)
    next
      case free: none
      have "vfs_inv ok (v\<lparr>registered_fs := (registered_fs v)[i := (registered_fs v ! i)\<lparr>fs_registered := False, fs_ops := None\<rparr>]\<rparr>)"
        by (rule inv_registered [OF assms(1) some(2)]) (use D(11) [OF some(2)] free(2) D(8) in \<open>auto simp: fs_ok_def in_set_conv_nth\<close>)
      then show ?thesis using some(1,2) free(1) find_fs_search [OF assms] D(10) by (simp add: vfs_unregister_filesystem_def upd_eq)
    qed
  qed
qed

lemma inv_mount:
  assumes "vfs_inv ok v" "i < MAX_MOUNTS" "mount_ok (registered_fs v) mnt" "\<And>fh. fh \<in> set (file_handles v) \<Longrightarrow> fh_used fh \<Longrightarrow> fh_mount fh \<noteq> Some i"
    and "ok s (opened (mounts v) (file_handles v))"
  shows "vfs_inv ok (v\<lparr>env := s, mounts := (mounts v)[i := mnt]\<rparr>)"
proof -
  note D = vfs_invD [OF assms(1)]
  have 1: "fs_of ((mounts v)[i := mnt]) fh = fs_of (mounts v) fh" if fh: "fh \<in> set (file_handles v)" "fh_used fh" for fh
  proof -
    obtain k where k: "k < MAX_HANDLES" "fh = file_handles v ! k" using fh(1) D(6) by (metis in_set_conv_nth)
    obtain m where "fh_mount fh = Some m" using D(7) [OF k(1)] k(2) fh(2) by (auto simp: fh_ok_def)
    then show ?thesis using assms(4) [OF fh] by (simp add: fs_of_def)
  qed
  have "opened ((mounts v)[i := mnt]) (file_handles v) = opened (mounts v) (file_handles v)"
    unfolding opened_def by (rule image_mset_cong) (use 1 in auto)
  moreover have "fh_ok (handles v) ((mounts v)[i := mnt]) k (file_handles v ! k)" if "k < MAX_HANDLES" for k
    using D(7) [OF that] assms(4) [of "file_handles v ! k"] that D(6) unfolding fh_ok_def by (auto simp: nth_list_update) 
  moreover have "\<forall>m \<in> set ((mounts v)[i := mnt]). mount_ok (registered_fs v) m" by (rule ball_upd) (use assms(1,3) in \<open>simp_all add: vfs_inv_def\<close>)
  ultimately show ?thesis using assms(1,5) unfolding vfs_inv_def by simp
qed

lemma unmounted_idle:
  assumes "vfs_inv ok v" "\<not> m_mounted (mounts v ! i)" "fh \<in> set (file_handles v)" "fh_used fh"
  shows "fh_mount fh \<noteq> Some i"
proof -
  note D = vfs_invD [OF assms(1)]
  obtain k where k: "k < MAX_HANDLES" "fh = file_handles v ! k" using assms(3) D(6) by (metis in_set_conv_nth)
  then show ?thesis using D(7) [OF k(1)] assms(2,4) by (auto simp: fh_ok_def)
qed


lemma find_mount_search:
  assumes "vfs_inv ok v" "terminated name"
  shows "find_named m_mounted m_point name (mounts v) 0 MAX_MOUNTS = search (\<lambda>m. m_mounted m \<and> cstr (m_point m) = cstr name) (mounts v) 0 MAX_MOUNTS"
  using assms by (intro find_named_search) (auto simp: vfs_inv_def mount_ok_def)

text \<open>The part of \<open>vfs_mount_fs\<close> that fills a free slot and calls the driver.\<close>

lemma fill_mount_safe:
  assumes "vfs_inv ok v" "i < MAX_MOUNTS" "\<not> m_mounted (mounts v ! i)" "k < MAX_REGISTERED_FS" "fs_registered (registered_fs v ! k)"
    and "length pt = MAX_MOUNT_PATH" "terminated pt" "length dv = MAX_MOUNT_PATH"
    and "mnt = (mounts v ! i)\<lparr>m_point := pt, m_device := dv, m_fs := Some k, m_flags := flags, m_ref_count := 0, m_private := 0\<rparr>"
  shows "\<exists>r v'. bindR (wr (mounts v) (int i) mnt) (\<lambda>ms. let v = v\<lparr>mounts := ms\<rparr> in
     bindR (mount_ops mnt v) (\<lambda>dops.
     bindR (case Option.bind dops op_mount of
         None \<Rightarrow> Inr (0, v)
       | Some f \<Rightarrow> bindR (f mnt device data (env v)) (\<lambda>(r, mnt, s). bindR (upd_mount i (\<lambda>_. mnt) (v\<lparr>env := s\<rparr>)) (\<lambda>v. Inr (r, v)))) (\<lambda>(result, v).
     if sint result < 0 then bindR (upd_mount i (\<lambda>m. m\<lparr>m_mounted := False\<rparr>) v) (\<lambda>v. Inr (result, v))
     else bindR (upd_mount i (\<lambda>m. m\<lparr>m_mounted := True\<rparr>) v) (\<lambda>v. Inr (0, v))))) = Inr (r, v') \<and> vfs_inv ok v'"
proof -
  note D = vfs_invD [OF assms(1)]
  obtain dops where d: "fs_ops (registered_fs v ! k) = Some dops" "vfs_driver ok k dops" using D(11) [OF assms(4)] assms(5) by (auto simp: fs_ok_def)
  have mo: "mount_ops mnt (v\<lparr>mounts := (mounts v)[i := mnt]\<rparr>) = Inr (Some dops)" using assms(4,9) d(1) D(10) by (simp add: mount_ops_def rd_nat)
  have w: "wr (mounts v) (int i) mnt = Inr ((mounts v)[i := mnt])" using assms(2) D(8) by (simp add: wr_nat)
  have "\<exists>result mnt' s. (case op_mount dops of
         None \<Rightarrow> Inr (0, v\<lparr>mounts := (mounts v)[i := mnt]\<rparr>)
       | Some f \<Rightarrow> bindR (f mnt device data (env (v\<lparr>mounts := (mounts v)[i := mnt]\<rparr>))) (\<lambda>(r, mnt', s). bindR (upd_mount i (\<lambda>_. mnt') (v\<lparr>mounts := (mounts v)[i := mnt], env := s\<rparr>)) (\<lambda>v. Inr (r, v))))
       = Inr (result, v\<lparr>env := s, mounts := (mounts v)[i := mnt']\<rparr>) \<and> ok s (opened (mounts v) (file_handles v)) \<and>
       m_point mnt' = pt \<and> m_device mnt' = dv \<and> m_fs mnt' = Some k"
  proof (cases "op_mount dops")
    case None
    then show ?thesis using assms(9) D(12) by (intro exI [of _ 0] exI [of _ mnt] exI [of _ "env v"]) simp
  next
    case (Some f)
    obtain r mnt' s where f: "f mnt device data (env v) = Inr (r, mnt', s)" "ok s (opened (mounts v) (file_handles v))"
      "m_point mnt' = m_point mnt" "m_device mnt' = m_device mnt" "m_fs mnt' = m_fs mnt"
      using vfs_driver.mount_law [OF d(2) Some D(12)] by blast
    have "v\<lparr>mounts := a, env := s\<rparr> = v\<lparr>env := s, mounts := a\<rparr>" for a by (cases v) simp
    then show ?thesis using Some f assms(2,9) D(8) by (intro exI [of _ r] exI [of _ mnt'] exI [of _ s]) (simp add: upd_defs upd_eq)
  qed
  then obtain result mnt' s where c: "(case op_mount dops of
         None \<Rightarrow> Inr (0, v\<lparr>mounts := (mounts v)[i := mnt]\<rparr>)
       | Some f \<Rightarrow> bindR (f mnt device data (env (v\<lparr>mounts := (mounts v)[i := mnt]\<rparr>))) (\<lambda>(r, mnt', s). bindR (upd_mount i (\<lambda>_. mnt') (v\<lparr>mounts := (mounts v)[i := mnt], env := s\<rparr>)) (\<lambda>v. Inr (r, v))))
       = Inr (result, v\<lparr>env := s, mounts := (mounts v)[i := mnt']\<rparr>)" "ok s (opened (mounts v) (file_handles v))"
       "m_point mnt' = pt" "m_device mnt' = dv" "m_fs mnt' = Some k" by (elim exE conjE)
  have inv: "vfs_inv ok (v\<lparr>env := s, mounts := (mounts v)[i := mnt'\<lparr>m_mounted := b\<rparr>]\<rparr>)" for b
    by (rule inv_mount [OF assms(1,2)]) (use assms(4-8) c(2-5) unmounted_idle [OF assms(1,3)] in \<open>auto simp: mount_ok_def\<close>)
  have up: "upd_mount i (\<lambda>m. m\<lparr>m_mounted := b\<rparr>) (v\<lparr>env := s, mounts := (mounts v)[i := mnt']\<rparr>) = Inr (v\<lparr>env := s, mounts := (mounts v)[i := mnt'\<lparr>m_mounted := b\<rparr>]\<rparr>)" for b
    using assms(2) D(8) by (simp add: upd_defs upd_eq)
  show ?thesis using w mo c(1) inv [of True] inv [of False] up by (simp add: Let_def)
qed

lemma vfs_mount_safe:
  assumes "vfs_inv ok v" "terminated name" "terminated mp" "\<And>d. device = Some d \<Longrightarrow> terminated d \<and> length (cstr d) < MAX_MOUNT_PATH"
  shows "\<exists>r v'. vfs_mount_fs (Some name) (Some mp) device flags data v = Inr (r, v') \<and> vfs_inv ok v'"
proof (cases "MAX_MOUNT_PATH \<le> length (cstr mp)")
  case True
  then show ?thesis using assms(1) strlen_eq [OF assms(3)] by (simp add: vfs_mount_fs_def)
next
  case l: False
  obtain x u where mk: "vfs_mkdir mp v = Inr (x, u)" "vfs_inv ok u" using vfs_mkdir_safe [OF assms(1,3)] by blast
  note D = vfs_invD [OF mk(2)]
  show ?thesis
  proof (cases "sint x < 0 \<and> x \<noteq> - EEXIST")
    case True
    then show ?thesis using l strlen_eq [OF assms(3)] mk by (simp add: vfs_mount_fs_def)
  next
    case xe: False
    have n: "MAX_REGISTERED_FS \<le> length (registered_fs u)" using D(10) by simp
    then show ?thesis
    proof (cases rule: search_first [where P = "\<lambda>f. fs_registered f \<and> cstr (fs_name f) = cstr name"])
      case none
      then show ?thesis using l strlen_eq [OF assms(3)] mk xe find_fs_search [OF mk(2) assms(2)] by (simp add: vfs_mount_fs_def vfs_find_filesystem_def)
    next
      case fs: (some k)
      have nm: "MAX_MOUNTS \<le> length (mounts u)" using D(8) by simp
      then show ?thesis
      proof (cases rule: search_first [where P = "\<lambda>m. m_mounted m \<and> cstr (m_point m) = cstr mp"])
        case (some i)
        then show ?thesis using l strlen_eq [OF assms(3)] mk xe fs(1) find_fs_search [OF mk(2) assms(2)] find_mount_search [OF mk(2) assms(3)]
          by (simp add: vfs_mount_fs_def vfs_find_filesystem_def)
      next
        case nb: none
        from nm show ?thesis
        proof (cases rule: search_first [where P = "\<lambda>m. \<not> m_mounted m"])
          case none
          then show ?thesis using l strlen_eq [OF assms(3)] mk xe fs(1) nb(1) find_fs_search [OF mk(2) assms(2)] find_mount_search [OF mk(2) assms(3)]
            by (simp add: vfs_mount_fs_def vfs_find_filesystem_def)
        next
          case (some i)
          have m: "length (m_point (mounts u ! i)) = MAX_MOUNT_PATH" "length (m_device (mounts u ! i)) = MAX_MOUNT_PATH"
            using D(9) [OF some(2)] by (simp_all add: mount_ok_def)
          have r: "rd (mounts u) (int i) = Inr (mounts u ! i)" using some(2) D(8) by (simp add: rd_nat)
          obtain pt where pt: "strcpy (m_point (mounts u ! i)) mp = Inr pt" "length pt = MAX_MOUNT_PATH" "terminated pt"
            using length_cstr_new [OF assms(3), of "m_point (mounts u ! i)"] m(1) l by auto
          have "\<exists>dv. (case device of Some d \<Rightarrow> strcpy (m_device (mounts u ! i)) d | None \<Rightarrow> wr (m_device (mounts u ! i)) 0 0) = Inr dv \<and> length dv = MAX_MOUNT_PATH"
          proof (cases device)
            case None
            then show ?thesis using m(2) by (simp add: wr_def MAX_MOUNT_PATH_def)
          next
            case (Some d)
            then show ?thesis using length_cstr_new [of d "m_device (mounts u ! i)"] assms(4) [OF Some] m(2) by auto
          qed
          then obtain dv where dv: "(case device of Some d \<Rightarrow> strcpy (m_device (mounts u ! i)) d | None \<Rightarrow> wr (m_device (mounts u ! i)) 0 0) = Inr dv" "length dv = MAX_MOUNT_PATH" by blast
          show ?thesis
            using fill_mount_safe [OF mk(2) some(2,3) fs(2) _ pt(2,3) dv(2) refl, of flags device data] fs(3)
              l strlen_eq [OF assms(3)] mk xe fs(1) nb(1) some(1) r pt(1) dv(1) find_fs_search [OF mk(2) assms(2)] find_mount_search [OF mk(2) assms(3)]
            unfolding vfs_mount_fs_def vfs_find_filesystem_def by (simp add: Let_def)
        qed
      qed
    qed
  qed
qed


lemma vfs_umount_safe:
  assumes "vfs_inv ok v" "terminated mp"
    and "\<And>i fh. fh \<in> set (file_handles v) \<Longrightarrow> fh_used fh \<Longrightarrow> fh_mount fh = Some i \<Longrightarrow> cstr (m_point (mounts v ! i)) \<noteq> cstr mp"
  shows "\<exists>r v'. vfs_umount (Some mp) v = Inr (r, v') \<and> vfs_inv ok v'"
proof -
  note D = vfs_invD [OF assms(1)]
  have nm: "MAX_MOUNTS \<le> length (mounts v)" using D(8) by simp
  then show ?thesis
  proof (cases rule: search_first [where P = "\<lambda>m. m_mounted m \<and> cstr (m_point m) = cstr mp"])
    case none
    then show ?thesis using assms(1) find_mount_search [OF assms(1,2)] by (simp add: vfs_umount_def)
  next
    case (some i)
    let ?m = "mounts v ! i"
    have r: "rd (mounts v) (int i) = Inr ?m" using some(2) D(8) by (simp add: rd_nat)
    have mok: "mount_ok (registered_fs v) ?m" by (rule D(9) [OF some(2)])
    obtain k where k: "k < MAX_REGISTERED_FS" "m_fs ?m = Some k" "fs_registered (registered_fs v ! k)" using mok some(3) by (auto simp: mount_ok_def)
    obtain dops where d: "fs_ops (registered_fs v ! k) = Some dops" "vfs_driver ok k dops" using D(11) [OF k(1)] k(3) by (auto simp: fs_ok_def)
    have mo: "mount_ops ?m v = Inr (Some dops)" using k d(1) D(10) by (simp add: mount_ops_def rd_nat)
    have idle: "fh_mount fh \<noteq> Some i" if "fh \<in> set (file_handles v)" "fh_used fh" for fh using assms(3) [OF that] some(3) by auto
    have "\<exists>result mnt' s. (case op_unmount dops of
         None \<Rightarrow> Inr (0, v)
       | Some f \<Rightarrow> bindR (f ?m (env v)) (\<lambda>(r, mnt', s). bindR (upd_mount i (\<lambda>_. mnt') (v\<lparr>env := s\<rparr>)) (\<lambda>v. Inr (r, v))))
       = Inr (result, v\<lparr>env := s, mounts := (mounts v)[i := mnt']\<rparr>) \<and> ok s (opened (mounts v) (file_handles v)) \<and>
       m_point mnt' = m_point ?m \<and> m_device mnt' = m_device ?m \<and> m_fs mnt' = m_fs ?m"
    proof (cases "op_unmount dops")
      case None
      then show ?thesis using D(12) by (intro exI [of _ 0] exI [of _ ?m] exI [of _ "env v"]) simp
    next
      case (Some f)
      obtain x mnt' s where f: "f ?m (env v) = Inr (x, mnt', s)" "ok s (opened (mounts v) (file_handles v))"
        "m_point mnt' = m_point ?m" "m_device mnt' = m_device ?m" "m_fs mnt' = m_fs ?m"
        using vfs_driver.unmount_law [OF d(2) Some D(12)] by blast
      then show ?thesis using Some some(2) D(8) by (intro exI [of _ x] exI [of _ mnt'] exI [of _ s]) (simp add: upd_defs upd_eq)
    qed
    then obtain result mnt' s where c: "(case op_unmount dops of
         None \<Rightarrow> Inr (0, v)
       | Some f \<Rightarrow> bindR (f ?m (env v)) (\<lambda>(r, mnt', s). bindR (upd_mount i (\<lambda>_. mnt') (v\<lparr>env := s\<rparr>)) (\<lambda>v. Inr (r, v))))
       = Inr (result, v\<lparr>env := s, mounts := (mounts v)[i := mnt']\<rparr>)" "ok s (opened (mounts v) (file_handles v))"
       "m_point mnt' = m_point ?m" "m_device mnt' = m_device ?m" "m_fs mnt' = m_fs ?m" by (elim exE conjE)
    have 1: "vfs_inv ok (v\<lparr>env := s, mounts := (mounts v)[i := mnt']\<rparr>)"
      by (rule inv_mount [OF assms(1) some(2) _ idle c(2)]) (use mok some(3) c(3-5) k in \<open>auto simp: mount_ok_def\<close>)
    have 2: "vfs_inv ok (v\<lparr>env := s, mounts := (mounts v)[i := mnt'\<lparr>m_mounted := False, m_fs := None, m_private := 0\<rparr>]\<rparr>)"
      by (rule inv_mount [OF assms(1) some(2) _ idle c(2)]) (use mok c(3-5) in \<open>auto simp: mount_ok_def\<close>)
    have up: "upd_mount i (\<lambda>m. m\<lparr>m_mounted := False, m_fs := None, m_private := 0\<rparr>) (v\<lparr>env := s, mounts := (mounts v)[i := mnt']\<rparr>) =
        Inr (v\<lparr>env := s, mounts := (mounts v)[i := mnt'\<lparr>m_mounted := False, m_fs := None, m_private := 0\<rparr>]\<rparr>)"
      using some(2) D(8) by (simp add: upd_defs upd_eq)
    show ?thesis using some(1) r mo c(1) 1 2 up assms(1) find_mount_search [OF assms(1,2)] by (simp add: vfs_umount_def)
  qed
qed

subsection \<open>Queries\<close>

lemma vfs_stat_safe:
  assumes "vfs_inv ok v" "terminated path"
  shows "\<exists>r st' v'. vfs_stat (Some path) (Some st) v = Inr (r, st', v') \<and> vfs_inv ok v'"
proof -
  note D = vfs_invD [OF assms(1)]
  have legacy: "\<exists>r st'. bindR (find_file path v) (\<lambda>r. case r of None \<Rightarrow> Inr (- ENOENT, Some st, v)
      | Some i \<Rightarrow> bindR (rd (files v) (int i)) (\<lambda>f. Inr (0, Some (st\<lparr>st_size := f_size f, st_blksize := 512, st_mtime := 0, st_mode := stat_mode (f_type f)\<rparr>), v))) = Inr (r, st', v)"
    using assms by (cases rule: find_file_cases) (use D(1) in \<open>simp_all add: rd_nat\<close>)
  from assms show ?thesis
  proof (cases rule: route_cases)
    case none
    then show ?thesis using legacy assms(1) by (auto simp: vfs_stat_def)
  next
    case (some m kf dops rel)
    show ?thesis
    proof (cases "op_stat dops")
      case None
      then show ?thesis using some(1) legacy assms(1) by (auto simp: vfs_stat_def)
    next
      case (Some f)
      obtain r st' s where "f (mounts v ! m) rel st (env v) = Inr (r, st', s)" "ok s (opened (mounts v) (file_handles v))"
        using vfs_driver.stat_law [OF some(5) Some D(12) some(6)] by blast
      then show ?thesis using some(1) Some inv_env [OF assms(1)] by (simp add: vfs_stat_def)
    qed
  qed
qed

lemma vfs_exists_safe:
  assumes "vfs_inv ok v" "terminated path"
  shows "\<exists>r v'. vfs_exists path v = Inr (r, v') \<and> vfs_inv ok v'"
  using assms
proof (cases rule: find_file_cases)
  case (some i)
  then show ?thesis using assms(1) by (intro exI [of _ True] exI [of _ v]) (simp add: vfs_exists_def)
next
  case nf: none
  note D = vfs_invD [OF assms(1)]
  from assms show ?thesis
  proof (cases rule: route_cases)
    case none
    then show ?thesis using nf(1) assms(1) by (intro exI [of _ False] exI [of _ v]) (simp add: vfs_exists_def)
  next
    case (some m kf dops rel)
    show ?thesis
    proof (cases "op_stat dops")
      case None
      then show ?thesis using nf(1) some(1) assms(1) by (intro exI [of _ False] exI [of _ v]) (simp add: vfs_exists_def)
    next
      case (Some f)
      obtain r st' s where "f (mounts v ! m) rel stat0 (env v) = Inr (r, st', s)" "ok s (opened (mounts v) (file_handles v))"
        using vfs_driver.stat_law [OF some(5) Some D(12) some(6)] by blast
      then show ?thesis using nf(1) some(1) Some inv_env [OF assms(1)] by (simp add: vfs_exists_def)
    qed
  qed
qed

end
