(* ===== verification/Vfs_Plain.thy ===== *)
theory Vfs_Plain
  imports Vfs_Run
begin

text \<open>
  Files that are no devices are arrays of \<open>MAX_FILE_SIZE\<close> bytes with a size.  Seen from outside, such a file is a sequence of bytes and
  an open descriptor is a position in it: this is the specification the calls on descriptors refine.
\<close>

subsection \<open>Specification\<close>

type_synonym cursor = "u8 list \<times> nat"

definition spec_read :: "nat \<Rightarrow> cursor \<Rightarrow> u8 list \<times> cursor" where
  "spec_read n = (\<lambda>(c, p). (take n (drop p c), (c, p + length (take n (drop p c)))))"

definition spec_write :: "u8 list \<Rightarrow> cursor \<Rightarrow> nat \<times> cursor" where
  "spec_write bs = (\<lambda>(c, p). let m = min (length bs) (MAX_FILE_SIZE - p) in (m, (take p c @ take m bs @ drop (p + m) c, p + m)))"

definition spec_seek :: "int \<Rightarrow> i32 \<Rightarrow> cursor \<Rightarrow> cursor" where
  "spec_seek off wh = (\<lambda>(c, p). (c, nat (max 0 (min (int (length c)) ((if wh = 0 then 0 else if wh = 1 then int p else int (length c)) + off)))))"

datatype plain_op = PRead "u8 list" u64 | PWrite "u8 list" u64 | PSeek u64 i32

datatype plain_result = RRead u64 "u8 list" | RWrite u64 | RSeek u64

fun spec_exec :: "plain_op \<Rightarrow> cursor \<Rightarrow> plain_result \<times> cursor" where
  "spec_exec (PRead buf n) c = (let (bs, c') = spec_read (unat n) c in (RRead (of_nat (length bs)) (bs @ drop (length bs) buf), c'))"
| "spec_exec (PWrite buf n) c = (let (m, c') = spec_write (take (unat n) buf) c in (RWrite (if m = 0 then scast (- ENOSPC) else of_nat m), c'))"
| "spec_exec (PSeek off wh) c = (let c' = spec_seek (sint off) wh c in (RSeek (of_nat (snd c')), c'))"

fun spec_run :: "plain_op list \<Rightarrow> cursor \<Rightarrow> plain_result list \<times> cursor" where
  "spec_run [] c = ([], c)"
| "spec_run (x # xs) c = (let (r, c) = spec_exec x c; (rs, c) = spec_run xs c in (r # rs, c))"

subsection \<open>The calls\<close>

fun plain_exec :: "i32 \<Rightarrow> plain_op \<Rightarrow> 's vfs \<Rightarrow> (plain_result \<times> 's vfs) res" where
  "plain_exec fd (PRead buf n) v = bindR (vfs_readfd fd buf n v) (\<lambda>(r, buf, v). Inr (RRead r buf, v))"
| "plain_exec fd (PWrite buf n) v = bindR (vfs_writefd fd buf n v) (\<lambda>(r, v). Inr (RWrite r, v))"
| "plain_exec fd (PSeek off wh) v = bindR (vfs_seek fd off wh v) (\<lambda>(r, v). Inr (RSeek r, v))"

fun plain_run :: "i32 \<Rightarrow> plain_op list \<Rightarrow> 's vfs \<Rightarrow> (plain_result list \<times> 's vfs) res" where
  "plain_run fd [] v = Inr ([], v)"
| "plain_run fd (x # xs) v = bindR (plain_exec fd x v) (\<lambda>(r, v). bindR (plain_run fd xs v) (\<lambda>(rs, v). Inr (r # rs, v)))"

fun op_valid :: "plain_op \<Rightarrow> bool" where
  "op_valid (PRead buf n) \<longleftrightarrow> unat n \<le> length buf"
| "op_valid (PWrite buf n) \<longleftrightarrow> unat n \<le> length buf \<and> unat n < 2 ^ 63"
| "op_valid (PSeek off wh) \<longleftrightarrow> (wh = 0 \<or> wh = 1 \<or> wh = 2) \<and> - (2 ^ 62) \<le> sint off \<and> sint off < 2 ^ 62"

subsection \<open>Refinement\<close>

definition cursor :: "nat \<Rightarrow> nat \<Rightarrow> 's vfs \<Rightarrow> cursor" where
  "cursor j i v = (take (unat (f_size (files v ! i))) (f_data (files v ! i)), unat (h_position (handles v ! j)))"

definition others_same :: "nat \<Rightarrow> nat \<Rightarrow> 's vfs \<Rightarrow> 's vfs \<Rightarrow> bool" where
  "others_same j i v v' \<longleftrightarrow> (\<exists>q d z. v' = v\<lparr>handles := (handles v)[j := (handles v ! j)\<lparr>h_position := q\<rparr>],
     files := (files v)[i := (files v ! i)\<lparr>f_data := d, f_size := z\<rparr>]\<rparr>)"

lemma others_sameI: "v\<lparr>handles := (handles v)[j := (handles v ! j)\<lparr>h_position := q\<rparr>],
    files := (files v)[i := (files v ! i)\<lparr>f_data := d, f_size := z\<rparr>]\<rparr> = v' \<Longrightarrow> others_same j i v v'"
  unfolding others_same_def by blast

lemma others_same_position: "others_same j i v (v\<lparr>handles := (handles v)[j := (handles v ! j)\<lparr>h_position := q\<rparr>]\<rparr>)"
  by (rule others_sameI [where d = "f_data (files v ! i)" and z = "f_size (files v ! i)"]) simp

lemma others_same_refl: "others_same j i v v"
  using others_same_position [of j i v "h_position (handles v ! j)"] by simp

definition plain_open :: "i32 \<Rightarrow> nat \<Rightarrow> nat \<Rightarrow> 's vfs \<Rightarrow> bool" where
  "plain_open fd j i v \<longleftrightarrow> fds_ok (handles v) \<and> j < MAX_HANDLES \<and> h_used (handles v ! j) \<and> h_fd (handles v ! j) = fd \<and> h_file (handles v ! j) = Some i \<and> i < MAX_FILES \<and> f_type (files v ! i) \<noteq> VFS_TYPE_DEVICE \<and>
     unat (h_position (handles v ! j)) \<le> unat (f_size (files v ! i)) \<and> length (files v) = MAX_FILES \<and> length (handles v) = MAX_HANDLES \<and>
     unat (f_size (files v ! i)) \<le> MAX_FILE_SIZE \<and> length (f_data (files v ! i)) = MAX_FILE_SIZE"

lemma plain_openD:
  assumes "plain_open fd j i v"
  shows "get_handle fd v = Inr (Some j)" "j < MAX_HANDLES" "h_file (handles v ! j) = Some i" "i < MAX_FILES" "f_type (files v ! i) \<noteq> VFS_TYPE_DEVICE"
    "unat (h_position (handles v ! j)) \<le> unat (f_size (files v ! i))" "length (files v) = MAX_FILES" "length (handles v) = MAX_HANDLES"
    "unat (f_size (files v ! i)) \<le> MAX_FILE_SIZE" "length (f_data (files v ! i)) = MAX_FILE_SIZE"
proof -
  have l: "length (handles v) = MAX_HANDLES" using assms by (simp add: plain_open_def)
  then show "get_handle fd v = Inr (Some j)"
  proof (cases rule: get_handle_cases [where fd = fd])
    case none
    then show ?thesis using assms by (auto simp: plain_open_def fd_used_def)
  next
    case (some k)
    then have "k = j" using assms l unfolding plain_open_def fds_ok_def by metis
    then show ?thesis using some(1) by simp
  qed
qed (use assms in \<open>simp_all add: plain_open_def\<close>)

lemma plain_open_kept:
  assumes "plain_open fd j i v" "others_same j i v v'" "length (f_data (files v' ! i)) = MAX_FILE_SIZE"
    and "unat (f_size (files v' ! i)) \<le> MAX_FILE_SIZE" "unat (h_position (handles v' ! j)) \<le> unat (f_size (files v' ! i))"
  shows "plain_open fd j i v'"
proof -
  obtain q d z where v': "v' = v\<lparr>handles := (handles v)[j := (handles v ! j)\<lparr>h_position := q\<rparr>],
      files := (files v)[i := (files v ! i)\<lparr>f_data := d, f_size := z\<rparr>]\<rparr>" using assms(2) unfolding others_same_def by blast
  have "fds_ok ((handles v)[j := (handles v ! j)\<lparr>h_position := q\<rparr>])" using assms(1) by (intro fds_ok_upd) (simp_all add: plain_open_def)
  then show ?thesis using assms unfolding plain_open_def v' by simp
qed

lemma read_refines:
  assumes "plain_open fd j i v" "h_flags (handles v ! j) AND VFS_READ \<noteq> 0" "unat n \<le> length buf"
  shows "\<exists>bs v'. spec_read (unat n) (cursor j i v) = (bs, cursor j i v') \<and> vfs_readfd fd buf n v = Inr (of_nat (length bs), bs @ drop (length bs) buf, v') \<and> others_same j i v v' \<and> plain_open fd j i v'"
proof -
  let ?h = "handles v ! j" and ?f = "files v ! i"
  note a = plain_openD [OF assms(1)]
  define m where "m = min (unat n) (unat (f_size ?f) - unat (h_position ?h))"
  define B where "B = take m (drop (unat (h_position ?h)) (f_data ?f))"
  let ?v = "v\<lparr>handles := (handles v)[j := ?h\<lparr>h_position := h_position ?h + of_nat m\<rparr>]\<rparr>"
  have r: "vfs_readfd fd buf n v = Inr (of_nat m, B @ drop m buf, ?v)"
    using a assms(2) read_plain [of i v j ?h n buf] assms(3) by (simp add: vfs_readfd_def rd_nat Let_def m_def B_def)
  have m: "m \<le> unat (f_size ?f) - unat (h_position ?h)" by (simp add: m_def)
  have lt: "unat (h_position ?h) + m < 2 ^ 64" using a m by (auto simp: MAX_FILE_SIZE_def)
  have un: "unat (h_position ?h + of_nat m) = unat (h_position ?h) + m" using lt by (simp add: unat_word_ariths unat_of_nat)
  then have c: "cursor j i ?v = (take (unat (f_size ?f)) (f_data ?f), unat (h_position ?h) + m)" using a by (simp add: cursor_def)
  have bs: "take (unat n) (drop (unat (h_position ?h)) (take (unat (f_size ?f)) (f_data ?f))) = B"
    by (simp add: drop_take m_def min.commute B_def)
  have l: "length (B) = m" using a m by (auto simp: B_def)
  have op: "plain_open fd j i ?v" by (rule plain_open_kept [OF assms(1) others_same_position]) (use a m un in \<open>simp_all add: algebra_simps\<close>)
  have "spec_read (unat n) (cursor j i v) = (B, cursor j i ?v)" unfolding spec_read_def cursor_def [of j i v] c prod.case bs l ..
  then show ?thesis by (intro exI [of _ B] exI [of _ ?v]) (use a in \<open>simp add: r l others_same_position op\<close>)
qed

lemma write_refines:
  assumes "plain_open fd j i v" "h_flags (handles v ! j) AND VFS_WRITE \<noteq> 0" "fd \<noteq> 1" "fd \<noteq> 2" "unat n \<le> length buf" "unat n < 2 ^ 63"
  shows "\<exists>m v'. spec_write (take (unat n) buf) (cursor j i v) = (m, cursor j i v') \<and> vfs_writefd fd buf n v = Inr (if m = 0 then scast (- ENOSPC) else of_nat m, v') \<and> others_same j i v v' \<and> plain_open fd j i v'"
proof -
  let ?h = "handles v ! j" and ?f = "files v ! i"
  note a = plain_openD [OF assms(1)]
  define p where "p = unat (h_position ?h)"
  define m where "m = min (unat n) (MAX_FILE_SIZE - p)"
  have dv: "dev_write ?f = None" using a by (simp add: dev_write_def)
  have w: "vfs_writefd fd buf n v = write_legacy j ?h i buf n v" using a assms(2-4) by (simp add: vfs_writefd_def rd_nat)
  have wp: "write_legacy j ?h i buf n v = (if m = 0 then Inr (scast (- ENOSPC), v)
     else Inr (of_nat m, v\<lparr>handles := (handles v)[j := ?h\<lparr>h_position := of_nat (p + m)\<rparr>],
       files := (files v)[i := ?f\<lparr>f_data := take p (f_data ?f) @ take m buf @ drop (p + m) (f_data ?f),
         f_size := if of_nat (p + m) > f_size ?f then of_nat (p + m) else f_size ?f\<rparr>]\<rparr>))"
    unfolding m_def p_def by (rule write_plain [unfolded Let_def]) (use a assms(5,6) dv in auto)
  have lm: "min (length (take (unat n) buf)) (MAX_FILE_SIZE - p) = m" using assms(5) by (simp add: m_def)
  show ?thesis
  proof (cases "m = 0")
    case True
    have "spec_write (take (unat n) buf) (cursor j i v) = (0, cursor j i v)"
      unfolding spec_write_def cursor_def prod.case Let_def lm [unfolded p_def] True by (simp only: take_0 append_Nil add_0_right append_take_drop_id)
    then show ?thesis using wp w True by (intro exI [of _ 0] exI [of _ v]) (simp add: others_same_refl assms(1))
  next
    case False
    let ?v = "v\<lparr>handles := (handles v)[j := ?h\<lparr>h_position := of_nat (p + m)\<rparr>],
       files := (files v)[i := ?f\<lparr>f_data := take p (f_data ?f) @ take m buf @ drop (p + m) (f_data ?f),
         f_size := if of_nat (p + m) > f_size ?f then of_nat (p + m) else f_size ?f\<rparr>]\<rparr>"
    let ?s = "unat (f_size ?f)"
    have pm: "p + m \<le> MAX_FILE_SIZE" using a by (simp add: m_def p_def)
    have u: "unat (of_nat (p + m) :: u64) = p + m" using pm by (intro unat_of_nat_eq) (simp add: MAX_FILE_SIZE_def)
    have sz: "unat (if of_nat (p + m) > f_size ?f then of_nat (p + m) else f_size ?f) = max ?s (p + m)"
      using u by (simp add: word_less_nat_alt)
    have c: "take (max ?s (p + m)) (take p (f_data ?f) @ take m buf @ drop (p + m) (f_data ?f)) = take p (take ?s (f_data ?f)) @ take m (take (unat n) buf) @ drop (p + m) (take ?s (f_data ?f))"
    proof -
      have "p \<le> ?s" "m \<le> unat n" "m \<le> length buf" "p \<le> length (f_data ?f)" using a assms(5) by (simp_all add: p_def m_def)
      moreover have "max ?s (p + m) - (p + m) = ?s - (p + m)" by simp
      ultimately show ?thesis by (simp add: drop_take min.absorb1 min.absorb2 del: max_diff_distrib_left)
    qed
    have cv: "cursor j i ?v = (take p (take ?s (f_data ?f)) @ take m (take (unat n) buf) @ drop (p + m) (take ?s (f_data ?f)), p + m)"
      using a c sz u by (simp add: cursor_def)
    have sp: "spec_write (take (unat n) buf) (cursor j i v) = (m, cursor j i ?v)"
      unfolding cv spec_write_def cursor_def [of j i v] prod.case Let_def lm [unfolded p_def] by (simp only: p_def)
    have ml: "m \<le> length buf" using assms(5) by (simp add: m_def)
    have os: "others_same j i v ?v" by (rule others_sameI) (rule refl)
    have "plain_open fd j i ?v" by (rule plain_open_kept [OF assms(1) os]) (use a pm u sz ml in \<open>simp_all add: p_def\<close>)
    then show ?thesis using os sp False w wp by (intro exI [of _ m] exI [of _ ?v]) simp
  qed
qed

lemma unat_le_numeral: "unat w \<le> 65536 \<longleftrightarrow> uint w \<le> 65536"
proof -
  have "uint w = int (unat w)" by simp
  then show ?thesis by linarith
qed

lemma seek_refines:
  assumes "plain_open fd j i v" "wh = 0 \<or> wh = 1 \<or> wh = 2" "- (2 ^ 62) \<le> sint off" "sint off < 2 ^ 62"
  shows "\<exists>v'. cursor j i v' = spec_seek (sint off) wh (cursor j i v) \<and> vfs_seek fd off wh v = Inr (of_nat (snd (cursor j i v')), v') \<and> others_same j i v v' \<and> plain_open fd j i v'"
proof -
  let ?h = "handles v ! j" and ?f = "files v ! i"
  note a = plain_openD [OF assms(1)]
  define b where "b = (if wh = 0 then 0 else if wh = 1 then h_position ?h else f_size ?f)"
  have bl: "unat b \<le> MAX_FILE_SIZE" using a by (simp add: b_def)
  have bi: "0 \<le> uint b" "uint b \<le> 65536" using bl unfolding MAX_FILE_SIZE_def by (simp_all add: unat_le_numeral)
  have sb: "sint b = int (unat b)" using bi by (simp add: sint_small_eq_uint)
  have "sint b = uint b" using bi by (simp add: sint_small_eq_uint)
  moreover have "- 4611686018427387904 \<le> sint off" "sint off < 4611686018427387904" using assms(3,4) by simp_all
  ultimately have "- 9223372036854775808 \<le> sint b + sint off \<and> sint b + sint off < 9223372036854775808" using bi by linarith
  then have "sint (word_of_int (sint b + sint off) :: u64) = sint b + sint off" 
    unfolding sint_sbintrunc' by (intro signed_take_bit_int_eq_self) simp_all
  then have s: "sint (b + off) = int (unat b) + sint off" using sb by simp
  define q where "q = (let pos = b + off; pos = if sint pos < 0 then 0 else pos in if pos > f_size ?f then f_size ?f else pos)"
  let ?v = "v\<lparr>handles := (handles v)[j := ?h\<lparr>h_position := q\<rparr>]\<rparr>"
  have seek: "vfs_seek fd off wh v = Inr (q, ?v)"
    using a assms(2) by (auto simp: vfs_seek_def rd_nat q_def b_def upd_defs upd_eq Let_def)
  have q: "int (unat q) = max 0 (min (int (unat (f_size ?f))) (int (unat b) + sint off))"
  proof (cases "sint (b + off) < 0")
    case True
    then show ?thesis using s by (simp add: q_def Let_def)
  next
    case False
    have "sint (b + off) = uint (b + off)" by (rule sint_nonneg_eq_uint) (use False in simp)
    then have "int (unat (b + off)) = int (unat b) + sint off" using s by simp
    moreover have "unat q = min (unat (f_size ?f)) (unat (b + off))" using False by (simp add: q_def Let_def word_less_nat_alt)
    ultimately show ?thesis by linarith
  qed
  have cv: "cursor j i ?v = (take (unat (f_size ?f)) (f_data ?f), unat q)" using a by (simp add: cursor_def)
  have base: "(if wh = 0 then 0 else if wh = 1 then int (unat (h_position ?h)) else int (unat (f_size ?f))) = int (unat b)" by (simp add: b_def)
  have len: "length (take (unat (f_size ?f)) (f_data ?f)) = unat (f_size ?f)" using a by simp
  have "unat q = nat (max 0 (min (int (unat (f_size ?f))) (int (unat b) + sint off)))" using q by linarith
  then have "cursor j i ?v = spec_seek (sint off) wh (cursor j i v)" unfolding cv spec_seek_def cursor_def [of j i v] prod.case len base by simp
  moreover have "plain_open fd j i ?v" by (rule plain_open_kept [OF assms(1) others_same_position]) (use a q in \<open>simp_all, linarith\<close>)
  moreover have "snd (cursor j i ?v) = unat q" by (simp add: cv)
  ultimately show ?thesis using seek others_same_position [of j i v q] by (intro exI [of _ ?v]) simp
qed



lemma others_same_trans:
  assumes "others_same j i u v" "others_same j i v w" "j < length (handles u)" "i < length (files u)"
  shows "others_same j i u w"
proof -
  obtain q d z where v: "v = u\<lparr>handles := (handles u)[j := (handles u ! j)\<lparr>h_position := q\<rparr>],
      files := (files u)[i := (files u ! i)\<lparr>f_data := d, f_size := z\<rparr>]\<rparr>" using assms(1) unfolding others_same_def by blast
  obtain q' d' z' where w: "w = v\<lparr>handles := (handles v)[j := (handles v ! j)\<lparr>h_position := q'\<rparr>],
      files := (files v)[i := (files v ! i)\<lparr>f_data := d', f_size := z'\<rparr>]\<rparr>" using assms(2) unfolding others_same_def by blast
  show ?thesis unfolding w v by (rule others_sameI [where q = q' and d = d' and z = z']) (use assms(3,4) in simp)
qed

lemma exec_refines:
  assumes "plain_open fd j i v" "h_flags (handles v ! j) AND VFS_READ \<noteq> 0" "h_flags (handles v ! j) AND VFS_WRITE \<noteq> 0" "fd \<noteq> 1" "fd \<noteq> 2" "op_valid x"
  shows "\<exists>r v'. plain_exec fd x v = Inr (r, v') \<and> spec_exec x (cursor j i v) = (r, cursor j i v') \<and> others_same j i v v' \<and> plain_open fd j i v'"
proof (cases x)
  case (PRead buf n)
  then show ?thesis using read_refines [OF assms(1,2), of n buf] assms(6) by auto
next
  case (PWrite buf n)
  then show ?thesis using write_refines [OF assms(1,3-5), of n buf] assms(6) by auto
next
  case (PSeek off wh)
  then show ?thesis using seek_refines [OF assms(1), of wh off] assms(6) by (auto simp: Let_def)
qed

text \<open>C38. The calls on a descriptor that is open for reading and writing on a file that is no device refine a sequence of bytes with a
position: any run of \<open>vfs_readfd\<close>, \<open>vfs_writefd\<close> and \<open>vfs_seek\<close> returns what the same operations return on the bytes
below the size of the file, and leaves the file and the position as those operations leave them.  A read stops at the end,
a write at \<open>MAX_FILE_SIZE\<close> (with \<open>-ENOSPC\<close> when nothing can be written, a write of no bytes included), and a seek is clamped to the file.  No other file, descriptor, mount or
driver is touched.  Descriptors 1 and 2 are left out, whose writes the code discards, and offsets whose sum with a position would overflow; the
code treats an open directory like a file, and so does this statement.
\<close>

theorem plain_file_refines:
  assumes "plain_open fd j i v" "h_flags (handles v ! j) AND VFS_READ \<noteq> 0" "h_flags (handles v ! j) AND VFS_WRITE \<noteq> 0" "fd \<noteq> 1" "fd \<noteq> 2" "\<forall>x \<in> set xs. op_valid x"
  shows "\<exists>rs v'. plain_run fd xs v = Inr (rs, v') \<and> spec_run xs (cursor j i v) = (rs, cursor j i v') \<and> others_same j i v v'"
  using assms(1-3,6)
proof (induction xs arbitrary: v)
  case Nil
  then show ?case by (simp add: others_same_refl)
next
  case (Cons x xs)
  obtain r v1 where 1: "plain_exec fd x v = Inr (r, v1)" "spec_exec x (cursor j i v) = (r, cursor j i v1)" "others_same j i v v1" "plain_open fd j i v1"
    using exec_refines [OF Cons.prems(1-3) assms(4,5), of x] Cons.prems(4) by auto
  have f: "h_flags (handles v1 ! j) = h_flags (handles v ! j)" using 1(3) plain_openD(2,8) [OF Cons.prems(1)] by (auto simp: others_same_def)
  obtain rs v' where 2: "plain_run fd xs v1 = Inr (rs, v')" "spec_run xs (cursor j i v1) = (rs, cursor j i v')" "others_same j i v1 v'"
    using Cons.IH [OF 1(4)] f Cons.prems(2-4) by auto
  have "others_same j i v v'" by (rule others_same_trans [OF 1(3) 2(3)]) (use plain_openD [OF Cons.prems(1)] in simp_all)
  then show ?case using 1(1,2) 2(1,2) by simp
qed

definition notes_file :: "unit vfs" where
  "notes_file = \<lparr>files = replicate MAX_FILES \<lparr>f_name = replicate MAX_FILENAME 0, f_data = replicate MAX_FILE_SIZE 0, f_size = 0, f_used = True,
        f_type = VFS_TYPE_FILE, f_read = None, f_write = None, f_seek = None, f_ioctl = None, f_dev_data = 0\<rparr>,
      handles = (replicate MAX_HANDLES \<lparr>h_used = False, h_fd = 0, h_file = None, h_position = 0, h_flags = 0, h_fs_private = None, h_mount = None\<rparr>)
        [4 := \<lparr>h_used = True, h_fd = 3, h_file = Some 7, h_position = 0, h_flags = 3, h_fs_private = None, h_mount = None\<rparr>],
      next_fd = 4, registered_fs = [], mounts = [], file_handles = [], read_buffer = [], env = ()\<rparr>"

theorem plain_file_refines_witness:
  "\<exists>v'. plain_run 3 [PWrite [104, 101, 108, 108, 111] 5, PSeek (- 4) 2, PRead [0, 0, 0] 3, PSeek 9 0] notes_file =
     Inr ([RWrite 5, RSeek 1, RRead 3 [101, 108, 108], RSeek 5], v') \<and> cursor 4 7 v' = ([104, 101, 108, 108, 111], 5)"
proof -
  let ?xs = "[PWrite [104, 101, 108, 108, 111] 5, PSeek (- 4) 2, PRead [0, 0, 0] 3, PSeek 9 0]"
  have h: "handles notes_file ! 4 = \<lparr>h_used = True, h_fd = 3, h_file = Some 7, h_position = 0, h_flags = 3, h_fs_private = None, h_mount = None\<rparr>"
    by (simp add: notes_file_def MAX_HANDLES_def)
  have "fds_ok (handles notes_file)" unfolding notes_file_def vfs.select_convs
    by (rule fds_ok_upd) (auto simp: fds_ok_def fd_used_def MAX_HANDLES_def)
  then have o: "plain_open 3 4 7 notes_file" unfolding plain_open_def h by (simp add: notes_file_def MAX_HANDLES_def MAX_FILES_def MAX_FILE_SIZE_def)
  have c: "cursor 4 7 notes_file = ([], 0)" unfolding cursor_def h by (simp add: notes_file_def MAX_FILES_def)
  have v: "\<forall>x \<in> set ?xs. op_valid x" by simp
  have sp: "spec_run ?xs (cursor 4 7 notes_file) = ([RWrite 5, RSeek 1, RRead 3 [101, 108, 108], RSeek 5], ([104, 101, 108, 108, 111], 5))"
    unfolding c by (simp add: spec_write_def spec_read_def spec_seek_def Let_def MAX_FILE_SIZE_def)
  obtain rs v' where "plain_run 3 ?xs notes_file = Inr (rs, v')" "spec_run ?xs (cursor 4 7 notes_file) = (rs, cursor 4 7 v')"
    using plain_file_refines [OF o _ _ _ _ v] unfolding h by (auto simp: VFS_READ_def VFS_WRITE_def simp del: plain_run.simps spec_run.simps)
  then show ?thesis unfolding sp by (intro exI [of _ v']) (simp del: plain_run.simps)
qed

end
