(* ===== verification/Vfs_System.thy ===== *)
theory Vfs_System
  imports Vfs_Run
begin

text \<open>
  The virtual file system as a whole: the tables as they are before \<open>vfs_init\<close>, what \<open>vfs_init\<close> makes of them, and the
  runs of calls that follow.  A call may be made when its buffers and strings are what its caller promises; no such call fails
  after any run.
\<close>

subsection \<open>Start\<close>

definition vfs_bss :: "'s \<Rightarrow> 's vfs" where
  "vfs_bss s =
     \<lparr>files = replicate MAX_FILES \<lparr>f_name = replicate MAX_FILENAME 0, f_data = replicate MAX_FILE_SIZE 0, f_size = 0, f_used = False,
        f_type = VFS_TYPE_FILE, f_read = None, f_write = None, f_seek = None, f_ioctl = None, f_dev_data = 0\<rparr>,
      handles = replicate MAX_HANDLES \<lparr>h_used = False, h_fd = 0, h_file = None, h_position = 0, h_flags = 0, h_fs_private = None, h_mount = None\<rparr>,
      next_fd = 3,
      registered_fs = replicate MAX_REGISTERED_FS \<lparr>fs_name = replicate MAX_FS_NAME 0, fs_ops = None, fs_flags = 0, fs_registered = False\<rparr>,
      mounts = replicate MAX_MOUNTS \<lparr>m_point = replicate MAX_MOUNT_PATH 0, m_device = replicate MAX_MOUNT_PATH 0, m_fs = None, m_private = 0, m_flags = 0,
        m_mounted = False, m_ref_count = 0\<rparr>,
      file_handles = replicate MAX_HANDLES \<lparr>fh_used = False, fh_fd = 0, fh_mount = None, fh_path = replicate MAX_FILENAME 0, fh_position = 0, fh_flags = 0,
        fh_private = 0\<rparr>,
      read_buffer = replicate MAX_FILE_SIZE 0, env = s\<rparr>"

subsection \<open>Calls\<close>

datatype 's vfs_call =
    Open "u8 list" i32
  | Close i32
  | Readfd i32 "u8 list" u64
  | Writefd i32 "u8 list" u64
  | Seek i32 u64 i32
  | Ioctl i32 u64 u64
  | Create "u8 list" "u8 list" u64
  | Read "u8 list"
  | Delete "u8 list"
  | Mkdir "u8 list"
  | Rmdir "u8 list"
  | Stat "u8 list" vfs_stat_t
  | Exists "u8 list"
  | Pseudo_Register "u8 list" "'s vfs_dev_read option" "'s vfs_dev_write option" "'s vfs_dev_seek option" "'s vfs_dev_ioctl option" u64
  | Register_Filesystem "u8 list" "'s vfs_fs_ops" u32
  | Unregister_Filesystem "u8 list"
  | Mount_Fs "u8 list" "u8 list" "u8 list option" u32 u64
  | Umount "u8 list"

fun vfs_do :: "'s vfs_call \<Rightarrow> 's vfs \<Rightarrow> 's vfs res" where
  "vfs_do (Open name flags) v = bindR (vfs_open name flags v) (\<lambda>(_, v). Inr v)"
| "vfs_do (Close fd) v = bindR (vfs_close fd v) (\<lambda>(_, v). Inr v)"
| "vfs_do (Readfd fd buf n) v = bindR (vfs_readfd fd buf n v) (\<lambda>(_, _, v). Inr v)"
| "vfs_do (Writefd fd buf n) v = bindR (vfs_writefd fd buf n v) (\<lambda>(_, v). Inr v)"
| "vfs_do (Seek fd off wh) v = bindR (vfs_seek fd off wh v) (\<lambda>(_, v). Inr v)"
| "vfs_do (Ioctl fd req arg) v = bindR (vfs_ioctl fd req arg v) (\<lambda>(_, v). Inr v)"
| "vfs_do (Create name data n) v = bindR (vfs_create name data n v) (\<lambda>(_, v). Inr v)"
| "vfs_do (Read name) v = bindR (vfs_read name v) (\<lambda>(_, _, v). Inr v)"
| "vfs_do (Delete name) v = bindR (vfs_delete name v) (\<lambda>(_, v). Inr v)"
| "vfs_do (Mkdir name) v = bindR (vfs_mkdir name v) (\<lambda>(_, v). Inr v)"
| "vfs_do (Rmdir name) v = bindR (vfs_rmdir name v) (\<lambda>(_, v). Inr v)"
| "vfs_do (Stat path st) v = bindR (vfs_stat (Some path) (Some st) v) (\<lambda>(_, _, v). Inr v)"
| "vfs_do (Exists path) v = bindR (vfs_exists path v) (\<lambda>(_, v). Inr v)"
| "vfs_do (Pseudo_Register name r w sk io d) v = bindR (vfs_pseudo_register name r w sk io d v) (\<lambda>(_, v). Inr v)"
| "vfs_do (Register_Filesystem name dops flags) v = bindR (vfs_register_filesystem (Some name) (Some dops) flags v) (\<lambda>(_, v). Inr v)"
| "vfs_do (Unregister_Filesystem name) v = bindR (vfs_unregister_filesystem (Some name) v) (\<lambda>(_, v). Inr v)"
| "vfs_do (Mount_Fs name mp device flags data) v = bindR (vfs_mount_fs (Some name) (Some mp) device flags data v) (\<lambda>(_, v). Inr v)"
| "vfs_do (Umount mp) v = bindR (vfs_umount (Some mp) v) (\<lambda>(_, v). Inr v)"

text \<open>
  What a caller promises.  Names are terminated, and shorter than the buffers \<open>vfs_open\<close> and \<open>vfs_rmdir\<close> copy them to;
  a buffer holds the bytes that are read or written.  A mount point is given up only when no file is open on it: the
  reference count that would tell the code is never raised.  A device that loses its write callback had none before.
\<close>

fun call_ok :: "('s \<Rightarrow> (nat \<times> u64) multiset \<Rightarrow> bool) \<Rightarrow> 's vfs_call \<Rightarrow> 's vfs \<Rightarrow> bool" where
  "call_ok ok (Open name _) v \<longleftrightarrow> terminated name \<and> length (cstr name) < MAX_FILENAME"
| "call_ok ok (Readfd _ buf n) v \<longleftrightarrow> unat n \<le> length buf \<and> length buf < 2 ^ 64"
| "call_ok ok (Writefd _ buf n) v \<longleftrightarrow> unat n \<le> length buf \<and> terminated buf \<and> unat n < 2 ^ 63"
| "call_ok ok (Create name data n) v \<longleftrightarrow> terminated name \<and> unat n \<le> length data \<and> terminated data"
| "call_ok ok (Read name) v \<longleftrightarrow> terminated name \<and> length (cstr name) < MAX_FILENAME"
| "call_ok ok (Delete name) v \<longleftrightarrow> terminated name"
| "call_ok ok (Mkdir name) v \<longleftrightarrow> terminated name"
| "call_ok ok (Rmdir name) v \<longleftrightarrow> terminated name \<and> cstr name \<noteq> [] \<and> length (cstr name) \<noteq> 255"
| "call_ok ok (Stat path _) v \<longleftrightarrow> terminated path"
| "call_ok ok (Exists path) v \<longleftrightarrow> terminated path"
| "call_ok ok (Pseudo_Register name r w sk io d) v \<longleftrightarrow> terminated name \<and> device_file ok d r w sk io \<and>
     (\<forall>f \<in> set (files v). f_used f \<and> cstr (f_name f) = cstr name \<and> w = None \<longrightarrow> dev_write f = None)"
| "call_ok ok (Register_Filesystem name dops _) v \<longleftrightarrow> terminated name \<and> (\<forall>k. vfs_driver ok k dops)"
| "call_ok ok (Unregister_Filesystem name) v \<longleftrightarrow> terminated name"
| "call_ok ok (Mount_Fs name mp device _ _) v \<longleftrightarrow> terminated name \<and> terminated mp \<and> (\<forall>d. device = Some d \<longrightarrow> terminated d \<and> length (cstr d) < MAX_MOUNT_PATH)"
| "call_ok ok (Umount mp) v \<longleftrightarrow> terminated mp \<and>
     (\<forall>fh \<in> set (file_handles v). \<forall>i. fh_used fh \<and> fh_mount fh = Some i \<longrightarrow> cstr (m_point (mounts v ! i)) \<noteq> cstr mp)"
| "call_ok ok _ v \<longleftrightarrow> True"

inductive vfs_reach :: "('s \<Rightarrow> (nat \<times> u64) multiset \<Rightarrow> bool) \<Rightarrow> 's \<Rightarrow> 's vfs \<Rightarrow> bool" for ok s where
  vfs_boot: "vfs_init_tables (vfs_bss s) = Inr v \<Longrightarrow> vfs_reach ok s v"
| vfs_step: "vfs_reach ok s v \<Longrightarrow> call_ok ok c v \<Longrightarrow> vfs_do c v = Inr v' \<Longrightarrow> vfs_reach ok s v'"

lemma vfs_init_safe:
  assumes "ok s {#}"
  shows "\<exists>v. vfs_init_tables (vfs_bss s) = Inr v \<and> vfs_inv ok v"
proof -
  let ?h = "\<lparr>h_used = False, h_fd = - 1, h_file = None, h_position = 0, h_flags = 0, h_fs_private = None, h_mount = None\<rparr>"
  let ?hs = "(replicate MAX_HANDLES ?h)[0 := ?h\<lparr>h_used := True, h_fd := 0, h_flags := VFS_READ\<rparr>, 1 := ?h\<lparr>h_used := True, h_fd := 1, h_flags := VFS_WRITE\<rparr>,
    2 := ?h\<lparr>h_used := True, h_fd := 2, h_flags := VFS_WRITE\<rparr>]"
  let ?v = "(vfs_bss s)\<lparr>files := map clear_file (files (vfs_bss s)),
        registered_fs := map (\<lambda>f. f\<lparr>fs_registered := False, fs_ops := None, fs_name := (fs_name f)[0 := 0]\<rparr>) (registered_fs (vfs_bss s)),
        mounts := map (\<lambda>m. m\<lparr>m_mounted := False, m_fs := None, m_private := 0, m_ref_count := 0\<rparr>) (mounts (vfs_bss s)),
        file_handles := map (\<lambda>h. h\<lparr>fh_used := False, fh_fd := - 1, fh_mount := None, fh_private := 0\<rparr>) (file_handles (vfs_bss s)), handles := ?hs\<rparr>"
  have init: "vfs_init_tables (vfs_bss s) = Inr ?v"
    by (simp add: vfs_init_tables_def std_handle_def upd_eq vfs_bss_def MAX_HANDLES_def Let_def)
  have z: "terminated (replicate n (0 :: u8)) \<longleftrightarrow> 0 < n" for n by (auto simp: terminated_def)
  have rep: "(replicate n (0 :: u8))[0 := 0] = replicate n 0" for n by (cases n) simp_all
  have f: "\<forall>f \<in> set (files ?v). file_ok ok f"
    by (simp add: vfs_bss_def file_ok_def clear_file_def rep z) (simp add: MAX_FILENAME_def MAX_FILE_SIZE_def)
  have used: "i < 3 \<and> h_fd (?hs ! i) = of_nat i" if "i < MAX_HANDLES" "h_used (?hs ! i)" for i
    using that by (auto simp: nth_list_update MAX_HANDLES_def split: if_splits)
  have 1: "fds_ok ?hs" unfolding fds_ok_def
  proof (intro allI impI)
    fix i j assume ij: "i < length ?hs" "j < length ?hs" "h_used (?hs ! i) \<and> h_used (?hs ! j) \<and> h_fd (?hs ! i) = h_fd (?hs ! j)"
    then have "i < 3" "j < 3" "(of_nat i :: i32) = of_nat j" using used [of i] used [of j] by (simp_all only: length_list_update length_replicate)
    then show "i = j" by (auto simp: less_Suc_eq numeral_3_eq_3)
  qed
  have 2: "handle_ok (files ?v) (file_handles ?v) h" if "h \<in> set ?hs" for h
  proof -
    have "h_file h = None" "h_mount h = None" using that by (auto simp: in_set_conv_nth nth_list_update MAX_HANDLES_def split: if_splits)
    then show ?thesis by (simp add: handle_ok_def)
  qed
  have 3: "opened (mounts ?v) (file_handles ?v) = {#}" by (simp add: opened_def vfs_bss_def)
  have "vfs_inv ok ?v" unfolding vfs_inv_def
    using f 1 2 3 assms by (simp add: vfs_bss_def fh_ok_def mount_ok_def fs_ok_def rep z MAX_FS_NAME_def MAX_MOUNT_PATH_def MAX_MOUNTS_def MAX_REGISTERED_FS_def)
  then show ?thesis using init by simp
qed

lemma vfs_do_safe:
  assumes "vfs_inv ok v" "call_ok ok c v"
  shows "\<exists>v'. vfs_do c v = Inr v' \<and> vfs_inv ok v'"
proof -
  note D = vfs_invD [OF assms(1)]
  show ?thesis
  proof (cases c)
    case (Open name flags)
    then show ?thesis using assms vfs_open_safe [OF assms(1), of name flags] by auto
  next
    case (Close fd)
    then show ?thesis using vfs_close_safe [OF assms(1), of fd] by auto
  next
    case (Readfd fd buf n)
    then show ?thesis using assms vfs_readfd_safe [OF assms(1), of n buf fd] by auto
  next
    case (Writefd fd buf n)
    then show ?thesis using assms vfs_writefd_safe [OF assms(1), of n buf fd] by auto
  next
    case (Seek fd off wh)
    then show ?thesis using vfs_seek_safe [OF assms(1), of fd off wh] by auto
  next
    case (Ioctl fd req arg)
    then show ?thesis using vfs_ioctl_safe [OF assms(1), of fd req arg] by auto
  next
    case (Create name data n)
    then show ?thesis using assms vfs_create_safe [OF assms(1), of name n data] by auto
  next
    case (Read name)
    then show ?thesis using assms vfs_read_safe [OF assms(1), of name] by auto
  next
    case (Delete name)
    then show ?thesis using assms vfs_delete_safe [OF assms(1), of name] by auto
  next
    case (Mkdir name)
    then show ?thesis using assms vfs_mkdir_safe [OF assms(1), of name] by auto
  next
    case (Rmdir name)
    then show ?thesis using assms vfs_rmdir_safe [OF assms(1), of name] by auto
  next
    case (Stat path st)
    then show ?thesis using assms vfs_stat_safe [OF assms(1), of path st] by auto
  next
    case (Exists path)
    obtain r v' where "vfs_exists path v = Inr (r, v')" "vfs_inv ok v'" using assms vfs_exists_safe [OF assms(1), of path] Exists by auto
    then show ?thesis using Exists by simp
  next
    case (Pseudo_Register name r w sk io d)
    then have "terminated name" "device_file ok d r w sk io" "\<And>i. i < MAX_FILES \<Longrightarrow> f_used (files v ! i) \<Longrightarrow> cstr (f_name (files v ! i)) = cstr name \<Longrightarrow> w = None \<Longrightarrow> dev_write (files v ! i) = None"
      using assms(2) D(1) by auto
    then show ?thesis using vfs_pseudo_register_safe [OF assms(1)] Pseudo_Register by fastforce
  next
    case (Register_Filesystem name dops flags)
    then show ?thesis using assms vfs_register_safe [OF assms(1), of name dops flags] by auto
  next
    case (Unregister_Filesystem name)
    then show ?thesis using assms vfs_unregister_safe [OF assms(1), of name] by auto
  next
    case (Mount_Fs name mp device flags data)
    then show ?thesis using assms vfs_mount_safe [OF assms(1), of name mp device flags data] by auto
  next
    case (Umount mp)
    then have "terminated mp" "\<And>i fh. fh \<in> set (file_handles v) \<Longrightarrow> fh_used fh \<Longrightarrow> fh_mount fh = Some i \<Longrightarrow> cstr (m_point (mounts v ! i)) \<noteq> cstr mp"
      using assms(2) by auto
    then show ?thesis using vfs_umount_safe [OF assms(1)] Umount by fastforce
  qed
qed

lemma vfs_reach_inv: "vfs_reach ok s v \<Longrightarrow> ok s {#} \<Longrightarrow> vfs_inv ok v"
proof (induction rule: vfs_reach.induct)
  case (vfs_boot v)
  then show ?case using vfs_init_safe [of ok s] by auto
next
  case (vfs_step v c v')
  then show ?case using vfs_do_safe [of ok v c] by auto
qed

lemma fds_distinct: "fds_ok hs \<Longrightarrow> distinct (map h_fd (filter h_used hs))"
proof (induction hs)
  case (Cons h hs)
  have "fds_ok hs" using Cons.prems unfolding fds_ok_def by (metis Suc_less_eq length_Cons nat.inject nth_Cons_Suc)
  moreover have "h_fd h \<notin> h_fd ` {x \<in> set hs. h_used x}" if "h_used h"
  proof
    assume "h_fd h \<in> h_fd ` {x \<in> set hs. h_used x}"
    then obtain i where "i < length hs" "h_used (hs ! i)" "h_fd h = h_fd (hs ! i)" by (auto simp: in_set_conv_nth)
    then show False using Cons.prems that unfolding fds_ok_def by (metis Suc_less_eq length_Cons nat.distinct(1) nth_Cons_0 nth_Cons_Suc zero_less_Suc)
  qed
  ultimately show ?case using Cons.IH by simp
qed simp

text \<open>C37. After \<open>vfs_init\<close> has set up the tables, and after any run of calls that keep to what the file system asks of its
callers, drivers and devices, the next such call completes: no table, path buffer or file is read or written out of bounds.
No two open descriptors have the same number, and the tables stay consistent: a descriptor that is open on a mounted file system has
a file handle of its own on that mount, and the driver has been told about exactly the files that are open.  What is asked is
\<open>call_ok\<close>, none of which the code checks: names and buffers are terminated strings and long enough, a path to open is shorter than 256 characters, \<open>vfs_rmdir\<close> gets
neither an empty name nor one of 255 characters, a mount point is given up only when no file is open on it, and drivers and devices keep the
contracts \<open>vfs_driver\<close> and \<open>device_file\<close>.  Listing a directory and the two calls that bind a fixed descriptor are not among the calls.
\<close>

theorem vfs_safe:
  assumes "ok s {#}" "vfs_reach ok s v" "call_ok ok c v"
  shows "(\<exists>v'. vfs_do c v = Inr v') \<and> distinct (map h_fd (filter h_used (handles v))) \<and> vfs_inv ok v"
  using vfs_reach_inv [OF assms(2,1)] vfs_do_safe [OF _ assms(3)] fds_distinct vfs_invD(4) by blast

end
