(* ===== verification/Devfs.thy ===== *)
theory Devfs
  imports Vfs_System Timer Chacha
begin

text \<open>
  The device file system (\<open>core/fs/devfs.c\<close>) and the block devices as files (\<open>core/fs/block_dev_vfs.c\<close>), on top of the virtual
  file system.  The callbacks of a device are function pointers; every function the kernel registers is a constructor here, and
  calling the pointer is a case distinction.  The seek and ioctl callbacks of a device, which \<open>devfs_register_device\<close> always sets to null, are left out.

  The state of the drivers is the state of the disk images, with the rest of the devices in the field \<open>other\<close>.  The
  allocator, the table of block devices and the seed that the processor delivers are arguments.
\<close>

subsection \<open>State\<close>

definition MAX_DEVICES :: nat where "MAX_DEVICES = 32"

datatype dev_read_fn = Dev_Null_Read | Dev_Zero_Read | Dev_Full_Read | Dev_Urandom_Read | Dev_Tty_Read | Dev_Time_Read | Bdev_Read

datatype dev_write_fn = Dev_Null_Write | Dev_Zero_Write | Dev_Full_Write | Dev_Urandom_Write | Dev_Tty_Write | Bdev_Write

record devfs_device =
  dv_name :: "u8 list"
  dv_read :: "dev_read_fn option"
  dv_write :: "dev_write_fn option"
  dv_data :: u64
  dv_used :: bool

record devfs_handle =
  dh_dev :: nat
  dh_pos :: u64

text \<open>The handles live in blocks from the allocator; \<open>tty_out\<close> is what has been printed.\<close>

record 'h devenv =
  devices :: "devfs_device list"
  dblocks :: "u64 \<Rightarrow> devfs_handle option"
  rng :: chacha20_rng
  rng_seeded :: bool
  tty_out :: "u8 list"
  clk :: "'h clock"
  ttable :: "'h clock timer_table"

type_synonym 'h sys = "'h devenv images"

definition on_dev :: "('h devenv \<Rightarrow> 'h devenv) \<Rightarrow> 'h sys \<Rightarrow> 'h sys" where
  "on_dev f e = e\<lparr>other := f (other e)\<rparr>"

definition devfs_find_device :: "u8 list \<Rightarrow> 'h sys \<Rightarrow> nat option res" where
  "devfs_find_device name e = find_named dv_used dv_name name (devices (other e)) 0 MAX_DEVICES"

subsection \<open>Callbacks\<close>

definition dev_null_read :: "'h sys vfs_dev_read" where
  "dev_null_read file buf cnt pos e = Inr (0, buf, pos, e)"

definition dev_null_write :: "'h sys vfs_dev_write" where
  "dev_null_write file buf cnt pos e = Inr (cnt, pos, e)"

definition dev_zero_read :: "'h sys vfs_dev_read" where
  "dev_zero_read file buf cnt pos e = bindR (memset buf 0 0 (unat cnt)) (\<lambda>buf. Inr (cnt, buf, pos, e))"

definition dev_zero_write :: "'h sys vfs_dev_write" where
  "dev_zero_write file buf cnt pos e = Inr (cnt, pos, e)"

definition dev_full_read :: "'h sys vfs_dev_read" where
  "dev_full_read file buf cnt pos e = bindR (memset buf 0 0 (unat cnt)) (\<lambda>buf. Inr (cnt, buf, pos, e))"

definition dev_full_write :: "'h sys vfs_dev_write" where
  "dev_full_write file buf cnt pos e = Inr (scast (- ENOSPC), pos, e)"

definition dev_urandom_read :: "u64 \<Rightarrow> 'h sys vfs_dev_read" where
  "dev_urandom_read seed file buf cnt pos e =
     bindR (if rng_seeded (other e) then Inr (rng (other e)) else chacha20_rng_init (rng (other e)) seed) (\<lambda>r.
     let bytes_to_read = if cnt > 1024 then 1024 else cnt in
     bindR (chacha20_rng_bytes r buf (ucast bytes_to_read)) (\<lambda>(buf, r).
     Inr (bytes_to_read, buf, pos, on_dev (\<lambda>d. d\<lparr>rng := r, rng_seeded := True\<rparr>) e)))"

definition dev_urandom_write :: "'h sys vfs_dev_write" where
  "dev_urandom_write file buf cnt pos e = Inr (scast (- EACCES), pos, e)"

definition dev_tty_read :: "'h sys vfs_dev_read" where
  "dev_tty_read file buf cnt pos e = Inr (1, buf, pos, e)"

text \<open>\<open>tty_puts\<close> prints up to the terminator, whatever \<open>count\<close> is.\<close>

definition dev_tty_write :: "'h sys vfs_dev_write" where
  "dev_tty_write file buf cnt pos e =
     bindR (strlen buf) (\<lambda>n. Inr (cnt, pos, on_dev (\<lambda>d. d\<lparr>tty_out := tty_out d @ take n buf\<rparr>) e))"

text \<open>The local array \<open>time_str\<close> is cleared by \<open>timer_get_readable\<close> before anything is stored in it.\<close>

definition dev_time_read :: "'h sys vfs_dev_read" where
  "dev_time_read file buf cnt pos e =
     (if sint pos > 0 then Inr (0, buf, pos, e)
      else bindR (timer_get_readable (ttable (other e)) (Some (replicate 128 0)) 128 (clk (other e))) (\<lambda>(str, c).
        case str of None \<Rightarrow> Inl NullPointer
        | Some time_str \<Rightarrow>
            bindR (strlen time_str) (\<lambda>len.
            let cnt = if unat cnt > len then of_nat len else cnt in
            bindR (memcpy buf 0 time_str (unat cnt)) (\<lambda>buf. Inr (cnt, buf, cnt, on_dev (\<lambda>d. d\<lparr>clk := c\<rparr>) e)))))"

text \<open>
  The callbacks of block devices.  \<open>file\<close> is the \<open>dev_data\<close> of the file, null or the address of an entry of the
  table \<open>devs\<close>, counted from one; a null pointer in place of the file counts as no entry.
\<close>

definition disk_at :: "'e block_device list \<Rightarrow> u64 option \<Rightarrow> 'e block_device option res" where
  "disk_at devs file = (case file of
       None \<Rightarrow> Inr None
     | Some p \<Rightarrow> if p = 0 then Inr None else bindR (rd devs (uint p - 1)) (\<lambda>d. Inr (Some d)))"

definition bdev_vfs_read :: "'e allocator \<Rightarrow> 'e block_device list \<Rightarrow> 'e vfs_dev_read" where
  "bdev_vfs_read al devs file buf cnt pos e =
     bindR (disk_at devs file) (\<lambda>d.
     bindR (bdev_read al d (Some buf) cnt pos e) (\<lambda>(r, b, pos, e). case b of None \<Rightarrow> Inl NullPointer | Some buf \<Rightarrow> Inr (r, buf, pos, e)))"

definition bdev_vfs_write :: "'e block_device list \<Rightarrow> 'e vfs_dev_write" where
  "bdev_vfs_write devs file buf cnt pos e =
     bindR (disk_at devs file) (\<lambda>d. bindR (bdev_write d buf cnt e) (\<lambda>(r, e). Inr (r, pos, e)))"

text \<open>What is fixed while the kernel runs.\<close>

record 'h board =
  bd_al :: "'h sys allocator"
  bd_devs :: "'h sys block_device list"
  bd_seed :: u64

fun call_read :: "'h board \<Rightarrow> dev_read_fn \<Rightarrow> 'h sys vfs_dev_read" where
  "call_read b Dev_Null_Read = dev_null_read"
| "call_read b Dev_Zero_Read = dev_zero_read"
| "call_read b Dev_Full_Read = dev_full_read"
| "call_read b Dev_Urandom_Read = dev_urandom_read (bd_seed b)"
| "call_read b Dev_Tty_Read = dev_tty_read"
| "call_read b Dev_Time_Read = dev_time_read"
| "call_read b Bdev_Read = bdev_vfs_read (bd_al b) (bd_devs b)"

fun call_write :: "'h board \<Rightarrow> dev_write_fn \<Rightarrow> 'h sys vfs_dev_write" where
  "call_write b Dev_Null_Write = dev_null_write"
| "call_write b Dev_Zero_Write = dev_zero_write"
| "call_write b Dev_Full_Write = dev_full_write"
| "call_write b Dev_Urandom_Write = dev_urandom_write"
| "call_write b Dev_Tty_Write = dev_tty_write"
| "call_write b Bdev_Write = bdev_vfs_write (bd_devs b)"

subsection \<open>Operations\<close>

definition devfs_mount :: "vfs_mount \<Rightarrow> u8 list option \<Rightarrow> u64 \<Rightarrow> 'h sys \<Rightarrow> (i32 \<times> vfs_mount \<times> 'h sys) res" where
  "devfs_mount mnt device data e = Inr (0, mnt\<lparr>m_private := 0\<rparr>, e)"

definition devfs_unmount :: "vfs_mount \<Rightarrow> 'h sys \<Rightarrow> (i32 \<times> vfs_mount \<times> 'h sys) res" where
  "devfs_unmount mnt e = Inr (0, mnt, e)"

text \<open>\<open>path[0] == 0 || strcmp(path, "/") == 0\<close>.\<close>

definition is_root :: "u8 list \<Rightarrow> bool res" where
  "is_root path = bindR (rd path 0) (\<lambda>c. if c = 0 then Inr True else bindR (strcmp path root_dir) (\<lambda>r. Inr (r = 0)))"

definition devfs_open :: "'h board \<Rightarrow> vfs_mount \<Rightarrow> u8 list \<Rightarrow> i32 \<Rightarrow> vfs_file_handle \<Rightarrow> 'h sys \<Rightarrow> (i32 \<times> vfs_file_handle \<times> 'h sys) res" where
  "devfs_open b mnt path flags h e =
     bindR (is_root path) (\<lambda>root.
     if root then Inr (- EISDIR, h, e)
     else bindR (devfs_find_device path e) (\<lambda>r. case r of
       None \<Rightarrow> Inr (- ENOENT, h, e)
     | Some dev \<Rightarrow>
         (case al_kmalloc (bd_al b) 16 e of
            (None, e) \<Rightarrow> Inr (- ENOMEM, h, e)
          | (Some (p, _), e) \<Rightarrow>
              Inr (0, h\<lparr>fh_private := p\<rparr>, on_dev (\<lambda>d. d\<lparr>dblocks := (dblocks d)(p := Some \<lparr>dh_dev = dev, dh_pos = 0\<rparr>)\<rparr>) e))))"

definition devfs_close :: "'h board \<Rightarrow> vfs_mount \<Rightarrow> vfs_file_handle \<Rightarrow> 'h sys \<Rightarrow> (i32 \<times> vfs_file_handle \<times> 'h sys) res" where
  "devfs_close b mnt h e =
     (if fh_private h = 0 then Inr (0, h, e)
      else case dblocks (other e) (fh_private h) of
        None \<Rightarrow> Inl OutOfBounds
      | Some _ \<Rightarrow> Inr (0, h, al_kfree (bd_al b) (fh_private h) (on_dev (\<lambda>d. d\<lparr>dblocks := (dblocks d)(fh_private h := None)\<rparr>) e)))"

text \<open>The handle a file handle points to and its device, if the pointer is not null.\<close>

definition devfs_priv :: "vfs_file_handle \<Rightarrow> 'h sys \<Rightarrow> (devfs_handle \<times> devfs_device) option res" where
  "devfs_priv h e =
     (if fh_private h = 0 then Inr None
      else case dblocks (other e) (fh_private h) of
        None \<Rightarrow> Inl OutOfBounds
      | Some dh \<Rightarrow> bindR (rd (devices (other e)) (int (dh_dev dh))) (\<lambda>d. Inr (Some (dh, d))))"

definition set_pos :: "u64 \<Rightarrow> u64 \<Rightarrow> 'h sys \<Rightarrow> 'h sys" where
  "set_pos p pos = on_dev (\<lambda>d. d\<lparr>dblocks := (dblocks d)(p := map_option (\<lambda>dh. dh\<lparr>dh_pos := pos\<rparr>) (dblocks d p))\<rparr>)"

definition devfs_read :: "'h board \<Rightarrow> vfs_mount \<Rightarrow> vfs_file_handle \<Rightarrow> u8 list \<Rightarrow> u64 \<Rightarrow> 'h sys \<Rightarrow> (u64 \<times> vfs_file_handle \<times> u8 list \<times> 'h sys) res" where
  "devfs_read b mnt h buf cnt e =
     bindR (devfs_priv h e) (\<lambda>r. case r of
       None \<Rightarrow> Inr (scast (- EACCES), h, buf, e)
     | Some (dh, d) \<Rightarrow> (case dv_read d of
         None \<Rightarrow> Inr (scast (- EACCES), h, buf, e)
       | Some f \<Rightarrow> bindR (call_read b f None buf cnt (dh_pos dh) e) (\<lambda>(r, buf, pos, e). Inr (r, h, buf, set_pos (fh_private h) pos e))))"

definition devfs_write :: "'h board \<Rightarrow> vfs_mount \<Rightarrow> vfs_file_handle \<Rightarrow> u8 list \<Rightarrow> u64 \<Rightarrow> 'h sys \<Rightarrow> (u64 \<times> vfs_file_handle \<times> 'h sys) res" where
  "devfs_write b mnt h buf cnt e =
     bindR (devfs_priv h e) (\<lambda>r. case r of
       None \<Rightarrow> Inr (scast (- EACCES), h, e)
     | Some (dh, d) \<Rightarrow> (case dv_write d of
         None \<Rightarrow> Inr (scast (- EACCES), h, e)
       | Some f \<Rightarrow> bindR (call_write b f None buf cnt (dh_pos dh) e) (\<lambda>(r, pos, e). Inr (r, h, set_pos (fh_private h) pos e))))"

definition devfs_seek :: "vfs_mount \<Rightarrow> vfs_file_handle \<Rightarrow> u64 \<Rightarrow> i32 \<Rightarrow> 'h sys \<Rightarrow> (u64 \<times> vfs_file_handle \<times> 'h sys) res" where
  "devfs_seek mnt h offset whence e =
     bindR (devfs_priv h e) (\<lambda>r. case r of
       None \<Rightarrow> Inr (scast (- EBADF), h, e)
     | Some (dh, d) \<Rightarrow>
         if whence \<noteq> 0 \<and> whence \<noteq> 1 \<and> whence \<noteq> 2 then Inr (scast (- EINVAL), h, e)
         else
           let pos = if whence = 0 then offset else if whence = 1 then dh_pos dh + offset else 0;
               pos = if sint pos < 0 then 0 else pos in
           Inr (pos, h, set_pos (fh_private h) pos e))"

definition devfs_ioctl :: "vfs_mount \<Rightarrow> vfs_file_handle \<Rightarrow> u64 \<Rightarrow> u64 \<Rightarrow> 'h sys \<Rightarrow> (i32 \<times> 'h sys) res" where
  "devfs_ioctl mnt h req arg e =
     bindR (devfs_priv h e) (\<lambda>r. case r of None \<Rightarrow> Inr (- EBADF, e) | Some _ \<Rightarrow> Inr (- ENOTTY, e))"

definition devfs_stat :: "vfs_mount \<Rightarrow> u8 list \<Rightarrow> vfs_stat_t \<Rightarrow> 'h sys \<Rightarrow> (i32 \<times> vfs_stat_t \<times> 'h sys) res" where
  "devfs_stat mnt path st e =
     bindR (is_root path) (\<lambda>root.
     if root then Inr (0, st\<lparr>st_mode := VFS_S_IFDIR OR 0x1ED, st_size := 0, st_blksize := 512, st_mtime := 0\<rparr>, e)
     else bindR (devfs_find_device path e) (\<lambda>r. case r of
       Some _ \<Rightarrow> Inr (0, st\<lparr>st_mode := VFS_S_IFCHR OR 0x1B6, st_size := 0, st_blksize := 512, st_mtime := 0\<rparr>, e)
     | None \<Rightarrow> Inr (- ENOENT, st, e)))"

fun devfs_entries :: "devfs_device list \<Rightarrow> nat \<Rightarrow> nat \<Rightarrow> u64 \<Rightarrow> nat \<Rightarrow> vfs_dirent list \<Rightarrow> (nat \<times> vfs_dirent list) res" where
  "devfs_entries ds i 0 max' cnt entries = Inr (cnt, entries)"
| "devfs_entries ds i (Suc n) max' cnt entries =
     (if cnt < unat max' then
        bindR (rd ds (int i)) (\<lambda>d.
        if dv_used d then
          bindR (rd entries (int cnt)) (\<lambda>en. bindR (strcpy (d_name en) (dv_name d)) (\<lambda>nm.
          bindR (wr entries (int cnt) (en\<lparr>d_name := nm, d_type := type_code VFS_TYPE_DEVICE\<rparr>)) (\<lambda>entries.
          devfs_entries ds (Suc i) n max' (Suc cnt) entries)))
        else devfs_entries ds (Suc i) n max' cnt entries)
      else Inr (cnt, entries))"

definition devfs_readdir :: "vfs_mount \<Rightarrow> u8 list \<Rightarrow> vfs_dirent list \<Rightarrow> u64 \<Rightarrow> 'h sys \<Rightarrow> (i32 \<times> vfs_dirent list \<times> 'h sys) res" where
  "devfs_readdir mnt path entries max' e =
     bindR (devfs_entries (devices (other e)) 0 MAX_DEVICES max' 0 entries) (\<lambda>(cnt, entries). Inr (of_nat cnt, entries, e))"

definition devfs_ops :: "'h board \<Rightarrow> 'h sys vfs_fs_ops" where
  "devfs_ops b = \<lparr>op_mount = Some devfs_mount, op_unmount = Some devfs_unmount, op_open = Some (devfs_open b), op_close = Some (devfs_close b),
     op_read = Some (devfs_read b), op_write = Some (devfs_write b), op_seek = Some devfs_seek, op_mkdir = None, op_rmdir = None,
     op_readdir = Some devfs_readdir, op_stat = Some devfs_stat, op_unlink = None, op_ioctl = Some devfs_ioctl, op_sync = None\<rparr>"

subsection \<open>Registration\<close>

definition devfs_register_device :: "u8 list \<Rightarrow> dev_read_fn option \<Rightarrow> dev_write_fn option \<Rightarrow> u64 \<Rightarrow> 'h sys \<Rightarrow> 'h sys res" where
  "devfs_register_device name read_fn write_fn data e =
     bindR (search (\<lambda>d. \<not> dv_used d) (devices (other e)) 0 MAX_DEVICES) (\<lambda>r. case r of
       None \<Rightarrow> Inr e
     | Some i \<Rightarrow>
         bindR (rd (devices (other e)) (int i)) (\<lambda>d. bindR (strcpy (dv_name d) name) (\<lambda>nm.
         bindR (wr (devices (other e)) (int i) \<lparr>dv_name = nm, dv_read = read_fn, dv_write = write_fn, dv_data = data, dv_used = True\<rparr>) (\<lambda>ds.
         Inr (on_dev (\<lambda>d. d\<lparr>devices := ds\<rparr>) e)))))"

text \<open>The devices of \<open>devfs_init\<close>: \<open>null\<close>, \<open>zero\<close>, \<open>full\<close>, \<open>urandom\<close>, \<open>tty\<close>, \<open>time\<close>, \<open>stdin\<close>, \<open>stdout\<close> and \<open>stderr\<close>.\<close>

definition standard_devices :: "(u8 list \<times> dev_read_fn option \<times> dev_write_fn option) list" where
  "standard_devices =
    [([110, 117, 108, 108, 0], Some Dev_Null_Read, Some Dev_Null_Write),
     ([122, 101, 114, 111, 0], Some Dev_Zero_Read, Some Dev_Zero_Write),
     ([102, 117, 108, 108, 0], Some Dev_Full_Read, Some Dev_Full_Write),
     ([117, 114, 97, 110, 100, 111, 109, 0], Some Dev_Urandom_Read, Some Dev_Urandom_Write),
     ([116, 116, 121, 0], Some Dev_Tty_Read, Some Dev_Tty_Write),
     ([116, 105, 109, 101, 0], Some Dev_Time_Read, None),
     ([115, 116, 100, 105, 110, 0], None, None),
     ([115, 116, 100, 111, 117, 116, 0], None, None),
     ([115, 116, 100, 101, 114, 114, 0], None, None)]"

fun register_devices :: "(u8 list \<times> dev_read_fn option \<times> dev_write_fn option) list \<Rightarrow> 'h sys \<Rightarrow> 'h sys res" where
  "register_devices [] e = Inr e"
| "register_devices ((name, r, w) # ds) e = bindR (devfs_register_device name r w 0 e) (register_devices ds)"

definition VFS_FS_NODEV :: u32 where "VFS_FS_NODEV = 2"
definition VFS_FS_VIRTUAL :: u32 where "VFS_FS_VIRTUAL = 4"
definition devfs_name :: "u8 list" where "devfs_name = [100, 101, 118, 102, 115, 0]"
definition dev_dir :: "u8 list" where "dev_dir = [47, 100, 101, 118, 0]"

definition devfs_init :: "'h board \<Rightarrow> 'h sys vfs \<Rightarrow> 'h sys vfs res" where
  "devfs_init b v =
     (let v = v\<lparr>env := on_dev (\<lambda>d. d\<lparr>devices := map (\<lambda>x. x\<lparr>dv_used := False\<rparr>) (devices d)\<rparr>) (env v)\<rparr> in
      bindR (vfs_register_filesystem (Some devfs_name) (Some (devfs_ops b)) (VFS_FS_NODEV OR VFS_FS_VIRTUAL) v) (\<lambda>(_, v).
      bindR (vfs_mount_fs (Some devfs_name) (Some dev_dir) None 0 0 v) (\<lambda>(_, v).
      bindR (register_devices standard_devices (env v)) (\<lambda>e.
      let v = v\<lparr>env := e\<rparr> in
      bindR (vfs_link_std_fd 0 dev_stdin v) (\<lambda>v. bindR (vfs_link_std_fd 1 dev_stdout v) (vfs_link_std_fd 2 dev_stderr))))))"

text \<open>Both registrations of a block device, for the loop of \<open>block_dev_vfs_init\<close>.\<close>

definition register_disk :: "'h board \<Rightarrow> u8 list \<Rightarrow> nat \<Rightarrow> 'h sys vfs res \<Rightarrow> 'h sys vfs res" where
  "register_disk b path i m = bindR m (\<lambda>v.
     bindR (vfs_pseudo_register path (Some (bdev_vfs_read (bd_al b) (bd_devs b))) (Some (bdev_vfs_write (bd_devs b))) None None (of_nat (Suc i)) v) (\<lambda>(_, v). Inr v))"

definition register_disk_device :: "u8 list \<Rightarrow> nat \<Rightarrow> 'h sys vfs res \<Rightarrow> 'h sys vfs res" where
  "register_disk_device name i m = bindR m (\<lambda>v.
     bindR (devfs_register_device name (Some Bdev_Read) (Some Bdev_Write) (of_nat (Suc i)) (env v)) (\<lambda>e. Inr (v\<lparr>env := e\<rparr>)))"

definition register_disks :: "'h board \<Rightarrow> 'h sys vfs \<Rightarrow> 'h sys vfs res" where
  "register_disks b v = bindR (block_dev_vfs_init (register_disk b) register_disk_device (bd_devs b) (Inr v)) id"

end
