(* ===== verification/Devfs_Safe.thy ===== *)
theory Devfs_Safe
  imports Devfs
begin

text \<open>
  The device file system keeps the contract of a driver, the callbacks of block devices keep the contract of a device file, and so
  the virtual file system with both of them is safe.
\<close>

subsection \<open>The invariant\<close>

text \<open>The timer prints into a buffer of 128 bytes whenever the clock is in one of the states \<open>cg\<close>.\<close>

definition clock_law :: "('h clock \<Rightarrow> bool) \<Rightarrow> 'h clock timer_table \<Rightarrow> bool" where
  "clock_law cg T \<longleftrightarrow> (\<forall>c. cg c \<longrightarrow> (\<exists>str c'. timer_get_readable T (Some (replicate 128 0)) 128 c = Inr (Some str, c') \<and> terminated str \<and> length str = 128 \<and> cg c'))"

definition disk_ok :: "'h sys \<Rightarrow> 'h sys block_device \<Rightarrow> bool" where
  "disk_ok e x \<longleftrightarrow> (\<exists>r. ops x = ramdisk_ops \<and> rdk.device r (private_data x) x e) \<or> (\<exists>img sz. ops x = cdrom_ops \<and> iso.device img sz (private_data x) x e)"

definition devices_ok :: "devfs_device list \<Rightarrow> bool" where
  "devices_ok ds \<longleftrightarrow> length ds = MAX_DEVICES \<and> (\<forall>x \<in> set ds. length (dv_name x) = 64 \<and> (dv_used x \<longrightarrow> terminated (dv_name x)))"

text \<open>Every open file of the device file system has a live block of its own.\<close>

definition blocks_ok :: "(u64 \<Rightarrow> devfs_handle option) \<Rightarrow> (nat \<times> u64) multiset \<Rightarrow> bool" where
  "blocks_ok bl M \<longleftrightarrow> (\<forall>p dh. bl p = Some dh \<longrightarrow> p \<noteq> 0 \<and> dh_dev dh < MAX_DEVICES) \<and> (\<forall>p \<in># image_mset snd M. bl p \<noteq> None) \<and> (\<forall>p. count (image_mset snd M) p \<le> 1)"

definition sys_ok :: "('h clock \<Rightarrow> bool) \<Rightarrow> 'h board \<Rightarrow> 'h sys \<Rightarrow> (nat \<times> u64) multiset \<Rightarrow> bool" where
  "sys_ok cg b e M \<longleftrightarrow> devices_ok (devices (other e)) \<and> blocks_ok (dblocks (other e)) M \<and>
     (if rng_seeded (other e) then rng_ok (rng (other e)) else rng_shape (rng (other e))) \<and>
     cg (clk (other e)) \<and> clock_law cg (ttable (other e)) \<and> (\<forall>x \<in> set (bd_devs b). bused x \<longrightarrow> disk_ok e x)"

text \<open>
  What the drivers ask of the allocator: a fresh block of the size asked for, or nothing; the devices and their images are left
  alone.
\<close>

definition kmalloc_law :: "('h clock \<Rightarrow> bool) \<Rightarrow> 'h board \<Rightarrow> bool" where
  "kmalloc_law cg b \<longleftrightarrow>
     (\<forall>n e M r e'. sys_ok cg b e M \<and> al_kmalloc (bd_al b) n e = (r, e') \<longrightarrow> sys_ok cg b e' M \<and> ramdisks e' = ramdisks e \<and> iso_memory e' = iso_memory e \<and>
        iso_size e' = iso_size e \<and> (\<forall>p bs. r = Some (p, bs) \<longrightarrow> p \<noteq> 0 \<and> dblocks (other e') p = None \<and> length bs = unat n)) \<and>
     (\<forall>p e M. sys_ok cg b e M \<longrightarrow> sys_ok cg b (al_kfree (bd_al b) p e) M \<and> ramdisks (al_kfree (bd_al b) p e) = ramdisks e \<and>
        iso_memory (al_kfree (bd_al b) p e) = iso_memory e \<and> iso_size (al_kfree (bd_al b) p e) = iso_size e)"

definition dev_ok :: "('h clock \<Rightarrow> bool) \<Rightarrow> 'h board \<Rightarrow> 'h sys \<Rightarrow> (nat \<times> u64) multiset \<Rightarrow> bool" where
  "dev_ok cg b e M \<longleftrightarrow> sys_ok cg b e M \<and> kmalloc_law cg b"

lemma on_dev_simps [simp]:
  "other (on_dev f e) = f (other e)" "ramdisks (on_dev f e) = ramdisks e" "iso_memory (on_dev f e) = iso_memory e" "iso_size (on_dev f e) = iso_size e"
  by (simp_all add: on_dev_def)

lemma disk_ok_images: "ramdisks e' = ramdisks e \<Longrightarrow> iso_memory e' = iso_memory e \<Longrightarrow> iso_size e' = iso_size e \<Longrightarrow> disk_ok e' x = disk_ok e x"
  by (simp add: disk_ok_def rdk.device_def iso.device_def ramdisk_good_def iso_good_def ramdisk_content_def iso_content_def)

lemma sys_ok_dev:
  assumes "sys_ok cg b e M" "devices_ok (devices (f (other e)))" "blocks_ok (dblocks (f (other e))) M'"
    and "if rng_seeded (f (other e)) then rng_ok (rng (f (other e))) else rng_shape (rng (f (other e)))" "cg (clk (f (other e)))" "ttable (f (other e)) = ttable (other e)"
  shows "sys_ok cg b (on_dev f e) M'"
  using assms disk_ok_images [of "on_dev f e" e] by (simp add: sys_ok_def)

lemma sys_okD:
  assumes "sys_ok cg b e M"
  shows "devices_ok (devices (other e))" "blocks_ok (dblocks (other e)) M" "if rng_seeded (other e) then rng_ok (rng (other e)) else rng_shape (rng (other e))"
    "cg (clk (other e))" "clock_law cg (ttable (other e))" "\<And>x. x \<in> set (bd_devs b) \<Longrightarrow> bused x \<Longrightarrow> disk_ok e x"
  using assms by (simp_all add: sys_ok_def)

subsection \<open>Callbacks\<close>

lemma sint_le_uint: "sint w \<le> uint w"
  by (metis linorder_le_cases order_trans sint_nonneg_eq_uint uint_ge_0)

lemma urandom_safe:
  assumes "sys_ok cg b e M" "unat n \<le> length buf"
  shows "\<exists>x buf' e'. dev_urandom_read seed file buf n pos e = Inr (x, buf', pos, e') \<and> sys_ok cg b e' M \<and> length buf' = length buf \<and> unat x \<le> unat n"
proof -
  note D = sys_okD [OF assms(1)]
  obtain r where r: "(if rng_seeded (other e) then Inr (rng (other e)) else chacha20_rng_init (rng (other e)) seed) = Inr r" "rng_ok r"
    using D(3) rng_init_at [of "rng (other e)" seed] by (cases "rng_seeded (other e)") auto
  define m where "m = (if n > 1024 then 1024 else n)"
  have m: "unat m \<le> unat n" "unat m \<le> 1024" by (auto simp: m_def word_less_nat_alt)
  have "unat (ucast m :: i32) = unat m" using m(2) by (simp add: unsigned_ucast_eq unsigned_take_bit_eq take_bit_nat_eq_self)
  then have u: "uint (ucast m :: i32) = int (unat m)" by (metis uint_nat)
  moreover have "int (unat m) \<le> 1024" using m(2) by linarith
  then have "uint (ucast m :: i32) < 2 ^ (LENGTH(32) - 1)" unfolding u by simp
  then have "sint (ucast m :: i32) = uint (ucast m :: i32)" by (rule sint_small_eq_uint)
  ultimately have s: "sint (ucast m :: i32) = int (unat m)" by simp
  note dr = rng_bytes_draw [OF r(2), of "ucast m" buf]
  have l: "length (fst (generator.draw (unat m) r)) = unat m" "rng_ok (snd (generator.draw (unat m) r))" using generator.draw_length [OF r(2)] by blast+
  let ?e = "on_dev (\<lambda>d. d\<lparr>rng := snd (generator.draw (unat m) r), rng_seeded := True\<rparr>) e"
  have "sys_ok cg b ?e M" using sys_ok_dev [OF assms(1)] D l(2) by simp
  moreover have "dev_urandom_read seed file buf n pos e = Inr (m, fst (generator.draw (unat m) r) @ drop (unat m) buf, pos, ?e)"
    using r(1) dr s m(1) assms(2) by (simp add: dev_urandom_read_def m_def Let_def)
  ultimately show ?thesis using l(1) m(1) assms(2) by simp
qed

lemma time_safe:
  assumes "sys_ok cg b e M" "unat n \<le> length buf"
  shows "\<exists>x buf' pos' e'. dev_time_read file buf n pos e = Inr (x, buf', pos', e') \<and> sys_ok cg b e' M \<and> length buf' = length buf \<and> unat x \<le> unat n"
proof (cases "sint pos > 0")
  case True
  then show ?thesis using assms(1) by (simp add: dev_time_read_def)
next
  case False
  note D = sys_okD [OF assms(1)]
  obtain str c where c: "timer_get_readable (ttable (other e)) (Some (replicate 128 0)) 128 (clk (other e)) = Inr (Some str, c)" "terminated str" "length str = 128" "cg c"
    using D(4,5) unfolding clock_law_def by blast
  let ?l = "length (cstr str)"
  have l: "?l < 128" using cstr_length [OF c(2)] c(3) by simp
  define m where "m = (if unat n > ?l then of_nat ?l else n)"
  have m: "unat m \<le> unat n" "unat m \<le> ?l" using l unat_of_nat_eq [of ?l, where 'a = 64] by (auto simp: m_def)
  let ?e = "on_dev (\<lambda>d. d\<lparr>clk := c\<rparr>) e"
  have "sys_ok cg b ?e M" using sys_ok_dev [OF assms(1)] D c(4) by simp
  moreover have "memcpy buf 0 str (unat m) = Inr (take (unat m) str @ drop (unat m) buf)" using memcpy_eq m l c(3) assms(2) by simp
  ultimately show ?thesis using False c(1) strlen_eq [OF c(2)] m l c(3) assms(2)
    by (simp add: dev_time_read_def m_def [symmetric] Let_def)
qed

lemma call_read_safe:
  assumes "dev_ok cg b e M" "unat n \<le> length buf"
  shows "\<exists>x buf' pos' e'. call_read b f None buf n pos e = Inr (x, buf', pos', e') \<and> sys_ok cg b e' M \<and> length buf' = length buf \<and> (0 < unat n \<longrightarrow> sint x \<le> uint n)"
proof -
  have s: "sys_ok cg b e M" using assms(1) by (simp add: dev_ok_def)
  have le: "sint x \<le> uint n" if "unat x \<le> unat n" for x :: u64
    using sint_le_uint [of x] that by (metis order_trans word_le_def word_le_nat_alt)
  have "uint n = int (unat n)" by simp
  then have one: "0 < unat n \<Longrightarrow> 1 \<le> uint n" by linarith
  show ?thesis
  proof (cases f)
    case Dev_Urandom_Read
    then show ?thesis using urandom_safe [OF s assms(2)] le by fastforce
  next
    case Dev_Time_Read
    then show ?thesis using time_safe [OF s assms(2)] le by fastforce
  qed (use s assms(2) sint_le_uint one in \<open>auto simp: dev_null_read_def dev_zero_read_def dev_full_read_def dev_tty_read_def bdev_vfs_read_def disk_at_def bdev_read_def memset_eq EINVAL_def\<close>)
qed


lemma call_write_safe:
  assumes "dev_ok cg b e M" "terminated buf"
  shows "\<exists>x pos' e'. call_write b f None buf n pos e = Inr (x, pos', e') \<and> sys_ok cg b e' M"
proof -
  have s: "sys_ok cg b e M" using assms(1) by (simp add: dev_ok_def)
  note D = sys_okD [OF s]
  have "sys_ok cg b (on_dev (\<lambda>d. d\<lparr>tty_out := tty_out d @ t\<rparr>) e) M" for t using sys_ok_dev [OF s] D by simp
  then show ?thesis using s strlen_eq [OF assms(2)]
    by (cases f) (simp_all add: dev_null_write_def dev_zero_write_def dev_full_write_def dev_urandom_write_def dev_tty_write_def bdev_vfs_write_def disk_at_def bdev_write_def)
qed

subsection \<open>The driver\<close>

lemma is_root_total: "terminated path \<Longrightarrow> \<exists>r. is_root path = Inr r"
  using strcmp_from_eq [of 0 path root_dir]
  by (cases path) (auto simp: is_root_def rd_def strcmp_def root_dir_def terminated_def)

lemma find_device_total [consumes 2, case_names none some]:
  assumes "devices_ok (devices (other e))" "terminated name"
  obtains (none) "devfs_find_device name e = Inr None"
  | (some) i where "devfs_find_device name e = Inr (Some i)" "i < MAX_DEVICES"
proof -
  have l: "MAX_DEVICES \<le> length (devices (other e))" using assms(1) by (simp add: devices_ok_def)
  have "devfs_find_device name e = search (\<lambda>x. dv_used x \<and> cstr (dv_name x) = cstr name) (devices (other e)) 0 MAX_DEVICES"
    unfolding devfs_find_device_def using assms by (intro find_named_search) (auto simp: devices_ok_def)
  then show ?thesis using l that by (cases rule: search_first [OF l, where P = "\<lambda>x. dv_used x \<and> cstr (dv_name x) = cstr name"]) auto
qed

lemma blocks_owner: "blocks_ok bl M \<Longrightarrow> (k, p) \<in># M \<Longrightarrow> \<exists>dh. bl p = Some dh \<and> p \<noteq> 0 \<and> dh_dev dh < MAX_DEVICES"
  unfolding blocks_ok_def by force

lemma blocks_free: "blocks_ok bl M \<Longrightarrow> bl p = None \<Longrightarrow> p \<noteq> 0 \<Longrightarrow> dh_dev dh < MAX_DEVICES \<Longrightarrow> blocks_ok (bl(p := Some dh)) (add_mset (k, p) M)"
proof -
  assume a: "blocks_ok bl M" "bl p = None" "p \<noteq> 0" "dh_dev dh < MAX_DEVICES"
  then have "p \<notin># image_mset snd M" by (auto simp: blocks_ok_def)
  then have "count (image_mset snd M) p = 0" by (simp only: not_in_iff)
  then show ?thesis using a by (auto simp: blocks_ok_def)
qed

lemma blocks_close: "blocks_ok bl (add_mset (k, p) M) \<Longrightarrow> blocks_ok (bl(p := None)) M"
proof -
  assume a: "blocks_ok bl (add_mset (k, p) M)"
  then have "Suc (count (image_mset snd M) p) \<le> 1" unfolding blocks_ok_def by (metis add_mset_add_single count_add_mset image_mset_add_mset snd_conv)
  then have "p \<notin># image_mset snd M" by (simp only: not_in_iff)
  moreover have "count (image_mset snd M) q \<le> 1" for q
    using a unfolding blocks_ok_def by (metis (no_types, lifting) count_add_mset image_mset_add_mset le_SucI not_less_eq_eq order_trans)
  ultimately show ?thesis using a by (auto simp: blocks_ok_def)
qed

lemma blocks_update: "blocks_ok bl M \<Longrightarrow> blocks_ok (bl(p := map_option (\<lambda>dh. dh\<lparr>dh_pos := pos\<rparr>) (bl p))) M"
  by (auto simp: blocks_ok_def split: if_splits)

lemma set_pos_ok: "sys_ok cg b e M \<Longrightarrow> sys_ok cg b (set_pos p pos e) M"
  unfolding set_pos_def by (rule sys_ok_dev) (auto simp: sys_ok_def blocks_update)

lemma open_safe:
  assumes "dev_ok cg b e M" "terminated rel"
  shows "\<exists>r h' e'. devfs_open b mnt rel flags h e = Inr (r, h', e') \<and> same_owner h h' \<and> dev_ok cg b e' (if sint r < 0 then M else add_mset (k, fh_private h') M)"
proof -
  have s: "sys_ok cg b e M" and al: "kmalloc_law cg b" using assms(1) by (simp_all add: dev_ok_def)
  note D = sys_okD [OF s]
  obtain root where root: "is_root rel = Inr root" using is_root_total [OF assms(2)] by blast
  have so: "same_owner h h" "same_owner h (h\<lparr>fh_private := p\<rparr>)" for p by (simp_all add: same_owner_def)
  show ?thesis
  proof (cases root)
    case True
    then show ?thesis using root assms(1) so by (simp add: devfs_open_def EISDIR_def)
  next
    case False
    from D(1) assms(2) show ?thesis
    proof (cases rule: find_device_total)
      case none
      then show ?thesis using root False assms(1) so by (simp add: devfs_open_def ENOENT_def)
    next
      case (some dev)
      obtain r e1 where k: "al_kmalloc (bd_al b) 16 e = (r, e1)" by fastforce
      have e1: "sys_ok cg b e1 M" "\<And>p bs. r = Some (p, bs) \<Longrightarrow> p \<noteq> 0 \<and> dblocks (other e1) p = None"
        using al s k unfolding kmalloc_law_def by blast+
      show ?thesis
      proof (cases r)
        case None
        then show ?thesis using root False some(1) k e1(1) al so by (simp add: devfs_open_def dev_ok_def ENOMEM_def)
      next
        case (Some x)
        obtain p bs where x: "x = (p, bs)" by (cases x)
        have p: "p \<noteq> 0" "dblocks (other e1) p = None" using e1(2) Some x by auto
        let ?e = "on_dev (\<lambda>d. d\<lparr>dblocks := (dblocks d)(p := Some \<lparr>dh_dev = dev, dh_pos = 0\<rparr>)\<rparr>) e1"
        note E = sys_okD [OF e1(1)]
        have "blocks_ok ((dblocks (other e1))(p := Some \<lparr>dh_dev = dev, dh_pos = 0\<rparr>)) (add_mset (k, p) M)"
          using E(2) p some(2) by (intro blocks_free) simp_all
        then have "sys_ok cg b ?e (add_mset (k, p) M)" using sys_ok_dev [OF e1(1)] E by simp
        then show ?thesis using root False some(1) k Some x al so by (simp add: devfs_open_def dev_ok_def)
      qed
    qed
  qed
qed

lemma close_safe:
  assumes "dev_ok cg b e (add_mset (k, fh_private h) M)"
  shows "\<exists>r h' e'. devfs_close b mnt h e = Inr (r, h', e') \<and> same_owner h h' \<and> dev_ok cg b e' M"
proof -
  have s: "sys_ok cg b e (add_mset (k, fh_private h) M)" and al: "kmalloc_law cg b" using assms by (simp_all add: dev_ok_def)
  note D = sys_okD [OF s]
  let ?p = "fh_private h"
  obtain dh where dh: "dblocks (other e) ?p = Some dh" "?p \<noteq> 0" using blocks_owner [OF D(2)] by fastforce
  let ?e = "on_dev (\<lambda>d. d\<lparr>dblocks := (dblocks d)(?p := None)\<rparr>) e"
  have "blocks_ok ((dblocks (other e))(?p := None)) M" using D(2) by (rule blocks_close)
  then have "sys_ok cg b ?e M" using sys_ok_dev [OF s] D by simp
  then have "dev_ok cg b (al_kfree (bd_al b) ?p ?e) M" using al unfolding dev_ok_def kmalloc_law_def by blast
  then show ?thesis using dh by (simp add: devfs_close_def same_owner_def)
qed


lemma priv_ok:
  assumes "sys_ok cg b e M" "(k, fh_private h) \<in># M"
  shows "\<exists>dh d. devfs_priv h e = Inr (Some (dh, d))"
proof -
  note D = sys_okD [OF assms(1)]
  obtain dh where "dblocks (other e) (fh_private h) = Some dh" "fh_private h \<noteq> 0" "dh_dev dh < MAX_DEVICES" using blocks_owner [OF D(2) assms(2)] by blast
  then show ?thesis using D(1) by (simp add: devfs_priv_def devices_ok_def rd_nat)
qed

lemma read_safe:
  assumes "dev_ok cg b e M" "(k, fh_private h) \<in># M" "unat n \<le> length buf"
  shows "\<exists>r h' buf' e'. devfs_read b mnt h buf n e = Inr (r, h', buf', e') \<and> same_owner h h' \<and> fh_private h' = fh_private h \<and> length buf' = length buf \<and>
    dev_ok cg b e' M \<and> (0 < unat n \<longrightarrow> sint r \<le> uint n)"
proof -
  have s: "sys_ok cg b e M" and al: "kmalloc_law cg b" using assms(1) by (simp_all add: dev_ok_def)
  obtain dh d where p: "devfs_priv h e = Inr (Some (dh, d))" using priv_ok [OF s assms(2)] by blast
  show ?thesis
  proof (cases "dv_read d")
    case None
    then show ?thesis using p assms(1) by (simp add: devfs_read_def same_owner_def EACCES_def)
  next
    case (Some f)
    obtain x buf' pos' e' where c: "call_read b f None buf n (dh_pos dh) e = Inr (x, buf', pos', e')" "sys_ok cg b e' M" "length buf' = length buf" "0 < unat n \<longrightarrow> sint x \<le> uint n"
      using call_read_safe [OF assms(1,3)] by blast
    then show ?thesis using p Some al set_pos_ok [OF c(2)] by (simp add: devfs_read_def same_owner_def dev_ok_def)
  qed
qed

lemma write_safe:
  assumes "dev_ok cg b e M" "(k, fh_private h) \<in># M" "terminated buf"
  shows "\<exists>r h' e'. devfs_write b mnt h buf n e = Inr (r, h', e') \<and> same_owner h h' \<and> fh_private h' = fh_private h \<and> dev_ok cg b e' M"
proof -
  have s: "sys_ok cg b e M" and al: "kmalloc_law cg b" using assms(1) by (simp_all add: dev_ok_def)
  obtain dh d where p: "devfs_priv h e = Inr (Some (dh, d))" using priv_ok [OF s assms(2)] by blast
  show ?thesis
  proof (cases "dv_write d")
    case None
    then show ?thesis using p assms(1) by (simp add: devfs_write_def same_owner_def)
  next
    case (Some f)
    obtain x pos' e' where c: "call_write b f None buf n (dh_pos dh) e = Inr (x, pos', e')" "sys_ok cg b e' M" using call_write_safe [OF assms(1,3)] by blast
    then show ?thesis using p Some al set_pos_ok [OF c(2)] by (simp add: devfs_write_def same_owner_def dev_ok_def)
  qed
qed

lemma stat_safe:
  assumes "dev_ok cg b e M" "terminated rel"
  shows "\<exists>r st'. devfs_stat mnt rel st e = Inr (r, st', e)"
proof -
  have d: "devices_ok (devices (other e))" using assms(1) by (simp add: dev_ok_def sys_ok_def)
  obtain root where r: "is_root rel = Inr root" using is_root_total [OF assms(2)] by blast
  from d assms(2) show ?thesis by (cases rule: find_device_total; cases root) (simp_all add: devfs_stat_def r)
qed

interpretation devfs: vfs_driver "dev_ok cg b" k "devfs_ops b" for cg b k
proof
  fix s M rel mnt flags and h :: vfs_file_handle
  assume "dev_ok cg b s M" "terminated rel"
  then show "\<exists>f r h' s'. op_open (devfs_ops b) = Some f \<and> f mnt rel flags h s = Inr (r, h', s') \<and> same_owner h h' \<and>
      dev_ok cg b s' (if sint r < 0 then M else add_mset (k, fh_private h') M)"
    using open_safe [of cg b s M rel mnt flags h k] by (simp add: devfs_ops_def)
next
  fix s M mnt and h :: vfs_file_handle
  assume "dev_ok cg b s (add_mset (k, fh_private h) M)"
  then show "\<exists>f r h' s'. op_close (devfs_ops b) = Some f \<and> f mnt h s = Inr (r, h', s') \<and> same_owner h h' \<and> dev_ok cg b s' M"
    using close_safe [of cg b s k h M mnt] by (simp add: devfs_ops_def)
next
  fix rdf s M mnt and n :: u64 and buf :: "u8 list" and h :: vfs_file_handle
  assume "op_read (devfs_ops b) = Some rdf" "dev_ok cg b s M" "(k, fh_private h) \<in># M" "unat n \<le> length buf"
  then show "\<exists>r h' buf' s'. rdf mnt h buf n s = Inr (r, h', buf', s') \<and> same_owner h h' \<and> fh_private h' = fh_private h \<and> length buf' = length buf \<and> dev_ok cg b s' M \<and> (0 < unat n \<longrightarrow> sint r \<le> uint n)"
    using read_safe [of cg b s M k h n buf mnt] by (auto simp: devfs_ops_def)
next
  fix wrf s M mnt and n :: u64 and buf :: "u8 list" and h :: vfs_file_handle
  assume "op_write (devfs_ops b) = Some wrf" "dev_ok cg b s M" "(k, fh_private h) \<in># M" "unat n \<le> length buf" "terminated buf"
  then show "\<exists>r h' s'. wrf mnt h buf n s = Inr (r, h', s') \<and> same_owner h h' \<and> fh_private h' = fh_private h \<and> dev_ok cg b s' M"
    using write_safe [of cg b s M k h buf mnt n] by (auto simp: devfs_ops_def)
next
  fix stf s M rel mnt st
  assume "op_stat (devfs_ops b) = Some stf" "dev_ok cg b s M" "terminated rel"
  then show "\<exists>r st' s'. stf mnt rel st s = Inr (r, st', s') \<and> dev_ok cg b s' M"
    using stat_safe [of cg b s M rel mnt st] by (fastforce simp: devfs_ops_def)
qed (auto simp: devfs_ops_def devfs_mount_def devfs_unmount_def)

subsection \<open>Disks as files\<close>

text \<open>Reading a disk keeps the whole system in order, whatever driver it has.\<close>

lemma driver_restrict:
  assumes "block_driver content good bs rdb" "\<And>s. good' s \<Longrightarrow> good s"
  shows "block_driver content good' bs rdb"
  using assms unfolding block_driver_def by blast

lemma disk_read:
  assumes bd: "block_driver content good bs rdb" and dev: "block_driver.device content good bs rdb x e"
    and same: "\<And>e e'. ramdisks e' = ramdisks e \<Longrightarrow> iso_memory e' = iso_memory e \<Longrightarrow> iso_size e' = iso_size e \<Longrightarrow> good e' = good e \<and> content e' = content e"
    and "dev_ok cg b e M" "unat n \<le> length buf" "length buf < 2 ^ 64" "unat pos < 2 ^ 63"
  shows "\<exists>r buf' pos' e'. bdev_read (bd_al b) (Some x) (Some buf) n pos e = Inr (r, Some buf', pos', e') \<and> dev_ok cg b e' M \<and>
    length buf' = length buf \<and> (0 < unat n \<longrightarrow> sint r \<le> uint n) \<and> unat pos' < 2 ^ 63"
proof -
  let ?g = "\<lambda>e. good e \<and> dev_ok cg b e M"
  have bd': "block_driver content ?g bs rdb" by (rule driver_restrict [OF bd]) simp
  have dev': "block_driver.device content ?g bs rdb x e"
    using dev assms(4) by (simp add: block_driver.device_def [OF bd] block_driver.device_def [OF bd'])
  have al: "alloc_safe content ?g (bd_al b)"
    unfolding alloc_safe_def
  proof (intro conjI allI impI)
    fix n s r s' assume "?g s \<and> al_kmalloc (bd_al b) n s = (r, s')"
    then have s: "good s" "sys_ok cg b s M" "kmalloc_law cg b" "al_kmalloc (bd_al b) n s = (r, s')" by (simp_all add: dev_ok_def)
    then have k: "sys_ok cg b s' M" "ramdisks s' = ramdisks s" "iso_memory s' = iso_memory s" "iso_size s' = iso_size s"
        "\<And>p bs. r = Some (p, bs) \<Longrightarrow> length bs = unat n"
      unfolding kmalloc_law_def by blast+
    then show "good s'" "dev_ok cg b s' M" "content s' = content s" using same [OF k(2-4)] s by (simp_all add: dev_ok_def)
    show "length (snd x) = unat n" if "r = Some x" for x using k(5) that by (cases x) simp
  next
    fix p s assume "?g s"
    then have s: "good s" "sys_ok cg b s M" "kmalloc_law cg b" by (simp_all add: dev_ok_def)
    let ?s = "al_kfree (bd_al b) p s"
    have k: "sys_ok cg b ?s M" "ramdisks ?s = ramdisks s" "iso_memory ?s = iso_memory s" "iso_size ?s = iso_size s"
      using s unfolding kmalloc_law_def by blast+
    then show "good ?s" "dev_ok cg b ?s M" "content ?s = content s" using same [OF k(2-4)] s by (simp_all add: dev_ok_def)
  qed
  let ?C = "content e" and ?m = "min (unat n) (length (content e) - unat pos)"
  obtain e' where e': "block_driver.device content ?g bs rdb x e'"
      "bdev_read (bd_al b) (Some x) (Some buf) n pos e = Inr (of_nat ?m, Some (blit buf 0 (take ?m (drop (unat pos) ?C))), pos + of_nat ?m, e') \<or>
       (\<exists>m < ?m. bdev_read (bd_al b) (Some x) (Some buf) n pos e = Inr (scast (- ENOMEM), Some (blit buf 0 (take m (drop (unat pos) ?C))), pos, e'))"
    using block_driver.read_file [OF bd' al dev' assms(7,5,6)] unfolding Let_def by blast
  have ok: "dev_ok cg b e' M" using e'(1) by (simp add: block_driver.device_def [OF bd'])
  have L: "length ?C < 2 ^ 63" using block_driver.content_size [OF bd'] dev' by (simp add: block_driver.device_def [OF bd'])
  have len: "length (blit buf 0 (take k (drop (unat pos) ?C))) = length buf" if "k \<le> ?m" for k
    using that assms(5) by (subst blit_length) auto
  define m where "m = ?m"
  have mn: "m \<le> unat n" by (simp add: m_def)
  have m: "unat (of_nat m :: u64) = m" by (rule le_unat_uoi [OF mn])
  then have "(of_nat m :: u64) \<le> n" using mn by (simp add: word_le_nat_alt)
  then have "uint (of_nat m :: u64) \<le> uint n" by (simp only: word_le_def)
  then have r: "sint (of_nat m :: u64) \<le> uint n" by (rule order_trans [OF sint_le_uint])
  have "unat pos + m < 2 ^ 63" using L assms(7) unfolding m_def by (cases "length ?C \<le> unat pos") auto
  then have p: "unat (pos + of_nat m) < 2 ^ 63" using m by (simp add: unat_word_ariths)
  have z: "sint (scast (- ENOMEM) :: u64) \<le> 0" by (simp add: ENOMEM_def)
  have u: "0 \<le> uint n" by simp
  from e'(2) show ?thesis
    unfolding m_def [symmetric] using ok len [unfolded m_def [symmetric]] assms(7) r p order_trans [OF z u] by (elim disjE exE conjE) auto
qed

text \<open>The private data of a device file is the number of its disk, or null.\<close>

definition disk_id :: "'h board \<Rightarrow> nat \<Rightarrow> u64" where
  "disk_id b i = (if i < length (bd_devs b) \<and> i < 2 ^ 32 \<and> bused (bd_devs b ! i) then of_nat (Suc i) else 0)"

lemma disk_at_id:
  "disk_at (bd_devs b) (Some (disk_id b i)) =
     Inr (if i < length (bd_devs b) \<and> i < 2 ^ 32 \<and> bused (bd_devs b ! i) then Some (bd_devs b ! i) else None)"
proof -
  have "uint (of_nat (Suc i) :: u64) = int i + 1" "(of_nat (Suc i) :: u64) \<noteq> 0" if "i < 2 ^ 32"
  proof -
    have u: "unat (of_nat (Suc i) :: u64) = Suc i" using that by (intro unat_of_nat_eq) simp
    then show "uint (of_nat (Suc i) :: u64) = int i + 1" by (metis uint_nat of_nat_Suc add.commute)
    show "(of_nat (Suc i) :: u64) \<noteq> 0" using u by auto
  qed
  then show ?thesis by (auto simp: disk_at_def disk_id_def rd_nat)
qed

interpretation disk: device_file "dev_ok cg b" "disk_id b i" "Some (bdev_vfs_read (bd_al b) (bd_devs b))" "Some (bdev_vfs_write (bd_devs b))" None None for cg b i
proof
  fix rf' s M and n pos :: u64 and buf :: "u8 list"
  assume a: "Some (bdev_vfs_read (bd_al b) (bd_devs b)) = Some rf'" "dev_ok cg b s M" "unat n \<le> length buf" "length buf < 2 ^ 64" "unat pos < 2 ^ 63"
  let ?x = "bd_devs b ! i"
  have "\<exists>x buf' pos' s'. bdev_vfs_read (bd_al b) (bd_devs b) (Some (disk_id b i)) buf n pos s = Inr (x, buf', pos', s') \<and> dev_ok cg b s' M \<and>
      length buf' = length buf \<and> (0 < unat n \<longrightarrow> sint x \<le> uint n) \<and> unat pos' < 2 ^ 63"
  proof (cases "i < length (bd_devs b) \<and> i < 2 ^ 32 \<and> bused ?x")
    case False
    have "sint (scast (- EINVAL) :: u64) \<le> uint n" using order_trans [of "sint (scast (- EINVAL) :: u64)" 0 "uint n"] by (simp add: EINVAL_def)
    then show ?thesis using False a by (auto simp: bdev_vfs_read_def disk_at_id bdev_read_def)
  next
    case True
    then have "disk_ok s ?x" using a(2) by (auto simp: dev_ok_def sys_ok_def)
    then have "\<exists>r buf' pos' e'. bdev_read (bd_al b) (Some ?x) (Some buf) n pos s = Inr (r, Some buf', pos', e') \<and> dev_ok cg b e' M \<and>
        length buf' = length buf \<and> (0 < unat n \<longrightarrow> sint r \<le> uint n) \<and> unat pos' < 2 ^ 63"
      unfolding disk_ok_def
      by (elim disjE exE conjE)
        (rule disk_read [OF rdk.block_driver_axioms _ _ a(2-5)] disk_read [OF iso.block_driver_axioms _ _ a(2-5)],
          assumption, simp add: ramdisk_good_def iso_good_def ramdisk_content_def iso_content_def)+
    then show ?thesis using True by (auto simp: bdev_vfs_read_def disk_at_id)
  qed
  with a(1) show "\<exists>x buf' pos' s'. rf' (Some (disk_id b i)) buf n pos s = Inr (x, buf', pos', s') \<and> dev_ok cg b s' M \<and> length buf' = length buf \<and>
      (0 < unat n \<longrightarrow> sint x \<le> uint n) \<and> unat pos' < 2 ^ 63 \<and> (Some (bdev_vfs_write (bd_devs b)) = None \<and> unat pos \<le> MAX_FILE_SIZE \<longrightarrow> unat pos' \<le> MAX_FILE_SIZE)"
    by simp
next
  fix wf' s M and n pos :: u64 and buf :: "u8 list"
  assume a: "Some (bdev_vfs_write (bd_devs b)) = Some wf'" "dev_ok cg b s M" "unat n \<le> length buf" "unat pos < 2 ^ 63"
  let ?x = "bd_devs b ! i"
  have "\<exists>x s'. bdev_vfs_write (bd_devs b) (Some (disk_id b i)) buf n pos s = Inr (x, pos, s') \<and> dev_ok cg b s' M"
  proof (cases "i < length (bd_devs b) \<and> i < 2 ^ 32 \<and> bused ?x")
    case False
    then show ?thesis using a by (auto simp: bdev_vfs_write_def disk_at_id bdev_write_def)
  next
    case True
    then have "disk_ok s ?x" using a(2) by (auto simp: dev_ok_def sys_ok_def)
    then have "\<exists>x. bdev_write (Some ?x) buf n s = Inr (x, s)"
      unfolding disk_ok_def
    proof (elim disjE exE conjE)
      fix r assume "ops ?x = ramdisk_ops" "rdk.device r (private_data ?x) ?x s"
      then show ?thesis using ramdisk_write_ignored [of ?x s r] by (auto simp: rdk.device_def ramdisk_good_def)
    qed (simp add: bdev_write_def cdrom_ops_def cdrom_write_blocks_impl_def)
    then show ?thesis using True a(2) by (auto simp: bdev_vfs_write_def disk_at_id)
  qed
  with a(1,4) show "\<exists>x pos' s'. wf' (Some (disk_id b i)) buf n pos s = Inr (x, pos', s') \<and> dev_ok cg b s' M \<and> unat pos' < 2 ^ 63"
    by auto
qed simp_all

subsection \<open>A running system\<close>

text \<open>
  The system of the example: no timer, no disk, one block of memory for the handles, and the tables of the device file system
  as they are before \<open>devfs_init\<close>.
\<close>

definition small_board :: "unit board" where
  "small_board = \<lparr>bd_al = \<lparr>al_kmalloc = \<lambda>n e. (if dblocks (other e) 4096 = None then Some (4096, replicate (unat n) 0) else None, e), al_kfree = \<lambda>p e. e\<rparr>,
     bd_devs = block_init, bd_seed = 7\<rparr>"

definition small_sys :: "unit sys" where
  "small_sys = \<lparr>ramdisks = Map.empty, iso_memory = None, iso_size = 0, other =
     \<lparr>devices = replicate MAX_DEVICES \<lparr>dv_name = replicate 64 0, dv_read = None, dv_write = None, dv_data = 0, dv_used = False\<rparr>,
      dblocks = Map.empty, rng = blank_rng, rng_seeded = False, tty_out = [], clk = \<lparr>hw = (), rtc_hw_initialized = False\<rparr>, ttable = no_timers\<rparr>\<rparr>"

lemma no_timers_law: "clock_law (\<lambda>_. True) no_timers"
proof -
  have m: "memset (replicate 128 0) 0 0 128 = Inr (replicate 128 (0 :: u8))" using memset_eq [of 0 128 "replicate 128 (0 :: u8)" 0] by simp
  have t: "terminated timer_not_initialized" "length timer_not_initialized \<le> 128" by (simp_all add: timer_not_initialized_def terminated_def)
  let ?l = "length (cstr timer_not_initialized)"
  have l: "?l < 128" using cstr_length [OF t(1)] t(2) by simp
  let ?b = "take ?l timer_not_initialized @ drop ?l (replicate 128 (0 :: u8))"
  have c: "memcpy (replicate 128 0) 0 timer_not_initialized ?l = Inr ?b"
    using memcpy_eq [of ?l timer_not_initialized 0 "replicate 128 0"] l cstr_length [OF t(1)] by simp
  have lb: "length ?b = 128" using l cstr_length [OF t(1)] by simp
  then have "put_message timer_not_initialized (replicate 128 0) 128 = Inr (?b[?l := 0])"
    using c l strlen_eq [OF t(1)] wr_nat [of ?l ?b 0] by (simp add: put_message_def Let_def)
  moreover have "terminated (?b[?l := 0])" using l lb by (auto simp: terminated_def set_update_memI)
  ultimately show ?thesis using m lb by (simp add: clock_law_def timer_get_readable_def no_timers_def)
qed

lemma small_ok: "dev_ok (\<lambda>_. True) small_board small_sys {#}"
  unfolding dev_ok_def
proof
  show "sys_ok (\<lambda>_. True) small_board small_sys {#}"
    by (simp add: sys_ok_def small_sys_def devices_ok_def blocks_ok_def rng_shape_def blank_rng_def no_timers_law small_board_def block_init_def zero_device_def)
  show "kmalloc_law (\<lambda>_. True) small_board"
    by (auto simp: kmalloc_law_def small_board_def split: if_splits)
qed

definition null_path :: "u8 list" where
  "null_path = [47, 100, 101, 118, 47, 110, 117, 108, 108, 0]"

theorem vfs_safe_witness:
  "\<exists>v0 v1 v2 v3. vfs_init_tables (vfs_bss small_sys) = Inr v0 \<and>
     vfs_do (Register_Filesystem devfs_name (devfs_ops small_board) 6) v0 = Inr v1 \<and>
     vfs_do (Mount_Fs devfs_name dev_dir None 0 0) v1 = Inr v2 \<and> vfs_do (Open null_path VFS_READ) v2 = Inr v3 \<and>
     (\<exists>v4. vfs_do (Readfd 3 [1, 2] 2) v3 = Inr v4) \<and> distinct (map h_fd (filter h_used (handles v3)))"
proof -
  let ?ok = "dev_ok (\<lambda>_. True) small_board"
  note s = vfs_safe [where ok = ?ok and s = small_sys, OF small_ok]
  have str: "terminated devfs_name" "terminated dev_dir" "terminated null_path" "length (cstr null_path) < MAX_FILENAME"
    by (simp_all add: devfs_name_def dev_dir_def null_path_def terminated_def cstr_def MAX_FILENAME_def)
  obtain v0 where v0: "vfs_init_tables (vfs_bss small_sys) = Inr v0" using vfs_init_safe [where ok = ?ok and s = small_sys, OF small_ok] by blast
  then have r0: "vfs_reach ?ok small_sys v0" by (rule vfs_boot)
  have c0: "call_ok ?ok (Register_Filesystem devfs_name (devfs_ops small_board) 6) v0" using str(1) by (simp add: devfs.vfs_driver_axioms)
  obtain v1 where v1: "vfs_do (Register_Filesystem devfs_name (devfs_ops small_board) 6) v0 = Inr v1" using s [OF r0 c0] by blast
  note r1 = vfs_step [OF r0 c0 v1]
  have c1: "call_ok ?ok (Mount_Fs devfs_name dev_dir None 0 0) v1" using str(1,2) by simp
  obtain v2 where v2: "vfs_do (Mount_Fs devfs_name dev_dir None 0 0) v1 = Inr v2" using s [OF r1 c1] by blast
  note r2 = vfs_step [OF r1 c1 v2]
  have c2: "call_ok ?ok (Open null_path VFS_READ) v2" using str(3,4) by simp
  obtain v3 where v3: "vfs_do (Open null_path VFS_READ) v2 = Inr v3" using s [OF r2 c2] by blast
  note r3 = vfs_step [OF r2 c2 v3]
  have c3: "call_ok ?ok (Readfd 3 [1, 2] 2) v3" by simp
  from s [OF r3 c3] v0 v1 v2 v3 show ?thesis by blast
qed
end
