(* ===== verification/Spec2Isabelle.thy ===== *)
theory Spec2Isabelle
  imports Nvm_Properties Bitmap Work_Queue_Smp Kstd Inode Dirent Block Cpu_Pool Chacha Rtc Timer Vfs_Plain Devfs_Safe
begin

text \<open>
  A verification library for the NovariaOS kernel (\<open>src/core\<close>, \<open>src/include/core\<close>).

  \<^bold>\<open>The program.\<close>  NovariaOS is a C kernel for x86-64 that runs its user programs as byte code: the virtual machine NVM has a table of
  32 processes, each with a stack, local variables, a heap and a list of capabilities; a timer tick gives the next runnable process a slice of 5000
  instructions, and system calls reach the files, the message queue, the console and the ports.  Below it lie the
  virtual file system with its mounted file systems and device files, the block devices, the memory allocator, the work queues of the CPUs,
  the clock, a stream cipher with a random generator, and a string library that all of them use.

  \<^bold>\<open>How the code is translated.\<close>  Every C function is a HOL function of the same name on the values it reads and writes.  Fixed-width integers are words, arrays are
  lists of their declared length, pointers into static tables are indices, a pointer that may be null is an option.  A function whose C code may leave an
  array, follow a null pointer or trap returns \<open>fault + 'a\<close> (\<open>res\<close> in \<open>Prelude\<close>): every array access is checked by \<open>rd\<close> and \<open>wr\<close>, so a theorem that
  a call returns \<open>Inr\<close> says that the C code does none of this.  Loops are recursive functions with a termination proof; the two loops that need not
  end (a CPU that waits for a lock, a work queue that is refilled while it runs) are \<open>partial_function (option)\<close>, with \<open>None\<close> for not returning.  There is no
  fuel: the number 5000 of \<open>run_slice\<close> and the timeout of \<open>wait_loop\<close> are constants of the code.  Log and console lines are left out where nothing depends on them.

  \<^bold>\<open>The theories.\<close>
  \<^item> \<open>Prelude\<close>: words, faults, arrays, the weakest-precondition rules for \<open>res\<close>, bytes and integers.
  \<^item> \<open>Nvm_State\<close>, \<open>Caps\<close> (\<open>nvm.h\<close>, \<open>caps.c\<close>): the record of a process with its invariant \<open>wf_proc\<close>, and the capability list, which is a set with a wildcard.
  \<^item> \<open>Nvm_Instructions\<close> (\<open>nvm/instructions/*.c\<close>): one definition for each of the 43 handlers; the locale \<open>nvm_handler\<close> is their contract and is interpreted for every handler that works on its process alone.
    \<open>Nvm_Alu\<close> refines the stack instructions to integers on a list; \<open>Nvm_Control\<close> has calls, frames, heap accesses and the exact states that fault.
  \<^item> \<open>Nvm_World\<close>, \<open>Nvm_Syscalls\<close>, \<open>Nvm_Machine\<close> (\<open>nvm.c\<close>, \<open>syscalls.c\<close>): the process table, the cases of \<open>syscall_handler\<close> with their contract \<open>nvm_syscall\<close>, the interpreter and the scheduler.
    \<open>Nvm_Properties\<close>: safety of instructions, the invariant of all runs, isolation, capabilities, messages, process creation, round robin.
  \<^item> \<open>Spinlock\<close>, \<open>Work_Queue\<close>, \<open>Work_Queue_Smp\<close> (\<open>spinlock.c\<close>, \<open>work_queue.c\<close>): the rings as bounded queues (locale \<open>bounded_queue\<close>), and the interleaving of the steps of any number of CPUs.
  \<^item> \<open>Kstd\<close> (\<open>kstd.c\<close>): strings and memory, against lists of characters; the word-wise \<open>memmove\<close>.
  \<^item> \<open>Bitmap\<close>, \<open>Inode\<close>, \<open>Dirent\<close> (\<open>bitmap.c\<close>, \<open>inode.c\<close>, \<open>dirent.c\<close>): what the file systems share; the locale \<open>bit_array\<close> is interpreted for these bitmaps and for those of the allocator.
  \<^item> \<open>Block\<close> (\<open>block.c\<close>, \<open>block_dev_vfs.c\<close>, \<open>ramdisk.c\<close>, \<open>cdrom.c\<close>): the registry, and reading a device as a file for any driver with the contract \<open>block_driver\<close>, interpreted for both drivers.
  \<^item> \<open>Buddy\<close>, \<open>Buddy_Run\<close>, \<open>Cpu_Pool\<close> (\<open>mem/buddy.c\<close>, \<open>mem/cpu_pool.c\<close>): the allocator from its initialisation through any sequence of calls; the pools in front of any \<open>block_source\<close>, interpreted for the buddy allocator.
  \<^item> \<open>Chacha\<close> (\<open>chacha20.c\<close>, \<open>chacha20_rng.c\<close>): cipher and generator against a reference block function on words, through the locales \<open>keystream\<close> and \<open>byte_stream\<close>; where the code departs from ChaCha20.
  \<^item> \<open>Rtc\<close>, \<open>Timer\<close> (\<open>rtc.c\<close>, \<open>timer.c\<close>): registers, calendar and the printed time.
  \<^item> \<open>Vfs\<close> (\<open>vfs.c\<close>): files, descriptors, mounts and routing.  \<open>Vfs_Inv\<close> holds the invariant and the contracts \<open>vfs_driver\<close> and \<open>device_file\<close>; \<open>Vfs_Path\<close>, \<open>Vfs_Safe\<close>, \<open>Vfs_Calls\<close> and \<open>Vfs_Run\<close> show that every call
    keeps it; \<open>Vfs_System\<close> has the runs from \<open>vfs_init\<close> on, \<open>Vfs_Plain\<close> the refinement of plain files to byte sequences.  \<open>Devfs\<close> (\<open>devfs.c\<close>) is the device file system; \<open>Devfs_Safe\<close> interprets the
    two contracts for it and for block devices.

  \<^bold>\<open>What is assumed.\<close>
  \<^item> \<open>services\<close> (\<open>Nvm_World\<close>) are the calls of the virtual machine into allocator, files, console and ports, as functions on a state of their own.  The allocator may fail at any call.  Several
    theorems assume \<open>short_files\<close>: a file that \<open>SPAWN\<close> loads is shorter than the 32-bit size of a program.
  \<^item> Heaps, programs and file buffers of processes are values, hence disjoint blocks.
  \<^item> \<open>LOAD_ABS\<close> and \<open>STORE_ABS\<close> work on \<open>memory\<close>, the part of the address space that holds none of the data of the machine; the code lets a process with the driver capability
    address the rest as well, and such an access is a fault here.  The theorems on safety exclude it, those on isolation and capabilities are about instructions and ticks that return.
  \<^item> The functions in a work queue are an argument; stores of one CPU reach memory in program order.
  \<^item> An allocator given to block and device files (\<open>alloc_safe\<close>, \<open>kmalloc_law\<close>) returns fresh buffers of the requested size or fails, and leaves the disk images alone.
  \<^item> The clock chip (\<open>cmos\<close>) returns the register selected and stands still between the calls of a theorem.
  \<^item> Callers of the virtual file system keep \<open>call_ok\<close>, which names what the code does not check.

  \<^bold>\<open>What is not modelled.\<close>  The slab allocator and \<open>kmalloc\<close> (\<open>slab.c\<close>, \<open>allocator.c\<close>) thread their lists through the memory they hand out; \<open>procfs.c\<close> formats counters; \<open>fat32.c\<close>, \<open>ext2.c\<close> and \<open>iso9660.c\<close>
  are disk formats behind the contract \<open>vfs_driver\<close>; \<open>elf/parser.c\<close> and \<open>kmodules.c\<close> relocate and call machine code; shell, terminal, graphics and keyboard are input and output; \<open>idt.c\<close>, \<open>apic.c\<close>, \<open>smp.c\<close>,
  \<open>cpuid.c\<close>, \<open>entropy.c\<close>, \<open>boot.asm\<close> and the AHCI, NVMe, IDE and serial drivers are instructions and registers of the hardware.
\<close>

end
